(* ===== verification/Prelude.thy ===== *)
theory Prelude
  imports Main "HOL-Library.Word"
begin

text \<open>
  What every component of the development shares: the result type of kernel and user-library
  code that may panic or go to sleep, the search loops over fixed tables, the circular-index
  arithmetic of the ring buffers, and the C integer types as words.

  A C function that may stop the machine (\<open>panic\<close>, \<open>exit\<close>) or block (\<open>sleep\<close>) is a
  function into \<open>kfault + 'a\<close>: \<open>Inl (Panic msg)\<close>, \<open>Inl (Sleeps chan)\<close> or \<open>Inr result\<close>.
  Sequential composition is \<open>rbind\<close>, which stops at the first fault as the C code does.
\<close>

section \<open>Words and results\<close>

type_synonym u8 = "8 word"
type_synonym u16 = "16 word"
type_synonym u32 = "32 word"
type_synonym u64 = "64 word"

datatype kfault = Panic string | Sleeps string

type_synonym 'a res = "kfault + 'a"

definition rbind :: "'e + 'a \<Rightarrow> ('a \<Rightarrow> 'e + 'b) \<Rightarrow> 'e + 'b" where
  "rbind r f = (case r of Inl e \<Rightarrow> Inl e | Inr x \<Rightarrow> f x)"

definition panic_unless :: "bool \<Rightarrow> string \<Rightarrow> 'a res \<Rightarrow> 'a res" where
  "panic_unless b msg r = (if b then r else Inl (Panic msg))"

text \<open>The loop \<open>for (i = 0; i < n; i++) s = f(i, s)\<close> whose body may fault.\<close>

fun for_res :: "(nat \<Rightarrow> 's \<Rightarrow> 's res) \<Rightarrow> nat list \<Rightarrow> 's \<Rightarrow> 's res" where
  "for_res f [] s = Inr s"
| "for_res f (i # is) s = rbind (f i s) (for_res f is)"

named_theorems kspec \<open>effects of the operations on the abstract view of the state\<close>

section \<open>Sequencing lemmas\<close>

lemma rbind_Inl [simp]: "rbind (Inl e) f = Inl e"
  by (simp add: rbind_def)

lemma rbind_Inr [simp]: "rbind (Inr x) f = f x"
  by (simp add: rbind_def)

lemma rbind_eq_Inr [simp]: "rbind r f = Inr y \<longleftrightarrow> (\<exists>x. r = Inr x \<and> f x = Inr y)"
  by (cases r) auto

lemma rbind_eq_Inl: "rbind r f = Inl e \<longleftrightarrow> r = Inl e \<or> (\<exists>x. r = Inr x \<and> f x = Inl e)"
  by (cases r) auto

lemma rbind_assoc: "rbind (rbind r f) g = rbind r (\<lambda>x. rbind (f x) g)"
  by (cases r) auto

lemma rbind_cong [fundef_cong]:
  "r = r' \<Longrightarrow> (\<And>x. r' = Inr x \<Longrightarrow> f x = g x) \<Longrightarrow> rbind r f = rbind r' g"
  by (cases r') auto

lemma panic_unless_Inr [simp]: "panic_unless b msg r = Inr y \<longleftrightarrow> b \<and> r = Inr y"
  by (simp add: panic_unless_def)

lemma panic_unless_True [simp]: "panic_unless True msg r = r"
  by (simp add: panic_unless_def)

lemma for_res_append: "for_res f (xs @ ys) s = rbind (for_res f xs s) (for_res f ys)"
proof (induction xs arbitrary: s)
  case (Cons x xs)
  have "for_res f (xs @ ys) = (\<lambda>s. rbind (for_res f xs s) (for_res f ys))"
    by (rule ext) (rule Cons.IH)
  then show ?case by (simp add: rbind_assoc)
qed simp

text \<open>An invariant of the body is an invariant of the loop.\<close>

lemma for_res_invariant:
  assumes "for_res f is s = Inr t" and "P s"
    and "\<And>i u v. i \<in> set is \<Longrightarrow> P u \<Longrightarrow> f i u = Inr v \<Longrightarrow> P v"
  shows "P t"
  using assms by (induction "is" arbitrary: s) auto

section \<open>Search loops over a table\<close>

lemma find_append:
  "List.find P (xs @ ys) = (case List.find P xs of None \<Rightarrow> List.find P ys | Some x \<Rightarrow> Some x)"
  by (induction xs) auto

lemma find_upt_Some:
  "List.find P [0..<n] = Some i \<longleftrightarrow> i < n \<and> P i \<and> (\<forall>j<i. \<not> P j)"
proof (induction n arbitrary: i)
  case (Suc n)
  show ?case
  proof (cases "List.find P [0..<n]")
    case None
    then have "\<forall>j<n. \<not> P j" by (auto simp: find_None_iff)
    with None show ?thesis by (auto simp: find_append less_Suc_eq)
  next
    case (Some k)
    with Suc.IH have "k < n \<and> P k \<and> (\<forall>j<k. \<not> P j)" by blast
    with Some show ?thesis
      by (auto simp: find_append less_Suc_eq) (metis linorder_neqE_nat)+
  qed
qed simp

lemma find_upt_None: "List.find P [0..<n] = None \<longleftrightarrow> (\<forall>j<n. \<not> P j)"
  by (auto simp: find_None_iff)

lemma find_SomeD: "List.find P xs = Some x \<Longrightarrow> x \<in> set xs \<and> P x"
  by (induction xs) (auto split: if_splits)

lemma find_NoneD: "List.find P xs = None \<Longrightarrow> x \<in> set xs \<Longrightarrow> \<not> P x"
  by (induction xs) (auto split: if_splits)

section \<open>Lists\<close>

lemma remove1_notin [simp]: "x \<notin> set xs \<Longrightarrow> remove1 x xs = xs"
  by (induction xs) auto

lemma length_filter_upt_update:
  assumes "i < n" and "\<not> P i"
  shows "length (filter (P(i := True)) [0..<n]) = Suc (length (filter P [0..<n]))"
proof -
  have split: "[0..<n] = [0..<i] @ i # [Suc i..<n]"
    using assms(1) by (metis upt_conv_Cons upt_add_eq_append le0 less_imp_le_nat le_add_diff_inverse)
  have "filter (P(i := True)) [0..<i] = filter P [0..<i]"
    by (rule filter_cong) auto
  moreover have "filter (P(i := True)) [Suc i..<n] = filter P [Suc i..<n]"
    by (rule filter_cong) auto
  ultimately show ?thesis
    using assms(2) by (subst (1 2) split) simp
qed

end
