(* ===== verification/CString.thy ===== *)
theory CString
  imports Prelude
begin

text \<open>
  The byte-string library of the kernel (mp4/kernel/string.c) and the variant of it that user
  programs link (mp4/user/ulib.c), over a flat memory \<open>nat \<Rightarrow> u8\<close>: an address is a \<open>nat\<close>,
  \<open>*p = c\<close> is \<open>m(p := c)\<close>. A function that writes returns the new memory; the returned
  pointer is always the first argument and is left out. Loops counted by \<open>n\<close> recurse on
  \<open>n\<close>; loops that run to a NUL byte are partial functions, \<open>None\<close> meaning that the loop runs
  off the end of memory without finding one.
\<close>

section \<open>Kernel string.c\<close>

type_synonym cmem = "nat \<Rightarrow> u8"

primrec memset_loop :: "nat \<Rightarrow> cmem \<Rightarrow> nat \<Rightarrow> u8 \<Rightarrow> nat \<Rightarrow> cmem" where
  "memset_loop 0 m cdst c i = m"
| "memset_loop (Suc k) m cdst c i = memset_loop k (m(cdst + i := c)) cdst c (Suc i)"

definition memset :: "cmem \<Rightarrow> nat \<Rightarrow> u32 \<Rightarrow> nat \<Rightarrow> cmem" where
  "memset m dst c n = memset_loop n m dst (ucast c) 0"

primrec memcmp :: "cmem \<Rightarrow> nat \<Rightarrow> nat \<Rightarrow> nat \<Rightarrow> int" where
  "memcmp m s1 s2 0 = 0"
| "memcmp m s1 s2 (Suc n) =
     (if m s1 \<noteq> m s2 then uint (m s1) - uint (m s2) else memcmp m (s1 + 1) (s2 + 1) n)"

primrec copy_up :: "nat \<Rightarrow> cmem \<Rightarrow> nat \<Rightarrow> nat \<Rightarrow> cmem" where
  \<comment> \<open>\<open>while (n-- > 0) *d++ = *s++\<close>\<close>
  "copy_up 0 m d s = m"
| "copy_up (Suc n) m d s = copy_up n (m(d := m s)) (d + 1) (s + 1)"

primrec copy_down :: "nat \<Rightarrow> cmem \<Rightarrow> nat \<Rightarrow> nat \<Rightarrow> cmem" where
  \<comment> \<open>\<open>while (n-- > 0) *--d = *--s\<close>\<close>
  "copy_down 0 m d s = m"
| "copy_down (Suc n) m d s = copy_down n (m(d - 1 := m (s - 1))) (d - 1) (s - 1)"

definition memmove :: "cmem \<Rightarrow> nat \<Rightarrow> nat \<Rightarrow> nat \<Rightarrow> cmem" where
  "memmove m dst src n =
     (if src < dst \<and> src + n > dst then copy_down n m (dst + n) (src + n)
      else copy_up n m dst src)"

definition memcpy :: "cmem \<Rightarrow> nat \<Rightarrow> nat \<Rightarrow> nat \<Rightarrow> cmem" where
  "memcpy m dst src n = memmove m dst src n"

primrec strncmp :: "cmem \<Rightarrow> nat \<Rightarrow> nat \<Rightarrow> nat \<Rightarrow> int" where
  "strncmp m p q 0 = 0"
| "strncmp m p q (Suc n) =
     (if m p \<noteq> 0 \<and> m p = m q then strncmp m (p + 1) (q + 1) n
      else uint (m p) - uint (m q))"

primrec strncpy_copy :: "nat \<Rightarrow> cmem \<Rightarrow> nat \<Rightarrow> nat \<Rightarrow> cmem \<times> nat \<times> nat" where
  \<comment> \<open>\<open>while (n-- > 0 && (*s++ = *t++) != 0);\<close> returns memory, \<open>s\<close> and what is left of \<open>n\<close>\<close>
  "strncpy_copy 0 m s t = (m, s, 0)"
| "strncpy_copy (Suc n) m s t =
     (if m t \<noteq> 0 then strncpy_copy n (m(s := m t)) (s + 1) (t + 1)
      else (m(s := m t), s + 1, n))"

primrec strncpy_pad :: "nat \<Rightarrow> cmem \<Rightarrow> nat \<Rightarrow> cmem" where
  \<comment> \<open>\<open>while (n-- > 0) *s++ = 0;\<close>\<close>
  "strncpy_pad 0 m s = m"
| "strncpy_pad (Suc n) m s = strncpy_pad n (m(s := 0)) (s + 1)"

definition strncpy :: "cmem \<Rightarrow> nat \<Rightarrow> nat \<Rightarrow> int \<Rightarrow> cmem" where
  "strncpy m s t n = (case strncpy_copy (nat n) m s t of (m', s', n') \<Rightarrow> strncpy_pad n' m' s')"

primrec safestrcpy_loop :: "nat \<Rightarrow> cmem \<Rightarrow> nat \<Rightarrow> nat \<Rightarrow> cmem" where
  \<comment> \<open>\<open>while (--n > 0 && (*s++ = *t++) != 0); *s = 0;\<close> the first argument is \<open>n - 1\<close>\<close>
  "safestrcpy_loop 0 m s t = m(s := 0)"
| "safestrcpy_loop (Suc k) m s t =
     (if m t \<noteq> 0 then safestrcpy_loop k (m(s := m t)) (s + 1) (t + 1)
      else (m(s := m t))(s + 1 := 0))"

definition safestrcpy :: "cmem \<Rightarrow> nat \<Rightarrow> nat \<Rightarrow> int \<Rightarrow> cmem" where
  "safestrcpy m s t n = (if n \<le> 0 then m else safestrcpy_loop (nat n - 1) m s t)"

partial_function (option) strlen_from :: "cmem \<Rightarrow> nat \<Rightarrow> nat \<Rightarrow> nat option" where
  [code]: "strlen_from m s n = (if m (s + n) = 0 then Some n else strlen_from m s (n + 1))"

definition strlen :: "cmem \<Rightarrow> nat \<Rightarrow> nat option" where
  "strlen m s = strlen_from m s 0"

section \<open>User ulib.c\<close>

definition ulib_memmove :: "cmem \<Rightarrow> nat \<Rightarrow> nat \<Rightarrow> int \<Rightarrow> cmem" where
  "ulib_memmove m vdst vsrc n =
     (if vsrc > vdst then copy_up (nat n) m vdst vsrc
      else copy_down (nat n) m (vdst + nat n) (vsrc + nat n))"

primrec ulib_memcmp :: "cmem \<Rightarrow> nat \<Rightarrow> nat \<Rightarrow> nat \<Rightarrow> int" where
  \<comment> \<open>through \<open>const char *\<close>: bytes compare unsigned, as \<open>char\<close> is unsigned on RISC-V\<close>
  "ulib_memcmp m p1 p2 0 = 0"
| "ulib_memcmp m p1 p2 (Suc n) =
     (if m p1 \<noteq> m p2 then uint (m p1) - uint (m p2) else ulib_memcmp m (p1 + 1) (p2 + 1) n)"

partial_function (option) strcpy_from :: "cmem \<Rightarrow> nat \<Rightarrow> nat \<Rightarrow> cmem option" where
  [code]: "strcpy_from m s t =
     (let m' = m(s := m t) in if m t \<noteq> 0 then strcpy_from m' (s + 1) (t + 1) else Some m')"

definition strcpy :: "cmem \<Rightarrow> nat \<Rightarrow> nat \<Rightarrow> cmem option" where
  "strcpy m s t = strcpy_from m s t"

partial_function (option) strcmp :: "cmem \<Rightarrow> nat \<Rightarrow> nat \<Rightarrow> int option" where
  [code]: "strcmp m p q =
     (if m p \<noteq> 0 \<and> m p = m q then strcmp m (p + 1) (q + 1)
      else Some (uint (m p) - uint (m q)))"

partial_function (option) strchr :: "cmem \<Rightarrow> nat \<Rightarrow> u8 \<Rightarrow> nat option" where
  \<comment> \<open>\<open>Some 0\<close> is the null pointer\<close>
  [code]: "strchr m s c =
     (if m s = 0 then Some 0 else if m s = c then Some s else strchr m (s + 1) c)"

partial_function (option) atoi_from :: "cmem \<Rightarrow> nat \<Rightarrow> u32 \<Rightarrow> u32 option" where
  [code]: "atoi_from m s n =
     (if 48 \<le> m s \<and> m s \<le> 57 then atoi_from m (s + 1) (n * 10 + ucast (m s) - 48) else Some n)"

definition atoi :: "cmem \<Rightarrow> nat \<Rightarrow> u32 option" where
  "atoi m s = atoi_from m s 0"

section \<open>What the operations compute\<close>

text \<open>A NUL-terminated string \<open>xs\<close> stored at \<open>s\<close>.\<close>

definition cstr :: "cmem \<Rightarrow> nat \<Rightarrow> u8 list \<Rightarrow> bool" where
  "cstr m s xs \<longleftrightarrow> (\<forall>i < length xs. m (s + i) = xs ! i) \<and> m (s + length xs) = 0 \<and> 0 \<notin> set xs"

lemma cstr_Nil: "cstr m s [] \<longleftrightarrow> m s = 0"
  by (simp add: cstr_def)

lemma cstr_Cons: "cstr m s (x # xs) \<longleftrightarrow> m s = x \<and> x \<noteq> 0 \<and> cstr m (s + 1) xs"
  by (auto simp: cstr_def less_Suc_eq_0_disj nth_Cons split: nat.splits)

lemmas cstr_simps = cstr_Nil cstr_Cons

lemma memset_loop_eq:
  "memset_loop n m d c i = (\<lambda>a. if d + i \<le> a \<and> a < d + i + n then c else m a)"
  by (induction n arbitrary: m i) (auto simp: fun_eq_iff)

lemma memset_eq: "memset m d c n = (\<lambda>a. if d \<le> a \<and> a < d + n then ucast c else m a)"
  by (simp add: memset_def memset_loop_eq)

lemma copy_up_eq:
  "d \<le> s \<or> s + n \<le> d \<Longrightarrow>
   copy_up n m d s = (\<lambda>a. if d \<le> a \<and> a < d + n then m (s + (a - d)) else m a)"
proof (induction n arbitrary: m d s)
  case (Suc n)
  then have "d + 1 \<le> s + 1 \<or> s + 1 + n \<le> d + 1" by auto
  note IH = Suc.IH [OF this, of "m(d := m s)"]
  show ?case
  proof (rule ext)
    fix a
    have "s + 1 + (a - (d + 1)) = s + (a - d)" if "d + 1 \<le> a" using that by arith
    then show "copy_up (Suc n) m d s a = (if d \<le> a \<and> a < d + Suc n then m (s + (a - d)) else m a)"
      unfolding copy_up.simps IH using Suc.prems by (cases "a = d") auto
  qed
qed (auto simp: fun_eq_iff)

lemma copy_down_eq:
  "s \<le> d \<or> d + n \<le> s \<Longrightarrow>
   copy_down n m (d + n) (s + n) = (\<lambda>a. if d \<le> a \<and> a < d + n then m (s + (a - d)) else m a)"
proof (induction n arbitrary: m)
  case (Suc n)
  then have "s \<le> d \<or> d + n \<le> s" by auto
  note IH = Suc.IH [OF this, of "m(d + n := m (s + n))"]
  have "copy_down (Suc n) m (d + Suc n) (s + Suc n)
        = copy_down n (m(d + n := m (s + n))) (d + n) (s + n)" by simp
  then show ?case
    unfolding IH using Suc.prems by (auto simp: fun_eq_iff less_Suc_eq)
qed (auto simp: fun_eq_iff)

lemma memmove_eq:
  "memmove m d s n = (\<lambda>a. if d \<le> a \<and> a < d + n then m (s + (a - d)) else m a)"
  by (auto simp: memmove_def copy_up_eq copy_down_eq)

lemma ulib_memmove_eq: "ulib_memmove m d s (int n) = memmove m d s n"
  by (auto simp: ulib_memmove_def memmove_eq copy_up_eq copy_down_eq)

lemma memcmp_zero: "memcmp m s1 s2 n = 0 \<longleftrightarrow> (\<forall>i<n. m (s1 + i) = m (s2 + i))"
proof (induction n arbitrary: s1 s2)
  case (Suc n)
  have "(\<forall>i<Suc n. m (s1 + i) = m (s2 + i)) \<longleftrightarrow>
        m s1 = m s2 \<and> (\<forall>i<n. m (s1 + 1 + i) = m (s2 + 1 + i))"
    by (auto simp: less_Suc_eq_0_disj)
  with Suc.IH show ?case by (simp add: word_uint_eq_iff)
qed simp

lemma ulib_memcmp_eq: "ulib_memcmp m p q n = memcmp m p q n"
  by (induction n arbitrary: p q) auto

lemma strlen_from_cstr: "cstr m (s + n) xs \<Longrightarrow> strlen_from m s n = Some (n + length xs)"
proof (induction xs arbitrary: n)
  case Nil
  then show ?case by (subst strlen_from.simps) (simp add: cstr_simps)
next
  case (Cons x xs)
  then have "m (s + n) \<noteq> 0" "cstr m (s + (n + 1)) xs" by (auto simp: cstr_simps add.assoc)
  with Cons.IH [of "n + 1"] show ?case by (subst strlen_from.simps) simp
qed

lemma strlen_cstr: "cstr m s xs \<Longrightarrow> strlen m s = Some (length xs)"
  using strlen_from_cstr [of m s 0 xs] by (simp add: strlen_def)

text \<open>The string held by a field of \<open>n\<close> bytes at \<open>s\<close>, NUL-terminated only if it is shorter.\<close>

primrec field :: "cmem \<Rightarrow> nat \<Rightarrow> nat \<Rightarrow> u8 list" where
  "field m s 0 = []"
| "field m s (Suc n) = (if m s = 0 then [] else m s # field m (s + 1) n)"

lemma strncmp_field: "strncmp m p q n = 0 \<longleftrightarrow> field m p n = field m q n"
proof (induction n arbitrary: p q)
  case (Suc n)
  then show ?case by (auto simp: word_uint_eq_iff)
qed simp

lemma field_cong: "(\<And>i. i < n \<Longrightarrow> m (s + i) = m' (s' + i)) \<Longrightarrow> field m s n = field m' s' n"
proof (induction n arbitrary: s s')
  case (Suc n)
  have "m s = m' s'" using Suc.prems [of 0] by simp
  moreover have "field m (s + 1) n = field m' (s' + 1) n"
  proof (rule Suc.IH)
    fix i assume "i < n"
    then show "m (s + 1 + i) = m' (s' + 1 + i)" using Suc.prems [of "Suc i"] by simp
  qed
  ultimately show ?case by simp
qed simp

lemma length_field: "length (field m s n) \<le> n"
  by (induction n arbitrary: s) auto

lemma field_nonzero: "0 \<notin> set (field m s n)"
  by (induction n arbitrary: s) auto

lemma cstr_field: "cstr m s xs \<Longrightarrow> length xs < n \<Longrightarrow> field m s n = xs"
proof (induction xs arbitrary: s n)
  case Nil
  then show ?case by (cases n) (auto simp: cstr_simps)
next
  case (Cons x xs)
  then show ?case by (cases n) (auto simp: cstr_simps)
qed

lemma strncpy_pad_eq: "strncpy_pad n m s = (\<lambda>a. if s \<le> a \<and> a < s + n then 0 else m a)"
  by (induction n arbitrary: m s) (auto simp: fun_eq_iff)

lemma strncpy_copy_field:
  assumes "s + n \<le> t \<or> t + n \<le> s"
  shows "case strncpy_copy n m s t of (m', s', n') \<Rightarrow>
           s' + n' = s + n \<and> s \<le> s' \<and> (\<forall>a. a < s \<or> s + n \<le> a \<longrightarrow> m' a = m a) \<and>
           field (strncpy_pad n' m' s') s n = field m t n"
  using assms
proof (induction n arbitrary: m s t)
  case (Suc n)
  define m1 where "m1 = m(s := m t)"
  have same: "m1 s = m t" "\<And>a. a \<noteq> s \<Longrightarrow> m1 a = m a" by (simp_all add: m1_def)
  show ?case
  proof (cases "m t = 0")
    case True
    then show ?thesis using same by (auto simp: strncpy_pad_eq m1_def)
  next
    case False
    have dis: "s + 1 + n \<le> t + 1 \<or> t + 1 + n \<le> s + 1" using Suc.prems by auto
    obtain m' s' n' where r: "strncpy_copy n m1 (s + 1) (t + 1) = (m', s', n')"
      by (metis prod_cases3)
    note IH = Suc.IH [OF dis, of m1, unfolded r, simplified]
    have fld: "field m1 (t + 1) n = field m (t + 1) n"
      by (rule field_cong) (use Suc.prems in \<open>auto simp: m1_def\<close>)
    have "m' s = m t" using IH same by simp
    then have "strncpy_pad n' m' s' s = m t" using IH by (simp add: strncpy_pad_eq)
    moreover have "strncpy_copy (Suc n) m s t = (m', s', n')"
      using False r by (simp add: m1_def)
    ultimately show ?thesis using IH False fld same by auto
  qed
qed simp

lemma strncpy_field:
  assumes "s + n \<le> t \<or> t + n \<le> s"
  shows "field (strncpy m s t (int n)) s n = field m t n"
    and "a < s \<or> s + n \<le> a \<Longrightarrow> strncpy m s t (int n) a = m a"
  using strncpy_copy_field [OF assms, of m]
  by (auto simp: strncpy_def strncpy_pad_eq split: prod.splits)

lemma safestrcpy_loop_spec:
  assumes "s + Suc k \<le> t \<or> t + k \<le> s"
  shows "cstr (safestrcpy_loop k m s t) s (field m t k) \<and>
         (\<forall>a. a < s \<or> s + k < a \<longrightarrow> safestrcpy_loop k m s t a = m a)"
  using assms
proof (induction k arbitrary: m s t)
  case (Suc k)
  show ?case
  proof (cases "m t = 0")
    case False
    define m1 where "m1 = m(s := m t)"
    have "s + 1 + Suc k \<le> t + 1 \<or> t + 1 + k \<le> s + 1" using Suc.prems by auto
    note IH = Suc.IH [OF this, of m1]
    have fld: "field m1 (t + 1) k = field m (t + 1) k"
      by (rule field_cong) (use Suc.prems in \<open>auto simp: m1_def\<close>)
    have same: "m1 s = m t" "\<And>a. a \<noteq> s \<Longrightarrow> m1 a = m a" by (simp_all add: m1_def)
    have "safestrcpy_loop (Suc k) m s t = safestrcpy_loop k m1 (s + 1) (t + 1)"
      using False by (simp add: m1_def)
    moreover have "safestrcpy_loop k m1 (s + 1) (t + 1) s = m t"
      using IH same by simp
    ultimately show ?thesis using IH False fld same by (simp add: cstr_simps)
  qed (auto simp: cstr_simps)
qed (auto simp: cstr_simps)

section \<open>Properties\<close>

text \<open>C40: \<open>memmove\<close> copies correctly in both directions when the regions overlap, and the user library's version, which
  chooses the direction by another test, computes the same function.\<close>

theorem memmove_overlap:
  "memmove m d s n = (\<lambda>a. if d \<le> a \<and> a < d + n then m (s + (a - d)) else m a) \<and>
   ulib_memmove m d s (int n) = memmove m d s n"
  by (simp add: ulib_memmove_eq) (rule memmove_eq)

text \<open>A name stored with \<open>strncpy\<close> in a fixed field compares equal to the original with \<open>strncmp\<close>
  even when it fills the field and has no terminating NUL, and nothing outside the field changes.\<close>

theorem strncpy_then_strncmp:
  assumes "s + n \<le> t \<or> t + n \<le> s"
  shows "strncmp (strncpy m s t (int n)) s t n = 0 \<and>
    (\<forall>a. a < s \<or> s + n \<le> a \<longrightarrow> strncpy m s t (int n) a = m a)"
proof -
  have "field (strncpy m s t (int n)) t n = field m t n"
    by (rule field_cong) (use assms strncpy_field(2) [OF assms] in auto)
  then show ?thesis using strncpy_field [OF assms] by (simp add: strncmp_field)
qed

theorem strncpy_then_strncmp_witness:
  "let m = (\<lambda>_. 0)(20 := 97, 21 := 98) in
   strncmp (strncpy m 0 20 (int 14)) 0 20 14 = 0 \<and>
    (\<forall>a. a < 0 \<or> 0 + 14 \<le> a \<longrightarrow> strncpy m 0 20 (int 14) a = m a)"
  unfolding Let_def by (rule strncpy_then_strncmp) simp

end
