(* ===== verification/CList.thy ===== *)
theory CList
  imports Prelude
begin

text \<open>
  The circular doubly-linked lists of mp2/kernel/list.h at the level of the pointers. A
  \<open>struct list_head\<close> is an address; the heap gives its \<open>next\<close> and \<open>prev\<close> fields. Every
  operation performs the loads and stores of the C code in their order. The lemmas show that on
  a well-formed list the operations are cons, append, removal, concatenation and splitting of
  the list of its nodes; the slab allocator and the schedulers are modelled over such lists.
\<close>

section \<open>The heap and the operations\<close>

record lheap =
  nxt :: "nat \<Rightarrow> nat"
  prv :: "nat \<Rightarrow> nat"

definition set_nxt :: "nat \<Rightarrow> nat \<Rightarrow> lheap \<Rightarrow> lheap" where
  "set_nxt p v h = h\<lparr>nxt := (nxt h)(p := v)\<rparr>"

definition set_prv :: "nat \<Rightarrow> nat \<Rightarrow> lheap \<Rightarrow> lheap" where
  "set_prv p v h = h\<lparr>prv := (prv h)(p := v)\<rparr>"

definition INIT_LIST_HEAD :: "nat \<Rightarrow> lheap \<Rightarrow> lheap" where
  "INIT_LIST_HEAD head h = set_prv head head (set_nxt head head h)"

definition list_add :: "nat \<Rightarrow> nat \<Rightarrow> lheap \<Rightarrow> lheap" where
  "list_add node head h =
     (let next = nxt h head;
          h1 = set_prv next node h;
          h2 = set_nxt node next h1;
          h3 = set_prv node head h2
      in set_nxt head node h3)"

definition list_add_tail :: "nat \<Rightarrow> nat \<Rightarrow> lheap \<Rightarrow> lheap" where
  "list_add_tail node head h =
     (let prev = prv h head;
          h1 = set_nxt prev node h;
          h2 = set_nxt node head h1;
          h3 = set_prv node prev h2
      in set_prv head node h3)"

definition list_del :: "nat \<Rightarrow> lheap \<Rightarrow> lheap" where
  "list_del node h =
     (let next = nxt h node; prev = prv h node;
          h1 = set_prv next prev h
      in set_nxt prev next h1)"

definition list_del_init :: "nat \<Rightarrow> lheap \<Rightarrow> lheap" where
  "list_del_init node h = INIT_LIST_HEAD node (list_del node h)"

definition list_empty :: "nat \<Rightarrow> lheap \<Rightarrow> bool" where
  "list_empty head h \<longleftrightarrow> nxt h head = head"

definition list_is_singular :: "nat \<Rightarrow> lheap \<Rightarrow> bool" where
  "list_is_singular head h \<longleftrightarrow> \<not> list_empty head h \<and> prv h head = nxt h head"

definition list_splice :: "nat \<Rightarrow> nat \<Rightarrow> lheap \<Rightarrow> lheap" where
  "list_splice list head h =
     (let head_first = nxt h head; list_first = nxt h list; list_last = prv h list
      in if list_empty list h then h
         else
           let h1 = set_nxt head list_first h;
               h2 = set_prv list_first head h1;
               h3 = set_nxt list_last head_first h2
           in set_prv head_first list_last h3)"

definition list_splice_tail :: "nat \<Rightarrow> nat \<Rightarrow> lheap \<Rightarrow> lheap" where
  "list_splice_tail list head h =
     (let head_last = prv h head; list_first = nxt h list; list_last = prv h list
      in if list_empty list h then h
         else
           let h1 = set_prv head list_last h;
               h2 = set_nxt list_last head h1;
               h3 = set_prv list_first head_last h2
           in set_nxt head_last list_first h3)"

definition list_splice_init :: "nat \<Rightarrow> nat \<Rightarrow> lheap \<Rightarrow> lheap" where
  "list_splice_init list head h = INIT_LIST_HEAD list (list_splice list head h)"

definition list_splice_tail_init :: "nat \<Rightarrow> nat \<Rightarrow> lheap \<Rightarrow> lheap" where
  "list_splice_tail_init list head h = INIT_LIST_HEAD list (list_splice_tail list head h)"

definition list_cut_position :: "nat \<Rightarrow> nat \<Rightarrow> nat \<Rightarrow> lheap \<Rightarrow> lheap" where
  "list_cut_position head_to head_from node h =
     (let head_from_first = nxt h head_from
      in if list_empty head_from h then h
         else if head_from = node then INIT_LIST_HEAD head_to h
         else
           let h1 = set_nxt head_from (nxt h node) h;
               h2 = set_prv (nxt h1 head_from) head_from h1;
               h3 = set_prv head_to node h2;
               h4 = set_nxt node head_to h3;
               h5 = set_nxt head_to head_from_first h4
           in set_prv (nxt h5 head_to) head_to h5)"

definition list_move :: "nat \<Rightarrow> nat \<Rightarrow> lheap \<Rightarrow> lheap" where
  "list_move node head h = list_add node head (list_del node h)"

definition list_move_tail :: "nat \<Rightarrow> nat \<Rightarrow> lheap \<Rightarrow> lheap" where
  "list_move_tail node head h = list_add_tail node head (list_del node h)"

definition list_first_entry :: "nat \<Rightarrow> lheap \<Rightarrow> nat" where
  "list_first_entry head h = nxt h head"

definition list_last_entry :: "nat \<Rightarrow> lheap \<Rightarrow> nat" where
  "list_last_entry head h = prv h head"

partial_function (option) list_for_each :: "lheap \<Rightarrow> nat \<Rightarrow> nat \<Rightarrow> nat list option" where
  \<comment> \<open>the nodes a traversal from \<open>node\<close> visits; \<open>None\<close> when it never comes back to \<open>head\<close>\<close>
  [code]: "list_for_each h head node =
     (if node = head then Some []
      else Option.bind (list_for_each h head (nxt h node)) (\<lambda>ns. Some (node # ns)))"

text \<open>The user-space variant of mp3/xv6/user/list.h, whose \<open>list_del\<close> poisons the node.\<close>

definition LIST_POISON1 :: nat where "LIST_POISON1 = 0x00100100"
definition LIST_POISON2 :: nat where "LIST_POISON2 = 0x00200200"

definition list_add_between_mp3 :: "nat \<Rightarrow> nat \<Rightarrow> nat \<Rightarrow> lheap \<Rightarrow> lheap" where
  "list_add_between_mp3 new_entry prev next h =
     set_nxt prev new_entry (set_prv new_entry prev (set_nxt new_entry next (set_prv next new_entry h)))"

definition list_add_mp3 :: "nat \<Rightarrow> nat \<Rightarrow> lheap \<Rightarrow> lheap" where
  "list_add_mp3 new_entry head h = list_add_between_mp3 new_entry head (nxt h head) h"

definition list_add_tail_mp3 :: "nat \<Rightarrow> nat \<Rightarrow> lheap \<Rightarrow> lheap" where
  "list_add_tail_mp3 new_entry head h = list_add_between_mp3 new_entry (prv h head) head h"

definition list_del_between_mp3 :: "nat \<Rightarrow> nat \<Rightarrow> lheap \<Rightarrow> lheap" where
  "list_del_between_mp3 prev next h = set_nxt prev next (set_prv next prev h)"

definition list_del_mp3 :: "nat \<Rightarrow> lheap \<Rightarrow> lheap" where
  "list_del_mp3 entry h =
     set_prv entry LIST_POISON2 (set_nxt entry LIST_POISON1
       (list_del_between_mp3 (prv h entry) (nxt h entry) h))"

definition list_del_init_mp3 :: "nat \<Rightarrow> lheap \<Rightarrow> lheap" where
  "list_del_init_mp3 entry h =
     INIT_LIST_HEAD entry (list_del_between_mp3 (prv h entry) (nxt h entry) h)"

definition list_move_mp3 :: "nat \<Rightarrow> nat \<Rightarrow> lheap \<Rightarrow> lheap" where
  "list_move_mp3 list head h =
     list_add_mp3 list head (list_del_between_mp3 (prv h list) (nxt h list) h)"

definition list_move_tail_mp3 :: "nat \<Rightarrow> nat \<Rightarrow> lheap \<Rightarrow> lheap" where
  "list_move_tail_mp3 list head h =
     list_add_tail_mp3 list head (list_del_between_mp3 (prv h list) (nxt h list) h)"

section \<open>Well-formed lists\<close>

text \<open>\<open>links h xs\<close>: \<open>next\<close> leads from each node of \<open>xs\<close> to the following one and \<open>prev\<close> back.\<close>

fun links :: "lheap \<Rightarrow> nat list \<Rightarrow> bool" where
  "links h (x # y # zs) \<longleftrightarrow> nxt h x = y \<and> prv h y = x \<and> links h (y # zs)"
| "links h _ \<longleftrightarrow> True"

definition dlist :: "lheap \<Rightarrow> nat \<Rightarrow> nat list \<Rightarrow> bool" where
  "dlist h head xs \<longleftrightarrow> links h (head # xs @ [head]) \<and> distinct (head # xs)"

lemma nxt_set_nxt [simp]: "nxt (set_nxt p v h) = (nxt h)(p := v)"
  and prv_set_nxt [simp]: "prv (set_nxt p v h) = prv h"
  and nxt_set_prv [simp]: "nxt (set_prv p v h) = nxt h"
  and prv_set_prv [simp]: "prv (set_prv p v h) = (prv h)(p := v)"
  by (simp_all add: set_nxt_def set_prv_def)

lemma links_append:
  "xs \<noteq> [] \<Longrightarrow> ys \<noteq> [] \<Longrightarrow>
   links h (xs @ ys) \<longleftrightarrow>
   links h xs \<and> nxt h (last xs) = hd ys \<and> prv h (hd ys) = last xs \<and> links h ys"
  by (induction h xs rule: links.induct; cases ys) auto

lemma links_Cons: "ys \<noteq> [] \<Longrightarrow> links h (x # ys) \<longleftrightarrow> nxt h x = hd ys \<and> prv h (hd ys) = x \<and> links h ys"
  by (cases ys) auto

text \<open>A chain depends on the \<open>next\<close> of all but its last node and the \<open>prev\<close> of all but its first.\<close>

lemma links_frame:
  assumes "links h xs"
    and "\<And>a. a \<in> set (butlast xs) \<Longrightarrow> nxt h' a = nxt h a"
    and "\<And>a. a \<in> set (tl xs) \<Longrightarrow> prv h' a = prv h a"
  shows "links h' xs"
  using assms by (induction h xs rule: links.induct) auto

lemma in_butlast_notin: "distinct xs \<Longrightarrow> a \<in> set (butlast xs) \<Longrightarrow> a \<noteq> last xs"
  by (induction xs) (auto split: if_splits)

lemma in_tl_notin: "distinct xs \<Longrightarrow> a \<in> set (tl xs) \<Longrightarrow> a \<noteq> hd xs"
  by (cases xs) auto

lemma in_set_tlD: "a \<in> set (tl xs) \<Longrightarrow> a \<in> set xs"
  by (cases xs) auto

lemma hd_append_in: "hd (xs @ [y]) \<in> insert y (set xs)"
  by (cases xs) auto

lemma last_Cons_in: "last (y # xs) \<in> insert y (set xs)"
  by (cases xs rule: rev_cases) auto

lemma dlist_Nil: "dlist h head [] \<longleftrightarrow> nxt h head = head \<and> prv h head = head"
  by (auto simp: dlist_def)

lemma dlist_iff:
  "dlist h head xs \<longleftrightarrow>
   nxt h head = hd (xs @ [head]) \<and> prv h (hd (xs @ [head])) = head \<and> links h (xs @ [head]) \<and>
   distinct (head # xs)"
  unfolding dlist_def by (subst links_Cons) auto

lemma dlist_iff_snoc:
  "dlist h head xs \<longleftrightarrow>
   links h (head # xs) \<and> nxt h (last (head # xs)) = head \<and> prv h head = last (head # xs) \<and>
   distinct (head # xs)"
  unfolding dlist_def append_Cons [symmetric] by (subst links_append) auto

lemma dlist_split:
  "dlist h head (xs @ n # ys) \<longleftrightarrow>
   links h (head # xs) \<and> nxt h (last (head # xs)) = n \<and> prv h n = last (head # xs) \<and>
   nxt h n = hd (ys @ [head]) \<and> prv h (hd (ys @ [head])) = n \<and> links h (ys @ [head]) \<and>
   distinct (head # xs @ n # ys)"
proof -
  have "links h ((head # xs) @ (n # (ys @ [head]))) \<longleftrightarrow>
        links h (head # xs) \<and> nxt h (last (head # xs)) = n \<and> prv h n = last (head # xs) \<and>
        links h (n # (ys @ [head]))"
    by (subst links_append) simp_all
  then show ?thesis
    by (simp add: dlist_def links_Cons del: last.simps)
qed

lemma dlist_empty: "dlist h head xs \<Longrightarrow> list_empty head h \<longleftrightarrow> xs = []"
  by (cases xs) (auto simp: list_empty_def dlist_iff)

lemma dlist_frame:
  assumes "dlist h head xs"
    and "\<And>a. a \<in> insert head (set xs) \<Longrightarrow> nxt h' a = nxt h a \<and> prv h' a = prv h a"
  shows "dlist h' head xs"
  using assms links_frame [of h "head # xs @ [head]" h']
  by (auto simp: dlist_def butlast_append split: if_splits)

section \<open>The operations on well-formed lists\<close>

lemma INIT_LIST_HEAD_dlist: "dlist (INIT_LIST_HEAD head h) head []"
  by (simp add: INIT_LIST_HEAD_def dlist_def)

lemma list_add_dlist:
  assumes "dlist h head xs" and "node \<notin> set (head # xs)"
  shows "dlist (list_add node head h) head (node # xs)"
proof -
  let ?h' = "list_add node head h"
  have d: "distinct (xs @ [head])" and f: "nxt h head = hd (xs @ [head])"
    and l: "links h (xs @ [head])"
    using assms by (auto simp: dlist_iff)
  have "links ?h' (xs @ [head])"
    by (rule links_frame [OF l])
      (use assms(2) d f in_tl_notin [OF d] in \<open>auto simp: list_add_def Let_def dest: in_set_tlD\<close>)
  moreover have "hd (xs @ [head]) \<noteq> node" using assms(2) by (cases xs) auto
  ultimately show ?thesis
    using f assms by (auto simp: dlist_iff links_Cons list_add_def Let_def)
qed

lemma list_add_tail_dlist:
  assumes "dlist h head xs" and "node \<notin> set (head # xs)"
  shows "dlist (list_add_tail node head h) head (xs @ [node])"
proof -
  let ?h' = "list_add_tail node head h"
  have d: "distinct (head # xs)" and f: "prv h head = last (head # xs)" and l: "links h (head # xs)"
    using assms by (auto simp: dlist_iff_snoc)
  have "links ?h' (head # xs)"
    by (rule links_frame [OF l])
      (use assms(2) d f in_butlast_notin [OF d] in
        \<open>auto simp: list_add_tail_def Let_def dest: in_set_butlastD split: if_splits\<close>)
  moreover have "last (head # xs) \<noteq> node" using assms(2) by (cases xs rule: rev_cases) auto
  ultimately show ?thesis
    using f assms d by (auto simp: dlist_split [of _ _ _ _ "[]"] list_add_tail_def Let_def)
qed

lemma list_del_dlist:
  assumes "dlist h head (xs @ n # ys)"
  shows "dlist (list_del n h) head (xs @ ys)"
proof -
  let ?h' = "list_del n h" and ?p = "last (head # xs)" and ?q = "hd (ys @ [head])"
  have d: "distinct (head # xs @ n # ys)" and p: "prv h n = ?p" and q: "nxt h n = ?q"
    and l: "links h (head # xs)" "links h (ys @ [head])"
    using assms by (auto simp: dlist_split)
  have h': "nxt ?h' = (nxt h)(?p := ?q)" "prv ?h' = (prv h)(?q := ?p)"
    using p q by (simp_all add: list_del_def Let_def)
  have d1: "distinct (head # xs)" and d2: "distinct (ys @ [head])" using d by auto
  have "links ?h' (head # xs)"
    by (rule links_frame [OF l(1)])
      (use d hd_append_in [of ys head] in_butlast_notin [OF d1] in
        \<open>auto simp del: last.simps simp: h' dest: in_set_butlastD split: if_splits\<close>)
  moreover have "links ?h' (ys @ [head])"
    by (rule links_frame [OF l(2)])
      (use d last_Cons_in [of head xs] in_tl_notin [OF d2] in
        \<open>auto simp del: last.simps simp: h' dest: in_set_tlD\<close>)
  ultimately have "links ?h' ((head # xs) @ (ys @ [head]))"
    by (subst links_append) (simp_all del: last.simps add: h')
  then show ?thesis using d by (auto simp: dlist_def)
qed

lemma list_del_init_dlist:
  assumes "dlist h head (xs @ n # ys)"
  shows "dlist (list_del_init n h) head (xs @ ys)" and "dlist (list_del_init n h) n []"
proof -
  have "n \<notin> insert head (set (xs @ ys))" using assms by (auto simp: dlist_def)
  with list_del_dlist [OF assms] show "dlist (list_del_init n h) head (xs @ ys)"
    by (rule_tac dlist_frame) (auto simp: list_del_init_def INIT_LIST_HEAD_def)
qed (simp add: list_del_init_def INIT_LIST_HEAD_dlist)

lemma list_is_singular_dlist: "dlist h head xs \<Longrightarrow> list_is_singular head h \<longleftrightarrow> length xs = 1"
proof (cases xs)
  case (Cons x ys)
  assume d: "dlist h head xs"
  with Cons have "prv h head = last (x # ys)" and "nxt h head = x" and "distinct (x # ys)"
    by (auto simp: dlist_iff_snoc dlist_iff)
  moreover have "last (x # ys) = x \<longleftrightarrow> ys = []" if "distinct (x # ys)"
    using that by (cases ys rule: rev_cases) auto
  ultimately show ?thesis using d Cons by (auto simp: list_is_singular_def dlist_empty)
qed (auto simp: list_is_singular_def list_empty_def dlist_Nil)

lemma list_splice_dlist:
  assumes l: "dlist h list xs" and hd: "dlist h head ys"
    and disj: "set (list # xs) \<inter> set (head # ys) = {}"
  shows "dlist (list_splice list head h) head (xs @ ys)"
proof (cases "xs = []")
  case True
  with assms show ?thesis by (simp add: list_splice_def dlist_empty [OF l] Let_def)
next
  case False
  let ?h' = "list_splice list head h"
  have lx: "links h xs" "nxt h list = hd xs" "prv h list = last xs" "distinct xs" "list \<notin> set xs"
    using l False by (auto simp: dlist_iff_snoc links_Cons split: if_splits)
  have ly: "links h (ys @ [head])" "nxt h head = hd (ys @ [head])" "distinct (ys @ [head])"
    using hd by (auto simp: dlist_iff)
  have ne: "\<not> list_empty list h" using dlist_empty [OF l] False by simp
  have h': "nxt ?h' = (nxt h)(head := hd xs, last xs := hd (ys @ [head]))"
           "prv ?h' = (prv h)(hd xs := head, hd (ys @ [head]) := last xs)"
    using ne lx ly by (simp_all add: list_splice_def Let_def)
  have in_xs: "hd xs \<in> set xs" "last xs \<in> set xs" using False by auto
  have nin: "head \<notin> set xs" "hd (ys @ [head]) \<notin> set xs"
    using disj hd_append_in [of ys head] by auto
  have xs': "links ?h' xs"
    by (rule links_frame [OF lx(1)])
      (use nin in_butlast_notin [OF lx(4)] in_tl_notin [OF lx(4)] in
        \<open>auto simp: h' dest: in_set_tlD in_set_butlastD\<close>)
  have nt: "hd xs \<notin> set (tl (ys @ [head]))"
    using in_xs disj in_set_tlD [of "hd xs" "ys @ [head]"] by auto
  have "links ?h' (ys @ [head])"
    by (rule links_frame [OF ly(1)])
      (use nt in_xs disj ly(3) in_tl_notin [OF ly(3)] in
        \<open>auto simp: h' dest: in_set_tlD in_set_butlastD\<close>)
  moreover have "hd xs \<noteq> hd (ys @ [head])" using in_xs(1) nin(2) by metis
  ultimately have "links ?h' (head # xs @ ys @ [head])"
    using xs' False nin in_xs disj by (auto simp: links_Cons links_append h')
  then show ?thesis using l hd disj by (auto simp: dlist_def)
qed

lemma list_splice_tail_dlist:
  assumes l: "dlist h list xs" and hd: "dlist h head ys"
    and disj: "set (list # xs) \<inter> set (head # ys) = {}"
  shows "dlist (list_splice_tail list head h) head (ys @ xs)"
proof (cases "xs = []")
  case True
  with assms show ?thesis by (simp add: list_splice_tail_def dlist_empty [OF l] Let_def)
next
  case False
  let ?h' = "list_splice_tail list head h"
  have lx: "links h xs" "nxt h list = hd xs" "prv h list = last xs" "distinct xs" "list \<notin> set xs"
    using l False by (auto simp: dlist_iff_snoc links_Cons split: if_splits)
  have ly: "links h (head # ys)" "prv h head = last (head # ys)" "distinct (head # ys)"
    using hd by (auto simp: dlist_iff_snoc)
  have ne: "\<not> list_empty list h" using dlist_empty [OF l] False by simp
  have h': "nxt ?h' = (nxt h)(last xs := head, last (head # ys) := hd xs)"
           "prv ?h' = (prv h)(head := last xs, hd xs := last (head # ys))"
    using ne lx ly by (simp_all add: list_splice_tail_def Let_def)
  have in_xs: "hd xs \<in> set xs" "last xs \<in> set xs" using False by auto
  have nin: "head \<notin> set xs" "last (head # ys) \<notin> set xs"
    using disj last_Cons_in [of head ys] by auto
  have "links ?h' xs"
    by (rule links_frame [OF lx(1)])
      (use nin in_butlast_notin [OF lx(4)] in_tl_notin [OF lx(4)] in
        \<open>auto simp: h' simp del: last.simps dest: in_set_tlD in_set_butlastD\<close>)
  moreover have "links ?h' (head # ys)"
    by (rule links_frame [OF ly(1)])
      (use in_xs disj ly(3) in_butlast_notin [OF ly(3)] in
        \<open>auto simp: h' simp del: last.simps dest: in_set_tlD in_set_butlastD split: if_splits\<close>)
  ultimately have "links ?h' ((head # ys) @ xs)"
    using False nin in_xs by (subst links_append) (auto simp: h' simp del: last.simps)
  moreover have "nxt ?h' (last xs) = head" "prv ?h' head = last xs"
    using nin in_xs by (auto simp: h' simp del: last.simps)
  ultimately show ?thesis using False l hd disj by (auto simp: dlist_iff_snoc)
qed

lemma list_cut_position_dlist:
  assumes f: "dlist h head_from (xs @ n # ys)" and t: "head_to \<notin> set (head_from # xs @ n # ys)"
  shows "dlist (list_cut_position head_to head_from n h) head_to (xs @ [n])" (is ?to)
    and "dlist (list_cut_position head_to head_from n h) head_from ys" (is ?from)
proof -
  let ?h' = "list_cut_position head_to head_from n h" and ?q = "hd (ys @ [head_from])"
    and ?first = "hd (xs @ [n])"
  have d: "distinct (head_from # xs @ n # ys)" and q: "nxt h n = ?q" "prv h ?q = n"
    and lx: "links h (head_from # xs @ [n])" and ly: "links h (ys @ [head_from])"
    using f links_append [of "head_from # xs" "[n]" h] by (auto simp: dlist_split simp del: last.simps)
  have first: "nxt h head_from = ?first" using lx by (simp add: links_Cons)
  have lx': "links h (xs @ [n])" using lx by (simp add: links_Cons)
  have ne: "\<not> list_empty head_from h" "head_from \<noteq> n" using dlist_empty [OF f] d by auto
  have h': "nxt ?h' = (nxt h)(head_from := ?q, n := head_to, head_to := ?first)"
           "prv ?h' = (prv h)(?q := head_from, head_to := n, ?first := head_to)"
    using ne first q t by (auto simp: list_cut_position_def Let_def)
  have qin: "?q \<in> insert head_from (set ys)" and fin: "?first \<in> insert n (set xs)"
    by (rule hd_append_in)+
  have dx: "distinct (xs @ [n])" and dy: "distinct (ys @ [head_from])" using d by auto
  have nt: "?q \<notin> set (tl (xs @ [n]))"
    using d qin in_set_tlD [of ?q "xs @ [n]"] by auto
  have "links ?h' (xs @ [n])"
    by (rule links_frame [OF lx'])
      (use nt d t qin in_tl_notin [OF dx] in \<open>auto simp: h' dest: in_set_tlD\<close>)
  then have "links ?h' ((xs @ [n]) @ [head_to])"
    using d t qin fin by (subst links_append) (auto simp: h')
  moreover have "hd (xs @ [n, head_to]) = ?first" by (cases xs) auto
  ultimately show ?to
    using d t qin fin by (auto simp: dlist_iff h')
  have nt': "?first \<notin> set (tl (ys @ [head_from]))"
    using d fin in_set_tlD [of ?first "ys @ [head_from]"] by auto
  have "links ?h' (ys @ [head_from])"
    by (rule links_frame [OF ly])
      (use nt' d t fin in_tl_notin [OF dy] in \<open>auto simp: h' dest: in_set_tlD\<close>)
  then show ?from
    using d t qin fin by (auto simp: dlist_iff h')
qed

text \<open>The traversal macros visit exactly the nodes of the list and stop.\<close>

lemma list_for_each_links:
  "links h (xs @ [head]) \<Longrightarrow> head \<notin> set xs \<Longrightarrow> list_for_each h head (hd (xs @ [head])) = Some xs"
proof (induction xs)
  case Nil
  then show ?case by (subst list_for_each.simps) simp
next
  case (Cons x xs)
  then have "list_for_each h head (nxt h x) = Some xs" by (simp add: links_Cons)
  with Cons.prems show ?case by (subst list_for_each.simps) simp
qed

lemma list_for_each_dlist: "dlist h head xs \<Longrightarrow> list_for_each h head (nxt h head) = Some xs"
  by (auto simp: dlist_iff intro: list_for_each_links)

section \<open>The interface the list clients use\<close>

text \<open>
  What the slab allocator and the thread schedulers rely on: append at the tail, removal of a
  node, and that an operation on one list leaves every disjoint list alone.
\<close>

locale node_list =
  fixes add_tail :: "nat \<Rightarrow> nat \<Rightarrow> 'h \<Rightarrow> 'h"
    and del :: "nat \<Rightarrow> 'h \<Rightarrow> 'h"
    and is_empty :: "nat \<Rightarrow> 'h \<Rightarrow> bool"
    and rep :: "'h \<Rightarrow> nat \<Rightarrow> nat list \<Rightarrow> bool"
  assumes rep_distinct: "rep h head xs \<Longrightarrow> distinct (head # xs)"
    and rep_add_tail: "rep h head xs \<Longrightarrow> n \<notin> set (head # xs) \<Longrightarrow> rep (add_tail n head h) head (xs @ [n])"
    and rep_del: "rep h head (xs @ n # ys) \<Longrightarrow> rep (del n h) head (xs @ ys)"
    and rep_empty: "rep h head xs \<Longrightarrow> is_empty head h \<longleftrightarrow> xs = []"
    and frame_add_tail: "rep h a xs \<Longrightarrow> rep h head ys \<Longrightarrow> n \<notin> set (a # xs) \<Longrightarrow>
      set (a # xs) \<inter> set (head # ys) = {} \<Longrightarrow> rep (add_tail n head h) a xs"
    and frame_del: "rep h a xs \<Longrightarrow> rep h head ys \<Longrightarrow> n \<in> set ys \<Longrightarrow>
      set (a # xs) \<inter> set (head # ys) = {} \<Longrightarrow> rep (del n h) a xs"
begin

text \<open>\<open>list_del(n); list_add_tail(n, head)\<close> on its own list: the round-robin rotation.\<close>

lemma requeue:
  assumes "rep h head (xs @ n # ys)"
  shows "rep (add_tail n head (del n h)) head (xs @ ys @ [n])"
proof -
  from rep_distinct [OF assms] have "n \<notin> set (head # xs @ ys)" by auto
  from rep_add_tail [OF rep_del [OF assms] this] show ?thesis by simp
qed

lemma rotate_first: "rep h head (x # xs) \<Longrightarrow> rep (add_tail x head (del x h)) head (xs @ [x])"
  using requeue [of h head "[]" x xs] by simp

text \<open>\<open>list_del(n); list_add_tail(n, b)\<close> from one list to another.\<close>

lemma transfer:
  assumes a: "rep h a (xs @ n # ys)" and b: "rep h b zs"
    and disj: "set (a # xs @ n # ys) \<inter> set (b # zs) = {}"
  shows "rep (add_tail n b (del n h)) a (xs @ ys)" and "rep (add_tail n b (del n h)) b (zs @ [n])"
proof -
  have a': "rep (del n h) a (xs @ ys)" by (rule rep_del [OF a])
  have b': "rep (del n h) b zs" by (rule frame_del [OF b a]) (use disj in auto)
  have n: "n \<notin> set (a # xs @ ys)" using rep_distinct [OF a] by auto
  have "n \<notin> set (b # zs)" using disj by auto
  from rep_add_tail [OF b' this] show "rep (add_tail n b (del n h)) b (zs @ [n])" .
  have "set (a # xs @ ys) \<inter> set (b # zs) = {}" using disj by auto
  from frame_add_tail [OF a' b' n this] show "rep (add_tail n b (del n h)) a (xs @ ys)" .
qed

end

lemma list_add_tail_frame:
  assumes "dlist h a xs" and "dlist h head ys" and "n \<notin> set (a # xs)"
    and "set (a # xs) \<inter> set (head # ys) = {}"
  shows "dlist (list_add_tail n head h) a xs"
proof (rule dlist_frame [OF assms(1)])
  have "prv h head \<in> insert head (set ys)"
    using assms(2) last_Cons_in [of head ys] by (auto simp: dlist_iff_snoc simp del: last.simps)
  then show "nxt (list_add_tail n head h) b = nxt h b \<and> prv (list_add_tail n head h) b = prv h b"
    if "b \<in> insert a (set xs)" for b
    using that assms(3,4) by (auto simp: list_add_tail_def Let_def)
qed

lemma dlist_neighbours:
  assumes "dlist h head ys" and "n \<in> set ys"
  shows "prv h n \<in> insert head (set ys)" and "nxt h n \<in> insert head (set ys)"
proof -
  obtain us vs where "ys = us @ n # vs" using assms(2) by (auto simp: in_set_conv_decomp)
  with assms(1) have "prv h n = last (head # us)" "nxt h n = hd (vs @ [head])"
    and ys: "set us \<union> set vs \<subseteq> set ys" by (auto simp: dlist_split simp del: last.simps)
  then show "prv h n \<in> insert head (set ys)" "nxt h n \<in> insert head (set ys)"
    using last_Cons_in [of head us] hd_append_in [of vs head] by auto
qed

lemma list_del_frame:
  assumes "dlist h a xs" and "dlist h head ys" and "n \<in> set ys"
    and "set (a # xs) \<inter> set (head # ys) = {}"
  shows "dlist (list_del n h) a xs"
  by (rule dlist_frame [OF assms(1)])
    (use dlist_neighbours [OF assms(2,3)] assms(4) in \<open>auto simp: list_del_def Let_def\<close>)

interpretation kernel_list: node_list list_add_tail list_del list_empty dlist
proof unfold_locales
  show "dlist h head xs \<Longrightarrow> distinct (head # xs)" for h head xs by (simp add: dlist_def)
qed (rule list_add_tail_dlist list_del_dlist dlist_empty list_add_tail_frame list_del_frame;
  assumption)+

text \<open>The user-space variant offers the same interface: poisoning touches only the removed node.\<close>

lemma list_add_tail_mp3_eq:
  "prv h head \<noteq> node \<Longrightarrow> node \<noteq> head \<Longrightarrow> list_add_tail_mp3 node head h = list_add_tail node head h"
  by (simp add: list_add_tail_mp3_def list_add_between_mp3_def list_add_tail_def Let_def
      set_nxt_def set_prv_def fun_upd_twist)

lemma list_del_mp3_eq:
  "list_del_mp3 n h = set_prv n LIST_POISON2 (set_nxt n LIST_POISON1 (list_del n h))"
  by (simp add: list_del_mp3_def list_del_between_mp3_def list_del_def Let_def)

lemma dlist_poison:
  "dlist h head xs \<Longrightarrow> n \<notin> set (head # xs) \<Longrightarrow> dlist (set_prv n p (set_nxt n q h)) head xs"
  by (rule dlist_frame) auto

lemma dlist_prv_in: "dlist h head xs \<Longrightarrow> prv h head \<in> set (head # xs)"
  using last_Cons_in [of head xs] by (simp add: dlist_iff_snoc del: last.simps)

interpretation user_list: node_list list_add_tail_mp3 list_del_mp3 list_empty dlist
proof unfold_locales
  fix h head xs n ys a
  show "dlist h head xs \<Longrightarrow> distinct (head # xs)" by (simp add: dlist_def)
  show "dlist (list_add_tail_mp3 n head h) head (xs @ [n])"
    if "dlist h head xs" "n \<notin> set (head # xs)"
    using list_add_tail_dlist [OF that] dlist_prv_in [OF that(1)] that(2)
    by (subst list_add_tail_mp3_eq) auto
  show "dlist (list_del_mp3 n h) head (xs @ ys)" if d: "dlist h head (xs @ n # ys)"
    using list_del_dlist [OF d] d unfolding list_del_mp3_eq
    by (rule_tac dlist_poison) (auto simp: dlist_def)
  show "dlist h head xs \<Longrightarrow> list_empty head h = (xs = [])" by (rule dlist_empty)
  show "dlist (list_del_mp3 n h) a xs"
    if "dlist h a xs" "dlist h head ys" "n \<in> set ys" "set (a # xs) \<inter> set (head # ys) = {}"
    unfolding list_del_mp3_eq by (rule dlist_poison [OF list_del_frame [OF that]]) (use that in auto)
  show "dlist (list_add_tail_mp3 n head h) a xs"
    if "dlist h a xs" "dlist h head ys" "n \<notin> set (a # xs)" "set (a # xs) \<inter> set (head # ys) = {}"
    by (rule dlist_frame [OF that(1)])
      (use dlist_prv_in [OF that(2)] that(3,4) in
        \<open>auto simp: list_add_tail_mp3_def list_add_between_mp3_def\<close>)
qed

section \<open>Properties\<close>

text \<open>C39: Deleting a node (which poisons its pointers) and appending it again moves it to the tail and
  keeps every other node in order: the rotation of the run queue after a time slice.\<close>

theorem list_requeue_rotates:
  assumes "dlist h head (xs @ n # ys)"
  shows "dlist (list_add_tail_mp3 n head (list_del_mp3 n h)) head (xs @ ys @ [n])"
  by (rule user_list.requeue [OF assms])

theorem list_requeue_rotates_witness:
  "\<exists>h. dlist h 1 [2, 3, 4] \<and> dlist (list_add_tail_mp3 2 1 (list_del_mp3 2 h)) 1 [3, 4, 2]"
proof -
  let ?h = "list_add_tail 4 1 (list_add_tail 3 1 (list_add_tail 2 1 (INIT_LIST_HEAD 1 \<lparr>nxt = id, prv = id\<rparr>)))"
  have h: "dlist ?h 1 ([] @ 2 # [3, 4])"
    using list_add_tail_dlist [OF list_add_tail_dlist [OF list_add_tail_dlist [OF INIT_LIST_HEAD_dlist]], of 2 1 3 4] by simp
  from list_requeue_rotates [OF this] h show ?thesis by auto
qed

text \<open>\<open>list_cut_position\<close> splits a list after the given node without losing a node.\<close>

theorem list_cut_position_splits:
  assumes "dlist h head_from (xs @ n # ys)" and "head_to \<notin> set (head_from # xs @ n # ys)"
  shows "dlist (list_cut_position head_to head_from n h) head_to (xs @ [n]) \<and>
    dlist (list_cut_position head_to head_from n h) head_from ys"
  using list_cut_position_dlist [OF assms] by simp

theorem list_cut_position_splits_witness:
  "\<exists>h. dlist h 1 [2, 3, 4] \<and> dlist (list_cut_position 9 1 3 h) 9 [2, 3] \<and> dlist (list_cut_position 9 1 3 h) 1 [4]"
proof -
  let ?h = "list_add_tail 4 1 (list_add_tail 3 1 (list_add_tail 2 1 (INIT_LIST_HEAD 1 \<lparr>nxt = id, prv = id\<rparr>)))"
  have h: "dlist ?h 1 ([2] @ 3 # [4])"
    using list_add_tail_dlist [OF list_add_tail_dlist [OF list_add_tail_dlist [OF INIT_LIST_HEAD_dlist]], of 2 1 3 4] by simp
  from list_cut_position_splits [OF this, of 9] h show ?thesis by auto
qed

end
