(* ===== verification/Kalloc.thy ===== *)
theory Kalloc
  imports Prelude
begin

text \<open>
  The physical page allocator (mp2/kernel/kalloc.c). Memory is a map from the address of an
  8-byte cell to its value; the free list is threaded through the first cell of every free
  page, as \<open>struct run\<close> does. \<open>kend\<close> stands for the linker symbol \<open>end\<close> and is a parameter.
  Each operation runs under \<open>kmem.lock\<close> and is modelled as one step.
\<close>

section \<open>State and operations\<close>

type_synonym cells = "nat \<Rightarrow> nat"

record kmem =
  freelist :: nat
  cells :: cells

definition PGSIZE :: nat where "PGSIZE = 4096"
definition KERNBASE :: nat where "KERNBASE = 0x80000000"
definition PHYSTOP :: nat where "PHYSTOP = KERNBASE + 128 * 1024 * 1024"

definition PGROUNDUP :: "nat \<Rightarrow> nat" where
  "PGROUNDUP sz = (sz + PGSIZE - 1) div PGSIZE * PGSIZE"

text \<open>\<open>memset(pa, c, PGSIZE)\<close> seen through the cells: every cell of the page holds \<open>c\<close> eight times.\<close>

definition memset_page :: "nat \<Rightarrow> nat \<Rightarrow> cells \<Rightarrow> cells" where
  "memset_page pa c m = (\<lambda>a. if pa \<le> a \<and> a < pa + PGSIZE then c * 0x0101010101010101 else m a)"

definition kfree :: "nat \<Rightarrow> nat \<Rightarrow> ('a kmem_scheme) \<Rightarrow> ('a kmem_scheme) res" where
  "kfree kend pa s =
     (if pa mod PGSIZE \<noteq> 0 \<or> pa < kend \<or> pa \<ge> PHYSTOP then Inl (Panic ''kfree'')
      else
        let s1 = s\<lparr>cells := memset_page pa 1 (cells s)\<rparr>;
            s2 = s1\<lparr>cells := (cells s1)(pa := freelist s1)\<rparr>
        in Inr (s2\<lparr>freelist := pa\<rparr>))"

definition kalloc :: "('a kmem_scheme) \<Rightarrow> nat \<times> ('a kmem_scheme)" where
  "kalloc s =
     (let r = freelist s;
          s1 = (if r \<noteq> 0 then s\<lparr>freelist := cells s r\<rparr> else s);
          s2 = (if r \<noteq> 0 then s1\<lparr>cells := memset_page r 5 (cells s1)\<rparr> else s1)
      in (r, s2))"

function freerange_loop :: "nat \<Rightarrow> nat \<Rightarrow> nat \<Rightarrow> 'a kmem_scheme \<Rightarrow> 'a kmem_scheme res" where
  "freerange_loop kend p pa_end s =
     (if p + PGSIZE \<le> pa_end
      then rbind (kfree kend p s) (freerange_loop kend (p + PGSIZE) pa_end)
      else Inr s)"
  by pat_completeness auto
termination
  by (relation "measure (\<lambda>(kend, p, pa_end, s). pa_end - p)") (auto simp: PGSIZE_def)

declare freerange_loop.simps [simp del]

definition freerange :: "nat \<Rightarrow> nat \<Rightarrow> nat \<Rightarrow> 'a kmem_scheme \<Rightarrow> 'a kmem_scheme res" where
  "freerange kend pa_start pa_end s = freerange_loop kend (PGROUNDUP pa_start) pa_end s"

definition kinit :: "nat \<Rightarrow> 'a kmem_scheme \<Rightarrow> 'a kmem_scheme res" where
  "kinit kend s = freerange kend kend PHYSTOP s"

section \<open>Free lists threaded through memory\<close>

primrec chain :: "cells \<Rightarrow> nat \<Rightarrow> nat list \<Rightarrow> bool" where
  "chain m p [] \<longleftrightarrow> p = 0"
| "chain m p (x # xs) \<longleftrightarrow> p = x \<and> x \<noteq> 0 \<and> chain m (m x) xs"

definition valid_page :: "nat \<Rightarrow> nat \<Rightarrow> bool" where
  "valid_page kend p \<longleftrightarrow> p mod PGSIZE = 0 \<and> kend \<le> p \<and> p < PHYSTOP \<and> p \<noteq> 0"

definition free_pages :: "nat \<Rightarrow> ('a kmem_scheme) \<Rightarrow> nat list \<Rightarrow> bool" where
  "free_pages kend s ps \<longleftrightarrow>
     chain (cells s) (freelist s) ps \<and> distinct ps \<and> (\<forall>p \<in> set ps. valid_page kend p)"

lemma chain_zero [simp]: "chain m 0 ps \<longleftrightarrow> ps = []"
  by (cases ps) auto

lemma chain_frame: "chain m p ps \<Longrightarrow> (\<And>a. a \<in> set ps \<Longrightarrow> m' a = m a) \<Longrightarrow> chain m' p ps"
  by (induction ps arbitrary: p) auto

lemma chain_upd [simp]: "a \<notin> set ps \<Longrightarrow> chain (m(a := v)) p ps = chain m p ps"
  by (induction ps arbitrary: p) auto

lemma chain_push: "chain m p ps \<Longrightarrow> a \<notin> set ps \<Longrightarrow> a \<noteq> 0 \<Longrightarrow> chain (m(a := p)) a (a # ps)"
  by simp

lemma chain_unique: "chain m p ps \<Longrightarrow> chain m p qs \<Longrightarrow> ps = qs"
proof (induction ps arbitrary: p qs)
  case (Cons x xs)
  then show ?case by (cases qs) auto
qed (auto)

text \<open>Distinct pages do not overlap.\<close>

lemma page_disjoint:
  assumes "p mod PGSIZE = 0" and "q mod PGSIZE = 0" and "p \<le> a" "a < p + PGSIZE"
    and "q \<le> a" "a < q + PGSIZE"
  shows "p = q"
proof -
  have "a div PGSIZE = p div PGSIZE" "a div PGSIZE = q div PGSIZE"
    using assms by (auto simp: PGSIZE_def)
  then show ?thesis using assms(1,2) by (metis mult_div_mod_eq add.right_neutral)
qed

lemma page_mem_other:
  assumes "p mod PGSIZE = 0" and "q mod PGSIZE = 0" and "p \<noteq> q"
  shows "memset_page p c m q = m q"
proof -
  have "\<not> (p \<le> q \<and> q < p + PGSIZE)"
    using page_disjoint [of p q q] assms by (auto simp: PGSIZE_def)
  then show ?thesis unfolding memset_page_def by (simp only: if_False)
qed

section \<open>The interface of a page allocator\<close>

locale page_allocator =
  fixes alloc :: "'s \<Rightarrow> nat \<times> 's"
    and free :: "nat \<Rightarrow> 's \<Rightarrow> 's res"
    and pool :: "'s \<Rightarrow> nat list \<Rightarrow> bool"
    and page :: "nat \<Rightarrow> bool"
  assumes pool_distinct: "pool s ps \<Longrightarrow> distinct ps"
    and pool_pages: "pool s ps \<Longrightarrow> p \<in> set ps \<Longrightarrow> page p"
    and page_nonnull: "page p \<Longrightarrow> p \<noteq> 0"
    and alloc_Nil: "pool s [] \<Longrightarrow> alloc s = (0, s)"
    and alloc_Cons: "pool s (p # ps) \<Longrightarrow> fst (alloc s) = p \<and> pool (snd (alloc s)) ps"
    and free_page: "pool s ps \<Longrightarrow> page p \<Longrightarrow> p \<notin> set ps \<Longrightarrow> \<exists>s'. free p s = Inr s' \<and> pool s' (p # ps)"
begin

lemma alloc_null_iff: "pool s ps \<Longrightarrow> fst (alloc s) = 0 \<longleftrightarrow> ps = []"
proof (cases ps)
  case (Cons p qs)
  assume "pool s ps"
  with Cons have "fst (alloc s) = p" "p \<noteq> 0"
    using alloc_Cons pool_pages page_nonnull by (blast, metis list.set_intros(1))
  with Cons show ?thesis by simp
qed (simp add: alloc_Nil)

lemma alloc_fresh: "pool s ps \<Longrightarrow> fst (alloc s) \<noteq> 0 \<Longrightarrow>
   fst (alloc s) \<in> set ps \<and> pool (snd (alloc s)) (tl ps) \<and> fst (alloc s) \<notin> set (tl ps)"
proof (cases ps)
  case (Cons p qs)
  assume "pool s ps"
  with Cons have "fst (alloc s) = p" "pool (snd (alloc s)) qs" "distinct (p # qs)"
    using alloc_Cons pool_distinct by blast+
  with Cons show ?thesis by simp
qed (simp add: alloc_Nil)

lemma free_alloc:
  assumes "pool s ps" and "page p" and "p \<notin> set ps"
  shows "\<exists>s'. free p s = Inr s' \<and> fst (alloc s') = p \<and> pool (snd (alloc s')) ps"
  using free_page [OF assms] alloc_Cons by blast

end

lemma kalloc_pool:
  assumes "free_pages kend s (p # ps)"
  shows "fst (kalloc s) = p" and "free_pages kend (snd (kalloc s)) ps"
proof -
  have p: "freelist s = p" "p \<noteq> 0" "chain (cells s) (cells s p) ps" "valid_page kend p"
    using assms by (auto simp: free_pages_def)
  then show "fst (kalloc s) = p" by (simp add: kalloc_def Let_def)
  have "chain (memset_page p 5 (cells s)) (cells s p) ps"
    by (rule chain_frame [OF p(3)], rule page_mem_other)
      (use assms in \<open>auto simp: free_pages_def valid_page_def\<close>)
  with p assms show "free_pages kend (snd (kalloc s)) ps"
    by (simp add: kalloc_def Let_def free_pages_def)
qed

lemma kfree_pool:
  assumes "free_pages kend s ps" and "valid_page kend p" and "p \<notin> set ps"
  shows "\<exists>s'. kfree kend p s = Inr s' \<and> free_pages kend s' (p # ps) \<and> kmem.more s' = kmem.more s \<and>
           (\<forall>a. a < p \<or> p + PGSIZE \<le> a \<longrightarrow> cells s' a = cells s a)"
proof -
  have "chain (memset_page p 1 (cells s)) (freelist s) ps"
    by (rule chain_frame [of "cells s"])
      (use assms in \<open>auto simp: free_pages_def valid_page_def intro: page_mem_other\<close>)
  with assms show ?thesis
    by (auto simp: kfree_def Let_def free_pages_def valid_page_def memset_page_def PGSIZE_def)
qed

interpretation kalloc_mp2: page_allocator kalloc "kfree kend" "free_pages kend" "valid_page kend"
proof unfold_locales
  fix s :: "'a kmem_scheme" and ps p
  show "free_pages kend s ps \<Longrightarrow> distinct ps" by (simp add: free_pages_def)
  show "free_pages kend s ps \<Longrightarrow> p \<in> set ps \<Longrightarrow> valid_page kend p" by (simp add: free_pages_def)
  show "valid_page kend p \<Longrightarrow> p \<noteq> 0" by (simp add: valid_page_def)
  show "free_pages kend s [] \<Longrightarrow> kalloc s = (0, s)" by (simp add: free_pages_def kalloc_def)
  show "free_pages kend s (p # ps) \<Longrightarrow> fst (kalloc s) = p \<and> free_pages kend (snd (kalloc s)) ps"
    using kalloc_pool by blast
  show "free_pages kend s ps \<Longrightarrow> valid_page kend p \<Longrightarrow> p \<notin> set ps \<Longrightarrow>
        \<exists>s'. kfree kend p s = Inr s' \<and> free_pages kend s' (p # ps)"
    using kfree_pool by blast
qed

section \<open>Initialisation puts every page of the range on the list\<close>

lemma freerange_loop_pool:
  assumes "free_pages kend s ps" and "p mod PGSIZE = 0" and "kend \<le> p" and "0 < p"
    and "pa_end \<le> PHYSTOP" and "\<forall>q \<in> set ps. q < p"
  shows "\<exists>s'. freerange_loop kend p pa_end s = Inr s' \<and>
           free_pages kend s' (rev (map (\<lambda>i. p + i * PGSIZE) [0..<(pa_end - p) div PGSIZE]) @ ps)"
  using assms
proof (induction kend p pa_end s arbitrary: ps rule: freerange_loop.induct)
  case (1 kend p pa_end s)
  show ?case
  proof (cases "p + PGSIZE \<le> pa_end")
    case False
    then have "(pa_end - p) div PGSIZE = 0" by (simp add: PGSIZE_def)
    with False "1.prems" show ?thesis by (subst freerange_loop.simps) simp
  next
    case True
    then have "valid_page kend p" "p \<notin> set ps"
      using "1.prems" by (auto simp: valid_page_def PGSIZE_def)
    then obtain s1 where s1: "kfree kend p s = Inr s1" "free_pages kend s1 (p # ps)"
      using kfree_pool "1.prems"(1) by blast
    have "\<exists>s'. freerange_loop kend (p + PGSIZE) pa_end s1 = Inr s' \<and>
        free_pages kend s' (rev (map (\<lambda>i. p + PGSIZE + i * PGSIZE)
          [0..<(pa_end - (p + PGSIZE)) div PGSIZE]) @ (p # ps))"
      by (rule "1.IH" [OF True s1(1) s1(2)])
        (use "1.prems" in \<open>auto simp: PGSIZE_def\<close>)
    moreover have "(pa_end - p) div PGSIZE = Suc ((pa_end - (p + PGSIZE)) div PGSIZE)"
      using True by (simp add: PGSIZE_def le_div_geq)
    moreover have "map (\<lambda>i. p + i * PGSIZE) [0..<Suc n] = p # map (\<lambda>i. p + PGSIZE + i * PGSIZE) [0..<n]" for n
      by (simp add: map_upt_Suc del: upt_Suc)
    ultimately show ?thesis
      using True s1 by (subst freerange_loop.simps) (simp del: upt_Suc)
  qed
qed

lemma PGROUNDUP_ge: "a \<le> PGROUNDUP a"
  by (simp add: PGROUNDUP_def PGSIZE_def)

lemma PGROUNDUP_aligned: "PGROUNDUP a mod PGSIZE = 0"
  by (simp add: PGROUNDUP_def PGSIZE_def)

lemma PGROUNDUP_less: "PGROUNDUP a < a + PGSIZE"
  by (simp add: PGROUNDUP_def PGSIZE_def)

lemma kinit_pool:
  assumes "freelist s = 0" and "0 < kend"
  shows "\<exists>s' ps. kinit kend s = Inr s' \<and> free_pages kend s' ps \<and>
           length ps = (PHYSTOP - PGROUNDUP kend) div PGSIZE"
proof -
  have "free_pages kend s []" using assms by (simp add: free_pages_def)
  moreover have "kend \<le> PGROUNDUP kend" by (rule PGROUNDUP_ge)
  ultimately show ?thesis
    using freerange_loop_pool [of kend s "[]" "PGROUNDUP kend" PHYSTOP] PGROUNDUP_aligned [of kend] assms
    by (fastforce simp: kinit_def freerange_def)
qed

section \<open>Properties\<close>

text \<open>C37: \<open>kinit\<close> puts every whole page between the end of the kernel and \<open>PHYSTOP\<close> on the free
  list exactly once, without a panic.\<close>

theorem kinit_frees_all_pages:
  assumes "freelist s = 0" and "0 < kend"
  shows "\<exists>s' ps. kinit kend s = Inr s' \<and> free_pages kend s' ps \<and>
           length ps = (PHYSTOP - PGROUNDUP kend) div PGSIZE"
  by (rule kinit_pool [OF assms])

theorem kinit_frees_all_pages_witness:
  "\<exists>s' ps. kinit (PHYSTOP - 2 * PGSIZE) \<lparr>freelist = 0, cells = (\<lambda>_. 0)\<rparr> = Inr s' \<and>
     free_pages (PHYSTOP - 2 * PGSIZE) s' ps \<and> length ps = 2"
proof -
  have "0 < PHYSTOP - 2 * PGSIZE" by (simp add: PHYSTOP_def KERNBASE_def PGSIZE_def)
  from kinit_frees_all_pages [of "\<lparr>freelist = 0, cells = (\<lambda>_. 0)\<rparr>", OF _ this] show ?thesis
    by (simp add: PHYSTOP_def KERNBASE_def PGSIZE_def PGROUNDUP_def)
qed

end
