(* ===== verification/Slab.thy ===== *)
theory Slab
  imports Kalloc CList
begin

text \<open>
  The slab allocator of mp2/kernel/slab.c, over the pages of \<open>Kalloc\<close>. A slab is named by the
  address of its page; its \<open>struct slab\<close> header (\<open>freelist\<close>, \<open>in_use\<close>) is a record kept under
  that address, and the free objects are chained through their own first cell. The three
  \<open>struct list_head\<close> lists are the lists of the slab addresses: \<open>CList.kernel_list\<close> shows that
  \<open>list_add_tail\<close> appends and \<open>list_del\<close> removes. The \<open>debug\<close> output is left out. Each
  operation runs under \<open>cache->lock\<close> and is one step.
\<close>

section \<open>State\<close>

record slab =
  sfreelist :: nat
  in_use :: u32

record kmem_cache =
  cname :: string
  object_size :: nat
  full :: "nat list"
  partial :: "nat list"
  free :: "nat list"
  cfreelist :: nat

record slab_state = kmem +
  slabs :: "nat \<Rightarrow> slab"
  caches :: "nat \<Rightarrow> kmem_cache"

definition SIZEOF_SLAB :: nat where "SIZEOF_SLAB = 32"
definition SIZEOF_KMEM_CACHE :: nat where "SIZEOF_KMEM_CACHE = 120"

definition slab_objs_max :: "nat \<Rightarrow> nat" where
  "slab_objs_max osize = (PGSIZE - SIZEOF_SLAB) div osize"

definition cache_objs_max :: "nat \<Rightarrow> nat" where
  "cache_objs_max osize = (PGSIZE - SIZEOF_KMEM_CACHE) div osize"

section \<open>Operations\<close>

text \<open>
  \<open>for (i = 1; i < max; i++) { run->next = run + size; run = run->next; } run->next = NULL;\<close>
  with \<open>max - 1\<close> iterations.
\<close>

primrec link_runs :: "nat \<Rightarrow> nat \<Rightarrow> nat \<Rightarrow> cells \<Rightarrow> cells" where
  "link_runs 0 osize run m = m(run := 0)"
| "link_runs (Suc k) osize run m = link_runs k osize (run + osize) (m(run := run + osize))"

definition kmem_cache_create :: "string \<Rightarrow> nat \<Rightarrow> slab_state \<Rightarrow> nat \<times> slab_state" where
  "kmem_cache_create name osize s =
     (let (cache, s1) = kalloc s
      in if cache = 0 then (0, s1)
         else
           let flist = cache + SIZEOF_KMEM_CACHE;
               c = \<lparr>cname = take 31 name, object_size = osize, full = [], partial = [], free = [],
                    cfreelist = flist\<rparr>;
               s2 = s1\<lparr>caches := (caches s1)(cache := c)\<rparr>;
               s3 = s2\<lparr>cells := link_runs (cache_objs_max osize - 1) osize flist (cells s2)\<rparr>
           in (cache, s3))"

text \<open>Choosing the slab to allocate from: the first partial one, else the first free one (moved to
  \<open>partial\<close>), else a new page. \<open>0\<close> when \<open>kalloc\<close> fails.\<close>

definition pick_slab :: "nat \<Rightarrow> slab_state \<Rightarrow> nat \<times> slab_state" where
  "pick_slab cache st =
     (let c = caches st cache in
      case partial c of
        s # _ \<Rightarrow> (s, st)
      | [] \<Rightarrow>
        (case free c of
          s # _ \<Rightarrow>
            (let c1 = c\<lparr>free := remove1 s (free c)\<rparr>;
                 c2 = c1\<lparr>partial := partial c1 @ [s]\<rparr>
             in (s, st\<lparr>caches := (caches st)(cache := c2)\<rparr>))
        | [] \<Rightarrow>
          (let (s, st1) = kalloc st
           in if s = 0 then (0, st1)
              else
                let flist = s + SIZEOF_SLAB;
                    st2 = st1\<lparr>cells := link_runs (slab_objs_max (object_size c) - 1)
                                (object_size c) flist (cells st1)\<rparr>;
                    st3 = st2\<lparr>slabs := (slabs st2)(s := \<lparr>sfreelist = flist, in_use = 0\<rparr>)\<rparr>
                in (s, st3\<lparr>caches := (caches st3)(cache := c\<lparr>partial := partial c @ [s]\<rparr>)\<rparr>))))"

definition kmem_cache_alloc :: "nat \<Rightarrow> slab_state \<Rightarrow> nat \<times> slab_state" where
  "kmem_cache_alloc cache st =
     (let c = caches st cache
      in if cfreelist c \<noteq> 0 then
           let obj = cfreelist c
           in (obj, st\<lparr>caches := (caches st)(cache := c\<lparr>cfreelist := cells st obj\<rparr>)\<rparr>)
         else
           let (s, st1) = pick_slab cache st
           in if s = 0 then (0, st1)
              else
                let sl = slabs st1 s;
                    obj = sfreelist sl;
                    sl1 = sl\<lparr>sfreelist := cells st1 obj, in_use := in_use sl + 1\<rparr>;
                    st2 = st1\<lparr>slabs := (slabs st1)(s := sl1)\<rparr>;
                    c1 = caches st2 cache
                in if unat (in_use sl1) = slab_objs_max (object_size c1)
                   then (obj, st2\<lparr>caches := (caches st2)(cache :=
                           c1\<lparr>partial := remove1 s (partial c1), full := full c1 @ [s]\<rparr>)\<rparr>)
                   else (obj, st2))"

text \<open>\<open>list_del\<close> does not name the list: the slab leaves whichever list it is on.\<close>

definition unlink_slab :: "nat \<Rightarrow> kmem_cache \<Rightarrow> kmem_cache" where
  "unlink_slab s c = c\<lparr>full := remove1 s (full c), partial := remove1 s (partial c),
                        free := remove1 s (free c)\<rparr>"


section \<open>The allocator invariant\<close>

definition slab_objs :: "nat \<Rightarrow> nat \<Rightarrow> nat set" where
  "slab_objs osize s = (\<lambda>i. s + SIZEOF_SLAB + i * osize) ` {..<slab_objs_max osize}"

definition cache_objs :: "nat \<Rightarrow> nat \<Rightarrow> nat set" where
  "cache_objs osize cache = (\<lambda>i. cache + SIZEOF_KMEM_CACHE + i * osize) ` {..<cache_objs_max osize}"

text \<open>The free objects of a region: a chain of distinct objects, exactly those not allocated.\<close>

definition region_ok :: "cells \<Rightarrow> nat \<Rightarrow> nat set \<Rightarrow> nat set \<Rightarrow> bool" where
  "region_ok m p objs A \<longleftrightarrow> (\<exists>xs. chain m p xs \<and> distinct xs \<and> set xs = objs - A)"

definition slab_ok :: "slab_state \<Rightarrow> nat \<Rightarrow> nat set \<Rightarrow> nat \<Rightarrow> bool" where
  "slab_ok st n A s \<longleftrightarrow>
     region_ok (cells st) (sfreelist (slabs st s)) (slab_objs n s) A \<and>
     unat (in_use (slabs st s)) = card (slab_objs n s \<inter> A)"

text \<open>What holds of the pages: \<open>S\<close> are the slabs of the cache, \<open>A\<close> the allocated objects,
  \<open>cf\<close> the free list inside the page of the cache itself.\<close>

definition core :: "nat \<Rightarrow> nat \<Rightarrow> nat \<Rightarrow> nat \<Rightarrow> slab_state \<Rightarrow> nat list \<Rightarrow> nat set \<Rightarrow> nat set \<Rightarrow> bool" where
  "core kend cache n cf st ps A S \<longleftrightarrow>
     free_pages kend st ps \<and> 8 \<le> n \<and> 0 < slab_objs_max n \<and> 0 < cache_objs_max n \<and>
     cache \<notin> S \<and> cache \<notin> set ps \<and> S \<inter> set ps = {} \<and> finite S \<and>
     (\<forall>s \<in> insert cache S. valid_page kend s) \<and>
     region_ok (cells st) cf (cache_objs n cache) A \<and>
     (\<forall>s \<in> S. slab_ok st n A s) \<and>
     A \<subseteq> cache_objs n cache \<union> (\<Union>s \<in> S. slab_objs n s)"

definition all_slabs :: "kmem_cache \<Rightarrow> nat list" where
  "all_slabs c = full c @ partial c @ free c"

text \<open>Every slab is on the list its count calls for; \<open>X\<close> may be an empty slab among the partial ones.\<close>

definition placed :: "slab_state \<Rightarrow> kmem_cache \<Rightarrow> nat set \<Rightarrow> nat set \<Rightarrow> bool" where
  "placed st c S X \<longleftrightarrow>
     distinct (all_slabs c) \<and> set (all_slabs c) = S \<and>
     (\<forall>s \<in> set (full c). unat (in_use (slabs st s)) = slab_objs_max (object_size c)) \<and>
     (\<forall>s \<in> set (partial c). unat (in_use (slabs st s)) < slab_objs_max (object_size c) \<and>
        (s \<notin> X \<longrightarrow> 0 < in_use (slabs st s))) \<and>
     (\<forall>s \<in> set (free c). in_use (slabs st s) = 0)"

definition slab_inv :: "nat \<Rightarrow> nat \<Rightarrow> slab_state \<Rightarrow> nat list \<Rightarrow> nat set \<Rightarrow> bool" where
  "slab_inv kend cache st ps A \<longleftrightarrow>
     (let c = caches st cache in
      core kend cache (object_size c) (cfreelist c) st ps A (set (all_slabs c)) \<and>
      placed st c (set (all_slabs c)) {})"

text \<open>Every object of the cache: those in its own page and those of its slabs.\<close>

definition all_objs :: "slab_state \<Rightarrow> nat \<Rightarrow> nat set" where
  "all_objs st cache = (let c = caches st cache in
     cache_objs (object_size c) cache \<union> (\<Union>s \<in> set (all_slabs c). slab_objs (object_size c) s))"

section \<open>Objects and pages\<close>

lemma PGSIZE_pos: "0 < PGSIZE"
  by (simp add: PGSIZE_def)

lemma slab_objs_page:
  assumes "x \<in> slab_objs n s" and "0 < n"
  shows "s < x" and "x < s + PGSIZE"
proof -
  obtain i where i: "x = s + SIZEOF_SLAB + i * n" "i < slab_objs_max n"
    using assms by (auto simp: slab_objs_def)
  have "Suc i * n \<le> slab_objs_max n * n" using i(2) by (intro mult_le_mono1) simp
  also have "\<dots> \<le> PGSIZE - SIZEOF_SLAB" by (simp add: slab_objs_max_def)
  finally show "s < x" "x < s + PGSIZE"
    using i assms(2) by (simp_all add: SIZEOF_SLAB_def PGSIZE_def)
qed

lemma cache_objs_page:
  assumes "x \<in> cache_objs n s" and "0 < n"
  shows "s < x" and "x < s + PGSIZE"
proof -
  obtain i where i: "x = s + SIZEOF_KMEM_CACHE + i * n" "i < cache_objs_max n"
    using assms by (auto simp: cache_objs_def)
  have "Suc i * n \<le> cache_objs_max n * n" using i(2) by (intro mult_le_mono1) simp
  also have "\<dots> \<le> PGSIZE - SIZEOF_KMEM_CACHE" by (simp add: cache_objs_max_def)
  finally show "s < x" "x < s + PGSIZE"
    using i assms(2) by (simp_all add: SIZEOF_KMEM_CACHE_def PGSIZE_def)
qed

lemma slab_objs_disjoint:
  assumes "valid_page kend s" "valid_page kend t" "s \<noteq> t" "0 < n"
  shows "slab_objs n s \<inter> slab_objs n t = {}"
proof (rule equals0I)
  fix x assume "x \<in> slab_objs n s \<inter> slab_objs n t"
  then have "s < x" "x < s + PGSIZE" "t < x" "x < t + PGSIZE"
    using slab_objs_page assms(4) by blast+
  then have "s = t" using page_disjoint [of s t x] assms by (simp add: valid_page_def)
  with assms(3) show False by simp
qed

lemma cache_slab_disjoint:
  assumes "valid_page kend s" "valid_page kend t" "s \<noteq> t" "0 < n"
  shows "cache_objs n s \<inter> slab_objs n t = {}"
proof (rule equals0I)
  fix x assume "x \<in> cache_objs n s \<inter> slab_objs n t"
  then have "s < x" "x < s + PGSIZE" "t < x" "x < t + PGSIZE"
    using slab_objs_page cache_objs_page assms(4) by blast+
  then have "s = t" using page_disjoint [of s t x] assms by (simp add: valid_page_def)
  with assms(3) show False by simp
qed


lemma slab_objs_max_bound: "slab_objs_max n \<le> PGSIZE"
  unfolding slab_objs_max_def by (rule order_trans [OF div_le_dividend]) simp

lemma card_slab_objs: "0 < n \<Longrightarrow> card (slab_objs n s) = slab_objs_max n"
  by (simp add: slab_objs_def card_image inj_on_def)

lemma finite_slab_objs [simp]: "finite (slab_objs n s)"
  by (simp add: slab_objs_def)

section \<open>Regions\<close>

lemma region_alloc:
  assumes "region_ok m p objs A" and "p \<noteq> 0"
  shows "p \<in> objs" and "p \<notin> A" and "region_ok m (m p) objs (insert p A)"
proof -
  obtain xs where xs: "chain m p xs" "distinct xs" "set xs = objs - A"
    using assms(1) by (auto simp: region_ok_def)
  then obtain ys where ys: "xs = p # ys" "chain m (m p) ys"
    using assms(2) by (cases xs) auto
  with xs show "p \<in> objs" "p \<notin> A" by auto
  have "set ys = objs - insert p A" using ys xs by auto
  then show "region_ok m (m p) objs (insert p A)" using xs ys by (auto simp: region_ok_def)
qed

lemma region_null: "region_ok m 0 objs A \<Longrightarrow> objs \<subseteq> A"
  by (auto simp: region_ok_def)


lemma region_frame:
  assumes "region_ok m p objs A" and "\<And>a. a \<in> objs \<Longrightarrow> m' a = m a" and "objs - A' = objs - A"
  shows "region_ok m' p objs A'"
proof -
  obtain xs where xs: "chain m p xs" "distinct xs" "set xs = objs - A"
    using assms(1) by (auto simp: region_ok_def)
  have "chain m' p xs" by (rule chain_frame [OF xs(1)]) (use xs assms in auto)
  then show ?thesis using xs assms by (auto simp: region_ok_def)
qed

lemma slab_ok_frame:
  assumes "slab_ok st n A s" and "slabs st' s = slabs st s"
    and "\<And>a. a \<in> slab_objs n s \<Longrightarrow> cells st' a = cells st a"
    and "slab_objs n s \<inter> A' = slab_objs n s \<inter> A"
  shows "slab_ok st' n A' s"
proof -
  have "slab_objs n s - A' = slab_objs n s - A" using assms(4) by auto
  then show ?thesis
    using assms region_frame [of "cells st" _ "slab_objs n s" A "cells st'" A']
    by (auto simp: slab_ok_def)
qed

lemma link_runs_frame: "(\<And>i. i \<le> k \<Longrightarrow> a \<noteq> run + i * n) \<Longrightarrow> link_runs k n run m a = m a"
proof (induction k arbitrary: run m)
  case (Suc k)
  have "a \<noteq> run + n + i * n" if "i \<le> k" for i
    using Suc.prems [of "Suc i"] that by simp
  then have "link_runs (Suc k) n run m a = (m(run := run + n)) a" using Suc.IH by simp
  moreover have "a \<noteq> run" using Suc.prems [of 0] by simp
  ultimately show ?case by simp
next
  case 0
  then show ?case using "0.prems" [of 0] by simp
qed

lemma link_runs_chain:
  assumes "run \<noteq> 0" and "0 < n"
  shows "chain (link_runs k n run m) run (map (\<lambda>i. run + i * n) [0..<Suc k])"
  using assms
proof (induction k arbitrary: run m)
  case (Suc k)
  have upt: "map (\<lambda>i. run + i * n) [0..<Suc (Suc k)] = run # map (\<lambda>i. run + n + i * n) [0..<Suc k]"
    by (simp add: map_upt_Suc add.assoc del: upt_Suc)
  define m1 where "m1 = m(run := run + n)"
  have "link_runs k n (run + n) m1 run = run + n"
    by (subst link_runs_frame) (use Suc.prems in \<open>auto simp: m1_def\<close>)
  moreover have "chain (link_runs k n (run + n) m1) (run + n) (map (\<lambda>i. run + n + i * n) [0..<Suc k])"
    by (rule Suc.IH) (use Suc.prems in auto)
  ultimately show ?case
    unfolding upt using Suc.prems by (simp add: m1_def del: upt_Suc)
qed simp

lemma region_linked:
  assumes "0 < k" and "0 < n" and "base \<noteq> 0" and "((\<lambda>i. base + i * n) ` {..<k}) \<inter> A = {}"
  shows "region_ok (link_runs (k - 1) n base m) base ((\<lambda>i. base + i * n) ` {..<k}) A"
proof -
  have "chain (link_runs (k - 1) n base m) base (map (\<lambda>i. base + i * n) [0..<k])"
    using link_runs_chain [OF assms(3,2), of "k - 1" m] assms(1) by simp
  moreover have "distinct (map (\<lambda>i. base + i * n) [0..<k])"
    using assms(2) by (simp add: distinct_map inj_on_def)
  ultimately show ?thesis
    unfolding region_ok_def Diff_triv [OF assms(4)]
    by (intro exI [of _ "map (\<lambda>i. base + i * n) [0..<k]"]) auto
qed

lemma slab_objs_image: "slab_objs n s = (\<lambda>i. s + SIZEOF_SLAB + i * n) ` {..<slab_objs_max n}"
  by (simp add: slab_objs_def)

section \<open>The operations on the pages\<close>

lemma coreD:
  assumes "core kend cache n cf st ps A S"
  shows "free_pages kend st ps" and "0 < n" and "valid_page kend cache" and "cache \<notin> S"
    and "region_ok (cells st) cf (cache_objs n cache) A"
    and "s \<in> S \<Longrightarrow> valid_page kend s" and "s \<in> S \<Longrightarrow> slab_ok st n A s" and "finite S"
  using assms by (simp_all add: core_def)

lemma core_slab_unaffected:
  assumes c: "core kend cache n cf st ps A S" and s: "s \<in> S" and t: "t \<in> S" "t \<noteq> s"
    and cells: "\<And>a. a \<notin> slab_objs n s \<Longrightarrow> cells st' a = cells st a"
    and sl: "slabs st' t = slabs st t"
    and A: "\<And>a. a \<notin> slab_objs n s \<Longrightarrow> a \<in> A' \<longleftrightarrow> a \<in> A"
  shows "slab_ok st' n A' t"
proof -
  have d: "slab_objs n s \<inter> slab_objs n t = {}"
    by (rule slab_objs_disjoint [OF coreD(6) [OF c s] coreD(6) [OF c t(1)] _ coreD(2) [OF c]])
      (use t in simp)
  show ?thesis
    by (rule slab_ok_frame [OF coreD(7) [OF c t(1)] sl]) (use d cells A in blast)+
qed

lemma core_cache_unaffected:
  assumes c: "core kend cache n cf st ps A S" and s: "s \<in> S"
    and cells: "\<And>a. a \<notin> slab_objs n s \<Longrightarrow> cells st' a = cells st a"
    and A: "\<And>a. a \<notin> slab_objs n s \<Longrightarrow> a \<in> A' \<longleftrightarrow> a \<in> A"
  shows "region_ok (cells st') cf (cache_objs n cache) A'"
proof -
  have d: "cache_objs n cache \<inter> slab_objs n s = {}"
  proof (rule cache_slab_disjoint)
    show "valid_page kend cache" "valid_page kend s" "0 < n"
      using coreD(2,3) [OF c] coreD(6) [OF c s] by simp_all
    show "cache \<noteq> s" using coreD(4) [OF c] s by auto
  qed
  show ?thesis
    by (rule region_frame [OF coreD(5) [OF c]]) (use d cells A in blast)+
qed

lemma core_pages_unaffected:
  assumes c: "core kend cache n cf st ps A S" and s: "s \<in> S"
    and cells: "\<And>a. a \<notin> slab_objs n s \<Longrightarrow> cells st' a = cells st a"
    and fl: "freelist st' = freelist st"
  shows "free_pages kend st' ps"
proof -
  have "p \<notin> slab_objs n s" if "p \<in> set ps" for p
  proof
    assume "p \<in> slab_objs n s"
    then have *: "s < p" "p < s + PGSIZE" using slab_objs_page coreD(2) [OF c] by auto
    have "valid_page kend p" "valid_page kend s"
      using coreD(1,6) [OF c] s that by (auto simp: free_pages_def)
    then have "s = p"
      by (intro page_disjoint [of s p p]) (use * in \<open>simp_all add: valid_page_def PGSIZE_pos\<close>)
    with *(1) show False by simp
  qed
  then have same: "cells st' p = cells st p" if "p \<in> set ps" for p
    by (intro cells) (use that in blast)
  have "chain (cells st) (freelist st) ps" using coreD(1) [OF c] by (simp add: free_pages_def)
  then have "chain (cells st') (freelist st) ps" by (rule chain_frame) (rule same)
  with coreD(1) [OF c] fl show ?thesis by (simp add: free_pages_def)
qed

text \<open>Taking the head of a slab's free list.\<close>

lemma core_alloc:
  assumes c: "core kend cache n cf st ps A S" and s: "s \<in> S"
    and room: "unat (in_use (slabs st s)) < slab_objs_max n"
  defines "obj \<equiv> sfreelist (slabs st s)"
  defines "sl \<equiv> (slabs st s)\<lparr>sfreelist := cells st obj, in_use := in_use (slabs st s) + 1\<rparr>"
  shows "obj \<in> slab_objs n s" and "obj \<notin> A" and "obj \<noteq> 0"
    and "unat (in_use sl) = unat (in_use (slabs st s)) + 1"
    and "core kend cache n cf (st\<lparr>slabs := (slabs st)(s := sl)\<rparr>) ps (insert obj A) S"
proof -
  let ?st = "st\<lparr>slabs := (slabs st)(s := sl)\<rparr>"
  have n: "0 < n" and ok: "slab_ok st n A s" using c s by (auto simp: core_def)
  then have r: "region_ok (cells st) obj (slab_objs n s) A"
    and cnt: "unat (in_use (slabs st s)) = card (slab_objs n s \<inter> A)"
    by (auto simp: slab_ok_def obj_def)
  show nz: "obj \<noteq> 0"
  proof
    assume "obj = 0"
    with r have "slab_objs n s \<inter> A = slab_objs n s" using region_null by auto
    with cnt room card_slab_objs [OF n, of s] show False by simp
  qed
  note ra = region_alloc [OF r nz]
  show obj: "obj \<in> slab_objs n s" "obj \<notin> A" by (rule ra)+
  have "slab_objs_max n < 2 ^ 32 - 1" using slab_objs_max_bound [of n] by (simp add: PGSIZE_def)
  with room show cnt': "unat (in_use sl) = unat (in_use (slabs st s)) + 1"
    by (simp add: sl_def unat_word_ariths)
  have "slab_objs n s \<inter> insert obj A = insert obj (slab_objs n s \<inter> A)" using obj by auto
  then have "slab_ok ?st n (insert obj A) s"
    using ra(3) cnt cnt' obj by (simp add: slab_ok_def sl_def)
  moreover have "slab_ok ?st n (insert obj A) t" if "t \<in> S" "t \<noteq> s" for t
    by (rule core_slab_unaffected [OF c s that]) (use that obj in auto)
  moreover have "region_ok (cells ?st) cf (cache_objs n cache) (insert obj A)"
    by (rule core_cache_unaffected [OF c s]) (use obj in auto)
  moreover have "free_pages kend ?st ps"
    by (rule core_pages_unaffected [OF c s]) auto
  ultimately show "core kend cache n cf ?st ps (insert obj A) S"
    using c s obj by (fastforce simp: core_def)
qed


text \<open>Writes inside a page that holds no live region.\<close>

lemma core_foreign_page:
  assumes c: "core kend cache n cf st ps A S"
    and p: "valid_page kend p" "p \<notin> S" "p \<noteq> cache"
    and cells: "\<And>a. a < p \<or> p + PGSIZE \<le> a \<Longrightarrow> cells st' a = cells st a"
  shows "region_ok (cells st') cf (cache_objs n cache) A"
    and "t \<in> S \<Longrightarrow> slabs st' t = slabs st t \<Longrightarrow> slab_ok st' n A t"
proof -
  have out: "a < p \<or> p + PGSIZE \<le> a"
    if "valid_page kend q" "q \<noteq> p" "q < a" "a < q + PGSIZE" for a q
  proof (rule ccontr)
    assume "\<not> (a < p \<or> p + PGSIZE \<le> a)"
    then have "p = q" using p(1) that by (intro page_disjoint [of p q a]) (simp_all add: valid_page_def)
    with that(2) show False by simp
  qed
  note n = coreD(2) [OF c]
  show "region_ok (cells st') cf (cache_objs n cache) A"
  proof (rule region_frame [OF coreD(5) [OF c] _ refl])
    fix a assume "a \<in> cache_objs n cache"
    then show "cells st' a = cells st a"
      using out [OF coreD(3) [OF c], of a] cache_objs_page [OF _ n, of a cache] p(3)
      by (intro cells) blast
  qed
  assume t: "t \<in> S" "slabs st' t = slabs st t"
  show "slab_ok st' n A t"
  proof (rule slab_ok_frame [OF coreD(7) [OF c t(1)] t(2) _ refl])
    fix a assume "a \<in> slab_objs n t"
    then show "cells st' a = cells st a"
      using out [OF coreD(6) [OF c t(1)], of a] slab_objs_page [OF _ n, of a t] p(2) t(1)
      by (intro cells) blast
  qed
qed

lemma core_new_slab:
  assumes c: "core kend cache n cf st (p # ps) A S" and ka: "kalloc st = (r, st1)"
  defines "flist \<equiv> p + SIZEOF_SLAB"
  defines "st2 \<equiv> st1\<lparr>cells := link_runs (slab_objs_max n - 1) n flist (cells st1)\<rparr>"
  defines "st3 \<equiv> st2\<lparr>slabs := (slabs st2)(p := \<lparr>sfreelist = flist, in_use = 0\<rparr>)\<rparr>"
  shows "r = p" and "core kend cache n cf st3 ps A (insert p S)" and "p \<notin> S" and "caches st1 = caches st"
    and "slabs st1 = slabs st"
proof -
  have fp: "free_pages kend st (p # ps)" and n: "0 < n" by (rule coreD [OF c])+
  then have vp: "valid_page kend p" by (simp add: free_pages_def)
  show r: "r = p" and "p \<notin> S" and "caches st1 = caches st" and sl: "slabs st1 = slabs st"
    using kalloc_pool [OF fp] ka c by (auto simp: core_def kalloc_def Let_def split: if_splits)
  have pc: "p \<notin> S" "p \<noteq> cache" using c by (auto simp: core_def)
  have A: "slab_objs n p \<inter> A = {}"
  proof -
    have "slab_objs n p \<inter> cache_objs n cache = {}"
      using cache_slab_disjoint [OF coreD(3) [OF c] vp _ n] pc by blast
    moreover have "slab_objs n p \<inter> slab_objs n s = {}" if "s \<in> S" for s
      using slab_objs_disjoint [OF vp coreD(6) [OF c that] _ n] pc that by blast
    moreover have "A \<subseteq> cache_objs n cache \<union> (\<Union>s \<in> S. slab_objs n s)" using c by (simp add: core_def)
    ultimately show ?thesis by blast
  qed
  have lr: "link_runs (slab_objs_max n - 1) n flist m a = m a" if "a \<notin> slab_objs n p" for m a
  proof (rule link_runs_frame)
    fix i assume "i \<le> slab_objs_max n - 1"
    moreover have "0 < slab_objs_max n" using c by (simp add: core_def)
    ultimately show "a \<noteq> flist + i * n" using that by (auto simp: slab_objs_def flist_def)
  qed
  have inpage: "p \<le> a \<and> a < p + PGSIZE" if "a \<in> slab_objs n p" for a
    using slab_objs_page [OF that n] by simp
  have cells1: "cells st1 a = cells st a" if "a < p \<or> p + PGSIZE \<le> a" for a
    using that ka r by (auto simp: kalloc_def Let_def memset_page_def split: if_splits)
  have cells: "cells st3 a = cells st a" if "a < p \<or> p + PGSIZE \<le> a" for a
    using that lr [of a] inpage [of a] cells1 [OF that] by (fastforce simp: st3_def st2_def)
  have reg1: "region_ok (cells st3) cf (cache_objs n cache) A"
    by (rule core_foreign_page(1) [OF c vp pc]) (rule cells)
  have reg: "region_ok (link_runs (slab_objs_max n - 1) n flist (cells st1)) flist (slab_objs n p) A"
    unfolding slab_objs_image flist_def
    by (rule region_linked) (use c n A in \<open>auto simp: core_def SIZEOF_SLAB_def slab_objs_image\<close>)
  have ok_p: "slab_ok st3 n A p"
    using reg A by (simp add: slab_ok_def st3_def st2_def)
  have ok_t: "slab_ok st3 n A t" if "t \<in> S" for t
    by (rule core_foreign_page(2) [OF c vp pc cells that])
      (use that pc sl in \<open>auto simp: st3_def st2_def\<close>)
  have fp3: "free_pages kend st3 ps"
  proof -
    have f1: "free_pages kend st1 ps" using kalloc_pool(2) [OF fp] ka by simp
    have "q \<notin> slab_objs n p" if "q \<in> set ps" for q
    proof
      assume "q \<in> slab_objs n p"
      then have *: "p < q" "q < p + PGSIZE" using slab_objs_page n by auto
      have "valid_page kend q" using fp that by (auto simp: free_pages_def)
      then have "p = q"
        by (intro page_disjoint [of p q q]) (use vp * in \<open>simp_all add: valid_page_def PGSIZE_pos\<close>)
      with * show False by simp
    qed
    then have same: "cells st3 q = cells st1 q" if "q \<in> set ps" for q
      using lr [of q "cells st1"] that by (simp add: st3_def st2_def)
    have "chain (cells st1) (freelist st1) ps" using f1 by (simp add: free_pages_def)
    then have "chain (cells st3) (freelist st1) ps" by (rule chain_frame) (rule same)
    then show ?thesis using f1 by (simp add: free_pages_def st3_def st2_def)
  qed
  have cov: "A \<subseteq> cache_objs n cache \<union> (\<Union>s \<in> insert p S. slab_objs n s)"
    using c by (auto simp: core_def)
  have sets: "cache \<notin> insert p S" "cache \<notin> set ps" "insert p S \<inter> set ps = {}" "finite (insert p S)"
    using c fp by (simp_all add: core_def free_pages_def)
  have sizes: "8 \<le> n" "0 < slab_objs_max n" "0 < cache_objs_max n"
    using c by (simp_all add: core_def)
  have valid: "\<forall>s \<in> insert cache (insert p S). valid_page kend s"
    using vp coreD(3,6) [OF c] by blast
  have "\<forall>s \<in> insert p S. slab_ok st3 n A s" using ok_p ok_t by blast
  then show "core kend cache n cf st3 ps A (insert p S)"
    unfolding core_def by (intro conjI fp3 sizes sets valid reg1 cov)
qed



lemma core_cache_alloc:
  assumes c: "core kend cache n cf st ps A S" and nz: "cf \<noteq> 0"
  shows "cf \<notin> A" and "core kend cache n (cells st cf) st ps (insert cf A) S"
proof -
  note ra = region_alloc [OF coreD(5) [OF c] nz]
  show "cf \<notin> A" by (rule ra)
  have "slab_ok st n (insert cf A) t" if "t \<in> S" for t
  proof (rule slab_ok_frame [OF coreD(7) [OF c that] refl refl])
    have "cache_objs n cache \<inter> slab_objs n t = {}"
      by (rule cache_slab_disjoint [OF coreD(3) [OF c] coreD(6) [OF c that] _ coreD(2) [OF c]])
        (use coreD(4) [OF c] that in auto)
    then show "slab_objs n t \<inter> insert cf A = slab_objs n t \<inter> A" using ra(1) by auto
  qed
  then show "core kend cache n (cells st cf) st ps (insert cf A) S"
    using c ra by (fastforce simp: core_def)
qed


section \<open>The operations of the cache\<close>

lemma core_caches [simp]: "core kend cache n cf (st\<lparr>caches := cs\<rparr>) ps A S = core kend cache n cf st ps A S"
  by (simp add: core_def free_pages_def slab_ok_def)

lemma placed_caches [simp]: "placed (st\<lparr>caches := cs\<rparr>) c S X = placed st c S X"
  by (simp add: placed_def)

text \<open>The slab that will serve the request: on the partial list, with room.\<close>

lemma pick_slab_spec:
  assumes inv: "slab_inv kend cache st ps A" and pick: "pick_slab cache st = (s, st1)"
  shows "(s = 0 \<and> ps = [] \<and> st1 = st \<and> partial (caches st cache) = [] \<and> free (caches st cache) = []) \<or>
         (\<exists>ps' S. s \<noteq> 0 \<and> s \<in> set (partial (caches st1 cache)) \<and>
            cfreelist (caches st1 cache) = cfreelist (caches st cache) \<and>
            object_size (caches st1 cache) = object_size (caches st cache) \<and>
            core kend cache (object_size (caches st cache)) (cfreelist (caches st cache)) st1 ps' A S \<and>
            placed st1 (caches st1 cache) S {s} \<and>
            (ps' = ps \<or> partial (caches st cache) = [] \<and> free (caches st cache) = [] \<and> (\<exists>p. ps = p # ps')))"
proof -
  define c where "c = caches st cache"
  define S where "S = set (all_slabs c)"
  have core: "core kend cache (object_size c) (cfreelist c) st ps A S" and pl: "placed st c S {}"
    using inv by (simp_all add: slab_inv_def c_def S_def Let_def)
  have nz: "t \<noteq> 0" if "t \<in> S" for t
    using coreD(6) [OF core that] by (simp add: valid_page_def)
  show ?thesis
  proof (cases "partial c")
    case (Cons t ts)
    then have "s = t" "st1 = st" using pick by (auto simp: pick_slab_def c_def [symmetric])
    moreover have "t \<in> S" using Cons by (simp add: S_def all_slabs_def)
    moreover have "placed st c S {t}" using pl by (auto simp: placed_def)
    ultimately show ?thesis using Cons core nz by (auto simp: c_def [symmetric])
  next
    case Nil
    show ?thesis
    proof (cases "free c")
      case (Cons t ts)
      let ?c = "c\<lparr>free := remove1 t (free c), partial := [t]\<rparr>"
      have eqs: "s = t" "st1 = st\<lparr>caches := (caches st)(cache := ?c)\<rparr>"
        using pick Nil Cons by (auto simp: pick_slab_def c_def [symmetric] Let_def)
      have "t \<in> S" using Cons by (simp add: S_def all_slabs_def)
      moreover have "placed st ?c S {t}"
        using pl Nil Cons core by (auto simp: placed_def all_slabs_def core_def)
      ultimately show ?thesis using eqs core nz by (auto simp: c_def [symmetric])
    next
      case free: Nil
      obtain r st' where ka: "kalloc st = (r, st')" by fastforce
      show ?thesis
      proof (cases ps)
        case ps: Nil
        then have "r = 0" "st' = st"
          using ka coreD(1) [OF core] by (auto simp: free_pages_def kalloc_def)
        then have "s = 0" "st1 = st"
          using pick Nil free ka by (auto simp: pick_slab_def c_def [symmetric] Let_def)
        then show ?thesis using Nil free ps by (simp add: c_def)
      next
        case (Cons p qs)
        note new = core_new_slab [OF core [unfolded Cons] ka]
        have "p \<noteq> 0" using coreD(1) [OF core] Cons by (simp add: free_pages_def)
        define st3 where "st3 = st'\<lparr>cells := link_runs (slab_objs_max (object_size c) - 1) (object_size c)
              (p + SIZEOF_SLAB) (cells st'),
            slabs := (slabs st')(p := \<lparr>sfreelist = p + SIZEOF_SLAB, in_use = 0\<rparr>)\<rparr>"
        let ?c = "c\<lparr>partial := [p]\<rparr>"
        have eqs: "s = p" "st1 = st3\<lparr>caches := (caches st3)(cache := ?c)\<rparr>"
          using pick Nil free ka new(1) \<open>p \<noteq> 0\<close>
          by (auto simp: pick_slab_def c_def [symmetric] Let_def st3_def)
        have core3: "core kend cache (object_size c) (cfreelist c) st3 qs A (insert p S)"
          using new(2) by (simp add: st3_def)
        have "placed st3 ?c (insert p S) {p}"
          using pl Nil free new(3,5) core by (auto simp: placed_def all_slabs_def st3_def core_def)
        then show ?thesis using eqs core3 \<open>p \<noteq> 0\<close> Nil free Cons by (auto simp: c_def [symmetric])
      qed
    qed
  qed
qed

text \<open>With no free object in the page of the cache and every slab full, all objects are in use.\<close>

lemma slab_inv_all_used:
  assumes inv: "slab_inv kend cache st ps A" and none: "cfreelist (caches st cache) = 0" "partial (caches st cache) = []" "free (caches st cache) = []"
  shows "A = all_objs st cache"
proof -
  define c where "c = caches st cache"
  let ?n = "object_size c"
  have core: "core kend cache ?n (cfreelist c) st ps A (set (all_slabs c))" and pl: "placed st c (set (all_slabs c)) {}"
    using inv by (simp_all add: slab_inv_def c_def Let_def)
  have "cache_objs ?n cache \<subseteq> A" using region_null coreD(5) [OF core] none(1) unfolding c_def by metis
  moreover have "slab_objs ?n t \<subseteq> A" if t: "t \<in> set (all_slabs c)" for t
  proof -
    have "unat (in_use (slabs st t)) = slab_objs_max ?n" using pl t none unfolding c_def by (simp add: placed_def all_slabs_def)
    then have "card (slab_objs ?n t \<inter> A) = card (slab_objs ?n t)"
      using coreD(7) [OF core t] card_slab_objs [OF coreD(2) [OF core], of t] by (simp add: slab_ok_def)
    then have "slab_objs ?n t \<inter> A = slab_objs ?n t" by (intro card_subset_eq) auto
    then show ?thesis by blast
  qed
  moreover have "A \<subseteq> all_objs st cache" using core by (simp add: core_def all_objs_def Let_def c_def)
  ultimately show ?thesis unfolding all_objs_def c_def Let_def by blast
qed

lemma alloc_slab_inv:
  assumes inv: "slab_inv kend cache st ps A" and alloc: "kmem_cache_alloc cache st = (obj, st')"
  shows "(obj = 0 \<and> st' = st \<and> ps = [] \<and> A = all_objs st cache) \<or>
         (obj \<noteq> 0 \<and> obj \<notin> A \<and> (\<exists>ps'. slab_inv kend cache st' ps' (insert obj A) \<and>
            (ps' = ps \<or> A = all_objs st cache \<and> (\<exists>p. ps = p # ps'))))"
proof -
  define c where "c = caches st cache"
  define S where "S = set (all_slabs c)"
  have core: "core kend cache (object_size c) (cfreelist c) st ps A S" and pl: "placed st c S {}"
    using inv by (simp_all add: slab_inv_def c_def S_def Let_def)
  show ?thesis
  proof (cases "cfreelist c = 0")
    case False
    let ?c = "c\<lparr>cfreelist := cells st (cfreelist c)\<rparr>"
    have eqs: "obj = cfreelist c" "st' = st\<lparr>caches := (caches st)(cache := ?c)\<rparr>"
      using alloc False by (auto simp: kmem_cache_alloc_def c_def [symmetric] Let_def)
    note ca = core_cache_alloc [OF core False]
    have "placed st ?c S {}" using pl by (simp add: placed_def all_slabs_def)
    then have "slab_inv kend cache st' ps (insert obj A)"
      using ca(2) eqs by (simp add: slab_inv_def S_def all_slabs_def)
    then show ?thesis using ca(1) False eqs(1) by blast
  next
    case True
    obtain s st1 where pick: "pick_slab cache st = (s, st1)" by fastforce
    show ?thesis
    proof (cases "s = 0")
      case s0: True
      then have z: "ps = []" "st1 = st" "partial c = []" "free c = []" using pick_slab_spec [OF inv pick] by (auto simp: c_def)
      have "obj = 0" "st' = st" using alloc True pick s0 z(2) by (auto simp: kmem_cache_alloc_def c_def [symmetric])
      moreover have "A = all_objs st cache" by (rule slab_inv_all_used [OF inv]) (use True z in \<open>simp_all add: c_def\<close>)
      ultimately show ?thesis using z by simp
    next
      case False
      define c1 where "c1 = caches st1 cache"
      obtain ps' S' where p1: "s \<in> set (partial c1)" "cfreelist c1 = cfreelist c"
          "object_size c1 = object_size c"
          and core1: "core kend cache (object_size c) (cfreelist c) st1 ps' A S'"
          and pl1: "placed st1 c1 S' {s}" and pg: "ps' = ps \<or> partial c = [] \<and> free c = [] \<and> (\<exists>p. ps = p # ps')"
        using pick_slab_spec [OF inv pick] False unfolding c_def c1_def by blast
      have pages: "ps' = ps \<or> A = all_objs st cache \<and> (\<exists>p. ps = p # ps')"
        using pg slab_inv_all_used [OF inv] True unfolding c_def by blast
      have sS: "s \<in> S'" using p1(1) pl1 by (auto simp: placed_def all_slabs_def)
      have room: "unat (in_use (slabs st1 s)) < slab_objs_max (object_size c)"
        using p1 pl1 by (auto simp: placed_def)
      define sl where "sl = (slabs st1 s)\<lparr>sfreelist := cells st1 (sfreelist (slabs st1 s)),
          in_use := in_use (slabs st1 s) + 1\<rparr>"
      note ca = core_alloc [OF core1 sS room, folded sl_def]
      let ?st2 = "st1\<lparr>slabs := (slabs st1)(s := sl)\<rparr>"
      have pos: "0 < in_use sl" using ca(4) by (metis add_gr_0 less_numeral_extra(1) unat_gt_0 word_neq_0_conv)
      have res: "obj = sfreelist (slabs st1 s)" "st' = (if unat (in_use sl) = slab_objs_max (object_size c)
          then ?st2\<lparr>caches := (caches st1)(cache :=
            c1\<lparr>partial := remove1 s (partial c1), full := full c1 @ [s]\<rparr>)\<rparr> else ?st2)"
        using alloc True pick False p1(3)
        by (auto simp: kmem_cache_alloc_def Let_def c_def [symmetric] c1_def [symmetric] sl_def split: if_splits)
      have cell: "cells ?st2 = cells st1" by simp
      show ?thesis
      proof (cases "unat (in_use sl) = slab_objs_max (object_size c)")
        case full: True
        let ?c = "c1\<lparr>partial := remove1 s (partial c1), full := full c1 @ [s]\<rparr>"
        have "placed ?st2 ?c S' {}" and "set (all_slabs ?c) = S'"
          using pl1 p1 full by (auto simp: placed_def all_slabs_def)
        then have "slab_inv kend cache st' ps' (insert obj A)"
          using res full ca(5) p1 by (simp add: slab_inv_def)
        then show ?thesis using ca(2,3) res(1) pages by blast
      next
        case notfull: False
        have lt: "unat (in_use sl) < slab_objs_max (object_size c)" using notfull room ca(4) by simp
        have "placed ?st2 c1 S' {}" and "set (all_slabs c1) = S'"
          using pl1 p1 lt pos by (auto simp: placed_def all_slabs_def)
        then have "slab_inv kend cache st' ps' (insert obj A)"
          using res notfull ca(5) p1 by (simp add: slab_inv_def c1_def)
        then show ?thesis using ca(2,3) res(1) pages by blast
      qed
    qed
  qed
qed


lemma unlink_slab_simps [simp]:
  "object_size (unlink_slab s c) = object_size c" "cfreelist (unlink_slab s c) = cfreelist c"
  "full (unlink_slab s c) = remove1 s (full c)" "partial (unlink_slab s c) = remove1 s (partial c)"
  "free (unlink_slab s c) = remove1 s (free c)"
  by (simp_all add: unlink_slab_def)



lemma kfree_keeps: "kfree kend p (st\<lparr>caches := cs\<rparr>) = Inr st' \<Longrightarrow>
    caches st' = cs \<and> slabs st' = slabs st"
  by (auto simp: kfree_def Let_def split: if_splits)


section \<open>Creating a cache\<close>

lemma slab_objs_max_ge: "cache_objs_max n \<le> slab_objs_max n"
  unfolding cache_objs_max_def slab_objs_max_def
  by (rule div_le_mono) (simp add: SIZEOF_SLAB_def SIZEOF_KMEM_CACHE_def)

lemma create_slab_inv:
  assumes pool: "free_pages kend st (p # ps)" and n: "8 \<le> n" and room: "0 < cache_objs_max n"
  shows "\<exists>st'. kmem_cache_create name n st = (p, st') \<and> slab_inv kend p st' ps {}"
proof -
  obtain r st1 where ka: "kalloc st = (r, st1)" by fastforce
  have r: "r = p" and f1: "free_pages kend st1 ps" using kalloc_pool [OF pool] ka by simp_all
  have vp: "valid_page kend p" and pn: "p \<notin> set ps" using pool by (auto simp: free_pages_def)
  then have nz: "p \<noteq> 0" by (simp add: valid_page_def)
  define flist where "flist = p + SIZEOF_KMEM_CACHE"
  define m where "m = link_runs (cache_objs_max n - 1) n flist (cells st1)"
  define c where "c = \<lparr>cname = take 31 name, object_size = n, full = [], partial = [], free = [],
      cfreelist = flist\<rparr>"
  define st' where "st' = st1\<lparr>caches := (caches st1)(p := c), cells := m\<rparr>"
  have create: "kmem_cache_create name n st = (p, st')"
    using ka r nz by (simp add: kmem_cache_create_def Let_def st'_def m_def c_def flist_def)
  have img: "cache_objs n p = (\<lambda>i. flist + i * n) ` {..<cache_objs_max n}"
    by (simp add: cache_objs_def flist_def)
  have reg: "region_ok m flist (cache_objs n p) {}"
    unfolding img m_def by (rule region_linked) (use n room in \<open>auto simp: flist_def SIZEOF_KMEM_CACHE_def\<close>)
  have "m q = cells st1 q" if "q \<in> set ps" for q
    unfolding m_def
  proof (rule link_runs_frame)
    fix i assume "i \<le> cache_objs_max n - 1"
    then have "flist + i * n \<in> cache_objs n p" using room by (auto simp: img)
    then have pg: "p < flist + i * n" "flist + i * n < p + PGSIZE" using cache_objs_page n by auto
    show "q \<noteq> flist + i * n"
    proof
      assume q: "q = flist + i * n"
      have "valid_page kend q" using f1 that by (simp add: free_pages_def)
      then have "p = q"
        using page_disjoint [of p q q] vp pg q by (simp add: valid_page_def PGSIZE_pos)
      with that pn show False by simp
    qed
  qed
  moreover have "chain (cells st1) (freelist st1) ps" using f1 by (simp add: free_pages_def)
  ultimately have "chain m (freelist st1) ps" by (metis chain_frame)
  then have "free_pages kend st' ps" using f1 by (simp add: free_pages_def st'_def)
  moreover have "0 < slab_objs_max n" using room slab_objs_max_ge [of n] by simp
  ultimately have "core kend p n flist st' ps {} {}"
    using n room vp pn reg by (simp add: core_def st'_def)
  then have "slab_inv kend p st' ps {}"
    by (simp add: slab_inv_def st'_def c_def all_slabs_def placed_def)
  with create show ?thesis by blast
qed

section \<open>Properties\<close>

text \<open>C18: \<open>kmem_cache_alloc\<close> returns null exactly as a last resort: then nothing has changed, no page is left, and every object of the
  cache, in its own page and in each of its slabs, is in use. Otherwise it returns an object that was not in use, keeps the invariant of the
  allocator, and takes a page for a new slab only when every object of the cache was in use.\<close>

theorem kmem_cache_alloc_fresh:
  assumes "slab_inv kend cache st ps A" and "kmem_cache_alloc cache st = (obj, st')"
  shows "(obj = 0 \<and> st' = st \<and> ps = [] \<and> A = all_objs st cache) \<or>
         (obj \<noteq> 0 \<and> obj \<notin> A \<and> (\<exists>ps'. slab_inv kend cache st' ps' (insert obj A) \<and>
            (ps' = ps \<or> A = all_objs st cache \<and> (\<exists>p. ps = p # ps'))))"
  by (rule alloc_slab_inv [OF assms])


text \<open>C36: A new cache whose objects fit behind its header satisfies the invariant with no object in
  use.\<close>

theorem kmem_cache_create_inv:
  assumes "free_pages kend st (p # ps)" and "8 \<le> n" and "0 < cache_objs_max n"
  shows "\<exists>st'. kmem_cache_create name n st = (p, st') \<and> slab_inv kend p st' ps {}"
  by (rule create_slab_inv [OF assms])

text \<open>An object too large for the space behind the cache header is still handed out from there,
  and reaches past the end of the page.\<close>

theorem kmem_cache_create_overrun:
  assumes "kmem_cache_create name n st = (cache, st')" and "cache \<noteq> 0" and "cache_objs_max n = 0"
  shows "fst (kmem_cache_alloc cache st') = cache + SIZEOF_KMEM_CACHE \<and>
         (0 < n \<longrightarrow> fst (kmem_cache_alloc cache st') + n > cache + PGSIZE)"
proof -
  have c: "cfreelist (caches st' cache) = cache + SIZEOF_KMEM_CACHE"
    using assms(1,2) by (auto simp: kmem_cache_create_def Let_def split: prod.splits if_splits)
  then have "fst (kmem_cache_alloc cache st') = cache + SIZEOF_KMEM_CACHE"
    by (simp add: kmem_cache_alloc_def SIZEOF_KMEM_CACHE_def Let_def)
  moreover have "PGSIZE - SIZEOF_KMEM_CACHE < n" if "0 < n"
    using assms(3) that by (simp add: cache_objs_max_def div_eq_0_iff)
  ultimately show ?thesis by (auto simp: SIZEOF_KMEM_CACHE_def PGSIZE_def)
qed


text \<open>Two free pages, and a cache of 64-byte objects made of the first.\<close>

definition two_pages :: slab_state where
  "two_pages = \<lparr>freelist = KERNBASE, cells = (\<lambda>_. 0)(KERNBASE := KERNBASE + PGSIZE), slabs = (\<lambda>_. \<lparr>sfreelist = 0, in_use = 0\<rparr>),
     caches = (\<lambda>_. \<lparr>cname = [], object_size = 0, full = [], partial = [], free = [], cfreelist = 0\<rparr>)\<rparr>"

lemma two_pages_free: "free_pages KERNBASE two_pages [KERNBASE, KERNBASE + PGSIZE]"
  by (simp add: free_pages_def two_pages_def valid_page_def KERNBASE_def PGSIZE_def PHYSTOP_def)

lemma sample_cache: "\<exists>st. kmem_cache_create ''file'' 64 two_pages = (KERNBASE, st) \<and> slab_inv KERNBASE KERNBASE st [KERNBASE + PGSIZE] {}"
  by (rule create_slab_inv [OF two_pages_free]) (simp_all add: cache_objs_max_def PGSIZE_def SIZEOF_KMEM_CACHE_def)

theorem kmem_cache_create_inv_witness:
  "\<exists>st'. kmem_cache_create ''file'' 64 two_pages = (KERNBASE, st') \<and> slab_inv KERNBASE KERNBASE st' [KERNBASE + PGSIZE] {}"
  by (rule kmem_cache_create_inv [OF two_pages_free]) (simp_all add: cache_objs_max_def PGSIZE_def SIZEOF_KMEM_CACHE_def)


theorem kmem_cache_alloc_fresh_witness:
  "\<exists>st obj st' ps'. slab_inv KERNBASE KERNBASE st [KERNBASE + PGSIZE] {} \<and> kmem_cache_alloc KERNBASE st = (obj, st') \<and>
     obj \<noteq> 0 \<and> slab_inv KERNBASE KERNBASE st' ps' {obj}"
proof -
  obtain st where inv: "slab_inv KERNBASE KERNBASE st [KERNBASE + PGSIZE] {}" using sample_cache by blast
  obtain obj st' where al: "kmem_cache_alloc KERNBASE st = (obj, st')" by fastforce
  from kmem_cache_alloc_fresh [OF inv al] inv al show ?thesis by blast
qed


theorem kmem_cache_create_overrun_witness:
  "\<exists>st. kmem_cache_create ''big'' 4000 two_pages = (KERNBASE, st) \<and>
     fst (kmem_cache_alloc KERNBASE st) + 4000 > KERNBASE + PGSIZE"
proof -
  have "fst (kmem_cache_create ''big'' 4000 two_pages) = KERNBASE"
    by (simp add: kmem_cache_create_def kalloc_def two_pages_def KERNBASE_def Let_def)
  then obtain st where c: "kmem_cache_create ''big'' 4000 two_pages = (KERNBASE, st)" by (metis prod.collapse)
  have "KERNBASE \<noteq> 0" "cache_objs_max 4000 = 0"
    by (simp_all add: KERNBASE_def cache_objs_max_def PGSIZE_def SIZEOF_KMEM_CACHE_def)
  from kmem_cache_create_overrun [OF c this] c show ?thesis by simp
qed

end
