(* ===== verification/Bio.thy ===== *)
theory Bio
  imports Prelude
begin

text \<open>
  The buffer cache and its RAID-1 layer (mp4/kernel/bio.c). Buffers are named by their index in
  \<open>bcache.buf\<close>; the linked list is the list of those indices, most recently used first. A
  block is a map from byte offset (below \<open>BSIZE\<close>) to byte, so a copy of \<open>BSIZE\<close> bytes is an
  assignment. \<open>force_read_error_pbn\<close> and \<open>force_disk_fail_id\<close> are the failure switches of
  mp4/kernel/proc.c. The code runs in one process: a buffer that is already locked would make it
  sleep. \<open>history\<close> records the writes that reach the disk, in order; no operation reads it.
\<close>

section \<open>State\<close>

type_synonym block = "nat \<Rightarrow> u8"

record buf =
  valid :: bool
  bdev :: nat
  blockno :: nat
  locked :: bool
  refcnt :: u32
  bdata :: block

record bcache =
  bufs :: "nat \<Rightarrow> buf"
  lru :: "nat list"
  disk :: "nat \<Rightarrow> block"
  force_read_error_pbn :: int
  force_disk_fail_id :: int
  history :: "(nat \<times> block) list"

definition NBUF :: nat where "NBUF = 30"
definition BSIZE :: nat where "BSIZE = 1024"
definition FSSIZE :: nat where "FSSIZE = 4096"
definition DISK1_START_BLOCK :: nat where "DISK1_START_BLOCK = FSSIZE div 2"
definition ROOTDEV :: nat where "ROOTDEV = 1"

definition upd_buf :: "nat \<Rightarrow> (buf \<Rightarrow> buf) \<Rightarrow> 'a bcache_scheme \<Rightarrow> 'a bcache_scheme" where
  "upd_buf i f s = s\<lparr>bufs := (bufs s)(i := f (bufs s i))\<rparr>"

section \<open>Operations\<close>

definition zero_buf :: buf where
  "zero_buf = \<lparr>valid = False, bdev = 0, blockno = 0, locked = False, refcnt = 0, bdata = (\<lambda>_. 0)\<rparr>"

text \<open>The buffers are static, hence zero; each is inserted at the front of the list.\<close>

definition binit :: "'a bcache_scheme \<Rightarrow> 'a bcache_scheme" where
  "binit s = s\<lparr>bufs := (\<lambda>_. zero_buf), lru := fold (\<lambda>b l. b # l) [0..<NBUF] []\<rparr>"

text \<open>One request to the disk driver: the whole block, in the direction asked for.\<close>

definition virtio_disk_rw :: "nat \<Rightarrow> bool \<Rightarrow> 'a bcache_scheme \<Rightarrow> 'a bcache_scheme" where
  "virtio_disk_rw i write s =
     (let b = bufs s i in
      if write
      then s\<lparr>disk := (disk s)(blockno b := bdata b), history := history s @ [(blockno b, bdata b)]\<rparr>
      else upd_buf i (\<lambda>b. b\<lparr>bdata := disk s (blockno b)\<rparr>) s)"

definition acquiresleep_buf :: "nat \<Rightarrow> 'a bcache_scheme \<Rightarrow> (nat \<times> 'a bcache_scheme) res" where
  "acquiresleep_buf i s =
     (if locked (bufs s i) then Inl (Sleeps ''buffer'')
      else Inr (i, upd_buf i (\<lambda>b. b\<lparr>locked := True\<rparr>) s))"

definition bget :: "nat \<Rightarrow> nat \<Rightarrow> 'a bcache_scheme \<Rightarrow> (nat \<times> 'a bcache_scheme) res" where
  "bget dev bn s =
     (case List.find (\<lambda>i. bdev (bufs s i) = dev \<and> blockno (bufs s i) = bn) (lru s) of
        Some i \<Rightarrow> acquiresleep_buf i (upd_buf i (\<lambda>b. b\<lparr>refcnt := refcnt b + 1\<rparr>) s)
      | None \<Rightarrow>
          (case List.find (\<lambda>i. refcnt (bufs s i) = 0) (rev (lru s)) of
             Some i \<Rightarrow> acquiresleep_buf i
               (upd_buf i (\<lambda>b. b\<lparr>bdev := dev, blockno := bn, valid := False, refcnt := 1\<rparr>) s)
           | None \<Rightarrow> Inl (Panic ''bget: no buffers'')))"

definition bread :: "nat \<Rightarrow> nat \<Rightarrow> 'a bcache_scheme \<Rightarrow> (nat \<times> 'a bcache_scheme) res" where
  "bread dev bn s =
     (let fail_disk = force_disk_fail_id s;
          pbn0_fail = (force_read_error_pbn s = int bn)
      in rbind (bget dev bn s) (\<lambda>(i, s1).
           let is_forced_fail_target = (fail_disk = 0 \<or> pbn0_fail)
           in if \<not> valid (bufs s1 i) \<or> is_forced_fail_target then
                let s2 = (if is_forced_fail_target then
                            let pbn1 = bn + DISK1_START_BLOCK;
                                r1 = upd_buf i (\<lambda>b. b\<lparr>blockno := pbn1\<rparr>) s1;
                                r2 = virtio_disk_rw i False r1
                            in upd_buf i (\<lambda>b. b\<lparr>blockno := bn\<rparr>) r2
                          else virtio_disk_rw i False s1)
                in Inr (i, upd_buf i (\<lambda>b. b\<lparr>valid := True\<rparr>) s2)
              else Inr (i, s1)))"

definition bwrite :: "nat \<Rightarrow> 'a bcache_scheme \<Rightarrow> 'a bcache_scheme res" where
  "bwrite i s =
     panic_unless (locked (bufs s i)) ''bwrite''
       (let pbn0 = blockno (bufs s i);
            pbn1 = pbn0 + DISK1_START_BLOCK;
            fail_disk = force_disk_fail_id s;
            pbn0_fail_or_not = (force_read_error_pbn s = int pbn0);
            s1 = (if fail_disk = 0 then s
                  else if pbn0_fail_or_not then s
                  else virtio_disk_rw i True s);
            s2 = (if fail_disk = 1 then s1
                  else virtio_disk_rw i True (upd_buf i (\<lambda>b. b\<lparr>blockno := pbn1\<rparr>) s1))
        in Inr (upd_buf i (\<lambda>b. b\<lparr>blockno := pbn0\<rparr>) s2))"

definition brelse :: "nat \<Rightarrow> 'a bcache_scheme \<Rightarrow> 'a bcache_scheme res" where
  "brelse i s =
     panic_unless (locked (bufs s i)) ''brelse''
       (let s1 = upd_buf i (\<lambda>b. b\<lparr>locked := False\<rparr>) s;
            s2 = upd_buf i (\<lambda>b. b\<lparr>refcnt := refcnt b - 1\<rparr>) s1
        in Inr (if refcnt (bufs s2 i) = 0 then s2\<lparr>lru := i # remove1 i (lru s2)\<rparr> else s2))"

definition bpin :: "nat \<Rightarrow> 'a bcache_scheme \<Rightarrow> 'a bcache_scheme" where
  "bpin i s = upd_buf i (\<lambda>b. b\<lparr>refcnt := refcnt b + 1\<rparr>) s"

definition bunpin :: "nat \<Rightarrow> 'a bcache_scheme \<Rightarrow> 'a bcache_scheme" where
  "bunpin i s = upd_buf i (\<lambda>b. b\<lparr>refcnt := refcnt b - 1\<rparr>) s"

text \<open>What a caller does with \<open>b->data\<close>.\<close>

definition set_bdata :: "nat \<Rightarrow> block \<Rightarrow> 'a bcache_scheme \<Rightarrow> 'a bcache_scheme" where
  "set_bdata i d s = upd_buf i (\<lambda>b. b\<lparr>bdata := d\<rparr>) s"

section \<open>The cache invariant and the view of the disk through the cache\<close>

text \<open>\<open>P i\<close> counts the pins of buffer \<open>i\<close>. A reference is a lock or a pin; two live buffers never
  hold the same block; a buffer that is neither locked nor pinned agrees with the disk.\<close>

definition cache_ok :: "'a bcache_scheme \<Rightarrow> (nat \<Rightarrow> u32) \<Rightarrow> bool" where
  "cache_ok s P \<longleftrightarrow>
     distinct (lru s) \<and> set (lru s) = {..<NBUF} \<and>
     (\<forall>i<NBUF. refcnt (bufs s i) = of_bool (locked (bufs s i)) + P i) \<and>
     (\<forall>i<NBUF. bdev (bufs s i) = 0 \<and> \<not> valid (bufs s i) \<and> \<not> locked (bufs s i) \<and> P i = 0 \<or>
        bdev (bufs s i) = ROOTDEV \<and> blockno (bufs s i) < DISK1_START_BLOCK) \<and>
     (\<forall>i<NBUF. \<forall>j<NBUF. bdev (bufs s i) = ROOTDEV \<and> bdev (bufs s j) = ROOTDEV \<and>
        blockno (bufs s i) = blockno (bufs s j) \<longrightarrow> i = j) \<and>
     (\<forall>i<NBUF. P i \<noteq> 0 \<longrightarrow> valid (bufs s i)) \<and>
     (\<forall>i<NBUF. valid (bufs s i) \<and> \<not> locked (bufs s i) \<and> P i = 0 \<longrightarrow>
        bdata (bufs s i) = disk s (blockno (bufs s i)))"

definition quiet :: "'a bcache_scheme \<Rightarrow> bool" where
  "quiet s \<longleftrightarrow> force_disk_fail_id s = -1 \<and> force_read_error_pbn s = -1"

definition lock_set :: "'a bcache_scheme \<Rightarrow> nat set" where
  "lock_set s = {i. i < NBUF \<and> locked (bufs s i)}"

definition cached_at :: "'a bcache_scheme \<Rightarrow> nat \<Rightarrow> nat option" where
  "cached_at s bn = List.find (\<lambda>i. bdev (bufs s i) = ROOTDEV \<and> blockno (bufs s i) = bn) (lru s)"

definition view :: "'a bcache_scheme \<Rightarrow> nat \<Rightarrow> block" where
  "view s bn = (case cached_at s bn of
     Some i \<Rightarrow> if valid (bufs s i) then bdata (bufs s i) else disk s bn
   | None \<Rightarrow> disk s bn)"

lemma upd_buf_simps [simp]:
  "bufs (upd_buf i f s) = (bufs s)(i := f (bufs s i))" "lru (upd_buf i f s) = lru s"
  "disk (upd_buf i f s) = disk s" "force_read_error_pbn (upd_buf i f s) = force_read_error_pbn s"
  "force_disk_fail_id (upd_buf i f s) = force_disk_fail_id s" "history (upd_buf i f s) = history s"
  "bcache.more (upd_buf i f s) = bcache.more s"
  by (simp_all add: upd_buf_def)

lemma ROOTDEV_nz [simp]: "ROOTDEV \<noteq> 0" "0 \<noteq> ROOTDEV"
  by (simp_all add: ROOTDEV_def)

lemma cache_okD:
  assumes "cache_ok s P"
  shows "distinct (lru s)" and "set (lru s) = {..<NBUF}"
    and "i < NBUF \<Longrightarrow> refcnt (bufs s i) = of_bool (locked (bufs s i)) + P i"
    and "i < NBUF \<Longrightarrow> bdev (bufs s i) = 0 \<and> \<not> valid (bufs s i) \<and> \<not> locked (bufs s i) \<and> P i = 0 \<or>
        bdev (bufs s i) = ROOTDEV \<and> blockno (bufs s i) < DISK1_START_BLOCK"
    and "i < NBUF \<Longrightarrow> j < NBUF \<Longrightarrow> bdev (bufs s i) = ROOTDEV \<Longrightarrow> bdev (bufs s j) = ROOTDEV \<Longrightarrow>
        blockno (bufs s i) = blockno (bufs s j) \<Longrightarrow> i = j"
    and "i < NBUF \<Longrightarrow> P i \<noteq> 0 \<Longrightarrow> valid (bufs s i)"
    and "i < NBUF \<Longrightarrow> valid (bufs s i) \<Longrightarrow> \<not> locked (bufs s i) \<Longrightarrow> P i = 0 \<Longrightarrow>
        bdata (bufs s i) = disk s (blockno (bufs s i))"
  using assms by (simp_all add: cache_ok_def)

lemma binit_ok: "cache_ok (binit s) (\<lambda>_. 0)"
proof -
  have "fold (\<lambda>b l. b # l) xs ys = rev xs @ ys" for xs ys :: "nat list"
    by (induction xs arbitrary: ys) auto
  then show ?thesis by (auto simp: cache_ok_def binit_def zero_buf_def)
qed

lemma binit_view: "view (binit s) bn = disk s bn"
proof -
  have "cached_at (binit s) bn = None"
    by (auto simp: cached_at_def binit_def zero_buf_def find_None_iff)
  then show ?thesis by (simp add: view_def) (simp add: binit_def)
qed

lemma cached_at_Some:
  assumes "cache_ok s P" and "cached_at s bn = Some i"
  shows "i < NBUF" and "bdev (bufs s i) = ROOTDEV" and "blockno (bufs s i) = bn"
  using find_SomeD [OF assms(2) [unfolded cached_at_def]] cache_okD(2) [OF assms(1)] by auto

lemma cached_atI:
  assumes "cache_ok s P" and "i < NBUF" and "bdev (bufs s i) = ROOTDEV" and "blockno (bufs s i) = bn"
  shows "cached_at s bn = Some i"
proof (cases "cached_at s bn")
  case None
  have "i \<in> set (lru s)" using cache_okD(2) [OF assms(1)] assms(2) by simp
  with None assms show ?thesis by (auto simp: cached_at_def find_None_iff)
next
  case (Some j)
  with cached_at_Some [OF assms(1) Some] assms cache_okD(5) [OF assms(1)] show ?thesis by simp
qed

lemma cached_at_None:
  assumes "cache_ok s P" and "cached_at s bn = None" and "i < NBUF" and "bdev (bufs s i) = ROOTDEV"
  shows "blockno (bufs s i) \<noteq> bn"
  using cached_atI [OF assms(1,3,4)] assms(2) by auto

text \<open>The view characterised without the search.\<close>

lemma view_buf:
  assumes "cache_ok s P" and "i < NBUF" and "bdev (bufs s i) = ROOTDEV" and "valid (bufs s i)"
  shows "view s (blockno (bufs s i)) = bdata (bufs s i)"
  using cached_atI [OF assms(1-3) refl] assms(4) by (simp add: view_def)

lemma view_disk:
  assumes "cache_ok s P" and "\<And>i. i < NBUF \<Longrightarrow> bdev (bufs s i) = ROOTDEV \<Longrightarrow> valid (bufs s i) \<Longrightarrow> blockno (bufs s i) \<noteq> bn"
  shows "view s bn = disk s bn"
proof (cases "cached_at s bn")
  case (Some i)
  with cached_at_Some [OF assms(1) Some] assms(2) show ?thesis by (auto simp: view_def)
qed (simp add: view_def)

text \<open>Replacing one buffer.\<close>

lemma cache_ok_upd:
  assumes ok: "cache_ok s P" and i: "i < NBUF" and b: "bufs s' = (bufs s)(i := b)"
    and lru: "distinct (lru s')" "set (lru s') = set (lru s)"
    and P: "\<And>j. j \<noteq> i \<Longrightarrow> P' j = P j"
    and rc: "refcnt b = of_bool (locked b) + P' i"
    and dev: "bdev b = 0 \<and> \<not> valid b \<and> \<not> locked b \<and> P' i = 0 \<or>
        bdev b = ROOTDEV \<and> blockno b < DISK1_START_BLOCK"
    and uniq: "\<And>j. j < NBUF \<Longrightarrow> j \<noteq> i \<Longrightarrow> bdev (bufs s j) = ROOTDEV \<Longrightarrow> bdev b = ROOTDEV \<Longrightarrow>
        blockno (bufs s j) \<noteq> blockno b"
    and val: "P' i \<noteq> 0 \<Longrightarrow> valid b"
    and clean: "valid b \<Longrightarrow> \<not> locked b \<Longrightarrow> P' i = 0 \<Longrightarrow> bdata b = disk s' (blockno b)"
    and disk: "\<And>j. j < NBUF \<Longrightarrow> j \<noteq> i \<Longrightarrow> bdev (bufs s j) = ROOTDEV \<Longrightarrow>
        disk s' (blockno (bufs s j)) = disk s (blockno (bufs s j))"
  shows "cache_ok s' P'"
proof -
  note D = cache_okD [OF ok]
  show ?thesis
    unfolding cache_ok_def
  proof (intro conjI allI ballI impI)
    show "distinct (lru s')" "set (lru s') = {..<NBUF}" using lru D(2) by simp_all
    fix j assume j: "j < NBUF"
    show "refcnt (bufs s' j) = of_bool (locked (bufs s' j)) + P' j"
      using D(3) [OF j] rc P by (cases "j = i") (simp_all add: b)
    show "bdev (bufs s' j) = 0 \<and> \<not> valid (bufs s' j) \<and> \<not> locked (bufs s' j) \<and> P' j = 0 \<or>
        bdev (bufs s' j) = ROOTDEV \<and> blockno (bufs s' j) < DISK1_START_BLOCK"
      using D(4) [OF j] dev P by (cases "j = i") (simp_all add: b)
    show "bdata (bufs s' j) = disk s' (blockno (bufs s' j))"
      if "valid (bufs s' j) \<and> \<not> locked (bufs s' j) \<and> P' j = 0"
    proof (cases "j = i")
      case True
      then show ?thesis using that clean by (simp add: b)
    next
      case False
      then have v: "valid (bufs s j)" "\<not> locked (bufs s j)" "P j = 0" using that P by (simp_all add: b)
      then have "bdev (bufs s j) = ROOTDEV" using D(4) [OF j] by blast
      then show ?thesis using False D(7) [OF j v] disk [OF j False] by (simp add: b)
    qed
    fix k assume k: "k < NBUF"
      and e: "bdev (bufs s' j) = ROOTDEV \<and> bdev (bufs s' k) = ROOTDEV \<and>
        blockno (bufs s' j) = blockno (bufs s' k)"
    show "j = k"
    proof (cases "j = i \<or> k = i")
      case True
      then show ?thesis using e uniq [OF j] uniq [OF k] by (cases "j = i"; cases "k = i") (auto simp: b)
    next
      case False
      then show ?thesis using e D(5) [OF j k] by (simp add: b)
    qed
  next
    fix j assume j: "j < NBUF" "P' j \<noteq> 0"
    then show "valid (bufs s' j)" using D(6) [of j] val P by (cases "j = i") (simp_all add: b)
  qed
qed

lemma view_upd:
  assumes s: "cache_ok s P" and s': "cache_ok s' P'" and i: "i < NBUF" and b: "bufs s' = (bufs s)(i := b)"
    and d: "disk s' = disk s"
  shows "view s' bn =
    (if bdev b = ROOTDEV \<and> blockno b = bn then (if valid b then bdata b else disk s bn)
     else if bdev (bufs s i) = ROOTDEV \<and> blockno (bufs s i) = bn then disk s bn
     else view s bn)"
proof (cases "bdev b = ROOTDEV \<and> blockno b = bn")
  case True
  then have "cached_at s' bn = Some i" by (intro cached_atI [OF s' i]) (simp_all add: b)
  with True show ?thesis by (simp add: view_def b d)
next
  case new: False
  show ?thesis
  proof (cases "cached_at s bn")
    case None
    have "cached_at s' bn = None"
    proof (cases "cached_at s' bn")
      case (Some j)
      note j = cached_at_Some [OF s' Some]
      then have "j \<noteq> i" using new by (auto simp: b)
      with j cached_at_None [OF s None j(1)] show ?thesis by (simp add: b)
    qed
    with None new d show ?thesis using cached_at_None [OF s None i] by (auto simp: view_def)
  next
    case (Some j)
    note j = cached_at_Some [OF s Some]
    show ?thesis
    proof (cases "j = i")
      case True
      have "cached_at s' bn = None"
      proof (cases "cached_at s' bn")
        case (Some k)
        note k = cached_at_Some [OF s' Some]
        then have "k \<noteq> i" using new by (auto simp: b)
        with k have "k = j" using cache_okD(5) [OF s k(1) j(1)] j(2,3) by (simp add: b)
        with \<open>k \<noteq> i\<close> True show ?thesis by simp
      qed
      with True new j d show ?thesis by (auto simp: view_def)
    next
      case False
      then have "cached_at s' bn = Some j" by (intro cached_atI [OF s' j(1)]) (simp_all add: b j)
      moreover have "\<not> (bdev (bufs s i) = ROOTDEV \<and> blockno (bufs s i) = bn)"
        using cache_okD(5) [OF s i j(1)] j False by auto
      ultimately show ?thesis using False new Some d by (auto simp: view_def b)
    qed
  qed
qed

section \<open>What each operation does to the view\<close>

text \<open>A free buffer exists while locks and pins do not use up the cache. The condition on the locked
  buffers excludes a pin count that has wrapped below zero.\<close>

definition pin_set :: "(nat \<Rightarrow> u32) \<Rightarrow> nat set" where
  "pin_set P = {i. i < NBUF \<and> P i \<noteq> 0}"

definition no_wrap :: "'a bcache_scheme \<Rightarrow> (nat \<Rightarrow> u32) \<Rightarrow> bool" where
  "no_wrap s P \<longleftrightarrow> (\<forall>i<NBUF. locked (bufs s i) \<longrightarrow> P i \<noteq> -1)"

lemma free_buffer:
  assumes ok: "cache_ok s P" and room: "card (pin_set P) + card (lock_set s) < NBUF"
  shows "\<exists>i \<in> set (lru s). refcnt (bufs s i) = 0"
proof -
  have "card (pin_set P \<union> lock_set s) < NBUF"
    using room card_Un_le [of "pin_set P" "lock_set s"] by linarith
  moreover have sub: "pin_set P \<union> lock_set s \<subseteq> {..<NBUF}" by (auto simp: lock_set_def pin_set_def)
  ultimately have "pin_set P \<union> lock_set s \<noteq> {..<NBUF}" by auto
  with sub obtain i where i: "i < NBUF" "i \<notin> pin_set P" "i \<notin> lock_set s" by blast
  then have "refcnt (bufs s i) = 0" using cache_okD(3) [OF ok i(1)] by (simp add: lock_set_def pin_set_def)
  with i(1) cache_okD(2) [OF ok] show ?thesis by auto
qed

lemma refcnt_zero:
  assumes "cache_ok s P" and "no_wrap s P" and "i < NBUF" and "refcnt (bufs s i) = 0"
  shows "\<not> locked (bufs s i)" and "P i = 0"
proof -
  have e: "of_bool (locked (bufs s i)) + P i = 0" using cache_okD(3) [OF assms(1,3)] assms(4) by simp
  show nl: "\<not> locked (bufs s i)"
  proof
    assume l: "locked (bufs s i)"
    with e have "P i = -1" by (simp add: add_eq_0_iff)
    with l assms show False by (simp add: no_wrap_def)
  qed
  with e show "P i = 0" by simp
qed

lemma acquiresleep_buf_eq:
  "\<not> locked (bufs s i) \<Longrightarrow> acquiresleep_buf i s = Inr (i, upd_buf i (\<lambda>b. b\<lparr>locked := True\<rparr>) s)"
  by (simp add: acquiresleep_buf_def)

text \<open>What \<open>bget\<close> and \<open>bread\<close> leave unchanged.\<close>

definition same_env :: "'a bcache_scheme \<Rightarrow> 'a bcache_scheme \<Rightarrow> bool" where
  "same_env s t \<longleftrightarrow> disk t = disk s \<and> history t = history s \<and> bcache.more t = bcache.more s \<and>
     force_read_error_pbn t = force_read_error_pbn s \<and> force_disk_fail_id t = force_disk_fail_id s"

definition got :: "'a bcache_scheme \<Rightarrow> (nat \<Rightarrow> u32) \<Rightarrow> nat \<Rightarrow> nat \<Rightarrow> 'a bcache_scheme \<Rightarrow> bool" where
  "got s P bn i t \<longleftrightarrow> cache_ok t P \<and> i < NBUF \<and> locked (bufs t i) \<and> bdev (bufs t i) = ROOTDEV \<and>
     blockno (bufs t i) = bn \<and> \<not> locked (bufs s i) \<and> (\<forall>j. j \<noteq> i \<longrightarrow> bufs t j = bufs s j) \<and>
     (P i \<noteq> 0 \<longrightarrow> blockno (bufs s i) = bn) \<and> view t = view s \<and> same_env s t"

lemma same_env_trans: "same_env s t \<Longrightarrow> same_env t u \<Longrightarrow> same_env s u"
  by (simp add: same_env_def)

lemma same_env_upd [simp]: "same_env s (upd_buf i f s)"
  by (simp add: same_env_def)

lemma lock_setI: "i < NBUF \<Longrightarrow> locked (bufs s i) \<Longrightarrow> i \<in> lock_set s"
  by (simp add: lock_set_def)

lemma bget_got:
  assumes ok: "cache_ok s P" and nw: "no_wrap s P" and room: "cached_at s bn = None \<Longrightarrow> card (pin_set P) + card (lock_set s) < NBUF" and bn: "bn < DISK1_START_BLOCK"
    and free: "\<And>i. cached_at s bn = Some i \<Longrightarrow> \<not> locked (bufs s i)"
  shows "\<exists>i t. bget ROOTDEV bn s = Inr (i, t) \<and> got s P bn i t \<and>
    (valid (bufs t i) \<longrightarrow> bdata (bufs t i) = view s bn) \<and>
    (\<not> valid (bufs t i) \<longrightarrow> view s bn = disk s bn \<and> P i = 0)"
proof (cases "cached_at s bn")
  case (Some i)
  note at = cached_at_Some [OF ok Some] and nl = free [OF Some]
  let ?t = "upd_buf i (\<lambda>b. b\<lparr>locked := True\<rparr>) (upd_buf i (\<lambda>b. b\<lparr>refcnt := refcnt b + 1\<rparr>) s)"
  have eq: "bget ROOTDEV bn s = Inr (i, ?t)"
    using Some nl by (simp add: bget_def cached_at_def acquiresleep_buf_eq)
  have buf: "bufs ?t = (bufs s)(i := (bufs s i)\<lparr>refcnt := refcnt (bufs s i) + 1, locked := True\<rparr>)" by simp
  have rc: "refcnt (bufs s i) = P i" using cache_okD(3) [OF ok at(1)] nl by simp
  have ok': "cache_ok ?t P"
    by (rule cache_ok_upd [OF ok at(1) buf])
      (use at rc bn nl cache_okD(1,6) [OF ok] cache_okD(5) [OF ok] in \<open>auto simp: add.commute\<close>)
  have "view ?t b = view s b" for b
    using view_upd [OF ok ok' at(1) buf, of b] Some at by (auto simp: view_def)
  then have "view ?t = view s" by (rule ext)
  then have "got s P bn i ?t" using ok' at nl by (simp add: got_def same_env_def)
  moreover have "valid (bufs s i) \<Longrightarrow> bdata (bufs s i) = view s bn" "\<not> valid (bufs s i) \<Longrightarrow> view s bn = disk s bn"
    using Some by (simp_all add: view_def)
  ultimately show ?thesis using eq cache_okD(6) [OF ok at(1)] by auto
next
  case None
  obtain i where i: "List.find (\<lambda>i. refcnt (bufs s i) = 0) (rev (lru s)) = Some i"
    using free_buffer [OF ok room [OF None]] by (metis (mono_tags, lifting) find_None_iff not_None_eq set_rev)
  have i': "i < NBUF" "refcnt (bufs s i) = 0" using find_SomeD [OF i] cache_okD(2) [OF ok] by auto
  then have nl: "\<not> locked (bufs s i)" "P i = 0" using refcnt_zero [OF ok nw] by simp_all
  let ?b = "(bufs s i)\<lparr>bdev := ROOTDEV, blockno := bn, valid := False, refcnt := 1, locked := True\<rparr>"
  let ?t = "upd_buf i (\<lambda>b. b\<lparr>locked := True\<rparr>)
     (upd_buf i (\<lambda>b. b\<lparr>bdev := ROOTDEV, blockno := bn, valid := False, refcnt := 1\<rparr>) s)"
  have eq: "bget ROOTDEV bn s = Inr (i, ?t)"
    using None nl i by (simp add: bget_def cached_at_def acquiresleep_buf_eq)
  have buf: "bufs ?t = (bufs s)(i := ?b)" by simp
  have ok': "cache_ok ?t P"
    by (rule cache_ok_upd [OF ok i'(1) buf])
      (use cache_okD(1) [OF ok] bn nl cached_at_None [OF ok None] in auto)
  have "view s (blockno (bufs s i)) = disk s (blockno (bufs s i))" if "bdev (bufs s i) = ROOTDEV"
    using that view_buf [OF ok i'(1) that] cache_okD(7) [OF ok i'(1) _ nl] cached_atI [OF ok i'(1) that refl]
    by (cases "valid (bufs s i)") (simp_all add: view_def)
  moreover have "view s bn = disk s bn" using None by (simp add: view_def)
  ultimately have "view ?t b = view s b" for b
    using view_upd [OF ok ok' i'(1) buf, of b] by auto
  then have "view ?t = view s" by (rule ext)
  then show ?thesis using eq ok' i' nl \<open>view s bn = disk s bn\<close> by (simp add: got_def same_env_def)
qed

lemma bread_got:
  assumes ok: "cache_ok s P" and nw: "no_wrap s P" and room: "cached_at s bn = None \<Longrightarrow> card (pin_set P) + card (lock_set s) < NBUF" and bn: "bn < DISK1_START_BLOCK"
    and free: "\<And>i. cached_at s bn = Some i \<Longrightarrow> \<not> locked (bufs s i)" and q: "quiet s"
  shows "\<exists>i t. bread ROOTDEV bn s = Inr (i, t) \<and> got s P bn i t \<and> valid (bufs t i) \<and>
    bdata (bufs t i) = view s bn"
proof -
  obtain i t where g: "bget ROOTDEV bn s = Inr (i, t)" "got s P bn i t"
    "valid (bufs t i) \<longrightarrow> bdata (bufs t i) = view s bn"
    "\<not> valid (bufs t i) \<longrightarrow> view s bn = disk s bn \<and> P i = 0"
    using bget_got [OF ok nw room bn free] by blast
  have nf: "\<not> (force_disk_fail_id s = 0 \<or> force_read_error_pbn s = int bn)" using q by (simp add: quiet_def)
  show ?thesis
  proof (cases "valid (bufs t i)")
    case True
    then show ?thesis using g nf by (auto simp: bread_def Let_def)
  next
    case False
    let ?u = "upd_buf i (\<lambda>b. b\<lparr>valid := True\<rparr>) (upd_buf i (\<lambda>b. b\<lparr>bdata := disk t bn\<rparr>) t)"
    have bt: "blockno (bufs t i) = bn" "bdev (bufs t i) = ROOTDEV" "locked (bufs t i)" "i < NBUF"
      and ok_t: "cache_ok t P" and vt: "view t = view s"
      and env: "same_env s t" using g(2) by (simp_all add: got_def)
    have eq: "bread ROOTDEV bn s = Inr (i, ?u)"
      using g(1) nf False bt(1) by (simp add: bread_def virtio_disk_rw_def Let_def)
    have buf: "bufs ?u = (bufs t)(i := (bufs t i)\<lparr>bdata := disk t bn, valid := True\<rparr>)" by simp
    have ok_u: "cache_ok ?u P"
      by (rule cache_ok_upd [OF ok_t bt(4) buf])
        (use cache_okD(1) [OF ok_t] cache_okD(3) [OF ok_t bt(4)] cache_okD(5) [OF ok_t] bt bn in auto)
    have dt: "disk t = disk s" using env by (simp add: same_env_def)
    have "view ?u b = view s b" for b
      using view_upd [OF ok_t ok_u bt(4) buf, of b] bt vt g(4) False dt by auto
    then have "view ?u = view s" by (rule ext)
    moreover have "same_env s ?u" using env by (simp add: same_env_def)
    ultimately have "got s P bn i ?u" using g(2) ok_u by (simp add: got_def)
    then show ?thesis using eq g(4) False dt by auto
  qed
qed

lemma lock_set_got: "got s P bn i t \<Longrightarrow> lock_set t = insert i (lock_set s)"
  by (auto simp: got_def lock_set_def)

lemma set_bdata_spec:
  assumes ok: "cache_ok s P" and i: "i < NBUF" and l: "locked (bufs s i)"
  shows "cache_ok (set_bdata i d s) P"
    and "valid (bufs s i) \<Longrightarrow> view (set_bdata i d s) = (view s)(blockno (bufs s i) := d)"
    and "same_env s (set_bdata i d s)"
proof -
  let ?t = "set_bdata i d s"
  have dev: "bdev (bufs s i) = ROOTDEV" "blockno (bufs s i) < DISK1_START_BLOCK" using cache_okD(4) [OF ok i] l by auto
  have buf: "bufs ?t = (bufs s)(i := (bufs s i)\<lparr>bdata := d\<rparr>)" by (simp add: set_bdata_def)
  show ok': "cache_ok ?t P"
    by (rule cache_ok_upd [OF ok i buf])
      (use cache_okD(1) [OF ok] cache_okD(3) [OF ok i] cache_okD(5,6) [OF ok] dev i l in \<open>auto simp: set_bdata_def\<close>)
  show "view ?t = (view s)(blockno (bufs s i) := d)" if "valid (bufs s i)"
  proof (rule ext)
    fix b show "view ?t b = ((view s)(blockno (bufs s i) := d)) b"
      using view_upd [OF ok ok' i buf, of b] dev that by (auto simp: set_bdata_def)
  qed
  show "same_env s ?t" by (simp add: set_bdata_def)
qed

text \<open>Without failures \<open>bwrite\<close> puts the data on both mirrors and leaves the cache alone.\<close>

lemma bwrite_spec:
  assumes ok: "cache_ok s P" and i: "i < NBUF" and l: "locked (bufs s i)" and q: "quiet s"
    and v: "valid (bufs s i)"
  defines "bn \<equiv> blockno (bufs s i)" and "d \<equiv> bdata (bufs s i)"
  shows "\<exists>t. bwrite i s = Inr t \<and> cache_ok t P \<and> bufs t = bufs s \<and> lru t = lru s \<and>
    disk t = (disk s)(bn := d, bn + DISK1_START_BLOCK := d) \<and>
    history t = history s @ [(bn, d), (bn + DISK1_START_BLOCK, d)] \<and>
    bcache.more t = bcache.more s \<and> force_read_error_pbn t = force_read_error_pbn s \<and>
    force_disk_fail_id t = force_disk_fail_id s \<and>
    (\<forall>b<DISK1_START_BLOCK. view t b = view s b)"
proof -
  obtain t where t: "bwrite i s = Inr t" by (simp add: bwrite_def l Let_def)
  have nf: "force_disk_fail_id s \<noteq> 0" "force_disk_fail_id s \<noteq> 1" "force_read_error_pbn s \<noteq> int bn"
    using q by (simp_all add: quiet_def)
  have bufs: "bufs t = bufs s" and lru: "lru t = lru s"
    and disk: "disk t = (disk s)(bn := d, bn + DISK1_START_BLOCK := d)"
    and rest: "history t = history s @ [(bn, d), (bn + DISK1_START_BLOCK, d)]"
      "bcache.more t = bcache.more s" "force_read_error_pbn t = force_read_error_pbn s"
      "force_disk_fail_id t = force_disk_fail_id s"
    using t nf l by (auto simp: bwrite_def virtio_disk_rw_def Let_def bn_def d_def)
  have dev: "bdev (bufs s i) = ROOTDEV" "bn < DISK1_START_BLOCK"
    using cache_okD(4) [OF ok i] l by (auto simp: bn_def)
  have buf: "bufs t = (bufs s)(i := bufs s i)" by (simp add: bufs)
  have ok': "cache_ok t P"
  proof (rule cache_ok_upd [OF ok i buf])
    show "distinct (lru t)" "set (lru t) = set (lru s)" using cache_okD(1) [OF ok] lru by simp_all
    show "disk t (blockno (bufs s j)) = disk s (blockno (bufs s j))"
      if "j < NBUF" "j \<noteq> i" "bdev (bufs s j) = ROOTDEV" for j
      using that cache_okD(4) [OF ok that(1)] cache_okD(5) [OF ok that(1) i that(3) dev(1)]
      by (auto simp: disk bn_def)
  qed (use cache_okD(3-6) [OF ok] i l dev in \<open>auto simp: bn_def\<close>)
  have "view t b = view s b" if "b < DISK1_START_BLOCK" for b
  proof (cases "b = bn")
    case True
    then show ?thesis using view_buf [OF ok i dev(1) v] view_buf [OF ok' i] dev(1) v by (simp add: bufs bn_def)
  next
    case False
    have "cached_at t b = cached_at s b" by (simp add: cached_at_def bufs lru)
    moreover have "disk t b = disk s b" using False that by (auto simp: disk)
    ultimately show ?thesis by (simp add: view_def bufs split: option.splits)
  qed
  then show ?thesis using t ok' bufs lru disk rest by blast
qed

lemma brelse_spec:
  assumes ok: "cache_ok s P" and i: "i < NBUF" and l: "locked (bufs s i)"
    and clean: "P i \<noteq> 0 \<or> bdata (bufs s i) = disk s (blockno (bufs s i))"
  shows "\<exists>t. brelse i s = Inr t \<and> cache_ok t P \<and> view t = view s \<and> same_env s t \<and>
    bufs t = (bufs s)(i := (bufs s i)\<lparr>locked := False, refcnt := P i\<rparr>)"
proof -
  let ?s2 = "upd_buf i (\<lambda>b. b\<lparr>refcnt := refcnt b - 1\<rparr>) (upd_buf i (\<lambda>b. b\<lparr>locked := False\<rparr>) s)"
  obtain t where t: "brelse i s = Inr t"
    and t_eq: "t = (if refcnt (bufs ?s2 i) = 0 then ?s2\<lparr>lru := i # remove1 i (lru ?s2)\<rparr> else ?s2)"
    by (simp add: brelse_def l Let_def)
  have rc: "refcnt (bufs s i) - 1 = P i" using cache_okD(3) [OF ok i] l by simp
  have buf: "bufs t = (bufs s)(i := (bufs s i)\<lparr>locked := False, refcnt := P i\<rparr>)"
    using rc by (simp add: t_eq)
  have lru: "distinct (lru t)" "set (lru t) = set (lru s)"
    using cache_okD(1,2) [OF ok] i by (auto simp: t_eq)
  have env: "same_env s t" by (simp add: t_eq same_env_def)
  have dev: "bdev (bufs s i) = ROOTDEV" "blockno (bufs s i) < DISK1_START_BLOCK"
    using cache_okD(4) [OF ok i] l by auto
  have dt: "disk t = disk s" using env by (simp add: same_env_def)
  have ok': "cache_ok t P"
    by (rule cache_ok_upd [OF ok i buf lru])
      (use cache_okD(5,6) [OF ok] i dev clean dt in auto)
  have "view t b = view s b" for b
    using view_upd [OF ok ok' i buf dt, of b] dev view_buf [OF ok i dev(1)] cached_atI [OF ok i dev(1) refl]
    by (auto simp: view_def)
  then have "view t = view s" by (rule ext)
  with t ok' env buf show ?thesis by blast
qed

lemma bpin_spec:
  assumes ok: "cache_ok s P" and i: "i < NBUF" and l: "locked (bufs s i)" and v: "valid (bufs s i)"
    and n: "P i + 1 \<noteq> 0"
  shows "cache_ok (bpin i s) (P(i := P i + 1))" and "view (bpin i s) = view s" and "same_env s (bpin i s)"
proof -
  have dev: "bdev (bufs s i) = ROOTDEV" "blockno (bufs s i) < DISK1_START_BLOCK"
    using cache_okD(4) [OF ok i] l by auto
  have buf: "bufs (bpin i s) = (bufs s)(i := (bufs s i)\<lparr>refcnt := refcnt (bufs s i) + 1\<rparr>)" by (simp add: bpin_def)
  show ok': "cache_ok (bpin i s) (P(i := P i + 1))"
    by (rule cache_ok_upd [OF ok i buf])
      (use cache_okD(1) [OF ok] cache_okD(3) [OF ok i] cache_okD(5) [OF ok] i dev v n l in \<open>auto simp: bpin_def\<close>)
  have "view (bpin i s) b = view s b" for b
    using view_upd [OF ok ok' i buf, of b] dev view_buf [OF ok i dev(1) v] v
    by (auto simp: bpin_def)
  then show "view (bpin i s) = view s" by (rule ext)
  show "same_env s (bpin i s)" by (simp add: bpin_def)
qed

lemma bunpin_spec:
  assumes ok: "cache_ok s P" and iN: "i < NBUF" and v: "valid (bufs s i)" and l: "locked (bufs s i)"
  shows "cache_ok (bunpin i s) (P(i := P i - 1))" and "view (bunpin i s) = view s" and "same_env s (bunpin i s)"
proof -
  have dev: "bdev (bufs s i) = ROOTDEV" "blockno (bufs s i) < DISK1_START_BLOCK"
    using cache_okD(4) [OF ok iN] l by auto
  have buf: "bufs (bunpin i s) = (bufs s)(i := (bufs s i)\<lparr>refcnt := refcnt (bufs s i) - 1\<rparr>)"
    by (simp add: bunpin_def)
  show ok': "cache_ok (bunpin i s) (P(i := P i - 1))"
    by (rule cache_ok_upd [OF ok iN buf])
      (use cache_okD(1) [OF ok] cache_okD(3) [OF ok iN] cache_okD(5) [OF ok] iN dev v l in \<open>auto simp: bunpin_def\<close>)
  have "view (bunpin i s) b = view s b" for b
    using view_upd [OF ok ok' iN buf, of b] dev view_buf [OF ok iN dev(1) v] v
    by (auto simp: bunpin_def)
  then show "view (bunpin i s) = view s" by (rule ext)
  show "same_env s (bunpin i s)" by (simp add: bunpin_def)
qed

section \<open>The cache by block number\<close>

text \<open>Pins belong to blocks: \<open>pc b\<close> is the number of pins of block \<open>b\<close>, whichever buffer holds it.\<close>

definition pins_of :: "(nat \<Rightarrow> u32) \<Rightarrow> 'a bcache_scheme \<Rightarrow> nat \<Rightarrow> u32" where
  "pins_of pc s i = (if i < NBUF \<and> bdev (bufs s i) = ROOTDEV then pc (blockno (bufs s i)) else 0)"

definition pinned :: "(nat \<Rightarrow> u32) \<Rightarrow> nat set" where
  "pinned pc = {b. pc b \<noteq> 0}"

definition bc_ok :: "'a bcache_scheme \<Rightarrow> (nat \<Rightarrow> u32) \<Rightarrow> bool" where
  "bc_ok s pc \<longleftrightarrow> cache_ok s (pins_of pc s) \<and> (\<forall>b \<in> pinned pc. cached_at s b \<noteq> None)"

definition held :: "'a bcache_scheme \<Rightarrow> nat \<Rightarrow> nat \<Rightarrow> bool" where
  "held s i b \<longleftrightarrow> i < NBUF \<and> locked (bufs s i) \<and> valid (bufs s i) \<and> bdev (bufs s i) = ROOTDEV \<and>
     blockno (bufs s i) = b"

definition room_for :: "'a bcache_scheme \<Rightarrow> (nat \<Rightarrow> u32) \<Rightarrow> nat \<Rightarrow> bool" where
  "room_for s pc b \<longleftrightarrow> b < DISK1_START_BLOCK \<and> quiet s \<and>
     (\<forall>i<NBUF. locked (bufs s i) \<longrightarrow> pc (blockno (bufs s i)) \<noteq> -1 \<and> blockno (bufs s i) \<noteq> b) \<and>
     (cached_at s b = None \<longrightarrow> card (pinned pc) + card (lock_set s) < NBUF)"

lemma card_pin_set:
  assumes "bc_ok s pc"
  shows "card (pin_set (pins_of pc s)) = card (pinned pc)"
proof (rule bij_betw_same_card [of "\<lambda>i. blockno (bufs s i)"])
  have ok: "cache_ok s (pins_of pc s)" using assms by (simp add: bc_ok_def)
  show "bij_betw (\<lambda>i. blockno (bufs s i)) (pin_set (pins_of pc s)) (pinned pc)"
    unfolding bij_betw_def
  proof
    show "inj_on (\<lambda>i. blockno (bufs s i)) (pin_set (pins_of pc s))"
      using cache_okD(5) [OF ok] by (auto simp: inj_on_def pin_set_def pins_of_def split: if_splits)
    show "(\<lambda>i. blockno (bufs s i)) ` pin_set (pins_of pc s) = pinned pc"
    proof (intro equalityI subsetI)
      fix b assume "b \<in> (\<lambda>i. blockno (bufs s i)) ` pin_set (pins_of pc s)"
      then show "b \<in> pinned pc" by (auto simp: pin_set_def pins_of_def pinned_def split: if_splits)
    next
      fix b assume b: "b \<in> pinned pc"
      then obtain i where i: "cached_at s b = Some i" using assms by (auto simp: bc_ok_def)
      note c = cached_at_Some [OF ok i]
      then have "i \<in> pin_set (pins_of pc s)" using b by (simp add: pin_set_def pins_of_def pinned_def)
      then show "b \<in> (\<lambda>i. blockno (bufs s i)) ` pin_set (pins_of pc s)" using c(3) by blast
    qed
  qed
qed

lemma pins_of_cong: "bufs t i = bufs s i \<Longrightarrow> pins_of pc t i = pins_of pc s i"
  by (simp add: pins_of_def)

lemma bc_upd_pins:
  assumes "cache_ok t P" and "\<And>i. P i = pins_of pc t i"
    and "\<And>b. pc b \<noteq> 0 \<Longrightarrow> cached_at t b \<noteq> None"
  shows "bc_ok t pc"
proof -
  have "P = pins_of pc t" using assms(2) by (rule ext)
  with assms show ?thesis by (simp add: bc_ok_def pinned_def)
qed

lemma cached_at_keep:
  assumes ok: "cache_ok s P" and ok': "cache_ok t Q" and c: "cached_at s b = Some i"
    and same: "bdev (bufs t i) = bdev (bufs s i)" "blockno (bufs t i) = blockno (bufs s i)"
  shows "cached_at t b = Some i"
  using cached_at_Some [OF ok c] same by (intro cached_atI [OF ok']) simp_all

text \<open>Reading a block locks a buffer that holds it; nothing else changes.\<close>

lemma bread_spec:
  assumes ok: "bc_ok s pc" and room: "room_for s pc b"
  shows "\<exists>i t. bread ROOTDEV b s = Inr (i, t) \<and> bc_ok t pc \<and> held t i b \<and> bdata (bufs t i) = view s b \<and>
    view t = view s \<and> same_env s t \<and> i \<notin> lock_set s \<and> lock_set t = insert i (lock_set s) \<and>
    (\<forall>j. j \<noteq> i \<longrightarrow> bufs t j = bufs s j)"
proof -
  have cok: "cache_ok s (pins_of pc s)" using ok by (simp add: bc_ok_def)
  have nw: "no_wrap s (pins_of pc s)" using room by (simp add: no_wrap_def room_for_def pins_of_def)
  have free: "\<not> locked (bufs s i)" if "cached_at s b = Some i" for i
    using cached_at_Some [OF cok that] room by (auto simp: room_for_def)
  obtain i t where g: "bread ROOTDEV b s = Inr (i, t)" "got s (pins_of pc s) b i t" "valid (bufs t i)"
      "bdata (bufs t i) = view s b"
    using bread_got [OF cok nw _ _ free, of b] room ok by (auto simp: room_for_def card_pin_set)
  note gd = g(2) [unfolded got_def]
  have cok': "cache_ok t (pins_of pc s)" using gd by blast
  have iN: "i < NBUF" "bdev (bufs t i) = ROOTDEV" "blockno (bufs t i) = b" using gd by auto
  have other: "bufs t j = bufs s j" if "j \<noteq> i" for j using gd that by blast
  have pin: "pins_of pc s i \<noteq> 0 \<Longrightarrow> blockno (bufs s i) = b" using gd by blast
  have "pc b = pins_of pc s i"
  proof (cases "pc b = 0")
    case True
    then show ?thesis using pin by (fastforce simp: pins_of_def)
  next
    case False
    then obtain k where k: "cached_at s b = Some k" using ok by (auto simp: bc_ok_def pinned_def)
    note ck = cached_at_Some [OF cok k]
    have "k = i"
    proof (rule ccontr)
      assume "k \<noteq> i"
      then have "bufs t k = bufs s k" by (rule other)
      then show False using cache_okD(5) [OF cok' ck(1) iN(1)] ck iN \<open>k \<noteq> i\<close> by simp
    qed
    then show ?thesis using ck by (simp add: pins_of_def)
  qed
  then have pins: "pins_of pc s j = pins_of pc t j" for j
    using iN other [of j] by (cases "j = i") (auto simp: pins_of_def)
  have "cached_at t c \<noteq> None" if "pc c \<noteq> 0" for c
  proof -
    obtain k where k: "cached_at s c = Some k" using ok \<open>pc c \<noteq> 0\<close> by (auto simp: bc_ok_def pinned_def)
    note ck = cached_at_Some [OF cok k]
    show ?thesis
    proof (cases "k = i")
      case True
      then have "blockno (bufs s i) = b" using pin ck that by (simp add: pins_of_def)
      then show ?thesis using cached_atI [OF cok' iN] ck(3) True by simp
    next
      case False
      then show ?thesis using cached_at_keep [OF cok cok' k] other by simp
    qed
  qed
  then have "bc_ok t pc" by (rule bc_upd_pins [OF cok' pins])
  moreover have "held t i b" using gd g(3) by (simp add: held_def)
  moreover have "i \<notin> lock_set s" "lock_set t = insert i (lock_set s)"
    using gd lock_set_got [OF g(2)] by (auto simp: lock_set_def)
  ultimately show ?thesis using g(1,4) gd by blast
qed

lemma heldD: "held s i b \<Longrightarrow> i < NBUF" "held s i b \<Longrightarrow> locked (bufs s i)" "held s i b \<Longrightarrow> valid (bufs s i)"
  "held s i b \<Longrightarrow> bdev (bufs s i) = ROOTDEV" "held s i b \<Longrightarrow> blockno (bufs s i) = b"
  by (simp_all add: held_def)

lemma held_cong: "bufs t i = bufs s i \<Longrightarrow> held t i b = held s i b"
  by (simp add: held_def)

text \<open>An operation that keeps the block of every buffer keeps the pins with the blocks.\<close>

lemma bc_same_blocks:
  assumes ok: "bc_ok s pc" and ok': "cache_ok t (pins_of pc s)"
    and same: "\<And>i. bdev (bufs t i) = bdev (bufs s i)" "\<And>i. blockno (bufs t i) = blockno (bufs s i)"
  shows "bc_ok t pc"
proof -
  have cok: "cache_ok s (pins_of pc s)" using ok by (simp add: bc_ok_def)
  have "cached_at t b \<noteq> None" if "pc b \<noteq> 0" for b
    using that ok cached_at_keep [OF cok ok' _ same] by (fastforce simp: bc_ok_def pinned_def)
  then show ?thesis by (intro bc_upd_pins [OF ok']) (simp_all add: pins_of_def same)
qed

lemma bc_set_data:
  assumes ok: "bc_ok s pc" and h: "held s i b"
  shows "bc_ok (set_bdata i d s) pc" and "view (set_bdata i d s) = (view s)(b := d)"
    and "same_env s (set_bdata i d s)" and "lock_set (set_bdata i d s) = lock_set s"
    and "held (set_bdata i d s) j c = held s j c"
    and "bufs (set_bdata i d s) = (bufs s)(i := (bufs s i)\<lparr>bdata := d\<rparr>)"
proof -
  have cok: "cache_ok s (pins_of pc s)" using ok by (simp add: bc_ok_def)
  note sp = set_bdata_spec [OF cok heldD(1,2) [OF h]]
  show "bc_ok (set_bdata i d s) pc"
    by (rule bc_same_blocks [OF ok sp(1)]) (auto simp: set_bdata_def)
  show "view (set_bdata i d s) = (view s)(b := d)" using sp(2) heldD(3,5) [OF h] by simp
  show "same_env s (set_bdata i d s)" by (rule sp(3))
qed (auto simp: set_bdata_def lock_set_def held_def)

lemma bc_write:
  assumes ok: "bc_ok s pc" and h: "held s i b" and q: "quiet s"
  shows "\<exists>t. bwrite i s = Inr t \<and> bc_ok t pc \<and> bufs t = bufs s \<and>
    disk t = (disk s)(b := bdata (bufs s i), b + DISK1_START_BLOCK := bdata (bufs s i)) \<and>
    history t = history s @ [(b, bdata (bufs s i)), (b + DISK1_START_BLOCK, bdata (bufs s i))] \<and>
    bcache.more t = bcache.more s \<and> quiet t \<and> (\<forall>c<DISK1_START_BLOCK. view t c = view s c)"
proof -
  have cok: "cache_ok s (pins_of pc s)" using ok by (simp add: bc_ok_def)
  obtain t where t: "bwrite i s = Inr t" "cache_ok t (pins_of pc s)" "bufs t = bufs s"
    "disk t = (disk s)(b := bdata (bufs s i), b + DISK1_START_BLOCK := bdata (bufs s i))"
    "history t = history s @ [(b, bdata (bufs s i)), (b + DISK1_START_BLOCK, bdata (bufs s i))]"
    "bcache.more t = bcache.more s" "force_read_error_pbn t = force_read_error_pbn s"
    "force_disk_fail_id t = force_disk_fail_id s" "\<forall>c<DISK1_START_BLOCK. view t c = view s c"
    using bwrite_spec [OF cok heldD(1,2) [OF h] q heldD(3) [OF h]] heldD(5) [OF h] by metis
  have "bc_ok t pc" by (rule bc_same_blocks [OF ok t(2)]) (simp_all add: t(3))
  moreover have "quiet t" using q t(7,8) by (simp add: quiet_def)
  ultimately show ?thesis using t by blast
qed

lemma bc_release:
  assumes ok: "bc_ok s pc" and h: "held s i b" and clean: "pc b \<noteq> 0 \<or> bdata (bufs s i) = disk s b"
  shows "\<exists>t. brelse i s = Inr t \<and> bc_ok t pc \<and> view t = view s \<and> same_env s t \<and>
    lock_set t = lock_set s - {i} \<and> (\<forall>j. j \<noteq> i \<longrightarrow> bufs t j = bufs s j)"
proof -
  have cok: "cache_ok s (pins_of pc s)" using ok by (simp add: bc_ok_def)
  have "pins_of pc s i \<noteq> 0 \<or> bdata (bufs s i) = disk s (blockno (bufs s i))"
    using clean heldD [OF h] by (auto simp: pins_of_def)
  from brelse_spec [OF cok heldD(1,2) [OF h] this] obtain t where t: "brelse i s = Inr t"
    "cache_ok t (pins_of pc s)" "view t = view s" "same_env s t"
    "bufs t = (bufs s)(i := (bufs s i)\<lparr>locked := False, refcnt := pins_of pc s i\<rparr>)" by blast
  have "bc_ok t pc" by (rule bc_same_blocks [OF ok t(2)]) (simp_all add: t(5))
  then show ?thesis using t by (auto simp: lock_set_def)
qed

lemma bc_change_pin:
  assumes ok: "bc_ok s pc" and h: "held s i b" and t: "cache_ok t ((pins_of pc s)(i := v))"
    and same: "\<And>j. bdev (bufs t j) = bdev (bufs s j)" "\<And>j. blockno (bufs t j) = blockno (bufs s j)"
  shows "bc_ok t (pc(b := v))"
proof -
  have cok: "cache_ok s (pins_of pc s)" using ok by (simp add: bc_ok_def)
  show ?thesis
  proof (rule bc_upd_pins [OF t])
    fix j show "((pins_of pc s)(i := v)) j = pins_of (pc(b := v)) t j"
    proof (cases "j = i")
      case True
      then show ?thesis using heldD [OF h] by (simp add: pins_of_def same)
    next
      case False
      have "blockno (bufs s j) \<noteq> b" if "j < NBUF" "bdev (bufs s j) = ROOTDEV"
        using cache_okD(5) [OF cok that(1) heldD(1) [OF h] that(2) heldD(4) [OF h]] heldD(5) [OF h] False by auto
      then show ?thesis using False by (simp add: pins_of_def same)
    qed
  next
    fix c assume c: "(pc(b := v)) c \<noteq> 0"
    show "cached_at t c \<noteq> None"
    proof (cases "c = b")
      case True
      then show ?thesis using cached_atI [OF t, of i c] heldD [OF h] same by simp
    next
      case False
      with c ok obtain k where k: "cached_at s c = Some k" by (auto simp: bc_ok_def pinned_def)
      then show ?thesis using cached_at_keep [OF cok t k same] by simp
    qed
  qed
qed

lemma bc_pin:
  assumes ok: "bc_ok s pc" and h: "held s i b" and n: "pc b + 1 \<noteq> 0"
  shows "bc_ok (bpin i s) (pc(b := pc b + 1))" and "view (bpin i s) = view s" and "same_env s (bpin i s)"
    and "lock_set (bpin i s) = lock_set s" and "held (bpin i s) j c = held s j c"
    and "bdata (bufs (bpin i s) j) = bdata (bufs s j)"
proof -
  have cok: "cache_ok s (pins_of pc s)" using ok by (simp add: bc_ok_def)
  have p: "pins_of pc s i = pc b" using heldD [OF h] by (simp add: pins_of_def)
  note sp = bpin_spec [OF cok heldD(1,2,3) [OF h], unfolded p, OF n]
  show "bc_ok (bpin i s) (pc(b := pc b + 1))"
    by (rule bc_change_pin [OF ok h sp(1)]) (auto simp: bpin_def)
  show "view (bpin i s) = view s" "same_env s (bpin i s)" by (rule sp)+
qed (auto simp: bpin_def lock_set_def held_def)

lemma bc_unpin:
  assumes ok: "bc_ok s pc" and h: "held s i b"
  shows "bc_ok (bunpin i s) (pc(b := pc b - 1))" and "view (bunpin i s) = view s"
    and "same_env s (bunpin i s)" and "lock_set (bunpin i s) = lock_set s"
    and "held (bunpin i s) j c = held s j c" and "bdata (bufs (bunpin i s) j) = bdata (bufs s j)"
proof -
  have cok: "cache_ok s (pins_of pc s)" using ok by (simp add: bc_ok_def)
  have p: "pins_of pc s i = pc b" using heldD [OF h] by (simp add: pins_of_def)
  note sp = bunpin_spec [OF cok heldD(1,3,2) [OF h], unfolded p]
  show "bc_ok (bunpin i s) (pc(b := pc b - 1))"
    by (rule bc_change_pin [OF ok h sp(1)]) (auto simp: bunpin_def)
  show "view (bunpin i s) = view s" "same_env s (bunpin i s)" by (rule sp)+
qed (auto simp: bunpin_def lock_set_def held_def)

section \<open>RAID-1 under simulated failures\<close>

text \<open>C21: RAID-1 tolerates one failure. Whatever disk or block failure is simulated, a block written
  with \<open>bwrite\<close> is read back by a later \<open>bread\<close> that misses the cache, unless disk 1 and the
  primary copy fail together.\<close>

theorem raid1_read_back:
  assumes w: "bwrite i s = Inr t" and bn: "blockno (bufs s i) = bn"
    and single: "\<not> (force_disk_fail_id s = 1 \<and> force_read_error_pbn s = int bn)"
    and same: "disk u = disk t" "force_disk_fail_id u = force_disk_fail_id s"
      "force_read_error_pbn u = force_read_error_pbn s"
    and miss: "\<forall>k. bdev (bufs u k) = dev \<and> blockno (bufs u k) = bn \<longrightarrow> \<not> valid (bufs u k)"
    and r: "bread dev bn u = Inr (j, v)"
  shows "bdata (bufs v j) = bdata (bufs s i)"
proof -
  obtain u1 where g: "bget dev bn u = Inr (j, u1)"
    using r by (auto simp: bread_def Let_def split: prod.splits if_splits)
  have u1: "\<not> valid (bufs u1 j)" "blockno (bufs u1 j) = bn" "disk u1 = disk u"
    using g miss find_SomeD
    by (fastforce simp: bget_def acquiresleep_buf_def split: option.splits if_splits)+
  have v: "bdata (bufs v j) =
      disk t (if force_disk_fail_id s = 0 \<or> force_read_error_pbn s = int bn then bn + DISK1_START_BLOCK else bn)"
    using r g u1 same by (auto simp: bread_def Let_def virtio_disk_rw_def split: if_splits)
  have "disk t (if force_disk_fail_id s = 0 \<or> force_read_error_pbn s = int bn
      then bn + DISK1_START_BLOCK else bn) = bdata (bufs s i)"
    using w bn single by (auto simp: bwrite_def virtio_disk_rw_def Let_def DISK1_START_BLOCK_def FSSIZE_def)
  with v show ?thesis by simp
qed

text \<open>With the simulated failure of disk 0 (or of this block) \<open>bread\<close> re-reads the mirror over a
  valid cached buffer: changes that are only in the cache, as every logged change is until commit,
  are lost.\<close>

theorem forced_fallback_discards_cached_data:
  assumes c: "List.find (\<lambda>i. bdev (bufs s i) = dev \<and> blockno (bufs s i) = bn) (lru s) = Some i"
    and nl: "\<not> locked (bufs s i)"
    and fail: "force_disk_fail_id s = 0 \<or> force_read_error_pbn s = int bn"
  shows "\<exists>t. bread dev bn s = Inr (i, t) \<and> bdata (bufs t i) = disk s (bn + DISK1_START_BLOCK)"
  using find_SomeD [OF c] assms
  by (auto simp: bread_def bget_def acquiresleep_buf_eq virtio_disk_rw_def Let_def)

section \<open>The failure switches at work\<close>

text \<open>One buffer, locked, holding block 5 with data 9, over a disk of zeros, with disk 0 failing.\<close>

definition raid_state :: "int \<Rightarrow> bool \<Rightarrow> bcache" where
  "raid_state fail lk = \<lparr>bufs = (\<lambda>_. \<lparr>valid = True, bdev = 1, blockno = 5, locked = lk, refcnt = of_bool lk, bdata = (\<lambda>_. 9)\<rparr>),
     lru = [0], disk = (\<lambda>_ _. 0), force_read_error_pbn = -1, force_disk_fail_id = fail, history = []\<rparr>"

lemma bwrite_env:
  assumes "bwrite i s = Inr t"
  shows "force_disk_fail_id t = force_disk_fail_id s" and "force_read_error_pbn t = force_read_error_pbn s"
    and "lru t = lru s"
  using assms by (auto simp: bwrite_def virtio_disk_rw_def Let_def)

theorem raid1_read_back_witness:
  "\<exists>t (u :: bcache) j v. bwrite 0 (raid_state 0 True) = Inr t \<and> disk u = disk t \<and> bread 1 5 u = Inr (j, v) \<and>
     bdata (bufs v j) = (\<lambda>_. 9) \<and> bdata (bufs u j) = (\<lambda>_. 0)"
proof -
  let ?s = "raid_state 0 True"
  obtain t where t: "bwrite 0 ?s = Inr t" by (simp add: bwrite_def raid_state_def Let_def)
  define u where "u = t\<lparr>bufs := (\<lambda>_. zero_buf)\<rparr>"
  have e: "force_disk_fail_id u = 0" "force_read_error_pbn u = -1" "lru u = [0]" "disk u = disk t"
    "bufs u = (\<lambda>_. zero_buf)"
    using bwrite_env [OF t] by (simp_all add: raid_state_def u_def)
  obtain j v where r: "bread 1 5 u = Inr (j, v)"
    using e by (simp add: bread_def bget_def zero_buf_def acquiresleep_buf_def Let_def)
  have f: "force_disk_fail_id ?s = 0" "force_read_error_pbn ?s = -1" "blockno (bufs ?s 0) = 5"
    by (simp_all add: raid_state_def)
  have "bdata (bufs v j) = bdata (bufs ?s 0)"
    by (rule raid1_read_back [OF t f(3) _ _ _ _ _ r]) (simp_all add: e f zero_buf_def)
  then have "bdata (bufs v j) = (\<lambda>_. 9)" by (simp add: raid_state_def)
  moreover have "bdata (bufs u j) = (\<lambda>_. 0)" by (simp add: e(5) zero_buf_def)
  ultimately show ?thesis using t r e(4) by blast
qed

theorem forced_fallback_discards_cached_data_witness:
  "\<exists>t. bread 1 5 (raid_state 0 False) = Inr (0, t) \<and> bdata (bufs t 0) = (\<lambda>_. 0) \<and>
     bdata (bufs (raid_state 0 False) 0) = (\<lambda>_. 9)"
  using forced_fallback_discards_cached_data [of "raid_state 0 False" 1 5 0] by (simp add: raid_state_def)

end
