(* ===== verification/Bytes.thy ===== *)
theory Bytes
  imports Bio
begin

text \<open>
  C structures laid over a disk block: little-endian 16- and 32-bit fields read and written at a
  byte offset. The interface \<open>le_field\<close> is what the log header, the inode table, the indirect
  blocks and the directory entries rely on.
\<close>

unbundle bit_operations_syntax

definition get16 :: "block \<Rightarrow> nat \<Rightarrow> u16" where
  "get16 d off = ucast (d off) OR push_bit 8 (ucast (d (off + 1)))"

definition put16 :: "nat \<Rightarrow> u16 \<Rightarrow> block \<Rightarrow> block" where
  "put16 off v d = d(off := ucast v, off + 1 := ucast (drop_bit 8 v))"

definition get32 :: "block \<Rightarrow> nat \<Rightarrow> u32" where
  "get32 d off = ucast (d off) OR push_bit 8 (ucast (d (off + 1))) OR
     push_bit 16 (ucast (d (off + 2))) OR push_bit 24 (ucast (d (off + 3)))"

definition put32 :: "nat \<Rightarrow> u32 \<Rightarrow> block \<Rightarrow> block" where
  "put32 off v d = d(off := ucast v, off + 1 := ucast (drop_bit 8 v),
     off + 2 := ucast (drop_bit 16 v), off + 3 := ucast (drop_bit 24 v))"

locale le_field =
  fixes get :: "block \<Rightarrow> nat \<Rightarrow> 'w" and put :: "nat \<Rightarrow> 'w \<Rightarrow> block \<Rightarrow> block" and width :: nat
  assumes get_put: "get (put off v d) off = v"
    and get_local: "(\<And>k. k < width \<Longrightarrow> d' (off + k) = d (off + k)) \<Longrightarrow> get d' off = get d off"
    and put_frame: "a < off \<or> off + width \<le> a \<Longrightarrow> put off v d a = d a"
begin

lemma get_put_other:
  assumes "off + width \<le> off' \<or> off' + width \<le> off"
  shows "get (put off v d) off' = get d off'"
  by (rule get_local) (use assms put_frame in auto)

lemma get_fun_upd: "a < off \<or> off + width \<le> a \<Longrightarrow> get (d(a := x)) off = get d off"
  by (rule get_local) auto

text \<open>The loop \<open>for (i = 0; i < n; i++) a[i] = f(i)\<close> over an array field.\<close>

lemma fold_put_frame:
  assumes "a < base \<or> base + n * width \<le> a"
  shows "fold (\<lambda>i. put (base + i * width) (f i)) [0..<n] d a = d a"
  using assms
proof (induction n)
  case (Suc n)
  then have "a < base + n * width \<or> base + n * width + width \<le> a"
    and "a < base \<or> base + n * width \<le> a" by auto
  with Suc.IH put_frame show ?case by simp
qed simp

lemma get_fold_put_other:
  assumes "off + width \<le> base \<or> base + n * width \<le> off"
  shows "get (fold (\<lambda>i. put (base + i * width) (f i)) [0..<n] d) off = get d off"
  by (rule get_local, rule fold_put_frame) (use assms in auto)

lemma get_fold_put:
  assumes "i < n"
  shows "get (fold (\<lambda>i. put (base + i * width) (f i)) [0..<n] d) (base + i * width) = f i"
  using assms
proof (induction n)
  case (Suc n)
  show ?case
  proof (cases "i = n")
    case True
    then show ?thesis by (simp add: get_put)
  next
    case False
    with Suc.prems have "i < n" by simp
    then have "Suc i * width \<le> n * width" by (intro mult_le_mono1) simp
    then have "base + i * width + width \<le> base + n * width" by simp
    with Suc.IH \<open>i < n\<close> show ?thesis by (simp add: get_put_other)
  qed
qed simp

end

interpretation le16: le_field get16 put16 2
proof
  fix off v d show "get16 (put16 off v d) off = v"
    by (rule bit_word_eqI) (auto simp: get16_def put16_def bit_simps)
next
  fix off and d d' :: block
  assume "\<And>k. k < 2 \<Longrightarrow> d' (off + k) = d (off + k)"
  from this [of 0] this [of 1] show "get16 d' off = get16 d off" by (simp add: get16_def)
qed (auto simp: put16_def)

interpretation le32: le_field get32 put32 4
proof
  fix off v d show "get32 (put32 off v d) off = v"
  proof (rule bit_word_eqI)
    fix n assume n: "n < LENGTH(32)"
    consider "n < 8" | "8 \<le> n" "n < 16" | "16 \<le> n" "n < 24" | "24 \<le> n" "n < 32" using n by fastforce
    then show "bit (get32 (put32 off v d) off) n = bit v n"
      by cases (auto simp: get32_def put32_def bit_simps)
  qed
next
  fix off and d d' :: block
  assume "\<And>k. k < 4 \<Longrightarrow> d' (off + k) = d (off + k)"
  from this [of 0] this [of 1] this [of 2] this [of 3] show "get32 d' off = get32 d off"
    by (simp add: get32_def)
qed (auto simp: put32_def)

end
