(* ===== verification/Log.thy ===== *)
theory Log
  imports Bytes
begin

text \<open>
  The write-ahead log (mp4/kernel/log.c) over the buffer cache. \<open>log.lh\<close> is \<open>lh_n\<close> and
  \<open>lh_block\<close>; the header block on disk holds \<open>n\<close> at offset 0 and the block numbers from offset
  4. \<open>begin_op\<close> that has to wait returns \<open>Inl (Sleeps ..)\<close>: the caller retries when woken up.
\<close>

section \<open>State and operations\<close>

record log_state = bcache +
  log_start :: nat
  log_size :: nat
  outstanding :: int
  committing :: bool
  log_dev :: nat
  lh_n :: nat
  lh_block :: "nat \<Rightarrow> nat"

definition MAXOPBLOCKS :: nat where "MAXOPBLOCKS = 10"
definition LOGSIZE :: nat where "LOGSIZE = MAXOPBLOCKS * 3"
definition SIZEOF_LOGHEADER :: nat where "SIZEOF_LOGHEADER = 4 + 4 * LOGSIZE"

text \<open>The fields of a header block: \<open>lh->n\<close> is a C \<open>int\<close>, a negative one makes no iteration.\<close>

definition hdr_n :: "block \<Rightarrow> nat" where
  "hdr_n d = nat (sint (get32 d 0))"

definition hdr_block :: "block \<Rightarrow> nat \<Rightarrow> nat" where
  "hdr_block d i = unat (get32 d (4 + i * 4))"

definition hdr_write :: "nat \<Rightarrow> (nat \<Rightarrow> nat) \<Rightarrow> block \<Rightarrow> block" where
  "hdr_write n blk d = fold (\<lambda>i. put32 (4 + i * 4) (of_nat (blk i))) [0..<n] (put32 0 (of_nat n) d)"

definition install_block :: "nat \<Rightarrow> 'a log_state_scheme \<Rightarrow> 'a log_state_scheme res" where
  "install_block tail s =
     rbind (bread (log_dev s) (log_start s + tail + 1) s) (\<lambda>(lbuf, s1).
     rbind (bread (log_dev s1) (lh_block s1 tail) s1) (\<lambda>(dbuf, s2).
     let s3 = set_bdata dbuf (bdata (bufs s2 lbuf)) s2 in
     rbind (bwrite dbuf s3) (\<lambda>s4.
     let s5 = bunpin dbuf s4 in
     rbind (brelse lbuf s5) (\<lambda>s6. brelse dbuf s6))))"

definition install_trans :: "'a log_state_scheme \<Rightarrow> 'a log_state_scheme res" where
  "install_trans s = for_res install_block [0..<lh_n s] s"

definition read_head :: "'a log_state_scheme \<Rightarrow> 'a log_state_scheme res" where
  "read_head s =
     rbind (bread (log_dev s) (log_start s) s) (\<lambda>(b, s1).
     let lh = bdata (bufs s1 b);
         s2 = s1\<lparr>lh_n := hdr_n lh\<rparr>;
         s3 = s2\<lparr>lh_block := (\<lambda>i. if i < lh_n s2 then hdr_block lh i else lh_block s2 i)\<rparr>
     in brelse b s3)"

definition write_head :: "'a log_state_scheme \<Rightarrow> 'a log_state_scheme res" where
  "write_head s =
     rbind (bread (log_dev s) (log_start s) s) (\<lambda>(b, s1).
     let s2 = set_bdata b (hdr_write (lh_n s1) (lh_block s1) (bdata (bufs s1 b))) s1 in
     rbind (bwrite b s2) (\<lambda>s3. brelse b s3))"

definition recover_from_log :: "'a log_state_scheme \<Rightarrow> 'a log_state_scheme res" where
  "recover_from_log s =
     rbind (read_head s) (\<lambda>s1.
     rbind (install_trans s1) (\<lambda>s2.
     write_head (s2\<lparr>lh_n := 0\<rparr>)))"

definition initlog :: "nat \<Rightarrow> nat \<Rightarrow> nat \<Rightarrow> 'a log_state_scheme \<Rightarrow> 'a log_state_scheme res" where
  "initlog dev logstart nlog s =
     panic_unless (SIZEOF_LOGHEADER < BSIZE) ''initlog: too big logheader''
       (recover_from_log (s\<lparr>log_start := logstart, log_size := nlog, log_dev := dev\<rparr>))"

definition write_log_block :: "nat \<Rightarrow> 'a log_state_scheme \<Rightarrow> 'a log_state_scheme res" where
  "write_log_block tail s =
     rbind (bread (log_dev s) (log_start s + tail + 1) s) (\<lambda>(to, s1).
     rbind (bread (log_dev s1) (lh_block s1 tail) s1) (\<lambda>(from, s2).
     let s3 = set_bdata to (bdata (bufs s2 from)) s2 in
     rbind (bwrite to s3) (\<lambda>s4.
     rbind (brelse from s4) (\<lambda>s5. brelse to s5))))"

definition write_log :: "'a log_state_scheme \<Rightarrow> 'a log_state_scheme res" where
  "write_log s = for_res write_log_block [0..<lh_n s] s"

definition commit :: "'a log_state_scheme \<Rightarrow> 'a log_state_scheme res" where
  "commit s =
     (if lh_n s > 0 then
        rbind (write_log s) (\<lambda>s1.
        rbind (write_head s1) (\<lambda>s2.
        rbind (install_trans s2) (\<lambda>s3.
        write_head (s3\<lparr>lh_n := 0\<rparr>))))
      else Inr s)"

definition begin_op :: "'a log_state_scheme \<Rightarrow> 'a log_state_scheme res" where
  "begin_op s =
     (if committing s then Inl (Sleeps ''log'')
      else if int (lh_n s) + (outstanding s + 1) * int MAXOPBLOCKS > int LOGSIZE then Inl (Sleeps ''log'')
      else Inr (s\<lparr>outstanding := outstanding s + 1\<rparr>))"

definition end_op :: "'a log_state_scheme \<Rightarrow> 'a log_state_scheme res" where
  "end_op s =
     (let s1 = s\<lparr>outstanding := outstanding s - 1\<rparr> in
      if committing s1 then Inl (Panic ''log.committing'')
      else if outstanding s1 = 0 then
        rbind (commit (s1\<lparr>committing := True\<rparr>)) (\<lambda>s2. Inr (s2\<lparr>committing := False\<rparr>))
      else Inr s1)"

text \<open>\<open>b\<close> is a buffer; the search loop leaves \<open>i = n\<close> when the block is not in the log.\<close>

definition log_slot :: "'a log_state_scheme \<Rightarrow> nat \<Rightarrow> nat" where
  "log_slot s bn = (case List.find (\<lambda>i. lh_block s i = bn) [0..<lh_n s] of Some i \<Rightarrow> i | None \<Rightarrow> lh_n s)"

definition log_write :: "nat \<Rightarrow> 'a log_state_scheme \<Rightarrow> 'a log_state_scheme res" where
  "log_write b s =
     (if lh_n s \<ge> LOGSIZE \<or> int (lh_n s) \<ge> int (log_size s) - 1 then Inl (Panic ''too big a transaction'')
      else if outstanding s < 1 then Inl (Panic ''log_write outside of trans'')
      else
        let i = log_slot s (blockno (bufs s b));
            s1 = s\<lparr>lh_block := (lh_block s)(i := blockno (bufs s b))\<rparr>
        in if i = lh_n s1 then Inr ((bpin b s1)\<lparr>lh_n := lh_n s1 + 1\<rparr>) else Inr s1)"

section \<open>The header codec\<close>

lemma hdr_n_write [simp]:
  assumes "n \<le> LOGSIZE"
  shows "hdr_n (hdr_write n blk d) = n"
proof -
  have "get32 (hdr_write n blk d) 0 = of_nat n"
    unfolding hdr_write_def by (subst le32.get_fold_put_other) (simp_all add: le32.get_put)
  moreover have "n < 2 ^ 31" using assms by (simp add: LOGSIZE_def MAXOPBLOCKS_def)
  ultimately show ?thesis by (simp add: hdr_n_def signed_of_nat signed_take_bit_int_eq_self)
qed

lemma hdr_block_write [simp]:
  assumes "i < n" and "blk i < 2 ^ 32"
  shows "hdr_block (hdr_write n blk d) i = blk i"
  using assms unfolding hdr_block_def hdr_write_def
  by (subst le32.get_fold_put) (simp_all add: unsigned_of_nat take_bit_nat_eq_self)

section \<open>One block of the log\<close>

definition log_frame :: "'a log_state_scheme \<Rightarrow> 'a log_state_scheme \<Rightarrow> bool" where
  "log_frame s t \<longleftrightarrow> bcache.more t = bcache.more s"

lemma more_fields:
  assumes "bcache.more t = bcache.more (s :: 'a log_state_scheme)"
  shows "log_start t = log_start s" "log_size t = log_size s" "outstanding t = outstanding s"
    "committing t = committing s" "log_dev t = log_dev s" "lh_n t = lh_n s" "lh_block t = lh_block s"
    "log_state.more t = log_state.more s"
  using assms by (cases s, cases t, simp)+

lemma same_envD:
  assumes "same_env s t"
  shows "disk t = disk s" "history t = history s" "bcache.more t = bcache.more s" "quiet t = quiet s"
  using assms by (simp_all add: same_env_def quiet_def)

lemma view_unlocked:
  assumes ok: "bc_ok s pc" and u: "lock_set s = {}" and p: "pc b = 0"
  shows "view s b = disk s b"
proof -
  have cok: "cache_ok s (pins_of pc s)" using ok by (simp add: bc_ok_def)
  show ?thesis
  proof (cases "cached_at s b")
    case (Some i)
    note c = cached_at_Some [OF cok Some]
    have "\<not> locked (bufs s i)" using u c(1) by (auto simp: lock_set_def)
    moreover have "pins_of pc s i = 0" using p c by (simp add: pins_of_def)
    ultimately show ?thesis using cache_okD(7) [OF cok c(1)] c Some by (simp add: view_def)
  qed (simp add: view_def)
qed

lemma room_unlocked:
  assumes "lock_set s = {}" and "b < DISK1_START_BLOCK" and "quiet s" and "card (pinned pc) < NBUF"
  shows "room_for s pc b"
proof -
  have "\<not> locked (bufs s i)" if "i < NBUF" for i using assms(1) that by (auto simp: lock_set_def)
  with assms show ?thesis by (simp add: room_for_def)
qed

lemma room_one:
  assumes "lock_set s = {i}" and "held s i c" and "pc c = 0" and "c \<noteq> b" and "b < DISK1_START_BLOCK" and "quiet s"
    and "cached_at s b = None \<Longrightarrow> card (pinned pc) + 1 < NBUF"
  shows "room_for s pc b"
proof -
  have "j = i" if "j < NBUF" "locked (bufs s j)" for j using assms(1) that by (auto simp: lock_set_def)
  then have "pc (blockno (bufs s j)) \<noteq> -1 \<and> blockno (bufs s j) \<noteq> b" if "j < NBUF" "locked (bufs s j)" for j
    using assms(2-4) that by (auto simp: held_def)
  with assms(1,5-7) show ?thesis by (simp add: room_for_def)
qed

text \<open>Copying block \<open>src\<close> to block \<open>dst\<close> through the cache and to the disk: the common core of the
  two loops.\<close>

lemma write_log_block_spec:
  assumes ok: "bc_ok s pc" and q: "quiet s" and u: "lock_set s = {}" and dev: "log_dev s = ROOTDEV"
    and lb: "log_start s + tail + 1 < DISK1_START_BLOCK" and hb: "lh_block s tail < DISK1_START_BLOCK"
    and ne: "lh_block s tail \<noteq> log_start s + tail + 1"
    and pins: "card (pinned pc) < NBUF" and h: "pc (lh_block s tail) \<noteq> 0"
    and l: "pc (log_start s + tail + 1) = 0"
  defines "b \<equiv> log_start s + tail + 1" and "v \<equiv> view s (lh_block s tail)"
  shows "\<exists>t. write_log_block tail s = Inr t \<and> bc_ok t pc \<and> quiet t \<and> lock_set t = {} \<and>
    bcache.more t = bcache.more s \<and> disk t = (disk s)(b := v, b + DISK1_START_BLOCK := v) \<and>
    history t = history s @ [(b, v), (b + DISK1_START_BLOCK, v)] \<and>
    (\<forall>c<DISK1_START_BLOCK. view t c = ((view s)(b := v)) c)"
proof -
  define hb where "hb = lh_block s tail"
  have "room_for s pc b"
    using room_unlocked [OF u _ q pins] lb by (simp add: b_def)
  from bread_spec [OF ok this] obtain to s1 where r1: "bread ROOTDEV b s = Inr (to, s1)"
    "bc_ok s1 pc" "held s1 to b" "view s1 = view s" "same_env s s1" "lock_set s1 = {to}"
    using u by auto
  note e1 = same_envD [OF r1(5)]
  have cok1: "cache_ok s1 (pins_of pc s1)" using r1(2) by (simp add: bc_ok_def)
  have "cached_at s1 hb \<noteq> None" using r1(2) h by (simp add: bc_ok_def pinned_def hb_def)
  then have "room_for s1 pc hb"
    using hb q e1(4) l ne by (intro room_one [OF r1(6,3)]) (simp_all add: hb_def b_def)
  from bread_spec [OF r1(2) this] obtain src s2 where r2: "bread ROOTDEV hb s1 = Inr (src, s2)"
    "bc_ok s2 pc" "held s2 src hb" "bdata (bufs s2 src) = view s1 hb" "view s2 = view s1"
    "same_env s1 s2" "src \<notin> lock_set s1" "lock_set s2 = insert src (lock_set s1)"
    "\<forall>j. j \<noteq> src \<longrightarrow> bufs s2 j = bufs s1 j" by blast
  note e2 = same_envD [OF r2(6)]
  have neq: "to \<noteq> src" using r2(7) r1(6) by auto
  have h2: "held s2 to b" using r1(3) r2(9) neq by (simp add: held_def)
  define s3 where "s3 = set_bdata to v s2"
  note sd = bc_set_data [OF r2(2) h2, of v, folded s3_def]
  note e3 = same_envD [OF sd(3)]
  have q3: "quiet s3" using q e1(4) e2(4) e3(4) by simp
  have h3: "held s3 to b" "held s3 src hb" using sd(5) h2 r2(3) by simp_all
  have d3: "bdata (bufs s3 to) = v" using sd(6) by simp
  from bc_write [OF sd(1) h3(1) q3] obtain s4 where w: "bwrite to s3 = Inr s4" "bc_ok s4 pc" "bufs s4 = bufs s3"
    "disk s4 = (disk s3)(b := v, b + DISK1_START_BLOCK := v)"
    "history s4 = history s3 @ [(b, v), (b + DISK1_START_BLOCK, v)]"
    "bcache.more s4 = bcache.more s3" "quiet s4" "\<forall>c<DISK1_START_BLOCK. view s4 c = view s3 c"
    unfolding d3 by blast
  have h4: "held s4 to b" "held s4 src hb" using h3 w(3) by (simp_all add: held_def)
  from bc_release [OF w(2) h4(2)] obtain s5 where r5: "brelse src s4 = Inr s5" "bc_ok s5 pc" "view s5 = view s4"
    "same_env s4 s5" "lock_set s5 = lock_set s4 - {src}" "\<forall>j. j \<noteq> src \<longrightarrow> bufs s5 j = bufs s4 j"
    using h by (auto simp: hb_def)
  note e5 = same_envD [OF r5(4)]
  have h5: "held s5 to b" using h4(1) r5(6) neq by (simp add: held_def)
  have "bdata (bufs s5 to) = disk s5 b"
    using r5(6) neq w(3,4) d3 e5(1) by (simp add: DISK1_START_BLOCK_def FSSIZE_def)
  from bc_release [OF r5(2) h5] this obtain t where r6: "brelse to s5 = Inr t" "bc_ok t pc" "view t = view s5"
    "same_env s5 t" "lock_set t = lock_set s5 - {to}" by blast
  note e6 = same_envD [OF r6(4)]
  have "write_log_block tail s = Inr t"
    using r1(1) r2(1,4) r1(4) w(1) r5(1) r6(1) more_fields(5,7) [OF e1(3)]
    unfolding write_log_block_def dev b_def [symmetric] s3_def v_def hb_def [symmetric]
    by (simp add: dev hb_def [symmetric] Let_def)
  moreover have "lock_set t = {}"
    using r6(5) r5(5) r2(8) r1(6) sd(4) w(3) by (auto simp: lock_set_def)
  moreover have "disk t = (disk s)(b := v, b + DISK1_START_BLOCK := v)"
    using e6(1) e5(1) w(4) e3(1) e2(1) e1(1) by simp
  moreover have "history t = history s @ [(b, v), (b + DISK1_START_BLOCK, v)]"
    using e6(2) e5(2) w(5) e3(2) e2(2) e1(2) by simp
  moreover have "bcache.more t = bcache.more s" using e6(3) e5(3) w(6) e3(3) e2(3) e1(3) by simp
  moreover have "quiet t" using e6(4) e5(4) w(7) by simp
  moreover have "\<forall>c<DISK1_START_BLOCK. view t c = ((view s)(b := v)) c"
    using r6(3) r5(3) w(8) sd(2) r2(5) r1(4) by simp
  ultimately show ?thesis using r6(2) by blast
qed

lemma install_block_spec:
  assumes ok: "bc_ok s pc" and q: "quiet s" and u: "lock_set s = {}" and dev: "log_dev s = ROOTDEV"
    and lb: "log_start s + tail + 1 < DISK1_START_BLOCK" and hlt: "lh_block s tail < DISK1_START_BLOCK"
    and ne: "lh_block s tail \<noteq> log_start s + tail + 1"
    and pins: "card (pinned pc) < NBUF"
    and h: "pc (lh_block s tail) = 0 \<Longrightarrow> card (pinned pc) + 1 < NBUF"
    and l: "pc (log_start s + tail + 1) = 0"
  defines "b \<equiv> lh_block s tail" and "v \<equiv> view s (log_start s + tail + 1)"
  shows "\<exists>t. install_block tail s = Inr t \<and> bc_ok t (pc(b := pc b - 1)) \<and> quiet t \<and> lock_set t = {} \<and>
    bcache.more t = bcache.more s \<and> disk t = (disk s)(b := v, b + DISK1_START_BLOCK := v) \<and>
    history t = history s @ [(b, v), (b + DISK1_START_BLOCK, v)] \<and>
    (\<forall>c<DISK1_START_BLOCK. view t c = ((view s)(b := v)) c)"
proof -
  define lb where "lb = log_start s + tail + 1"
  let ?pc = "pc(b := pc b - 1)"
  have "room_for s pc lb"
    using room_unlocked [OF u _ q pins] lb by (simp add: lb_def)
  from bread_spec [OF ok this] obtain lbuf s1 where r1: "bread ROOTDEV lb s = Inr (lbuf, s1)"
    "bc_ok s1 pc" "held s1 lbuf lb" "bdata (bufs s1 lbuf) = v" "view s1 = view s" "same_env s s1" "lock_set s1 = {lbuf}"
    using u by (auto simp: v_def lb_def)
  note e1 = same_envD [OF r1(6)]
  have "cached_at s1 b \<noteq> None" if "pc b \<noteq> 0" using r1(2) that by (simp add: bc_ok_def pinned_def)
  then have "room_for s1 pc b"
    using hlt q e1(4) l ne h by (intro room_one [OF r1(7,3)]) (auto simp: b_def lb_def)
  from bread_spec [OF r1(2) this] obtain dbuf s2 where r2: "bread ROOTDEV b s1 = Inr (dbuf, s2)"
    "bc_ok s2 pc" "held s2 dbuf b" "view s2 = view s1"
    "same_env s1 s2" "dbuf \<notin> lock_set s1" "lock_set s2 = insert dbuf (lock_set s1)"
    "\<forall>j. j \<noteq> dbuf \<longrightarrow> bufs s2 j = bufs s1 j" by blast
  note e2 = same_envD [OF r2(5)]
  have neq: "lbuf \<noteq> dbuf" using r2(6) r1(7) by auto
  have h2: "held s2 lbuf lb" using r1(3) r2(8) neq by (simp add: held_def)
  have v2: "bdata (bufs s2 lbuf) = v" using r2(8) neq r1(4) by simp
  define s3 where "s3 = set_bdata dbuf v s2"
  note sd = bc_set_data [OF r2(2,3), of v, folded s3_def]
  note e3 = same_envD [OF sd(3)]
  have q3: "quiet s3" using q e1(4) e2(4) e3(4) by simp
  have h3: "held s3 lbuf lb" "held s3 dbuf b" using sd(5) h2 r2(3) by simp_all
  have d3: "bdata (bufs s3 dbuf) = v" using sd(6) by simp
  from bc_write [OF sd(1) h3(2) q3] obtain s4 where w: "bwrite dbuf s3 = Inr s4" "bc_ok s4 pc" "bufs s4 = bufs s3"
    "disk s4 = (disk s3)(b := v, b + DISK1_START_BLOCK := v)"
    "history s4 = history s3 @ [(b, v), (b + DISK1_START_BLOCK, v)]"
    "bcache.more s4 = bcache.more s3" "quiet s4" "\<forall>c<DISK1_START_BLOCK. view s4 c = view s3 c"
    unfolding d3 by blast
  have h4: "held s4 lbuf lb" "held s4 dbuf b" using h3 w(3) by (simp_all add: held_def)
  define s5 where "s5 = bunpin dbuf s4"
  note bu = bc_unpin [OF w(2) h4(2), folded s5_def]
  note e5 = same_envD [OF bu(3)]
  have h5: "held s5 lbuf lb" "held s5 dbuf b" using bu(5) h4 by simp_all
  have dsk: "disk s5 = (disk s)(b := v, b + DISK1_START_BLOCK := v)"
    using e5(1) w(4) e3(1) e2(1) e1(1) by simp
  have lbv: "v = disk s lb" unfolding v_def lb_def by (rule view_unlocked [OF ok u l])
  have dv: "disk s5 lb = v"
    using dsk lbv lb ne by (auto simp: lb_def b_def DISK1_START_BLOCK_def FSSIZE_def)
  have "bdata (bufs s5 lbuf) = v" using bu(6) w(3) sd(6) neq v2 by simp
  then have c6: "bdata (bufs s5 lbuf) = disk s5 lb" using dv by simp
  from bc_release [OF bu(1) h5(1)] c6 obtain s6 where r6: "brelse lbuf s5 = Inr s6" "bc_ok s6 ?pc" "view s6 = view s5"
    "same_env s5 s6" "lock_set s6 = lock_set s5 - {lbuf}" "\<forall>j. j \<noteq> lbuf \<longrightarrow> bufs s6 j = bufs s5 j" by blast
  note e6 = same_envD [OF r6(4)]
  have h6: "held s6 dbuf b" using h5(2) r6(6) neq by (simp add: held_def)
  have "bdata (bufs s6 dbuf) = disk s6 b"
    using r6(6) neq bu(6) w(3) d3 e6(1) dsk by (simp add: DISK1_START_BLOCK_def FSSIZE_def)
  from bc_release [OF r6(2) h6] this obtain t where r7: "brelse dbuf s6 = Inr t" "bc_ok t ?pc" "view t = view s6"
    "same_env s6 t" "lock_set t = lock_set s6 - {dbuf}" by blast
  note e7 = same_envD [OF r7(4)]
  have "install_block tail s = Inr t"
    using r1(1) r2(1) w(1) r6(1) r7(1) more_fields(5,7) [OF e1(3)]
    unfolding install_block_def dev lb_def [symmetric] s3_def s5_def
    by (simp add: dev b_def [symmetric] v2 Let_def)
  moreover have "lock_set t = {}"
    using r7(5) r6(5) bu(4) r2(7) r1(7) sd(4) w(3) by (auto simp: lock_set_def)
  moreover have "disk t = (disk s)(b := v, b + DISK1_START_BLOCK := v)"
    using e7(1) e6(1) dsk by simp
  moreover have "history t = history s @ [(b, v), (b + DISK1_START_BLOCK, v)]"
    using e7(2) e6(2) e5(2) w(5) e3(2) e2(2) e1(2) by simp
  moreover have "bcache.more t = bcache.more s" using e7(3) e6(3) e5(3) w(6) e3(3) e2(3) e1(3) by simp
  moreover have "quiet t" using e7(4) e6(4) e5(4) w(7) by simp
  moreover have "\<forall>c<DISK1_START_BLOCK. view t c = ((view s)(b := v)) c"
    using r7(3) r6(3) bu(2) w(8) sd(2) r2(4) r1(5) by simp
  ultimately show ?thesis using r7(2) by blast
qed

section \<open>The loops as lists of disk writes\<close>

definition apply_writes :: "(nat \<times> block) list \<Rightarrow> (nat \<Rightarrow> block) \<Rightarrow> nat \<Rightarrow> block" where
  "apply_writes ws d = fold (\<lambda>w d. d(fst w := snd w)) ws d"

definition raid :: "(nat \<times> block) list \<Rightarrow> (nat \<times> block) list" where
  "raid ws = concat (map (\<lambda>w. [w, (fst w + DISK1_START_BLOCK, snd w)]) ws)"

lemma apply_writes_simps [simp]:
  "apply_writes [] d = d" "apply_writes (w # ws) d = apply_writes ws (d(fst w := snd w))"
  "apply_writes (xs @ ys) d = apply_writes ys (apply_writes xs d)"
  by (simp_all add: apply_writes_def)

lemma raid_simps [simp]:
  "raid [] = []" "raid (w # ws) = w # (fst w + DISK1_START_BLOCK, snd w) # raid ws"
  "raid (xs @ ys) = raid xs @ raid ys"
  by (simp_all add: raid_def)

lemma apply_writes_other: "b \<notin> fst ` set ws \<Longrightarrow> apply_writes ws d b = d b"
  by (induction ws arbitrary: d) auto

lemma apply_writes_map:
  assumes "inj_on f {..<k}" and "i < k"
  shows "apply_writes (map (\<lambda>i. (f i, g i)) [0..<k]) d (f i) = g i"
  using assms
proof (induction k)
  case (Suc k)
  show ?case
  proof (cases "i = k")
    case False
    then have "i < k" "f i \<noteq> f k" using Suc.prems by (auto simp: inj_on_def)
    moreover have "inj_on f {..<k}" using Suc.prems(1) by (rule inj_on_subset) auto
    ultimately show ?thesis using Suc.IH by simp
  qed simp
qed simp

lemma apply_writes_cong:
  "d c = e c \<Longrightarrow> apply_writes ws d c = apply_writes ws e c"
proof (induction ws arbitrary: d e)
  case (Cons w ws)
  have "(d(fst w := snd w)) c = (e(fst w := snd w)) c" using Cons.prems by simp
  then show ?case by (simp only: apply_writes_simps) (rule Cons.IH)
qed simp

definition log_copies :: "'a log_state_scheme \<Rightarrow> nat \<Rightarrow> (nat \<times> block) list" where
  "log_copies s k = map (\<lambda>i. (log_start s + i + 1, view s (lh_block s i))) [0..<k]"

definition home_copies :: "'a log_state_scheme \<Rightarrow> nat \<Rightarrow> (nat \<times> block) list" where
  "home_copies s k = map (\<lambda>i. (lh_block s i, view s (log_start s + i + 1))) [0..<k]"

text \<open>The log lies below the mirror and away from the logged blocks, which are distinct.\<close>

definition geometry :: "'a log_state_scheme \<Rightarrow> bool" where
  "geometry s \<longleftrightarrow> log_dev s = ROOTDEV \<and> log_start s + lh_n s < DISK1_START_BLOCK \<and>
     inj_on (lh_block s) {..<lh_n s} \<and>
     (\<forall>i<lh_n s. lh_block s i < DISK1_START_BLOCK \<and>
        (lh_block s i < log_start s \<or> log_start s + lh_n s < lh_block s i))"

lemma geometry_more: "bcache.more t = bcache.more s \<Longrightarrow> geometry t = geometry s"
  using more_fields(1,5,6,7) [of t s] by (simp add: geometry_def)

lemma write_log_loop:
  assumes ok: "bc_ok s pc" and q: "quiet s" and u: "lock_set s = {}" and g: "geometry s"
    and pins: "card (pinned pc) < NBUF" and h: "\<And>i. i < lh_n s \<Longrightarrow> pc (lh_block s i) \<noteq> 0"
    and l: "\<And>i. i < lh_n s \<Longrightarrow> pc (log_start s + i + 1) = 0"
  shows "k \<le> lh_n s \<Longrightarrow> \<exists>t. for_res write_log_block [0..<k] s = Inr t \<and> bc_ok t pc \<and> quiet t \<and>
    lock_set t = {} \<and> bcache.more t = bcache.more s \<and>
    disk t = apply_writes (raid (log_copies s k)) (disk s) \<and>
    history t = history s @ raid (log_copies s k) \<and>
    (\<forall>c<DISK1_START_BLOCK. view t c = apply_writes (log_copies s k) (view s) c)"
proof (induction k)
  case 0
  then show ?case using ok q u by (simp add: log_copies_def)
next
  case (Suc k)
  then have kn: "k < lh_n s" by simp
  obtain t where t: "for_res write_log_block [0..<k] s = Inr t" "bc_ok t pc" "quiet t"
    "lock_set t = {}" "bcache.more t = bcache.more s"
    "disk t = apply_writes (raid (log_copies s k)) (disk s)"
    "history t = history s @ raid (log_copies s k)"
    "\<forall>c<DISK1_START_BLOCK. view t c = apply_writes (log_copies s k) (view s) c"
    using Suc by auto
  note m = more_fields [OF t(5)]
  have hk: "lh_block s k < DISK1_START_BLOCK" "lh_block s k < log_start s \<or> log_start s + lh_n s < lh_block s k"
    "log_start s + k + 1 < DISK1_START_BLOCK" "log_dev s = ROOTDEV"
    using g kn by (auto simp: geometry_def)
  have vk: "view t (lh_block s k) = view s (lh_block s k)"
  proof -
    have "lh_block s k \<notin> fst ` set (log_copies s k)" using hk(2) kn by (auto simp: log_copies_def)
    then show ?thesis using t(8) hk(1) by (simp add: apply_writes_other)
  qed
  have "\<exists>v. write_log_block k t = Inr v \<and> bc_ok v pc \<and> quiet v \<and> lock_set v = {} \<and>
    bcache.more v = bcache.more t \<and>
    disk v = (disk t)(log_start s + k + 1 := view s (lh_block s k),
      log_start s + k + 1 + DISK1_START_BLOCK := view s (lh_block s k)) \<and>
    history v = history t @ [(log_start s + k + 1, view s (lh_block s k)),
      (log_start s + k + 1 + DISK1_START_BLOCK, view s (lh_block s k))] \<and>
    (\<forall>c<DISK1_START_BLOCK. view v c = ((view t)(log_start s + k + 1 := view s (lh_block s k))) c)"
    using write_log_block_spec [OF t(2-4), of k, unfolded m vk] hk h [OF kn] l [OF kn] pins kn by auto
  then obtain v where v: "write_log_block k t = Inr v" "bc_ok v pc" "quiet v" "lock_set v = {}"
    "bcache.more v = bcache.more t"
    "disk v = (disk t)(log_start s + k + 1 := view s (lh_block s k),
      log_start s + k + 1 + DISK1_START_BLOCK := view s (lh_block s k))"
    "history v = history t @ [(log_start s + k + 1, view s (lh_block s k)),
      (log_start s + k + 1 + DISK1_START_BLOCK, view s (lh_block s k))]"
    "\<forall>c<DISK1_START_BLOCK. view v c = ((view t)(log_start s + k + 1 := view s (lh_block s k))) c"
    by blast
  have "for_res write_log_block [0..<Suc k] s = Inr v"
    using t(1) v(1) by (simp add: for_res_append)
  moreover have "log_copies s (Suc k) = log_copies s k @ [(log_start s + k + 1, view s (lh_block s k))]"
    by (simp add: log_copies_def)
  ultimately show ?case using v t by (intro exI [of _ v]) simp
qed

definition unpin_first :: "'a log_state_scheme \<Rightarrow> nat \<Rightarrow> (nat \<Rightarrow> u32) \<Rightarrow> nat \<Rightarrow> u32" where
  "unpin_first s k pc = (\<lambda>b. if b \<in> lh_block s ` {..<k} then pc b - 1 else pc b)"

lemma install_loop:
  assumes ok: "bc_ok s pc" and q: "quiet s" and u: "lock_set s = {}" and g: "geometry s"
    and pins: "\<And>k. k < lh_n s \<Longrightarrow> card (pinned (unpin_first s k pc)) < NBUF"
    and h: "\<And>k. k < lh_n s \<Longrightarrow> pc (lh_block s k) = 0 \<Longrightarrow> card (pinned (unpin_first s k pc)) + 1 < NBUF"
    and l: "\<And>i. i < lh_n s \<Longrightarrow> pc (log_start s + i + 1) = 0"
  shows "k \<le> lh_n s \<Longrightarrow> \<exists>t. for_res install_block [0..<k] s = Inr t \<and> bc_ok t (unpin_first s k pc) \<and>
    quiet t \<and> lock_set t = {} \<and> bcache.more t = bcache.more s \<and>
    disk t = apply_writes (raid (home_copies s k)) (disk s) \<and>
    history t = history s @ raid (home_copies s k) \<and>
    (\<forall>c<DISK1_START_BLOCK. view t c = apply_writes (home_copies s k) (view s) c)"
proof (induction k)
  case 0
  then show ?case using ok q u by (simp add: home_copies_def unpin_first_def)
next
  case (Suc k)
  then have kn: "k < lh_n s" by simp
  let ?pk = "unpin_first s k pc" and ?b = "lh_block s k" and ?v = "view s (log_start s + k + 1)"
  obtain t where t: "for_res install_block [0..<k] s = Inr t" "bc_ok t ?pk" "quiet t"
    "lock_set t = {}" "bcache.more t = bcache.more s"
    "disk t = apply_writes (raid (home_copies s k)) (disk s)"
    "history t = history s @ raid (home_copies s k)"
    "\<forall>c<DISK1_START_BLOCK. view t c = apply_writes (home_copies s k) (view s) c"
    using Suc by auto
  note m = more_fields [OF t(5)]
  have hk: "?b < DISK1_START_BLOCK" "?b \<noteq> log_start s + k + 1"
    "log_start s + k + 1 < DISK1_START_BLOCK" "log_dev s = ROOTDEV"
    using g kn by (auto simp: geometry_def)
  have away: "log_start s + k + 1 \<noteq> lh_block s i" if "i < lh_n s" for i
    using g kn that by (auto simp: geometry_def)
  have vk: "view t (log_start s + k + 1) = ?v"
  proof -
    have "log_start s + k + 1 \<notin> fst ` set (home_copies s k)"
    proof
      assume "log_start s + k + 1 \<in> fst ` set (home_copies s k)"
      then obtain i where "i < k" "log_start s + k + 1 = lh_block s i" by (auto simp: home_copies_def)
      with away [of i] kn show False by simp
    qed
    then show ?thesis using t(8) hk(3) by (simp add: apply_writes_other)
  qed
  have bk: "?pk ?b = pc ?b"
  proof -
    have "inj_on (lh_block s) {..<lh_n s}" using g by (simp add: geometry_def)
    then have "?b \<notin> lh_block s ` {..<k}" using kn by (auto dest: inj_onD)
    then show ?thesis by (simp add: unpin_first_def)
  qed
  have lk: "?pk (log_start s + k + 1) = 0"
  proof -
    have "log_start s + k + 1 \<notin> lh_block s ` {..<k}"
    proof
      assume "log_start s + k + 1 \<in> lh_block s ` {..<k}"
      then obtain i where "i < k" "log_start s + k + 1 = lh_block s i" by blast
      with away [of i] kn show False by simp
    qed
    with l [OF kn] show ?thesis by (simp add: unpin_first_def)
  qed
  have "\<exists>v. install_block k t = Inr v \<and> bc_ok v (?pk(?b := ?pk ?b - 1)) \<and> quiet v \<and> lock_set v = {} \<and>
    bcache.more v = bcache.more t \<and> disk v = (disk t)(?b := ?v, ?b + DISK1_START_BLOCK := ?v) \<and>
    history v = history t @ [(?b, ?v), (?b + DISK1_START_BLOCK, ?v)] \<and>
    (\<forall>c<DISK1_START_BLOCK. view v c = ((view t)(?b := ?v)) c)"
    using install_block_spec [OF t(2-4), of k, unfolded m vk, OF hk(4) hk(3) hk(1) hk(2) pins [OF kn] _ lk]
      h [OF kn] bk by simp
  then obtain v where v: "install_block k t = Inr v" "bc_ok v (?pk(?b := ?pk ?b - 1))" "quiet v" "lock_set v = {}"
    "bcache.more v = bcache.more t" "disk v = (disk t)(?b := ?v, ?b + DISK1_START_BLOCK := ?v)"
    "history v = history t @ [(?b, ?v), (?b + DISK1_START_BLOCK, ?v)]"
    "\<forall>c<DISK1_START_BLOCK. view v c = ((view t)(?b := ?v)) c"
    by blast
  have "for_res install_block [0..<Suc k] s = Inr v"
    using t(1) v(1) by (simp add: for_res_append)
  moreover have "home_copies s (Suc k) = home_copies s k @ [(?b, ?v)]" by (simp add: home_copies_def)
  moreover have "?pk(?b := ?pk ?b - 1) = unpin_first s (Suc k) pc"
    using bk by (auto simp: unpin_first_def lessThan_Suc)
  ultimately show ?case using v t by (intro exI [of _ v]) simp
qed

lemma write_head_spec:
  assumes ok: "bc_ok s pc" and q: "quiet s" and u: "lock_set s = {}" and dev: "log_dev s = ROOTDEV"
    and lt: "log_start s < DISK1_START_BLOCK" and pins: "card (pinned pc) < NBUF"
  defines "b \<equiv> log_start s" and "v \<equiv> hdr_write (lh_n s) (lh_block s) (view s (log_start s))"
  shows "\<exists>t. write_head s = Inr t \<and> bc_ok t pc \<and> quiet t \<and> lock_set t = {} \<and>
    bcache.more t = bcache.more s \<and> disk t = apply_writes (raid [(b, v)]) (disk s) \<and>
    history t = history s @ raid [(b, v)] \<and>
    (\<forall>c<DISK1_START_BLOCK. view t c = apply_writes [(b, v)] (view s) c)"
proof -
  have "room_for s pc b" using room_unlocked [OF u _ q pins] lt by (simp add: b_def)
  from bread_spec [OF ok this] obtain i s1 where r: "bread ROOTDEV b s = Inr (i, s1)"
    "bc_ok s1 pc" "held s1 i b" "bdata (bufs s1 i) = view s b" "view s1 = view s" "same_env s s1"
    "lock_set s1 = {i}" using u by auto
  note e1 = same_envD [OF r(6)] and m = more_fields [OF same_envD(3) [OF r(6)]]
  define s2 where "s2 = set_bdata i v s1"
  note sd = bc_set_data [OF r(2,3), of v, folded s2_def]
  note e2 = same_envD [OF sd(3)]
  have h2: "held s2 i b" using sd(5) r(3) by simp
  have q2: "quiet s2" using q e1(4) e2(4) by simp
  have d2: "bdata (bufs s2 i) = v" using sd(6) by simp
  from bc_write [OF sd(1) h2 q2] obtain s3 where w: "bwrite i s2 = Inr s3" "bc_ok s3 pc" "bufs s3 = bufs s2"
    "disk s3 = (disk s2)(b := v, b + DISK1_START_BLOCK := v)"
    "history s3 = history s2 @ [(b, v), (b + DISK1_START_BLOCK, v)]"
    "bcache.more s3 = bcache.more s2" "quiet s3" "\<forall>c<DISK1_START_BLOCK. view s3 c = view s2 c"
    unfolding d2 by blast
  have h3: "held s3 i b" using h2 w(3) by (simp add: held_def)
  have "bdata (bufs s3 i) = disk s3 b" using w(3,4) d2 by (simp add: DISK1_START_BLOCK_def FSSIZE_def)
  with bc_release [OF w(2) h3] obtain t where t: "brelse i s3 = Inr t" "bc_ok t pc" "view t = view s3"
    "same_env s3 t" "lock_set t = lock_set s3 - {i}" by blast
  note e4 = same_envD [OF t(4)]
  have "write_head s = Inr t"
    using r(1) w(1) t(1) m unfolding write_head_def dev b_def [symmetric] s2_def v_def
    by (simp add: r(4) [unfolded b_def] b_def Let_def)
  moreover have "lock_set t = {}" using t(5) w(3) sd(4) r(7) by (auto simp: lock_set_def)
  moreover have "bcache.more t = bcache.more s" using e4(3) w(6) e2(3) e1(3) by simp
  moreover have "disk t = apply_writes (raid [(b, v)]) (disk s)" using e4(1) w(4) e2(1) e1(1) by simp
  moreover have "history t = history s @ raid [(b, v)]" using e4(2) w(5) e2(2) e1(2) by simp
  moreover have "quiet t" using e4(4) w(7) by simp
  moreover have "\<forall>c<DISK1_START_BLOCK. view t c = apply_writes [(b, v)] (view s) c"
    using t(3) w(8) sd(2) r(5) by simp
  ultimately show ?thesis using t(2) by blast
qed

section \<open>Commit\<close>

lemma bc_cong:
  assumes "bufs t = bufs s" and "lru t = lru s" and "disk t = disk s"
  shows "bc_ok t pc = bc_ok s pc" and "view t = view s" and "lock_set t = lock_set s"
proof -
  have "cached_at t b = cached_at s b" for b using assms by (simp add: cached_at_def)
  moreover have "pins_of pc t = pins_of pc s" by (rule ext) (simp add: pins_of_def assms)
  ultimately show "bc_ok t pc = bc_ok s pc" "view t = view s" "lock_set t = lock_set s"
    by (simp_all only: bc_ok_def cache_ok_def view_def [abs_def] lock_set_def assms)
qed

lemma log_updates [simp]:
  "bc_ok (s\<lparr>lh_n := n\<rparr>) pc = bc_ok s pc" "view (s\<lparr>lh_n := n\<rparr>) = view s"
  "lock_set (s\<lparr>lh_n := n\<rparr>) = lock_set s" "quiet (s\<lparr>lh_n := n\<rparr>) = quiet s"
  "bc_ok (s\<lparr>lh_block := f\<rparr>) pc = bc_ok s pc" "view (s\<lparr>lh_block := f\<rparr>) = view s"
  "lock_set (s\<lparr>lh_block := f\<rparr>) = lock_set s" "quiet (s\<lparr>lh_block := f\<rparr>) = quiet s"
  "bc_ok (s\<lparr>outstanding := k\<rparr>) pc = bc_ok s pc" "view (s\<lparr>outstanding := k\<rparr>) = view s"
  "lock_set (s\<lparr>outstanding := k\<rparr>) = lock_set s" "quiet (s\<lparr>outstanding := k\<rparr>) = quiet s"
  "bc_ok (s\<lparr>committing := c\<rparr>) pc = bc_ok s pc" "view (s\<lparr>committing := c\<rparr>) = view s"
  "lock_set (s\<lparr>committing := c\<rparr>) = lock_set s" "quiet (s\<lparr>committing := c\<rparr>) = quiet s"
  by ((rule bc_cong; simp) | simp add: quiet_def)+

definition homes :: "'a log_state_scheme \<Rightarrow> nat set" where
  "homes s = lh_block s ` {..<lh_n s}"

definition home_pins :: "'a log_state_scheme \<Rightarrow> nat \<Rightarrow> u32" where
  "home_pins s b = of_bool (b \<in> homes s)"

definition log_area :: "'a log_state_scheme \<Rightarrow> nat set" where
  "log_area s = {log_start s ..< log_start s + log_size s}"

text \<open>Between operations: each logged block is pinned in the cache exactly once, everything else
  agrees with the disk, and the header on disk is empty.\<close>

definition log_ok :: "'a log_state_scheme \<Rightarrow> bool" where
  "log_ok s \<longleftrightarrow> quiet s \<and> log_dev s = ROOTDEV \<and> bc_ok s (home_pins s) \<and>
     lh_n s < log_size s \<and> log_size s \<le> LOGSIZE \<and> log_start s + log_size s \<le> DISK1_START_BLOCK \<and>
     inj_on (lh_block s) {..<lh_n s} \<and> (\<forall>b \<in> homes s. b < DISK1_START_BLOCK \<and> b \<notin> log_area s) \<and>
     hdr_n (disk s (log_start s)) = 0"

lemma pinned_home_pins [simp]: "pinned (home_pins s) = homes s"
  by (auto simp: pinned_def home_pins_def)

lemma log_ok_geometry: "log_ok s \<Longrightarrow> geometry s"
  by (auto simp: log_ok_def geometry_def homes_def log_area_def not_le)

lemma card_homes: "log_ok s \<Longrightarrow> card (homes s) = lh_n s \<and> card (homes s) < NBUF"
  by (simp add: log_ok_def homes_def card_image LOGSIZE_def MAXOPBLOCKS_def NBUF_def)

definition header_block :: "'a log_state_scheme \<Rightarrow> block" where
  "header_block s = hdr_write (lh_n s) (lh_block s) (view s (log_start s))"

definition commit_writes :: "'a log_state_scheme \<Rightarrow> (nat \<times> block) list" where
  "commit_writes s =
     (if lh_n s = 0 then []
      else log_copies s (lh_n s) @ [(log_start s, header_block s)] @
           map (\<lambda>i. (lh_block s i, view s (lh_block s i))) [0..<lh_n s] @
           [(log_start s, hdr_write 0 (lh_block s) (header_block s))])"

text \<open>The writes of a commit, in the order they reach the disk: copies into the log, the header,
  copies to the home blocks, the cleared header; each goes to both mirrors.\<close>

lemma commit_spec:
  assumes ok: "log_ok s" and u: "lock_set s = {}"
  shows "\<exists>t. commit s = Inr t \<and> bc_ok t (\<lambda>_. 0) \<and> quiet t \<and> lock_set t = {} \<and>
    bcache.more t = bcache.more (s\<lparr>lh_n := 0\<rparr>) \<and>
    disk t = apply_writes (raid (commit_writes s)) (disk s) \<and>
    history t = history s @ raid (commit_writes s) \<and>
    (\<forall>c<DISK1_START_BLOCK. view t c = apply_writes (commit_writes s) (view s) c)"
proof (cases "lh_n s = 0")
  case True
  then have "home_pins s = (\<lambda>_. 0)" by (auto simp: home_pins_def homes_def)
  moreover have "bcache.more (s\<lparr>lh_n := 0\<rparr>) = bcache.more s" using True by (cases s) simp
  ultimately show ?thesis using ok u True by (simp add: commit_def commit_writes_def log_ok_def)
next
  case False
  let ?n = "lh_n s" and ?st = "log_start s"
  note g = log_ok_geometry [OF ok]
  have bc: "bc_ok s (home_pins s)" and q: "quiet s" and dev: "log_dev s = ROOTDEV"
    and nsz: "?n < log_size s" and top: "?st + log_size s \<le> DISK1_START_BLOCK"
    using ok by (simp_all add: log_ok_def)
  have area: "b \<notin> homes s" if "?st \<le> b" "b \<le> ?st + ?n" for b
    using ok that nsz by (auto simp: log_ok_def log_area_def)
  have pins: "card (pinned (home_pins s)) < NBUF" using card_homes [OF ok] by simp
  have hp: "home_pins s (lh_block s i) = 1" if "i < ?n" for i using that by (simp add: home_pins_def homes_def)
  have lp: "home_pins s (?st + i + 1) = 0" if "i < ?n" for i
    using area [of "?st + i + 1"] that by (simp add: home_pins_def)
  obtain s1 where s1: "for_res write_log_block [0..<?n] s = Inr s1" "bc_ok s1 (home_pins s)" "quiet s1"
    "lock_set s1 = {}" "bcache.more s1 = bcache.more s"
    "disk s1 = apply_writes (raid (log_copies s ?n)) (disk s)"
    "history s1 = history s @ raid (log_copies s ?n)"
    "\<forall>c<DISK1_START_BLOCK. view s1 c = apply_writes (log_copies s ?n) (view s) c"
    using write_log_loop [OF bc q u g pins, of ?n] hp lp by auto
  note m1 = more_fields [OF s1(5)]
  have st: "?st < DISK1_START_BLOCK" using top nsz by simp
  have v1: "view s1 ?st = view s ?st"
    using s1(8) st by (auto simp: log_copies_def intro!: apply_writes_other)
  obtain s2 where s2: "write_head s1 = Inr s2" "bc_ok s2 (home_pins s)" "quiet s2" "lock_set s2 = {}"
    "bcache.more s2 = bcache.more s1" "disk s2 = apply_writes (raid [(?st, header_block s)]) (disk s1)"
    "history s2 = history s1 @ raid [(?st, header_block s)]"
    "\<forall>c<DISK1_START_BLOCK. view s2 c = apply_writes [(?st, header_block s)] (view s1) c"
    using write_head_spec [OF s1(2-4), unfolded m1, OF dev st pins, unfolded v1, folded header_block_def]
    by blast
  have more2: "bcache.more s2 = bcache.more s" using s2(5) s1(5) by simp
  note m2 = more_fields [OF more2]
  have vlog: "view s2 (?st + i + 1) = view s (lh_block s i)" if "i < ?n" for i
  proof -
    have lt: "?st + i + 1 < DISK1_START_BLOCK" using top nsz that by simp
    have inj: "inj_on (\<lambda>i. ?st + i + 1) {..<?n}" by (simp add: inj_on_def)
    have "view s1 (?st + i + 1) = view s (lh_block s i)"
      using s1(8) lt apply_writes_map [OF inj that] by (simp add: log_copies_def)
    then show ?thesis using s2(8) lt by simp
  qed
  have hc: "home_copies s2 ?n = map (\<lambda>i. (lh_block s i, view s (lh_block s i))) [0..<?n]"
    unfolding home_copies_def m2 using vlog by simp
  have g2: "geometry s2" using g geometry_more [OF more2] by simp
  have uf: "pinned (unpin_first s2 k (home_pins s)) \<subseteq> homes s" if "k \<le> ?n" for k
    using that by (auto simp: unpin_first_def pinned_def m2 home_pins_def homes_def split: if_splits)
  have fin: "finite (homes s)" by (simp add: homes_def)
  have pk: "card (pinned (unpin_first s2 k (home_pins s))) < NBUF" if "k \<le> ?n" for k
    using card_mono [OF fin uf [OF that]] card_homes [OF ok] by simp
  obtain s3 where s3: "for_res install_block [0..<?n] s2 = Inr s3"
    "bc_ok s3 (unpin_first s2 ?n (home_pins s))" "quiet s3" "lock_set s3 = {}"
    "bcache.more s3 = bcache.more s2" "disk s3 = apply_writes (raid (home_copies s2 ?n)) (disk s2)"
    "history s3 = history s2 @ raid (home_copies s2 ?n)"
    "\<forall>c<DISK1_START_BLOCK. view s3 c = apply_writes (home_copies s2 ?n) (view s2) c"
    using install_loop [OF s2(2-4) g2, of ?n] hp lp pk unfolding m2 by auto
  have more3: "bcache.more s3 = bcache.more s" using s3(5) more2 by simp
  note m3 = more_fields [OF more3]
  have zero: "unpin_first s2 ?n (home_pins s) = (\<lambda>_. 0)"
    by (auto simp: unpin_first_def m2 home_pins_def homes_def)
  define s4 where "s4 = s3\<lparr>lh_n := 0\<rparr>"
  have v4: "view s4 ?st = header_block s"
  proof -
    have "?st \<notin> fst ` set (home_copies s2 ?n)" using area [of ?st] by (auto simp: hc homes_def)
    then have "view s3 ?st = view s2 ?st" using s3(8) st by (simp add: apply_writes_other)
    then show ?thesis using s2(8) st by (simp add: s4_def)
  qed
  have p4: "card (pinned (\<lambda>_. 0 :: u32)) < NBUF" by (simp add: pinned_def NBUF_def)
  have b4: "bc_ok s4 (\<lambda>_. 0)" "quiet s4" "lock_set s4 = {}" "log_dev s4 = ROOTDEV"
    "log_start s4 < DISK1_START_BLOCK" using s3 zero dev m3 st by (simp_all add: s4_def)
  let ?h0 = "hdr_write 0 (lh_block s) (header_block s)"
  have f4: "lh_n s4 = 0" "lh_block s4 = lh_block s" "log_start s4 = ?st" using m3 by (simp_all add: s4_def)
  obtain t where t: "write_head s4 = Inr t" "bc_ok t (\<lambda>_. 0)" "quiet t" "lock_set t = {}"
    "bcache.more t = bcache.more s4" "disk t = apply_writes (raid [(?st, ?h0)]) (disk s4)"
    "history t = history s4 @ raid [(?st, ?h0)]"
    "\<forall>c<DISK1_START_BLOCK. view t c = apply_writes [(?st, ?h0)] (view s4) c"
    using write_head_spec [OF b4 p4, unfolded f4, unfolded v4] by blast
  have cw: "commit_writes s = log_copies s ?n @ [(?st, header_block s)] @ home_copies s2 ?n @ [(?st, ?h0)]"
    using False by (simp add: commit_writes_def hc)
  have "commit s = Inr t"
    using False s1(1) s2(1) s3(1) t(1) m1 m2 m3
    by (simp add: commit_def write_log_def install_trans_def s4_def)
  moreover have "bcache.more t = bcache.more (s\<lparr>lh_n := 0\<rparr>)"
    using t(5) more3 by (cases s, cases s3) (simp add: s4_def)
  moreover have "disk t = apply_writes (raid (commit_writes s)) (disk s)"
    using t(6) s3(6) s2(6) s1(6) by (simp add: cw s4_def)
  moreover have "history t = history s @ raid (commit_writes s)"
    using t(7) s3(7) s2(7) s1(7) by (simp add: cw s4_def)
  moreover have "view t c = apply_writes (commit_writes s) (view s) c" if c: "c < DISK1_START_BLOCK" for c
  proof -
    have "view t c = apply_writes [(?st, ?h0)] (view s3) c" using t(8) c by (simp add: s4_def)
    also have "\<dots> = apply_writes (home_copies s2 ?n @ [(?st, ?h0)]) (view s2) c"
      using s3(8) c by (simp add: apply_writes_cong [of "view s3"])
    also have "\<dots> = apply_writes ([(?st, header_block s)] @ home_copies s2 ?n @ [(?st, ?h0)]) (view s1) c"
      using s2(8) c apply_writes_cong [of "view s2" c "(view s1)(?st := header_block s)"] by simp
    also have "\<dots> = apply_writes (commit_writes s) (view s) c"
      unfolding cw apply_writes_simps(3) [of "log_copies s ?n"]
      by (rule apply_writes_cong) (use s1(8) c in blast)
    finally show ?thesis .
  qed
  ultimately show ?thesis using t(2-4) by blast
qed

lemma raid_primary:
  assumes "\<forall>w \<in> set ws. fst w < DISK1_START_BLOCK" and "b < DISK1_START_BLOCK"
  shows "apply_writes (take k (raid ws)) d b = apply_writes (take ((k + 1) div 2) ws) d b"
  using assms(1)
proof (induction ws arbitrary: k d)
  case (Cons w ws)
  show ?case
  proof (cases k)
    case 0 then show ?thesis by simp
  next
    case (Suc j)
    show ?thesis
    proof (cases j)
      case 0 then show ?thesis using Suc by simp
    next
      case (Suc i)
      have e: "(k + 1) div 2 = Suc ((i + 1) div 2)" using \<open>k = Suc j\<close> Suc by simp
      have "apply_writes (take k (raid (w # ws))) d b =
          apply_writes (take i (raid ws)) (d(fst w := snd w, fst w + DISK1_START_BLOCK := snd w)) b"
        using \<open>k = Suc j\<close> Suc by simp
      also have "\<dots> = apply_writes (take ((i + 1) div 2) ws) (d(fst w := snd w, fst w + DISK1_START_BLOCK := snd w)) b"
        by (rule Cons.IH) (use Cons.prems in simp)
      also have "\<dots> = apply_writes (take ((i + 1) div 2) ws) (d(fst w := snd w)) b"
        by (rule apply_writes_cong) (use assms(2) in simp)
      finally show ?thesis unfolding e by simp
    qed
  qed
qed simp

lemma raid_primary_all:
  assumes "\<forall>w \<in> set ws. fst w < DISK1_START_BLOCK" and "b < DISK1_START_BLOCK"
  shows "apply_writes (raid ws) d b = apply_writes ws d b"
proof -
  have "length (raid ws) = 2 * length ws" by (induction ws) auto
  then show ?thesis using raid_primary [OF assms, of "2 * length ws"] by simp
qed

lemma raid_mirror:
  assumes "\<forall>w \<in> set ws. fst w < DISK1_START_BLOCK" and "b < DISK1_START_BLOCK"
  shows "apply_writes (raid ws) d (b + DISK1_START_BLOCK) = apply_writes ws (\<lambda>c. d (c + DISK1_START_BLOCK)) b"
  using assms(1)
proof (induction ws arbitrary: d)
  case (Cons w ws)
  let ?d = "d(fst w := snd w, fst w + DISK1_START_BLOCK := snd w)"
  have "apply_writes (raid (w # ws)) d (b + DISK1_START_BLOCK) =
      apply_writes ws (\<lambda>c. ?d (c + DISK1_START_BLOCK)) b"
    using Cons by simp
  also have "\<dots> = apply_writes ws ((\<lambda>c. d (c + DISK1_START_BLOCK))(fst w := snd w)) b"
    by (rule apply_writes_cong) (use Cons.prems in auto)
  finally show ?case by simp
qed simp

definition data_block :: "'a log_state_scheme \<Rightarrow> nat \<Rightarrow> bool" where
  "data_block s b \<longleftrightarrow> b < DISK1_START_BLOCK \<and> b \<notin> log_area s"

definition home_list :: "'a log_state_scheme \<Rightarrow> (nat \<times> block) list" where
  "home_list s = map (\<lambda>i. (lh_block s i, view s (lh_block s i))) [0..<lh_n s]"

lemma home_list_addr: "fst ` set (home_list s) = homes s"
  by (auto simp: home_list_def homes_def image_image)

lemma length_home_list [simp]: "length (home_list s) = lh_n s" "length (log_copies s k) = k"
  by (simp_all add: home_list_def log_copies_def)

lemma apply_home_list:
  assumes "log_ok s"
  shows "apply_writes (home_list s) d b = (if b \<in> homes s then view s b else d b)"
proof (cases "b \<in> homes s")
  case True
  then obtain i where i: "i < lh_n s" "b = lh_block s i" by (auto simp: homes_def)
  have "inj_on (lh_block s) {..<lh_n s}" using assms by (simp add: log_ok_def)
  from apply_writes_map [OF this i(1)] show ?thesis using True i(2) by (simp add: home_list_def)
next
  case False
  then show ?thesis using apply_writes_other [of b "home_list s" d] home_list_addr by auto
qed

lemma log_copies_area: "log_ok s \<Longrightarrow> k \<le> lh_n s \<Longrightarrow> fst ` set (log_copies s k) \<subseteq> log_area s - {log_start s}"
  by (auto simp: log_copies_def log_area_def log_ok_def)

lemma commit_writes_primary: "log_ok s \<Longrightarrow> \<forall>w \<in> set (commit_writes s). fst w < DISK1_START_BLOCK"
  by (auto simp: commit_writes_def log_copies_def log_ok_def homes_def)

lemma home_not_start: "log_ok s \<Longrightarrow> log_start s \<notin> homes s"
  by (auto simp: log_ok_def log_area_def)

lemma commit_writes_eq:
  "0 < lh_n s \<Longrightarrow> commit_writes s = log_copies s (lh_n s) @ [(log_start s, header_block s)] @ home_list s @
     [(log_start s, hdr_write 0 (lh_block s) (header_block s))]"
  by (simp add: commit_writes_def home_list_def)

lemma apply_commit_writes:
  assumes ok: "log_ok s" and b: "data_block s b"
  shows "apply_writes (commit_writes s) d b = (if b \<in> homes s then view s b else d b)"
proof (cases "lh_n s = 0")
  case True
  then show ?thesis by (simp add: commit_writes_def homes_def)
next
  case False
  have ns: "b \<noteq> log_start s" and na: "b \<notin> fst ` set (log_copies s (lh_n s))"
    using b log_copies_area [OF ok order_refl] ok by (auto simp: data_block_def log_area_def log_ok_def)
  show ?thesis
    using False ns na by (simp add: commit_writes_eq apply_home_list [OF ok] apply_writes_other)
qed

lemma apply_commit_start:
  assumes ok: "log_ok s"
  shows "hdr_n (apply_writes (commit_writes s) (disk s) (log_start s)) = 0"
proof (cases "lh_n s = 0")
  case True
  then show ?thesis using ok by (simp add: commit_writes_def log_ok_def)
next
  case False
  then show ?thesis by (simp add: commit_writes_eq)
qed

lemma view_clean:
  assumes "log_ok s" and "lock_set s = {}" and "b \<notin> homes s"
  shows "view s b = disk s b"
  by (rule view_unlocked [of _ "home_pins s"]) (use assms in \<open>simp_all add: log_ok_def home_pins_def\<close>)

lemma commit_effect:
  assumes ok: "log_ok s" and u: "lock_set s = {}"
    and mirror: "\<forall>b<DISK1_START_BLOCK. disk s (b + DISK1_START_BLOCK) = disk s b"
  shows "\<exists>t. commit s = Inr t \<and> log_ok t \<and> lock_set t = {} \<and> lh_n t = 0 \<and>
    (\<forall>b. data_block s b \<longrightarrow> disk t b = view s b \<and> view t b = view s b) \<and>
    (\<forall>b<DISK1_START_BLOCK. disk t (b + DISK1_START_BLOCK) = disk t b)"
proof -
  obtain t where t: "commit s = Inr t" "bc_ok t (\<lambda>_. 0)" "quiet t" "lock_set t = {}"
    "bcache.more t = bcache.more (s\<lparr>lh_n := 0\<rparr>)"
    "disk t = apply_writes (raid (commit_writes s)) (disk s)"
    "\<forall>c<DISK1_START_BLOCK. view t c = apply_writes (commit_writes s) (view s) c"
    using commit_spec [OF ok u] by blast
  note m = more_fields [OF t(5)]
  note prim = commit_writes_primary [OF ok]
  have st: "log_start s < DISK1_START_BLOCK" using ok by (simp add: log_ok_def)
  have d: "disk t b = apply_writes (commit_writes s) (disk s) b" if "b < DISK1_START_BLOCK" for b
    using raid_primary_all [OF prim that] t(6) by simp
  have "disk t (b + DISK1_START_BLOCK) = disk t b" if "b < DISK1_START_BLOCK" for b
  proof -
    have "disk t (b + DISK1_START_BLOCK) = apply_writes (commit_writes s) (\<lambda>c. disk s (c + DISK1_START_BLOCK)) b"
      using raid_mirror [OF prim that] t(6) by simp
    also have "\<dots> = apply_writes (commit_writes s) (disk s) b"
      by (rule apply_writes_cong) (use mirror that in simp)
    finally show ?thesis using d [OF that] by simp
  qed
  moreover have "disk t b = view s b \<and> view t b = view s b" if "data_block s b" for b
    using that d t(7) apply_commit_writes [OF ok that] view_clean [OF ok u, of b] by (simp add: data_block_def)
  moreover have "log_ok t"
  proof -
    have "homes t = {}" "home_pins t = (\<lambda>_. 0)" using m by (auto simp: homes_def home_pins_def)
    then show ?thesis
      using t(2,3) m ok d [OF st] apply_commit_start [OF ok] by (simp add: log_ok_def)
  qed
  ultimately show ?thesis using t(1,4) m(6) by auto
qed

section \<open>Crash recovery\<close>

lemma read_head_spec:
  assumes ok: "bc_ok s pc" and q: "quiet s" and u: "lock_set s = {}" and dev: "log_dev s = ROOTDEV"
    and lt: "log_start s < DISK1_START_BLOCK" and pins: "card (pinned pc) < NBUF" and z: "pc (log_start s) = 0"
  defines "h \<equiv> view s (log_start s)"
  shows "\<exists>t. read_head s = Inr t \<and> bc_ok t pc \<and> quiet t \<and> lock_set t = {} \<and> disk t = disk s \<and>
    view t = view s \<and> history t = history s \<and> log_start t = log_start s \<and> log_size t = log_size s \<and> log_dev t = log_dev s \<and>
    lh_n t = hdr_n h \<and> (\<forall>i<hdr_n h. lh_block t i = hdr_block h i)"
proof -
  define b where "b = log_start s"
  have "room_for s pc b" using room_unlocked [OF u _ q pins] lt by (simp add: b_def)
  from bread_spec [OF ok this] obtain i s1 where r: "bread ROOTDEV b s = Inr (i, s1)"
    "bc_ok s1 pc" "held s1 i b" "bdata (bufs s1 i) = h" "view s1 = view s" "same_env s s1"
    "lock_set s1 = {i}" using u by (auto simp: h_def b_def)
  note e1 = same_envD [OF r(6)] and m = more_fields [OF same_envD(3) [OF r(6)]]
  let ?f = "\<lambda>j. if j < hdr_n h then hdr_block h j else lh_block s1 j"
  define s3 where "s3 = s1\<lparr>lh_n := hdr_n h, lh_block := ?f\<rparr>"
  have ok3: "bc_ok s3 pc" "held s3 i b" using r(2,3) by (simp_all add: s3_def held_def)
  have "bdata (bufs s3 i) = disk s3 b"
    using r(4) view_unlocked [OF ok u z] e1(1) by (simp add: s3_def h_def b_def)
  with bc_release [OF ok3] obtain t where t: "brelse i s3 = Inr t" "bc_ok t pc" "view t = view s3"
    "same_env s3 t" "lock_set t = lock_set s3 - {i}" by blast
  note e = same_envD [OF t(4)] and m3 = more_fields [OF same_envD(3) [OF t(4)]]
  have "read_head s = Inr t"
    using r(1) t(1) unfolding read_head_def dev b_def [symmetric] s3_def by (simp add: r(4) Let_def cong: if_cong)
  then show ?thesis using t(2,3,5) e m3 r(5,7) e1 m q by (intro exI [of _ t]) (simp add: s3_def)
qed

text \<open>What recovery makes of a disk: the blocks named by the header are copied home and the header
  is cleared.\<close>

definition recovered :: "nat \<Rightarrow> (nat \<Rightarrow> block) \<Rightarrow> nat \<Rightarrow> block" where
  "recovered start d =
     (let n = hdr_n (d start); h = hdr_block (d start) in
      apply_writes (map (\<lambda>i. (h i, d (start + i + 1))) [0..<n] @ [(start, hdr_write 0 h (d start))]) d)"

text \<open>A log header is well formed when the blocks it names are distinct data blocks.\<close>

definition header_ok :: "nat \<Rightarrow> nat \<Rightarrow> block \<Rightarrow> bool" where
  "header_ok start sz d \<longleftrightarrow> hdr_n d < sz \<and> sz \<le> LOGSIZE \<and> start + sz \<le> DISK1_START_BLOCK \<and>
     inj_on (hdr_block d) {..<hdr_n d} \<and>
     (\<forall>i<hdr_n d. hdr_block d i < DISK1_START_BLOCK \<and>
        (hdr_block d i < start \<or> start + sz \<le> hdr_block d i))"

definition cold :: "'a log_state_scheme \<Rightarrow> bool" where
  "cold s \<longleftrightarrow> bc_ok s (\<lambda>_. 0) \<and> quiet s \<and> lock_set s = {}"

lemma cold_view: "cold s \<Longrightarrow> view s b = disk s b"
  by (rule view_unlocked [of _ "\<lambda>_. 0"]) (simp_all add: cold_def)

lemma recover_from_log_spec:
  assumes c: "cold s" and dev: "log_dev s = ROOTDEV"
    and h: "header_ok (log_start s) sz (disk s (log_start s))"
  defines "d0 \<equiv> disk s (log_start s)"
  shows "\<exists>t. recover_from_log s = Inr t \<and> quiet t \<and> lock_set t = {} \<and> lh_n t = 0 \<and>
    bc_ok t (\<lambda>b. if b \<in> hdr_block d0 ` {..<hdr_n d0} then -1 else 0) \<and>
    (\<forall>b<DISK1_START_BLOCK. disk t b = recovered (log_start s) (disk s) b)"
proof -
  let ?st = "log_start s" and ?n = "hdr_n d0"
  have ok: "bc_ok s (\<lambda>_. 0)" and q: "quiet s" and u: "lock_set s = {}" using c by (simp_all add: cold_def)
  have hd: "?n < sz" "sz \<le> LOGSIZE" "?st + sz \<le> DISK1_START_BLOCK" "inj_on (hdr_block d0) {..<?n}"
    "\<And>i. i < ?n \<Longrightarrow> hdr_block d0 i < DISK1_START_BLOCK \<and> (hdr_block d0 i < ?st \<or> ?st + sz \<le> hdr_block d0 i)"
    using h by (simp_all add: header_ok_def d0_def)
  have st: "?st < DISK1_START_BLOCK" using hd(1,3) by simp
  have p0: "card (pinned (\<lambda>_. 0 :: u32)) < NBUF" by (simp add: pinned_def NBUF_def)
  have vs: "view s b = disk s b" for b by (rule cold_view [OF c])
  obtain s1 where s1: "read_head s = Inr s1" "bc_ok s1 (\<lambda>_. 0)" "quiet s1" "lock_set s1 = {}" "disk s1 = disk s"
    "view s1 = view s" "log_start s1 = ?st" "log_dev s1 = ROOTDEV" "lh_n s1 = ?n"
    "\<forall>i<?n. lh_block s1 i = hdr_block d0 i"
    using read_head_spec [OF ok q u dev st p0 refl] dev by (auto simp: vs d0_def)
  have inj: "inj_on (lh_block s1) {..<?n}" using hd(4) s1(10) by (auto simp: inj_on_def)
  have g: "geometry s1"
    unfolding geometry_def s1(7-9)
  proof (intro conjI allI impI)
    fix i assume "i < ?n"
    then show "lh_block s1 i < DISK1_START_BLOCK" "lh_block s1 i < ?st \<or> ?st + ?n < lh_block s1 i"
      using hd(5) [of i] s1(10) hd(1) by auto
  qed (use inj hd(1,3) in auto)
  have uf: "pinned (unpin_first s1 k (\<lambda>_. 0)) = lh_block s1 ` {..<k}" for k
    by (auto simp: unpin_first_def pinned_def)
  have cu: "card (pinned (unpin_first s1 k (\<lambda>_. 0))) = k" if "k < ?n" for k
  proof -
    have "inj_on (lh_block s1) {..<k}" by (rule inj_on_subset [OF inj]) (use that in auto)
    then show ?thesis by (simp add: uf card_image)
  qed
  have n29: "?n < NBUF" using hd(1,2) by (simp add: LOGSIZE_def MAXOPBLOCKS_def NBUF_def)
  obtain s2 where s2: "for_res install_block [0..<?n] s1 = Inr s2" "bc_ok s2 (unpin_first s1 ?n (\<lambda>_. 0))"
    "quiet s2" "lock_set s2 = {}" "bcache.more s2 = bcache.more s1"
    "disk s2 = apply_writes (raid (home_copies s1 ?n)) (disk s1)"
    "\<forall>c<DISK1_START_BLOCK. view s2 c = apply_writes (home_copies s1 ?n) (view s1) c"
    using install_loop [OF s1(2-4) g, of ?n] cu n29 unfolding s1(9) by auto
  note m2 = more_fields [OF s2(5)]
  have hc: "home_copies s1 ?n = map (\<lambda>i. (hdr_block d0 i, disk s (?st + i + 1))) [0..<?n]"
    using s1(6,7,10) vs by (simp add: home_copies_def)
  have img: "lh_block s1 ` {..<?n} = hdr_block d0 ` {..<?n}" using s1(10) by auto
  then have pc: "unpin_first s1 ?n (\<lambda>_. 0) = (\<lambda>b. if b \<in> hdr_block d0 ` {..<?n} then -1 else 0)"
    by (simp add: unpin_first_def fun_eq_iff)
  have nst: "?st \<notin> fst ` set (home_copies s1 ?n)"
  proof
    assume "?st \<in> fst ` set (home_copies s1 ?n)"
    then obtain i where i: "i < ?n" "?st = hdr_block d0 i" by (auto simp: hc)
    with hd(5) [OF i(1)] hd(1) show False by auto
  qed
  have v2: "view s2 ?st = d0" using s2(7) st nst s1(6) vs by (simp add: apply_writes_other d0_def)
  have cp: "card (pinned (\<lambda>b. if b \<in> hdr_block d0 ` {..<?n} then -1 else (0::u32))) < NBUF"
  proof -
    have "pinned (\<lambda>b. if b \<in> hdr_block d0 ` {..<?n} then -1 else (0::u32)) = hdr_block d0 ` {..<?n}"
      by (auto simp: pinned_def)
    then show ?thesis using hd(4) n29 by (simp add: card_image)
  qed
  let ?s3 = "s2\<lparr>lh_n := 0\<rparr>" and ?pc = "\<lambda>b. if b \<in> hdr_block d0 ` {..<?n} then -1 else (0::u32)"
  have b3: "bc_ok ?s3 ?pc" "quiet ?s3" "lock_set ?s3 = {}" "log_dev ?s3 = ROOTDEV"
    "log_start ?s3 < DISK1_START_BLOCK"
    using s2(2-4) pc m2 s1(7,8) st by simp_all
  obtain t where t: "write_head ?s3 = Inr t" "bc_ok t ?pc" "quiet t" "lock_set t = {}"
    "bcache.more t = bcache.more ?s3"
    "disk t = apply_writes (raid [(?st, hdr_write 0 (lh_block s1) d0)]) (disk s2)"
    using write_head_spec [OF b3 cp] m2 s1(7) v2 by auto
  have h0: "hdr_write 0 f d = hdr_write 0 f' d" for f f' d by (simp add: hdr_write_def)
  let ?ws = "map (\<lambda>i. (hdr_block d0 i, disk s (?st + i + 1))) [0..<?n] @ [(?st, hdr_write 0 (hdr_block d0) d0)]"
  have dt: "disk t = apply_writes (raid ?ws) (disk s)"
    using t(6) s2(6) s1(5) hc h0 [of "lh_block s1" d0 "hdr_block d0"] by simp
  have prim: "\<forall>w \<in> set ?ws. fst w < DISK1_START_BLOCK" using hd(5) st by auto
  have "disk t b = recovered ?st (disk s) b" if "b < DISK1_START_BLOCK" for b
    unfolding dt raid_primary_all [OF prim that] by (simp only: recovered_def Let_def d0_def)
  moreover have "recover_from_log s = Inr t"
    using s1(1) s2(1) t(1) by (simp add: recover_from_log_def install_trans_def s1(9))
  moreover have "lh_n t = 0" using more_fields(6) [OF t(5)] by simp
  ultimately show ?thesis using t(2-4) by blast
qed

text \<open>The disk a crash leaves: some prefix of the commit's writes has happened.\<close>

lemma recovered_data:
  assumes "hdr_n (d start) = 0" and "b \<noteq> start"
  shows "recovered start d b = d b"
  using assms by (simp add: recovered_def Let_def)

lemma home_block_lt: "log_ok s \<Longrightarrow> i < lh_n s \<Longrightarrow> lh_block s i < 2 ^ 32"
proof -
  assume "log_ok s" "i < lh_n s"
  then have "lh_block s i < DISK1_START_BLOCK" by (auto simp: log_ok_def homes_def)
  then show ?thesis by (simp add: DISK1_START_BLOCK_def FSSIZE_def)
qed

lemma recovered_after_header:
  assumes ok: "log_ok s" and hd: "d (log_start s) = header_block s" and b: "data_block s b"
    and log: "\<And>i. i < lh_n s \<Longrightarrow> d (log_start s + i + 1) = view s (lh_block s i)"
  shows "recovered (log_start s) d b = (if b \<in> homes s then view s b else d b)"
proof -
  have n: "hdr_n (header_block s) = lh_n s" using ok by (simp add: header_block_def log_ok_def)
  have hb: "hdr_block (header_block s) i = lh_block s i" if "i < lh_n s" for i
    unfolding header_block_def using hdr_block_write [of i "lh_n s" "lh_block s"] that home_block_lt [OF ok that] by simp
  have ns: "b \<noteq> log_start s" using b ok by (auto simp: data_block_def log_area_def log_ok_def)
  have "map (\<lambda>i. (hdr_block (header_block s) i, d (log_start s + i + 1))) [0..<lh_n s] = home_list s"
    using hb log by (simp add: home_list_def)
  then show ?thesis
    using ns by (simp add: recovered_def Let_def hd n apply_home_list [OF ok])
qed

lemma crash_prefix:
  assumes ok: "log_ok s" and u: "lock_set s = {}"
    and d: "\<And>c. c < DISK1_START_BLOCK \<Longrightarrow> d c = apply_writes (take m (commit_writes s)) (disk s) c"
  shows "(\<forall>b. data_block s b \<longrightarrow> recovered (log_start s) d b = disk s b) \<or>
         (\<forall>b. data_block s b \<longrightarrow> recovered (log_start s) d b = view s b)"
    and "header_ok (log_start s) (log_size s) (d (log_start s))"
proof -
  let ?n = "lh_n s" and ?st = "log_start s"
  have lt: "?st < DISK1_START_BLOCK" "?st + log_size s \<le> DISK1_START_BLOCK" "?n < log_size s" "log_size s \<le> LOGSIZE"
    "hdr_n (disk s ?st) = 0" and hb: "\<forall>b \<in> homes s. b < DISK1_START_BLOCK \<and> b \<notin> log_area s"
    and inj: "inj_on (lh_block s) {..<?n}"
    using ok by (simp_all add: log_ok_def)
  have bst: "b < DISK1_START_BLOCK" "b \<noteq> ?st" if "data_block s b" for b
    using that ok by (auto simp: data_block_def log_area_def log_ok_def)
  have nlog: "b \<notin> fst ` set (take k (log_copies s ?n))" if "data_block s b" for b k
    using log_copies_area [OF ok order_refl] that set_take_subset by (fastforce simp: data_block_def)
  have stlog: "?st \<notin> fst ` set (take k (log_copies s ?n))" for k
    using log_copies_area [OF ok order_refl] set_take_subset by fastforce
  have empty: "header_ok ?st (log_size s) h" if "hdr_n h = 0" for h
    using that lt by (simp add: header_ok_def)
  consider (before) "?n = 0 \<or> m \<le> ?n" | (mid) "0 < ?n" "?n < m" "m \<le> 2 * ?n + 1" | (after) "0 < ?n" "2 * ?n + 2 \<le> m"
    by linarith
  then have "((\<forall>b. data_block s b \<longrightarrow> recovered ?st d b = disk s b) \<or>
         (\<forall>b. data_block s b \<longrightarrow> recovered ?st d b = view s b)) \<and> header_ok ?st (log_size s) (d ?st)"
  proof cases
    case before
    have tk: "take m (commit_writes s) = take m (log_copies s ?n)"
      using before by (auto simp: commit_writes_eq commit_writes_def log_copies_def)
    have "d ?st = disk s ?st" using d [OF lt(1)] tk stlog by (simp add: apply_writes_other)
    then have h0: "hdr_n (d ?st) = 0" using lt(5) by simp
    have "recovered ?st d b = disk s b" if b: "data_block s b" for b
      using recovered_data [of d ?st b, OF h0 bst(2) [OF b]] d [OF bst(1) [OF b]] tk nlog [OF b] by (simp add: apply_writes_other)
    then show ?thesis using empty [OF h0] by blast
  next
    case mid
    let ?ws = "take (m - ?n - 1) (home_list s)"
    have tk: "take m (commit_writes s) = log_copies s ?n @ [(?st, header_block s)] @ ?ws"
      using mid by (simp add: commit_writes_eq take_Cons')
    have sub: "fst ` set ?ws \<subseteq> homes s" using home_list_addr [of s] set_take_subset [of _ "home_list s"] by fastforce
    have "?st \<notin> fst ` set ?ws" using sub home_not_start [OF ok] by blast
    then have dst: "d ?st = header_block s" using d [OF lt(1)] tk by (simp add: apply_writes_other)
    have dlog: "d (?st + i + 1) = view s (lh_block s i)" if "i < ?n" for i
    proof -
      have c: "?st + i + 1 < DISK1_START_BLOCK" "?st + i + 1 \<in> log_area s" using lt that by (simp_all add: log_area_def)
      have "?st + i + 1 \<notin> fst ` set ?ws" using sub hb c(2) by blast
      moreover have "inj_on (\<lambda>i. ?st + i + 1) {..<?n}" by (simp add: inj_on_def)
      from apply_writes_map [OF this that] have "apply_writes (log_copies s ?n) (disk s) (?st + i + 1) = view s (lh_block s i)"
        by (simp add: log_copies_def)
      ultimately show ?thesis using d [OF c(1)] tk by (simp add: apply_writes_other)
    qed
    have "recovered ?st d b = view s b" if b: "data_block s b" for b
    proof (cases "b \<in> homes s")
      case True
      then show ?thesis using recovered_after_header [OF ok dst b dlog] by simp
    next
      case False
      then have "b \<notin> fst ` set ?ws" using sub by blast
      then have "d b = disk s b"
        using d [OF bst(1) [OF b]] tk bst(2) [OF b] nlog [OF b, of ?n] by (simp add: apply_writes_other)
      then show ?thesis using recovered_after_header [OF ok dst b dlog] False view_clean [OF ok u False] by simp
    qed
    moreover have "header_ok ?st (log_size s) (header_block s)"
    proof -
      have n: "hdr_n (header_block s) = ?n" using lt by (simp add: header_block_def)
      have e: "hdr_block (header_block s) i = lh_block s i" if "i < ?n" for i
        unfolding header_block_def using hdr_block_write [of i "lh_n s" "lh_block s"] that home_block_lt [OF ok that] by simp
      have "inj_on (hdr_block (header_block s)) {..<?n}" using inj e by (auto simp: inj_on_def)
      moreover have "lh_block s i < DISK1_START_BLOCK \<and> (lh_block s i < ?st \<or> ?st + log_size s \<le> lh_block s i)"
        if "i < ?n" for i
        using hb that by (auto simp: homes_def log_area_def not_le)
      ultimately show ?thesis using lt e by (simp add: header_ok_def n)
    qed
    ultimately show ?thesis using dst by simp
  next
    case after
    have tk: "take m (commit_writes s) = commit_writes s" using after by (simp add: commit_writes_eq)
    have h0: "hdr_n (d ?st) = 0" using d [OF lt(1)] tk apply_commit_start [OF ok] by simp
    have "recovered ?st d b = view s b" if b: "data_block s b" for b
      using recovered_data [of d ?st b, OF h0 bst(2) [OF b]] d [OF bst(1) [OF b]] tk apply_commit_writes [OF ok b]
        view_clean [OF ok u, of b] by simp
    then show ?thesis using empty [OF h0] by blast
  qed
  then show "(\<forall>b. data_block s b \<longrightarrow> recovered ?st d b = disk s b) \<or>
         (\<forall>b. data_block s b \<longrightarrow> recovered ?st d b = view s b)"
    and "header_ok ?st (log_size s) (d ?st)" by blast+
qed

text \<open>C1: Commits are atomic across crashes. If the machine stops after any number of the commit's
  disk writes and reboots on that disk with an empty cache, recovery succeeds and every data block
  then has its contents from before the commit, or every data block has its contents from after.\<close>

theorem commit_crash_atomic:
  assumes ok: "log_ok s" and u: "lock_set s = {}" and c: "commit s = Inr t"
    and ws: "history t = history s @ ws"
    and boot: "cold r" and crash: "disk r = apply_writes (take k ws) (disk s)"
  shows "\<exists>r'. initlog ROOTDEV (log_start s) (log_size s) r = Inr r' \<and>
    ((\<forall>b. data_block s b \<longrightarrow> disk r' b = disk s b) \<or> (\<forall>b. data_block s b \<longrightarrow> disk r' b = view s b))"
proof -
  let ?r = "r\<lparr>log_start := log_start s, log_size := log_size s, log_dev := ROOTDEV\<rparr>"
  have same: "bufs ?r = bufs r" "lru ?r = lru r" "disk ?r = disk r" by simp_all
  have cold: "cold ?r" using boot by (simp add: cold_def bc_cong [OF same] quiet_def)
  have "ws = raid (commit_writes s)" using commit_spec [OF ok u] c ws by auto
  then have d: "disk r b = apply_writes (take ((k + 1) div 2) (commit_writes s)) (disk s) b"
    if "b < DISK1_START_BLOCK" for b
    using raid_primary [OF commit_writes_primary [OF ok] that] crash by simp
  note cp = crash_prefix [OF ok u d]
  have h: "header_ok (log_start ?r) (log_size s) (disk ?r (log_start ?r))" using cp(2) by simp
  obtain r' where r': "recover_from_log ?r = Inr r'"
    "\<forall>b<DISK1_START_BLOCK. disk r' b = recovered (log_start s) (disk r) b"
    using recover_from_log_spec [OF cold _ h] by auto
  have "initlog ROOTDEV (log_start s) (log_size s) r = Inr r'"
    using r'(1) by (simp add: initlog_def SIZEOF_LOGHEADER_def LOGSIZE_def MAXOPBLOCKS_def BSIZE_def)
  moreover have "disk r' b = recovered (log_start s) (disk r) b" if "data_block s b" for b
    using r'(2) that by (simp add: data_block_def)
  ultimately show ?thesis using cp(1) by auto
qed

section \<open>Transactions\<close>

lemma log_slot_spec:
  shows "log_slot s b \<le> lh_n s" and "log_slot s b < lh_n s \<Longrightarrow> lh_block s (log_slot s b) = b"
    and "log_slot s b = lh_n s \<longleftrightarrow> b \<notin> homes s"
proof -
  have "log_slot s b \<le> lh_n s \<and> (log_slot s b < lh_n s \<longrightarrow> lh_block s (log_slot s b) = b) \<and>
    (log_slot s b = lh_n s \<longleftrightarrow> b \<notin> homes s)"
  proof (cases "List.find (\<lambda>i. lh_block s i = b) [0..<lh_n s]")
    case None
    then have "b \<notin> homes s" by (auto simp: find_upt_None homes_def)
    with None show ?thesis by (simp add: log_slot_def)
  next
    case (Some i)
    then have i: "i < lh_n s" "lh_block s i = b" by (auto simp: find_upt_Some)
    then have "b \<in> homes s" by (auto simp: homes_def)
    with Some i show ?thesis by (simp add: log_slot_def)
  qed
  then show "log_slot s b \<le> lh_n s" "log_slot s b < lh_n s \<Longrightarrow> lh_block s (log_slot s b) = b"
    "log_slot s b = lh_n s \<longleftrightarrow> b \<notin> homes s" by blast+
qed

lemma log_write_spec:
  assumes ok: "log_ok s" and h: "held s i b" and b: "data_block s b"
    and room: "lh_n s + 1 < log_size s" and op: "1 \<le> outstanding s"
  shows "\<exists>t. log_write i s = Inr t \<and> log_ok t \<and> homes t = insert b (homes s) \<and>
    lh_n t = (if b \<in> homes s then lh_n s else lh_n s + 1) \<and> view t = view s \<and> disk t = disk s \<and>
    lock_set t = lock_set s \<and> (\<forall>j c. held t j c = held s j c) \<and>
    (\<forall>j. bdata (bufs t j) = bdata (bufs s j)) \<and> outstanding t = outstanding s \<and>
    committing t = committing s \<and> log_start t = log_start s \<and> log_size t = log_size s \<and>
    log_state.more t = log_state.more s"
proof -
  have lt: "lh_n s < LOGSIZE" "\<not> int (lh_n s) \<ge> int (log_size s) - 1" using ok room by (auto simp: log_ok_def)
  define k where "k = log_slot s b"
  define s1 where "s1 = s\<lparr>lh_block := (lh_block s)(k := b)\<rparr>"
  have eq: "log_write i s = Inr (if k = lh_n s then (bpin i s1)\<lparr>lh_n := lh_n s + 1\<rparr> else s1)"
    using lt op heldD(5) [OF h] by (auto simp: log_write_def Let_def k_def s1_def)
  show ?thesis
  proof (cases "b \<in> homes s")
    case True
    then have "k < lh_n s" using log_slot_spec(1,3) [of s b] by (simp add: k_def le_less)
    then have "s1 = s" using log_slot_spec(2) [of s b] by (cases s) (simp add: s1_def k_def fun_upd_idem)
    then show ?thesis using eq True \<open>k < lh_n s\<close> ok h by (simp add: insert_absorb)
  next
    case False
    then have k: "k = lh_n s" using log_slot_spec(3) [of s b] by (simp add: k_def)
    define t where "t = (bpin i s1)\<lparr>lh_n := lh_n s + 1\<rparr>"
    have bc: "bc_ok s1 (home_pins s)" "held s1 i b" "view s1 = view s" "lock_set s1 = lock_set s"
      using ok h by (simp_all add: s1_def log_ok_def held_def)
    have pb: "home_pins s b = 0" using False by (simp add: home_pins_def)
    note bp = bc_pin [OF bc(1,2), unfolded pb]
    note e = same_envD [OF bp(3)]
    have f: "lh_n t = lh_n s + 1" "lh_block t = (lh_block s)(lh_n s := b)" "log_start t = log_start s"
      "log_size t = log_size s" "log_dev t = log_dev s" "outstanding t = outstanding s" "disk t = disk s"
      using more_fields [OF e(3)] e(1) k by (simp_all add: t_def s1_def)
    have hm: "homes t = insert b (homes s)"
      unfolding homes_def f by (auto simp: lessThan_Suc)
    have "(home_pins s)(b := 0 + 1) = home_pins t" using hm by (auto simp: home_pins_def)
    then have bt: "bc_ok t (home_pins t)" using bp(1) by (simp add: t_def)
    have inj: "inj_on (lh_block t) {..<lh_n t}"
    proof -
      have "inj_on (lh_block s) {..<lh_n s}" using ok by (simp add: log_ok_def)
      then show ?thesis using False by (auto simp: f lessThan_Suc inj_on_def homes_def)
    qed
    have f2: "committing t = committing s" "log_state.more t = log_state.more s"
      using more_fields [OF e(3)] by (simp_all add: t_def s1_def)
    have "quiet t" using e(4) ok by (simp add: t_def s1_def log_ok_def)
    then have "log_ok t"
      using ok bt inj f hm b room by (simp add: log_ok_def log_area_def data_block_def)
    moreover have "view t = view s" "lock_set t = lock_set s" using bp(2,4) bc(3,4) by (simp_all add: t_def)
    moreover have "held t j c = held s j c" for j c using bp(5) [of j c] by (simp add: t_def s1_def held_def)
    moreover have "bdata (bufs t j) = bdata (bufs s j)" for j using bp(6) [of j] by (simp add: t_def s1_def)
    ultimately show ?thesis using eq k hm f f2 False by (simp add: t_def)
  qed
qed

text \<open>C22: \<open>log_write\<close> of a held data block keeps the log consistent: the block is in the log
  exactly once (absorption), it is pinned, and neither the disk nor what the cache shows changes.\<close>

theorem log_write_keeps:
  assumes ok: "log_ok s" and h: "held s i b" and b: "data_block s b"
    and room: "lh_n s + 1 < log_size s" and op: "1 \<le> outstanding s"
  shows "\<exists>t. log_write i s = Inr t \<and> log_ok t \<and> homes t = insert b (homes s) \<and>
    lh_n t = (if b \<in> homes s then lh_n s else lh_n s + 1) \<and> view t = view s \<and> disk t = disk s \<and>
    lock_set t = lock_set s \<and> held t i b \<and> outstanding t = outstanding s"
  using log_write_spec [OF assms] h by metis

text \<open>The last \<open>end_op\<close> of a transaction: nothing but the log and the cache changes, and the disk now
  agrees with the cache.\<close>

lemma end_op_spec:
  assumes ok: "log_ok s" and u: "lock_set s = {}" and last: "outstanding s = 1" "\<not> committing s"
    and mirror: "\<forall>b<DISK1_START_BLOCK. disk s (b + DISK1_START_BLOCK) = disk s b"
  shows "\<exists>t. end_op s = Inr t \<and> log_ok t \<and> lh_n t = 0 \<and> outstanding t = 0 \<and> \<not> committing t \<and> lock_set t = {} \<and>
    (\<forall>b. data_block s b \<longrightarrow> disk t b = view s b \<and> view t b = view s b) \<and>
    (\<forall>b<DISK1_START_BLOCK. disk t (b + DISK1_START_BLOCK) = disk t b) \<and>
    log_start t = log_start s \<and> log_size t = log_size s \<and> log_state.more t = log_state.more s"
proof -
  define s1 where "s1 = s\<lparr>outstanding := 0, committing := True\<rparr>"
  have same: "homes s1 = homes s" "log_area s1 = log_area s" by (simp_all add: s1_def homes_def log_area_def)
  have "home_pins s1 = home_pins s" by (rule ext) (simp add: home_pins_def same)
  then have ok1: "log_ok s1" using ok same by (simp add: log_ok_def s1_def)
  have u1: "lock_set s1 = {}" using u by (simp add: s1_def)
  obtain t where t: "commit s1 = Inr t" "bcache.more t = bcache.more (s1\<lparr>lh_n := 0\<rparr>)"
    using commit_spec [OF ok1 u1] by blast
  have "\<forall>b<DISK1_START_BLOCK. disk s1 (b + DISK1_START_BLOCK) = disk s1 b" using mirror by (simp add: s1_def)
  from commit_effect [OF ok1 u1 this] t(1)
  have ci: "log_ok t" "lock_set t = {}" "lh_n t = 0" "\<forall>b. data_block s1 b \<longrightarrow> disk t b = view s1 b \<and> view t b = view s1 b"
    "\<forall>b<DISK1_START_BLOCK. disk t (b + DISK1_START_BLOCK) = disk t b" by auto
  have d: "data_block s1 b = data_block s b" for b by (simp add: data_block_def same)
  have v: "view s1 = view s" by (simp add: s1_def)
  define t' where "t' = t\<lparr>committing := False\<rparr>"
  have same': "homes t' = homes t" "log_area t' = log_area t" by (simp_all add: t'_def homes_def log_area_def)
  have "home_pins t' = home_pins t" by (rule ext) (simp add: home_pins_def same')
  then have "log_ok t'" using ci(1) same' by (simp add: log_ok_def t'_def)
  moreover have "outstanding t = 0" using more_fields(3) [OF t(2)] by (simp add: s1_def)
  moreover have "end_op s = Inr t'" using last t(1) by (simp add: end_op_def s1_def t'_def)
  moreover have "log_start t = log_start s" "log_size t = log_size s" "log_state.more t = log_state.more s"
    using more_fields [OF t(2)] by (simp_all add: s1_def)
  ultimately show ?thesis using ci(2-5) d v by (simp add: t'_def)
qed

text \<open>C17: The last \<open>end_op\<close> commits without failing: afterwards every data block of the disk, and its
  mirror, has the contents the cache showed, and the log is empty.\<close>

theorem end_op_commits:
  assumes ok: "log_ok s" and u: "lock_set s = {}" and last: "outstanding s = 1" "\<not> committing s"
    and mirror: "\<forall>b<DISK1_START_BLOCK. disk s (b + DISK1_START_BLOCK) = disk s b"
  shows "\<exists>t. end_op s = Inr t \<and> log_ok t \<and> lh_n t = 0 \<and> outstanding t = 0 \<and> \<not> committing t \<and>
    (\<forall>b. data_block s b \<longrightarrow> disk t b = view s b \<and> disk t (b + DISK1_START_BLOCK) = view s b)"
proof -
  obtain t where t: "end_op s = Inr t" "log_ok t" "lh_n t = 0" "outstanding t = 0" "\<not> committing t"
    "\<forall>b. data_block s b \<longrightarrow> disk t b = view s b \<and> view t b = view s b"
    "\<forall>b<DISK1_START_BLOCK. disk t (b + DISK1_START_BLOCK) = disk t b"
    using end_op_spec [OF ok u last mirror] by blast
  have "disk t (b + DISK1_START_BLOCK) = view s b" if "data_block s b" for b
    using t(6,7) that by (simp add: data_block_def)
  then show ?thesis using t(1-6) by auto
qed

text \<open>Recovery drops a reference it never took: \<open>install_trans\<close> unpins buffers that only a
  commit pins, so after recovering a non-empty log the reference count of every replayed block is
  \<open>-1\<close> although no one holds it.\<close>

theorem recovery_unbalances_refcnt:
  assumes c: "cold s" and dev: "log_dev s = ROOTDEV"
    and h: "header_ok (log_start s) sz (disk s (log_start s))"
    and i: "i < hdr_n (disk s (log_start s))"
  shows "\<exists>t j. recover_from_log s = Inr t \<and> j < NBUF \<and> bdev (bufs t j) = ROOTDEV \<and>
    blockno (bufs t j) = hdr_block (disk s (log_start s)) i \<and> \<not> locked (bufs t j) \<and> refcnt (bufs t j) = -1"
proof -
  let ?d = "disk s (log_start s)"
  let ?pc = "\<lambda>b. if b \<in> hdr_block ?d ` {..<hdr_n ?d} then -1 else 0 :: u32"
  obtain t where t: "recover_from_log s = Inr t" "lock_set t = {}" "bc_ok t ?pc"
    using recover_from_log_spec [OF c dev h] by blast
  have cok: "cache_ok t (pins_of ?pc t)" using t(3) by (simp add: bc_ok_def)
  have p: "?pc (hdr_block ?d i) = -1" using i by auto
  then obtain j where j: "cached_at t (hdr_block ?d i) = Some j"
    using t(3) by (fastforce simp: bc_ok_def pinned_def)
  note cj = cached_at_Some [OF cok j]
  have "\<not> locked (bufs t j)" using t(2) cj(1) by (auto simp: lock_set_def)
  moreover have "refcnt (bufs t j) = -1"
    using cache_okD(3) [OF cok cj(1)] calculation cj p by (simp add: pins_of_def)
  ultimately show ?thesis using t(1) cj by blast
qed

section \<open>A logged transaction\<close>

text \<open>A machine booted on an all-zero disk, and the same machine after one \<open>log_write\<close>.\<close>

definition boot_with :: "(nat \<Rightarrow> block) \<Rightarrow> 'a \<Rightarrow> 'a log_state_scheme" where
  "boot_with d m = \<lparr>bufs = (\<lambda>_. zero_buf), lru = rev [0..<NBUF], disk = d,
     force_read_error_pbn = -1, force_disk_fail_id = -1, history = [], log_start = 2, log_size = 30,
     outstanding = 1, committing = False, log_dev = ROOTDEV, lh_n = 0, lh_block = (\<lambda>_. 0), \<dots> = m\<rparr>"

abbreviation boot_state :: "(nat \<Rightarrow> block) \<Rightarrow> log_state" where
  "boot_state d \<equiv> boot_with d ()"

lemma boot_cold: "cold (boot_with d m)"
proof -
  have "cache_ok (boot_with d m) (pins_of (\<lambda>_. 0) (boot_with d m))"
    by (auto simp: cache_ok_def boot_with_def zero_buf_def pins_of_def)
  then show ?thesis
    by (simp add: cold_def bc_ok_def pinned_def quiet_def lock_set_def)
      (simp add: boot_with_def zero_buf_def)
qed

lemma boot_view: "view (boot_with d m) = d"
proof
  fix b
  have "view (boot_with d m) b = disk (boot_with d m) b" by (rule cold_view [OF boot_cold])
  then show "view (boot_with d m) b = d b" by (simp add: boot_with_def)
qed

lemma boot_log_ok: "hdr_n (d 2) = 0 \<Longrightarrow> log_ok (boot_with d m)"
proof -
  assume h: "hdr_n (d 2) = 0"
  have "home_pins (boot_with d m) = (\<lambda>_. 0)" by (rule ext) (simp add: home_pins_def homes_def boot_with_def)
  then show ?thesis
    using boot_cold [of d m] h
    by (simp add: log_ok_def cold_def)
      (simp add: boot_with_def homes_def LOGSIZE_def MAXOPBLOCKS_def DISK1_START_BLOCK_def FSSIZE_def)
qed

lemma hdr_n_zero: "hdr_n (\<lambda>_. 0) = 0"
  by (simp add: hdr_n_def get32_def)

lemma held_block:
  assumes "b < DISK1_START_BLOCK" and "hdr_n (d 2) = 0"
  shows "\<exists>i s. log_ok s \<and> held s i b \<and> lock_set s = {i} \<and> view s = d \<and> disk s = d \<and>
    bcache.more s = bcache.more (boot_state d)"
proof -
  let ?s = "boot_state d"
  have ok: "log_ok ?s" by (rule boot_log_ok) (rule assms(2))
  then have bc: "bc_ok ?s (home_pins ?s)" by (simp add: log_ok_def)
  have u: "lock_set ?s = {}" using boot_cold [of d "()"] by (simp add: cold_def)
  have p: "card (pinned (home_pins ?s)) < NBUF" using card_homes [OF ok] by simp
  have "room_for ?s (home_pins ?s) b" using ok by (intro room_unlocked [OF u assms(1) _ p]) (simp add: log_ok_def)
  from bread_spec [OF bc this] obtain i t where t: "bc_ok t (home_pins ?s)" "held t i b" "view t = view ?s"
    "same_env ?s t" "lock_set t = {i}" using u by auto
  note e = same_envD [OF t(4)]
  note m = more_fields [OF e(3)]
  have h: "homes t = homes ?s" by (simp add: homes_def m)
  then have "home_pins t = home_pins ?s" by (intro ext) (simp add: home_pins_def)
  then have "log_ok t" using ok t(1) e m h by (simp add: log_ok_def log_area_def)
  moreover have "view ?s = d" by (rule boot_view)
  moreover have "disk t = d" using e(1) by (simp add: boot_with_def)
  ultimately show ?thesis using t e(3) by metis
qed

lemma logged_state:
  assumes "b < DISK1_START_BLOCK" and "32 \<le> b" and "hdr_n (d 2) = 0"
  shows "\<exists>s :: log_state. log_ok s \<and> lock_set s = {} \<and> outstanding s = 1 \<and> \<not> committing s \<and> homes s = {b} \<and>
    log_start s = 2 \<and> log_size s = 30 \<and> disk s = d \<and> view s = d(b := v)"
proof -
  obtain i s where s: "log_ok s" "held s i b" "lock_set s = {i}" "view s = d" "disk s = d"
    "bcache.more s = bcache.more (boot_state d)" using held_block [of b d] assms by blast
  have m: "log_start s = 2" "log_size s = 30" "outstanding s = 1" "\<not> committing s" "lh_n s = 0"
    using more_fields [OF s(6)] by (simp_all add: boot_with_def)
  define s2 where "s2 = set_bdata i v s"
  have bc: "bc_ok s (home_pins s)" using s(1) by (simp add: log_ok_def)
  note sd = bc_set_data [OF bc s(2), of v, folded s2_def]
  note e2 = same_envD [OF sd(3)]
  note m2 = more_fields [OF e2(3)]
  have h2: "homes s2 = homes s" by (simp add: homes_def m2)
  then have "home_pins s2 = home_pins s" by (intro ext) (simp add: home_pins_def)
  then have ok2: "log_ok s2" using s(1) sd(1) e2 m2 h2 by (simp add: log_ok_def log_area_def)
  have d2: "data_block s2 b" using assms m m2 by (simp add: data_block_def log_area_def)
  have hd2: "held s2 i b" using s(2) sd(5) by simp
  have "lh_n s2 + 1 < log_size s2" "1 \<le> outstanding s2" by (simp_all add: m m2)
  note lw = log_write_spec [OF ok2 hd2 d2 this]
  then obtain t where w0: "log_write i s2 = Inr t" by blast
  have t: "log_ok t" "homes t = insert b (homes s2)" "view t = view s2" "disk t = disk s2"
    "lock_set t = lock_set s2" "\<forall>j c. held t j c = held s2 j c" "outstanding t = outstanding s2"
    "committing t = committing s2" "log_start t = log_start s2" "log_size t = log_size s2"
    using lw w0 by simp_all
  have ti: "held t i b" using t(6) hd2 by simp
  have "homes s2 = {}" using m m2 by (simp add: homes_def)
  then have ht: "homes t = {b}" using t(2) by simp
  then have "home_pins t b \<noteq> 0" by (simp add: home_pins_def)
  moreover have "bc_ok t (home_pins t)" using t(1) by (simp add: log_ok_def)
  ultimately obtain w where w: "bc_ok w (home_pins t)" "view w = view t" "same_env t w" "lock_set w = lock_set t - {i}"
    using bc_release [OF _ ti, of "home_pins t"] by blast
  note ew = same_envD [OF w(3)]
  note mw = more_fields [OF ew(3)]
  have hw: "homes w = homes t" by (simp add: homes_def mw)
  then have "home_pins w = home_pins t" by (intro ext) (simp add: home_pins_def)
  then have "log_ok w" using t(1) w(1) ew mw hw by (simp add: log_ok_def log_area_def)
  moreover have "view w = d(b := v)" using w(2) t(3) sd(2) s(4) by simp
  moreover have "lock_set w = {}" using w(4) t(5) sd(4) s(3) by simp
  moreover have "disk w = d" using ew(1) t(4) e2(1) s(5) by simp
  ultimately show ?thesis using hw ht mw t(7-10) m2 m by metis
qed

theorem commit_crash_atomic_witness:
  "\<exists>(s :: log_state) (r :: log_state) r'. homes s = {100} \<and> view s 100 = (\<lambda>_. 7) \<and> disk s 100 = (\<lambda>_. 0) \<and>
     initlog ROOTDEV (log_start s) (log_size s) r = Inr r' \<and>
     ((\<forall>b. data_block s b \<longrightarrow> disk r' b = disk s b) \<or> (\<forall>b. data_block s b \<longrightarrow> disk r' b = view s b))"
proof -
  obtain s :: log_state where s: "log_ok s" "lock_set s = {}" "homes s = {100}" "view s = (\<lambda>_ _. 0)(100 := \<lambda>_. 7)"
    "disk s = (\<lambda>_ _. 0)"
    using logged_state [of 100 "\<lambda>_ _. 0" "\<lambda>_. 7"] by (auto simp: hdr_n_zero DISK1_START_BLOCK_def FSSIZE_def)
  obtain t where t: "commit s = Inr t" "history t = history s @ raid (commit_writes s)"
    using commit_spec [OF s(1,2)] by blast
  let ?r = "boot_state (apply_writes (take 3 (raid (commit_writes s))) (disk s))"
  have "disk ?r = apply_writes (take 3 (raid (commit_writes s))) (disk s)" by (simp add: boot_with_def)
  note cc = commit_crash_atomic [OF s(1,2) t boot_cold this]
  have "view s 100 = (\<lambda>_. 7)" "disk s 100 = (\<lambda>_. 0)" by (simp_all add: s(4,5))
  with cc s(3) show ?thesis by blast
qed

theorem log_write_keeps_witness:
  "\<exists>(s :: log_state) i t. held s i 100 \<and> log_write i s = Inr t \<and> log_ok t \<and> homes t = insert 100 (homes s) \<and>
    lh_n t = (if 100 \<in> homes s then lh_n s else lh_n s + 1) \<and> view t = view s \<and> disk t = disk s \<and>
    lock_set t = lock_set s \<and> held t i 100 \<and> outstanding t = outstanding s"
proof -
  obtain i and s :: log_state where s: "log_ok s" "held s i 100" "bcache.more s = bcache.more (boot_state (\<lambda>_ _. 0))"
    using held_block [of 100 "\<lambda>_ _. 0"] by (auto simp: hdr_n_zero DISK1_START_BLOCK_def FSSIZE_def)
  have m: "log_start s = 2" "log_size s = 30" "outstanding s = 1" "lh_n s = 0"
    using more_fields [OF s(3)] by (simp_all add: boot_with_def)
  have "data_block s 100" by (simp add: data_block_def log_area_def m DISK1_START_BLOCK_def FSSIZE_def)
  note lw = log_write_keeps [OF s(1,2) this]
  have "lh_n s + 1 < log_size s" "1 \<le> outstanding s" by (simp_all add: m)
  from lw [OF this] s(2) show ?thesis by blast
qed

theorem end_op_commits_witness:
  "\<exists>(s :: log_state) t. homes s = {100} \<and> view s 100 = (\<lambda>_. 7) \<and> end_op s = Inr t \<and> log_ok t \<and> lh_n t = 0 \<and>
    outstanding t = 0 \<and> \<not> committing t \<and>
    (\<forall>b. data_block s b \<longrightarrow> disk t b = view s b \<and> disk t (b + DISK1_START_BLOCK) = view s b)"
proof -
  obtain s :: log_state where s: "log_ok s" "lock_set s = {}" "outstanding s = 1" "\<not> committing s" "homes s = {100}"
    "view s = (\<lambda>_ _. 0)(100 := \<lambda>_. 7)" "disk s = (\<lambda>_ _. 0)"
    using logged_state [of 100 "\<lambda>_ _. 0" "\<lambda>_. 7"] by (auto simp: hdr_n_zero DISK1_START_BLOCK_def FSSIZE_def)
  have "\<forall>b<DISK1_START_BLOCK. disk s (b + DISK1_START_BLOCK) = disk s b" using s(7) by simp
  note eo = end_op_commits [OF s(1-4) this]
  have "view s 100 = (\<lambda>_. 7)" by (simp add: s(6))
  with eo s(5) show ?thesis by blast
qed

theorem recovery_unbalances_refcnt_witness:
  "\<exists>(s :: log_state) t j. recover_from_log s = Inr t \<and> j < NBUF \<and> bdev (bufs t j) = ROOTDEV \<and>
    blockno (bufs t j) = 100 \<and> \<not> locked (bufs t j) \<and> refcnt (bufs t j) = -1"
proof -
  define h where "h = hdr_write 1 (\<lambda>_. 100) (\<lambda>_. 0)"
  define s where "s = boot_state ((\<lambda>_ _. 0)(2 := h))"
  have h: "hdr_n h = 1" "hdr_block h 0 = 100"
    unfolding h_def using hdr_n_write [of 1] hdr_block_write [of 0 1 "\<lambda>_. 100"]
    by (simp_all add: LOGSIZE_def MAXOPBLOCKS_def)
  have f: "log_dev s = ROOTDEV" "disk s (log_start s) = h" "log_start s = 2" by (simp_all add: s_def boot_with_def)
  have "header_ok (log_start s) 30 (disk s (log_start s))"
    unfolding f(2) by (auto simp: header_ok_def f(1,3) h inj_on_def LOGSIZE_def MAXOPBLOCKS_def DISK1_START_BLOCK_def FSSIZE_def)
  note ru = recovery_unbalances_refcnt [OF _ f(1) this, of 0, unfolded f(2) h]
  have "cold s" by (simp add: s_def boot_cold)
  from ru [OF this] show ?thesis by simp blast
qed

end
