(* ===== verification/LogRoom.thy ===== *)
theory LogRoom
  imports Log
begin

text \<open>
  The reservation of log space (\<open>begin_op\<close>, \<open>log_write\<close>, \<open>end_op\<close> of mp4/kernel/log.c): interleavings of file-system operations, each of
  which logs at most \<open>MAXOPBLOCKS\<close> blocks, and the room they leave in the log.
\<close>

section \<open>Operations that leave the log alone\<close>

lemma updates_more [simp]:
  "bcache.more (upd_buf i f s) = bcache.more s" "bcache.more (set_bdata i d s) = bcache.more s"
  "bcache.more (virtio_disk_rw i w s) = bcache.more s" "bcache.more (bunpin i s) = bcache.more s"
  "bcache.more (bpin i s) = bcache.more s"
  by (simp_all add: upd_buf_def set_bdata_def virtio_disk_rw_def bunpin_def bpin_def Let_def)

lemma bget_more: "bget dev b s = Inr (i, t) \<Longrightarrow> bcache.more t = bcache.more s"
  by (auto simp: bget_def acquiresleep_buf_def split: option.splits if_splits)

lemma bread_more: "bread dev b s = Inr (i, t) \<Longrightarrow> bcache.more t = bcache.more s"
  by (auto simp: bread_def Let_def dest!: bget_more split: if_splits)

lemma bwrite_more: "bwrite i s = Inr t \<Longrightarrow> bcache.more t = bcache.more s"
  by (auto simp: bwrite_def Let_def)

lemma brelse_more: "brelse i s = Inr t \<Longrightarrow> bcache.more t = bcache.more s"
  by (auto simp: brelse_def Let_def)

lemmas bio_more = bread_more bwrite_more brelse_more

lemma for_res_more:
  assumes "\<And>i s t. f i s = Inr t \<Longrightarrow> bcache.more t = bcache.more s"
  shows "for_res f xs s = Inr t \<Longrightarrow> bcache.more t = bcache.more s"
  by (induction xs arbitrary: s) (auto dest!: assms)

lemma install_block_more: "install_block i s = Inr t \<Longrightarrow> bcache.more t = bcache.more s"
  by (auto simp: install_block_def Let_def dest!: bio_more)

lemma write_log_block_more: "write_log_block i s = Inr t \<Longrightarrow> bcache.more t = bcache.more s"
  by (auto simp: write_log_block_def Let_def dest!: bio_more)

lemma write_head_more: "write_head s = Inr t \<Longrightarrow> bcache.more t = bcache.more s"
  by (auto simp: write_head_def Let_def dest!: bio_more)

lemma commit_log:
  assumes "commit s = Inr t"
  shows "lh_n t = 0 \<and> outstanding t = outstanding s \<and> committing t = committing s \<and> log_size t = log_size s"
proof (cases "lh_n s = 0")
  case False
  obtain s1 s2 s3 where c: "write_log s = Inr s1" "write_head s1 = Inr s2" "install_trans s2 = Inr s3" "write_head (s3\<lparr>lh_n := 0\<rparr>) = Inr t"
    using assms False by (auto simp: commit_def)
  have "bcache.more s1 = bcache.more s" using c(1) unfolding write_log_def by (rule for_res_more [rotated]) (rule write_log_block_more)
  moreover have "bcache.more s3 = bcache.more s2" using c(3) unfolding install_trans_def by (rule for_res_more [rotated]) (rule install_block_more)
  ultimately have "bcache.more s3 = bcache.more s" using write_head_more [OF c(2)] by simp
  from more_fields [OF this] more_fields [OF write_head_more [OF c(4)]] show ?thesis by simp
qed (use assms in \<open>simp add: commit_def\<close>)

section \<open>Interleaved operations\<close>

text \<open>The operations that are running, in the order they were admitted, each with the number of blocks it may still log. \<open>run_buffers\<close> is
  whatever else happens to the buffers and the disk.\<close>

inductive op_run :: "log_state \<Rightarrow> nat list \<Rightarrow> bool" where
  run_boot: "lh_n s = 0 \<Longrightarrow> outstanding s = 0 \<Longrightarrow> \<not> committing s \<Longrightarrow> log_size s = LOGSIZE \<Longrightarrow> op_run s []"
| run_begin: "op_run s bs \<Longrightarrow> begin_op s = Inr t \<Longrightarrow> op_run t (bs @ [MAXOPBLOCKS])"
| run_log: "op_run s bs \<Longrightarrow> j < length bs \<Longrightarrow> 0 < bs ! j \<Longrightarrow> log_write i s = Inr t \<Longrightarrow> op_run t (bs[j := bs ! j - 1])"
| run_end: "op_run s bs \<Longrightarrow> j < length bs \<Longrightarrow> end_op s = Inr t \<Longrightarrow> op_run t (take j bs @ drop (Suc j) bs)"
| run_buffers: "op_run s bs \<Longrightarrow> bcache.more t = bcache.more s \<Longrightarrow> op_run t bs"

lemma sum_list_split: "j < length bs \<Longrightarrow> sum_list bs = sum_list (take j bs @ drop (Suc j) bs) + (bs ! j :: nat)"
  by (subst id_take_nth_drop [of j bs]) simp_all

lemma log_write_log:
  assumes "log_write i s = Inr t"
  shows "lh_n t \<le> Suc (lh_n s) \<and> outstanding t = outstanding s \<and> committing t = committing s \<and> log_size t = log_size s"
proof -
  have "bcache.more (bpin i v) = bcache.more v" for v :: "'a log_state_scheme" by simp
  note m = more_fields [OF this]
  show ?thesis using assms m by (auto simp: log_write_def Let_def split: if_splits)
qed

definition reserved :: "log_state \<Rightarrow> nat list \<Rightarrow> bool" where
  "reserved s bs \<longleftrightarrow> \<not> committing s \<and> log_size s = LOGSIZE \<and> outstanding s = int (length bs) \<and>
     lh_n s + sum_list bs \<le> LOGSIZE \<and> (\<forall>b \<in> set bs. b \<le> MAXOPBLOCKS)"

lemma sum_list_pos: "0 < sum_list bs \<Longrightarrow> \<exists>j < length bs. 0 < (bs ! j :: nat)"
  by (metis in_set_conv_nth neq0_conv sum_list_eq_0_iff)

lemma sum_list_bound: "\<forall>b \<in> set bs. b \<le> (k :: nat) \<Longrightarrow> sum_list bs \<le> length bs * k"
  by (induction bs) auto

lemma op_run_reserved: "op_run s bs \<Longrightarrow> reserved s bs"
proof (induction rule: op_run.induct)
  case (run_begin s bs t)
  then have t: "t = s\<lparr>outstanding := outstanding s + 1\<rparr>" "int (lh_n s) + (outstanding s + 1) * int MAXOPBLOCKS \<le> int LOGSIZE"
    by (auto simp: begin_op_def split: if_splits)
  have "sum_list bs \<le> length bs * MAXOPBLOCKS" using run_begin.IH sum_list_bound unfolding reserved_def by blast
  moreover have "int (lh_n s) + (int (length bs) + 1) * int MAXOPBLOCKS \<le> int LOGSIZE" using t(2) run_begin.IH by (simp add: reserved_def)
  then have "int (lh_n s + length bs * MAXOPBLOCKS + MAXOPBLOCKS) \<le> int LOGSIZE" by (simp add: algebra_simps)
  then have "lh_n s + length bs * MAXOPBLOCKS + MAXOPBLOCKS \<le> LOGSIZE" by (simp only: of_nat_le_iff)
  ultimately show ?case using run_begin.IH t(1) by (simp add: reserved_def)
next
  case (run_log s bs j i t)
  let ?bs = "bs[j := bs ! j - 1]"
  have sum: "Suc (sum_list ?bs) = sum_list bs"
    using sum_list_split [OF run_log.hyps(2)] sum_list_split [of j ?bs] run_log.hyps(2,3) by simp
  have max: "\<forall>b \<in> set ?bs. b \<le> MAXOPBLOCKS"
  proof
    fix b assume "b \<in> set ?bs"
    then have "b = bs ! j - 1 \<or> b \<in> set bs" by (meson insertE set_update_subset_insert subsetD)
    moreover have "bs ! j \<in> set bs" using run_log.hyps(2) by simp
    ultimately show "b \<le> MAXOPBLOCKS" using run_log.IH unfolding reserved_def by fastforce
  qed
  note lw = log_write_log [OF run_log.hyps(4)]
  have "lh_n s + sum_list bs \<le> LOGSIZE" using run_log.IH by (simp add: reserved_def)
  then have "lh_n t + sum_list ?bs \<le> LOGSIZE" using lw sum by simp
  then show ?case using run_log.IH lw max by (simp only: reserved_def length_list_update) blast
next
  case (run_end s bs j t)
  let ?bs = "take j bs @ drop (Suc j) bs"
  have r: "\<forall>b \<in> set ?bs. b \<le> MAXOPBLOCKS" "length bs = Suc (length ?bs)" "sum_list ?bs \<le> sum_list bs"
    using run_end.IH run_end.hyps(2) sum_list_split [OF run_end.hyps(2)]
    by (auto simp: reserved_def dest: in_set_takeD in_set_dropD)
  show ?case
  proof (cases "outstanding s = 1")
    case True
    then obtain u where u: "commit (s\<lparr>outstanding := 0, committing := True\<rparr>) = Inr u" "t = u\<lparr>committing := False\<rparr>"
      using run_end.hyps(3) run_end.IH by (auto simp: end_op_def reserved_def)
    have nil: "?bs = []"
    proof -
      have "length bs = 1" using True run_end.IH by (simp add: reserved_def)
      then have "length ?bs = 0" using r(2) by linarith
      then show ?thesis by (simp only: length_0_conv)
    qed
    have "log_size s = LOGSIZE" using run_end.IH by (simp add: reserved_def)
    then have "outstanding t = 0" "lh_n t = 0" "\<not> committing t" "log_size t = LOGSIZE" using commit_log [OF u(1)] by (simp_all add: u(2))
    then show ?thesis unfolding nil by (simp add: reserved_def)
  next
    case False
    then have "t = s\<lparr>outstanding := outstanding s - 1\<rparr>" using run_end.hyps(3) run_end.IH by (simp add: end_op_def reserved_def)
    then have "\<not> committing t" "log_size t = LOGSIZE" "lh_n t = lh_n s" "outstanding t = int (length bs) - 1" "lh_n s + sum_list bs \<le> LOGSIZE"
      using run_end.IH by (simp_all add: reserved_def)
    moreover from this(4) have "outstanding t = int (length ?bs)" using r(2) by linarith
    moreover have "lh_n t + sum_list ?bs \<le> LOGSIZE" using calculation(3,5) r(3) by linarith
    ultimately show ?thesis using r(1) unfolding reserved_def by blast
  qed
next
  case (run_buffers s bs t)
  then show ?case using more_fields [OF run_buffers.hyps(2)] by (simp add: reserved_def)
qed (simp add: reserved_def)

text \<open>C23: However operations are interleaved, the blocks in the log and those the running operations may still log fit into \<open>LOGSIZE\<close>, because
  \<open>begin_op\<close> admits no operation without room for all its \<open>MAXOPBLOCKS\<close>. So \<open>log_write\<close> of an operation within its
  budget never panics while the running operations have two or more blocks left between them. For the very last one it panics exactly when
  \<open>LOGSIZE - 1\<close> blocks are in the log: the test of \<open>log_write\<close> against \<open>log.size - 1\<close> is off by one with respect to the reservation.\<close>

theorem begin_op_reserves:
  assumes "op_run s bs" and "0 < sum_list bs"
  shows "lh_n s + sum_list bs \<le> LOGSIZE \<and>
    (2 \<le> sum_list bs \<longrightarrow> (\<exists>t. log_write i s = Inr t)) \<and>
    (sum_list bs = 1 \<longrightarrow> (if lh_n s = LOGSIZE - 1 then log_write i s = Inl (Panic ''too big a transaction'') else \<exists>t. log_write i s = Inr t))"
proof -
  have r: "reserved s bs" by (rule op_run_reserved [OF assms(1)])
  have "bs \<noteq> []" using assms(2) by auto
  then have o: "1 \<le> outstanding s" using r by (cases bs) (simp_all add: reserved_def)
  have "\<exists>t. log_write i s = Inr t" if "lh_n s + 1 < LOGSIZE"
    using that o r by (auto simp: log_write_def reserved_def Let_def)
  moreover have "log_write i s = Inl (Panic ''too big a transaction'')" if "lh_n s = LOGSIZE - 1"
    using that r by (simp add: log_write_def reserved_def LOGSIZE_def MAXOPBLOCKS_def)
  moreover have "lh_n s + sum_list bs \<le> LOGSIZE" using r by (simp add: reserved_def)
  ultimately show ?thesis by auto
qed

text \<open>Three operations at once fill the log up to the last block; the tenth block of the third makes \<open>log_write\<close> panic.\<close>

definition boot_idle :: log_state where
  "boot_idle = (boot_state (\<lambda>_ _. 0))\<lparr>outstanding := 0\<rparr>"

lemma three_admitted: "op_run (boot_idle\<lparr>outstanding := 3\<rparr>) [10, 10, 10]"
proof -
  have f: "lh_n boot_idle = 0" "outstanding boot_idle = 0" "\<not> committing boot_idle" "log_size boot_idle = LOGSIZE"
    by (simp_all add: boot_idle_def boot_with_def LOGSIZE_def MAXOPBLOCKS_def)
  have b: "begin_op (boot_idle\<lparr>outstanding := k\<rparr>) = Inr (boot_idle\<lparr>outstanding := k + 1\<rparr>)" if "k \<le> 2" for k
    using f that by (simp add: begin_op_def LOGSIZE_def MAXOPBLOCKS_def)
  have "boot_idle\<lparr>outstanding := 0\<rparr> = boot_idle" using f(2) by (cases boot_idle) simp
  then have "op_run (boot_idle\<lparr>outstanding := 0\<rparr>) []" using run_boot f by simp
  from run_begin [OF run_begin [OF run_begin [OF this b] b] b] show ?thesis by (simp add: MAXOPBLOCKS_def)
qed

lemma log_filled:
  "n \<le> 29 \<Longrightarrow> \<exists>s bs. op_run s bs \<and> lh_n s = n \<and> sum_list bs = 30 - n \<and> (\<forall>i < n. lh_block s i = i)"
proof (induction n)
  case 0
  have "lh_n (boot_idle\<lparr>outstanding := 3\<rparr>) = 0" by (simp add: boot_idle_def boot_with_def)
  then show ?case using three_admitted by (intro exI conjI) (assumption, assumption, simp_all)
next
  case (Suc n)
  then obtain s bs where s: "op_run s bs" "lh_n s = n" "sum_list bs = 30 - n" "\<forall>i < n. lh_block s i = i" by auto
  define u where "u = upd_buf 0 (\<lambda>b. b\<lparr>blockno := n\<rparr>) s"
  have mu: "bcache.more u = bcache.more s" by (simp add: u_def)
  have u: "op_run u bs" by (rule run_buffers [OF s(1) mu])
  note f = more_fields [OF mu]
  have "0 < sum_list bs" using s(3) Suc.prems by simp
  then obtain j where j: "j < length bs" "0 < bs ! j" using sum_list_pos by blast
  then have "bs \<noteq> []" by auto
  have bn: "blockno (bufs u 0) = n" by (simp add: u_def upd_buf_def)
  have none: "List.find (\<lambda>i. lh_block u i = n) [0..<n] = None" using s(4) f by (auto simp: find_None_iff)
  have slot: "log_slot u n = n" using none s(2) f by (simp add: log_slot_def)
  have "reserved u bs" by (rule op_run_reserved [OF u])
  then have "log_write 0 u = Inr ((bpin 0 (u\<lparr>lh_block := (lh_block u)(n := n)\<rparr>))\<lparr>lh_n := n + 1\<rparr>)"
    using \<open>bs \<noteq> []\<close> s(2) f Suc.prems by (cases bs) (simp_all add: log_write_def bn slot Let_def reserved_def LOGSIZE_def MAXOPBLOCKS_def)
  from run_log [OF u j this] have r: "op_run ((bpin 0 (u\<lparr>lh_block := (lh_block u)(n := n)\<rparr>))\<lparr>lh_n := n + 1\<rparr>) (bs[j := bs ! j - 1])" .
  have "sum_list (bs[j := bs ! j - 1]) = 30 - Suc n"
    using sum_list_split [of j "bs[j := bs ! j - 1]"] sum_list_split [OF j(1)] j s(3) by simp
  moreover have "\<forall>i < Suc n. lh_block ((bpin 0 (u\<lparr>lh_block := (lh_block u)(n := n)\<rparr>))\<lparr>lh_n := n + 1\<rparr>) i = i"
    using s(4) f more_fields [of "bpin 0 (u\<lparr>lh_block := (lh_block u)(n := n)\<rparr>)" "u\<lparr>lh_block := (lh_block u)(n := n)\<rparr>"] by (auto simp: less_Suc_eq)
  ultimately show ?case using r by (intro exI conjI) (assumption, simp_all)
qed

theorem log_write_panics_within_budget:
  "\<exists>s bs j. op_run s bs \<and> j < length bs \<and> 0 < bs ! j \<and> log_write 0 s = Inl (Panic ''too big a transaction'')"
proof -
  obtain s bs where s: "op_run s bs" "lh_n s = 29" "sum_list bs = 1" using log_filled [of 29] by auto
  then obtain j where j: "j < length bs" "0 < bs ! j" using sum_list_pos [of bs] by auto
  have "reserved s bs" by (rule op_run_reserved [OF s(1)])
  then have "log_write 0 s = Inl (Panic ''too big a transaction'')"
    using s(2) by (simp add: log_write_def reserved_def LOGSIZE_def MAXOPBLOCKS_def)
  then show ?thesis using s(1) j by blast
qed

theorem begin_op_reserves_witness:
  "\<exists>s t bs. op_run s bs \<and> sum_list bs = 30 \<and> lh_n s + 30 \<le> LOGSIZE \<and> log_write 0 s = Inr t"
proof -
  define s where "s = boot_idle\<lparr>outstanding := 3\<rparr>"
  have r: "op_run s [10, 10, 10]" unfolding s_def by (rule three_admitted)
  have "0 < sum_list [10, 10, 10 :: nat]" by simp
  from begin_op_reserves [OF r this, of 0] obtain t where "log_write 0 s = Inr t" "lh_n s + 30 \<le> LOGSIZE" by auto
  then show ?thesis using r by (intro exI [of _ s] exI [of _ t] exI [of _ "[10, 10, 10]"]) simp
qed

end
