(* ===== verification/Ring.thy ===== *)
theory Ring
  imports Prelude
begin

text \<open>
  The interface of a bounded byte queue, and the ring buffer with free-running 32-bit counters that
  the pipe and the console use: index \<open>counter % size\<close>, where the counters wrap around at
  \<open>2 ^ 32\<close> and the size divides that.
\<close>

section \<open>Bounded queues\<close>

locale byte_queue =
  fixes ok :: "'s \<Rightarrow> bool" and contents :: "'s \<Rightarrow> u8 list" and cap :: nat
    and put :: "u8 \<Rightarrow> 's \<Rightarrow> 's" and get :: "'s \<Rightarrow> u8 \<times> 's" and full :: "'s \<Rightarrow> bool" and empty :: "'s \<Rightarrow> bool"
  assumes bounded: "ok s \<Longrightarrow> length (contents s) \<le> cap"
    and full_iff: "ok s \<Longrightarrow> full s \<longleftrightarrow> length (contents s) = cap"
    and empty_iff: "ok s \<Longrightarrow> empty s \<longleftrightarrow> contents s = []"
    and put_ok: "ok s \<Longrightarrow> \<not> full s \<Longrightarrow> ok (put c s) \<and> contents (put c s) = contents s @ [c]"
    and get_ok: "ok s \<Longrightarrow> \<not> empty s \<Longrightarrow>
      ok (snd (get s)) \<and> contents s = fst (get s) # contents (snd (get s))"
begin

lemma put_space: "ok s \<Longrightarrow> length (contents s) < cap \<Longrightarrow> ok (put c s) \<and> contents (put c s) = contents s @ [c]"
  using put_ok full_iff by simp

lemma put_all:
  assumes "ok s" and "length (contents s) + length cs \<le> cap"
  shows "ok (fold put cs s) \<and> contents (fold put cs s) = contents s @ cs"
  using assms
proof (induction cs arbitrary: s)
  case (Cons c cs)
  have "ok (put c s) \<and> contents (put c s) = contents s @ [c]"
    by (rule put_space) (use Cons.prems in auto)
  then show ?case using Cons.IH [of "put c s"] Cons.prems by simp
qed simp

text \<open>Taking up to \<open>n\<close> bytes.\<close>

primrec drain :: "nat \<Rightarrow> 's \<Rightarrow> u8 list \<times> 's" where
  "drain 0 s = ([], s)"
| "drain (Suc n) s =
     (if empty s then ([], s)
      else let (c, s1) = get s; (cs, s2) = drain n s1 in (c # cs, s2))"

lemma drain_take:
  assumes "ok s"
  shows "fst (drain n s) = take n (contents s)" and "contents (snd (drain n s)) = drop n (contents s)"
    and "ok (snd (drain n s))"
proof -
  have "fst (drain n s) = take n (contents s) \<and> contents (snd (drain n s)) = drop n (contents s) \<and>
    ok (snd (drain n s))"
    using assms
  proof (induction n arbitrary: s)
    case (Suc n)
    show ?case
    proof (cases "empty s")
      case True
      then show ?thesis using Suc.prems empty_iff by simp
    next
      case False
      obtain c s1 where g: "get s = (c, s1)" by fastforce
      have s1: "ok s1" "contents s = c # contents s1" using get_ok [OF Suc.prems False] g by simp_all
      obtain cs s2 where d: "drain n s1 = (cs, s2)" by fastforce
      show ?thesis using Suc.IH [OF s1(1)] False g d s1 by simp
    qed
  qed simp
  then show "fst (drain n s) = take n (contents s)" "contents (snd (drain n s)) = drop n (contents s)"
    "ok (snd (drain n s))" by blast+
qed

text \<open>First in, first out.\<close>

lemma fifo:
  assumes "ok s" and "contents s = []" and "length cs \<le> cap"
  shows "fst (drain (length cs) (fold put cs s)) = cs"
  using put_all [OF assms(1), of cs] drain_take(1) assms(2,3) by simp

end

section \<open>Ring buffers with wrapping counters\<close>

definition ring_between :: "nat \<Rightarrow> (nat \<Rightarrow> u8) \<Rightarrow> u32 \<Rightarrow> u32 \<Rightarrow> u8 list" where
  "ring_between N buf r w = map (\<lambda>i. buf ((unat r + i) mod N)) [0..<unat (w - r)]"

locale ring =
  fixes N :: nat
  assumes N_pos: "0 < N" and N_dvd: "N dvd 2 ^ 32" and N_small: "N < 2 ^ 32"
begin

lemma length_ring [simp]: "length (ring_between N buf r w) = unat (w - r)"
  by (simp add: ring_between_def)

lemma mod_plus: "unat (r + of_nat i :: u32) mod N = (unat r + i) mod N"
proof -
  have "unat (r + of_nat i :: u32) = (unat r + i) mod 2 ^ 32"
    by (simp add: unat_word_ariths unsigned_of_nat take_bit_eq_mod mod_simps)
  then show ?thesis using N_dvd by (simp add: mod_mod_cancel)
qed

lemma unat_plus1: "unat (d :: u32) < 2 ^ 32 - 1 \<Longrightarrow> unat (d + 1) = Suc (unat d)"
  by (simp add: unat_word_ariths)

lemma unat_suc:
  assumes "unat (w - r :: u32) < N"
  shows "unat (w + 1 - r) = Suc (unat (w - r))"
proof -
  have "unat (w - r) < 2 ^ 32 - 1" using assms N_small by simp
  from unat_plus1 [OF this] have "unat ((w - r) + 1) = Suc (unat (w - r))" .
  moreover have "w + 1 - r = (w - r) + 1" by (simp only: algebra_simps)
  ultimately show ?thesis by (simp only:)
qed

lemma mod_plus_add: "(unat (r + of_nat k :: u32) + i) mod N = (unat r + (k + i)) mod N"
proof -
  have "(unat (r + of_nat k :: u32) + i) mod N = (unat (r + of_nat k) mod N + i) mod N"
    by (simp only: mod_add_left_eq)
  also have "\<dots> = ((unat r + k) mod N + i) mod N" by (simp only: mod_plus)
  also have "\<dots> = (unat r + (k + i)) mod N" by (simp only: mod_add_left_eq add.assoc)
  finally show ?thesis .
qed

text \<open>Writing at the write counter appends; the bytes already there are not touched.\<close>

lemma ring_put:
  assumes "unat (w - r) < N"
  shows "ring_between N (buf(unat w mod N := c)) r (w + 1) = ring_between N buf r w @ [c]"
proof -
  have w: "unat w mod N = (unat r + unat (w - r)) mod N"
    using mod_plus [of r "unat (w - r)"] by simp
  have "(unat r + i) mod N \<noteq> unat w mod N" if "i < unat (w - r)" for i
  proof
    assume "(unat r + i) mod N = unat w mod N"
    then have "(unat r + unat (w - r)) mod N = (unat r + i) mod N" using w by simp
    then have "N dvd unat (w - r) - i"
      using mod_eq_dvd_iff_nat [of "unat r + i" "unat r + unat (w - r)" N] that by simp
    moreover have "0 < unat (w - r) - i" "unat (w - r) - i < N" using that assms by simp_all
    ultimately show False using dvd_imp_le by fastforce
  qed
  then have "ring_between N (buf(unat w mod N := c)) r w = ring_between N buf r w"
    by (simp add: ring_between_def)
  moreover have "ring_between N b r (w + 1) = ring_between N b r w @ [b ((unat r + unat (w - r)) mod N)]" for b
    using unat_suc [OF assms] by (simp add: ring_between_def)
  ultimately show ?thesis using w by simp
qed

lemma unat_pred:
  assumes "w \<noteq> r"
  shows "unat (w - r :: u32) = Suc (unat (w - (r + 1)))"
proof -
  have "unat ((w - r) - 1) = unat (w - r) - 1" by (rule unat_minus_one) (use assms in simp)
  moreover have "0 < unat (w - r)" using assms by (simp add: unat_gt_0)
  ultimately have "unat (w - r) = Suc (unat ((w - r) - 1))" by simp
  then show ?thesis by (simp only: diff_diff_eq)
qed

lemma ring_get:
  assumes "w \<noteq> r"
  shows "ring_between N buf r w = buf (unat r mod N) # ring_between N buf (r + 1) w"
proof -
  have "(unat r + Suc i) mod N = (unat (r + 1) + i) mod N" for i
    using mod_plus_add [of r 1 i] by simp
  then show ?thesis
    using unat_pred [OF assms] by (simp add: ring_between_def map_upt_Suc del: upt_Suc)
qed

text \<open>Stepping the write counter back removes the last byte.\<close>

lemma ring_unput:
  assumes "w \<noteq> r" and "unat (w - r) \<le> N"
  shows "ring_between N buf r w = ring_between N buf r (w - 1) @ [buf (unat (w - 1) mod N)]"
proof -
  have e: "unat (w - r) = Suc (unat (w - 1 - r))"
    using unat_pred [OF assms(1)] by (simp add: algebra_simps)
  have "unat (w - 1) mod N = (unat r + unat (w - 1 - r)) mod N"
    using mod_plus [of r "unat (w - 1 - r)"] by simp
  then show ?thesis by (simp add: ring_between_def e)
qed

lemma ring_split:
  assumes "unat (w - r) + unat (e - w) < 2 ^ 32"
  shows "ring_between N buf r e = ring_between N buf r w @ ring_between N buf w e"
proof -
  have s: "unat (e - r) = unat (w - r) + unat (e - w)"
  proof -
    have "unat ((w - r) + (e - w)) = unat (w - r) + unat (e - w)"
      by (rule unat_add_lem [THEN iffD1]) (use assms in simp)
    moreover have "e - r = (w - r) + (e - w)" by (simp only: algebra_simps)
    ultimately show ?thesis by (simp only:)
  qed
  have m: "(unat w + i) mod N = (unat r + (unat (w - r) + i)) mod N" for i
    using mod_plus_add [of r "unat (w - r)" i] by simp
  define a b where "a = unat (w - r)" and "b = unat (e - w)"
  have l: "[0..<a + b] = [0..<a] @ map (\<lambda>i. i + a) [0..<b]"
    using upt_add_eq_append [of 0 a b] map_add_upt [of a b] by (simp add: add.commute)
  have "map (\<lambda>i. buf ((unat r + i) mod N)) (map (\<lambda>i. i + a) [0..<b]) =
      map (\<lambda>i. buf ((unat w + i) mod N)) [0..<b]"
    unfolding map_map o_def using m by (simp only: a_def add.commute [of _ "unat (w - r)"])
  then show ?thesis
    unfolding ring_between_def s a_def [symmetric] b_def [symmetric] l by (simp only: map_append)
qed

end

end
