(* ===== verification/Pipe.thy ===== *)
theory Pipe
  imports Ring
begin

text \<open>
  Pipes (mp4/kernel/pipe.c). User memory is reached through two parameters: \<open>ci a\<close> is the byte
  \<open>copyin\<close> reads at user address \<open>a\<close> (\<open>None\<close> when it fails), \<open>co a c m\<close> the memory after
  \<open>copyout\<close> of one byte. A call that sleeps returns \<open>Wait i\<close> with the state it leaves; it is
  resumed at the same \<open>i\<close>.
\<close>

section \<open>State and operations\<close>

record pipe =
  pdata :: "nat \<Rightarrow> u8"
  nread :: u32
  nwrite :: u32
  readopen :: bool
  writeopen :: bool

datatype io = Ret int | Wait nat

definition PIPESIZE :: nat where "PIPESIZE = 512"

definition pipe_full :: "pipe \<Rightarrow> bool" where
  "pipe_full pi \<longleftrightarrow> nwrite pi = nread pi + of_nat PIPESIZE"

definition pipe_empty :: "pipe \<Rightarrow> bool" where
  "pipe_empty pi \<longleftrightarrow> nread pi = nwrite pi"

text \<open>\<open>pi->data[pi->nwrite++ % PIPESIZE] = ch\<close> and \<open>ch = pi->data[pi->nread++ % PIPESIZE]\<close>.\<close>

definition pipe_put :: "u8 \<Rightarrow> pipe \<Rightarrow> pipe" where
  "pipe_put ch pi = pi\<lparr>pdata := (pdata pi)(unat (nwrite pi) mod PIPESIZE := ch), nwrite := nwrite pi + 1\<rparr>"

definition pipe_get :: "pipe \<Rightarrow> u8 \<times> pipe" where
  "pipe_get pi = (pdata pi (unat (nread pi) mod PIPESIZE), pi\<lparr>nread := nread pi + 1\<rparr>)"

text \<open>What \<open>pipealloc\<close> makes of a fresh page.\<close>

definition pipe_init :: "(nat \<Rightarrow> u8) \<Rightarrow> pipe" where
  "pipe_init page = \<lparr>pdata = page, nread = 0, nwrite = 0, readopen = True, writeopen = True\<rparr>"

text \<open>The second component tells whether the page is given back to \<open>kfree\<close>.\<close>

definition pipeclose :: "bool \<Rightarrow> pipe \<Rightarrow> pipe \<times> bool" where
  "pipeclose writable pi =
     (let p1 = (if writable then pi\<lparr>writeopen := False\<rparr> else pi\<lparr>readopen := False\<rparr>)
      in (p1, \<not> readopen p1 \<and> \<not> writeopen p1))"

function pipewrite_from ::
    "(nat \<Rightarrow> u8 option) \<Rightarrow> bool \<Rightarrow> nat \<Rightarrow> int \<Rightarrow> nat \<Rightarrow> pipe \<Rightarrow> io \<times> pipe" where
  "pipewrite_from ci killed addr n i pi =
     (if int i < n then
        if pipe_full pi then
          if \<not> readopen pi \<or> killed then (Ret (-1), pi) else (Wait i, pi)
        else
          (case ci (addr + i) of
             None \<Rightarrow> (Ret (int i), pi)
           | Some ch \<Rightarrow> pipewrite_from ci killed addr n (Suc i) (pipe_put ch pi))
      else (Ret (int i), pi))"
  by pat_completeness auto
termination
  by (relation "measure (\<lambda>(ci, killed, addr, n, i, pi). nat (n - int i))") auto

declare pipewrite_from.simps [simp del]

definition pipewrite :: "(nat \<Rightarrow> u8 option) \<Rightarrow> bool \<Rightarrow> nat \<Rightarrow> int \<Rightarrow> pipe \<Rightarrow> io \<times> pipe" where
  "pipewrite ci killed addr n pi = pipewrite_from ci killed addr n 0 pi"

function piperead_loop ::
    "(nat \<Rightarrow> u8 \<Rightarrow> 'm \<Rightarrow> 'm option) \<Rightarrow> nat \<Rightarrow> int \<Rightarrow> nat \<Rightarrow> pipe \<Rightarrow> 'm \<Rightarrow> io \<times> pipe \<times> 'm" where
  "piperead_loop co addr n i pi m =
     (if int i < n then
        if pipe_empty pi then (Ret (int i), pi, m)
        else
          (let (ch, p1) = pipe_get pi in
           case co (addr + i) ch m of
             None \<Rightarrow> (Ret (int i), p1, m)
           | Some m1 \<Rightarrow> piperead_loop co addr n (Suc i) p1 m1)
      else (Ret (int i), pi, m))"
  by pat_completeness auto
termination
  by (relation "measure (\<lambda>(co, addr, n, i, pi, m). nat (n - int i))") auto

declare piperead_loop.simps [simp del]

definition piperead ::
    "(nat \<Rightarrow> u8 \<Rightarrow> 'm \<Rightarrow> 'm option) \<Rightarrow> bool \<Rightarrow> nat \<Rightarrow> int \<Rightarrow> pipe \<Rightarrow> 'm \<Rightarrow> io \<times> pipe \<times> 'm" where
  "piperead co killed addr n pi m =
     (if pipe_empty pi \<and> writeopen pi then
        if killed then (Ret (-1), pi, m) else (Wait 0, pi, m)
      else piperead_loop co addr n 0 pi m)"

section \<open>A pipe is a bounded queue\<close>

interpretation pipe_ring: ring PIPESIZE
  by unfold_locales (simp_all add: PIPESIZE_def)

definition pipe_ok :: "pipe \<Rightarrow> bool" where
  "pipe_ok pi \<longleftrightarrow> unat (nwrite pi - nread pi) \<le> PIPESIZE"

definition pipe_bytes :: "pipe \<Rightarrow> u8 list" where
  "pipe_bytes pi = ring_between PIPESIZE (pdata pi) (nread pi) (nwrite pi)"

lemma pipe_full_unat: "pipe_full pi \<longleftrightarrow> unat (nwrite pi - nread pi) = PIPESIZE"
proof
  assume "pipe_full pi"
  then show "unat (nwrite pi - nread pi) = PIPESIZE" by (simp add: pipe_full_def PIPESIZE_def)
next
  assume "unat (nwrite pi - nread pi) = PIPESIZE"
  then have "nwrite pi - nread pi = of_nat PIPESIZE" by (simp add: word_unat_eq_iff PIPESIZE_def)
  then show "pipe_full pi" unfolding pipe_full_def by (metis add.commute diff_add_cancel)
qed

interpretation pipe_queue: byte_queue pipe_ok pipe_bytes PIPESIZE pipe_put pipe_get pipe_full pipe_empty
proof unfold_locales
  fix s c
  show "pipe_ok s \<Longrightarrow> length (pipe_bytes s) \<le> PIPESIZE" by (simp add: pipe_ok_def pipe_bytes_def)
  show "pipe_ok s \<Longrightarrow> pipe_full s \<longleftrightarrow> length (pipe_bytes s) = PIPESIZE"
    by (simp add: pipe_full_unat pipe_bytes_def)
  show "pipe_ok s \<Longrightarrow> pipe_empty s \<longleftrightarrow> pipe_bytes s = []"
    by (auto simp: pipe_empty_def pipe_bytes_def ring_between_def unat_eq_0)
  { assume "pipe_ok s" "\<not> pipe_full s"
    then have lt: "unat (nwrite s - nread s) < PIPESIZE" by (simp add: pipe_ok_def pipe_full_unat)
    have "pipe_bytes (pipe_put c s) = pipe_bytes s @ [c]"
      using pipe_ring.ring_put [OF lt] by (simp add: pipe_bytes_def pipe_put_def)
    moreover have "unat (nwrite s + 1 - nread s) \<le> PIPESIZE" using pipe_ring.unat_suc [OF lt] lt by simp
    ultimately show "pipe_ok (pipe_put c s) \<and> pipe_bytes (pipe_put c s) = pipe_bytes s @ [c]"
      by (simp add: pipe_ok_def pipe_put_def) }
  { assume ok: "pipe_ok s" and ne: "\<not> pipe_empty s"
    then have ne: "nwrite s \<noteq> nread s" by (simp add: pipe_empty_def)
    have "unat (nwrite s - (nread s + 1)) \<le> PIPESIZE"
      using pipe_ring.unat_pred [OF ne] ok by (simp add: pipe_ok_def)
    then show "pipe_ok (snd (pipe_get s)) \<and> pipe_bytes s = fst (pipe_get s) # pipe_bytes (snd (pipe_get s))"
      using pipe_ring.ring_get [OF ne] by (simp add: pipe_ok_def pipe_get_def pipe_bytes_def) }
qed

lemma pipe_put_open [simp]:
  "readopen (pipe_put c pi) = readopen pi" "writeopen (pipe_put c pi) = writeopen pi"
  "readopen (snd (pipe_get pi)) = readopen pi" "writeopen (snd (pipe_get pi)) = writeopen pi"
  by (simp_all add: pipe_put_def pipe_get_def)

lemma nwrite_put: "nwrite (pipe_put c pi) = nwrite pi + 1"
  by (simp add: pipe_put_def)

text \<open>What a write does: it appends the bytes it got through, and stops for exactly one reason.\<close>

lemma pipewrite_from_spec:
  assumes "pipe_ok pi" and "pipewrite_from ci killed addr n i pi = (r, pi')"
  shows "\<exists>bs. pipe_ok pi' \<and> pipe_bytes pi' = pipe_bytes pi @ bs \<and> readopen pi' = readopen pi \<and>
    writeopen pi' = writeopen pi \<and> nwrite pi' = nwrite pi + of_nat (length bs) \<and>
    (\<forall>k<length bs. ci (addr + i + k) = Some (bs ! k)) \<and>
    (r = Wait (i + length bs) \<and> int (i + length bs) < n \<and> pipe_full pi' \<and> readopen pi \<and> \<not> killed \<or>
     r = Ret (-1) \<and> int (i + length bs) < n \<and> pipe_full pi' \<and> (\<not> readopen pi \<or> killed) \<or>
     r = Ret (int (i + length bs)) \<and> (n \<le> int (i + length bs) \<or> \<not> pipe_full pi' \<and> ci (addr + i + length bs) = None))"
  using assms
proof (induction ci killed addr n i pi rule: pipewrite_from.induct)
  case (1 ci killed addr n i pi)
  note eq = "1.prems"(2) [unfolded pipewrite_from.simps [of ci killed addr n i pi]]
  show ?case
  proof (cases "int i < n \<and> \<not> pipe_full pi \<and> ci (addr + i) \<noteq> None")
    case False
    then show ?thesis
      using eq "1.prems"(1) by (intro exI [of _ "[]"]) (auto split: if_splits option.splits)
  next
    case True
    then obtain ch where ch: "ci (addr + i) = Some ch" by auto
    note put = pipe_queue.put_ok [OF "1.prems"(1), of ch]
    have "pipewrite_from ci killed addr n (Suc i) (pipe_put ch pi) = (r, pi')" using eq True ch by simp
    from "1.IH" [OF _ _ ch _ this] True put obtain bs where bs:
      "pipe_ok pi'" "pipe_bytes pi' = pipe_bytes pi @ ch # bs" "readopen pi' = readopen pi"
      "writeopen pi' = writeopen pi" "nwrite pi' = nwrite pi + 1 + of_nat (length bs)"
      "\<forall>k<length bs. ci (addr + Suc i + k) = Some (bs ! k)"
      "r = Wait (Suc i + length bs) \<and> int (Suc i + length bs) < n \<and> pipe_full pi' \<and> readopen pi \<and> \<not> killed \<or>
       r = Ret (-1) \<and> int (Suc i + length bs) < n \<and> pipe_full pi' \<and> (\<not> readopen pi \<or> killed) \<or>
       r = Ret (int (Suc i + length bs)) \<and> (n \<le> int (Suc i + length bs) \<or> \<not> pipe_full pi' \<and> ci (addr + Suc i + length bs) = None)"
      by (auto simp: nwrite_put)
    have "\<forall>k<length (ch # bs). ci (addr + i + k) = Some ((ch # bs) ! k)"
    proof (intro allI impI)
      fix k assume "k < length (ch # bs)"
      then show "ci (addr + i + k) = Some ((ch # bs) ! k)"
        using ch bs(6) by (cases k) auto
    qed
    then show ?thesis using bs by (intro exI [of _ "ch # bs"]) simp
  qed
qed

text \<open>The memory of a reader of which the addresses in \<open>wr\<close> can be written.\<close>

definition user_copyout :: "(nat \<Rightarrow> bool) \<Rightarrow> nat \<Rightarrow> u8 \<Rightarrow> (nat \<Rightarrow> u8) \<Rightarrow> (nat \<Rightarrow> u8) option" where
  "user_copyout wr a c m = (if wr a then Some (m(a := c)) else None)"

text \<open>What a read does: it takes the bytes \<open>bs\<close>, of which the first \<open>k\<close> arrive; the one it may lose is taken before
  its \<open>copyout\<close> fails.\<close>

lemma piperead_loop_spec:
  assumes "pipe_ok pi" and "piperead_loop (user_copyout wr) addr n i pi m = (r, pi', m')"
  shows "\<exists>k bs. r = Ret (int (i + k)) \<and> pipe_ok pi' \<and> pipe_bytes pi = bs @ pipe_bytes pi' \<and>
    nread pi' = nread pi + of_nat (length bs) \<and>
    (length bs = k \<and> (n \<le> int (i + k) \<or> pipe_bytes pi' = []) \<or>
     length bs = Suc k \<and> int (i + k) < n \<and> \<not> wr (addr + i + k)) \<and>
    (\<forall>a. m' a = (if addr + i \<le> a \<and> a < addr + i + k then bs ! (a - (addr + i)) else m a))"
  using assms
proof (induction n' \<equiv> "nat (n - int i)" arbitrary: i pi m rule: less_induct)
  case less
  note eq = less.prems(2) [unfolded piperead_loop.simps [of "user_copyout wr" addr n i pi m]]
  show ?case
  proof (cases "int i < n \<and> \<not> pipe_empty pi")
    case False
    then show ?thesis using eq less.prems(1) pipe_queue.empty_iff [OF less.prems(1)]
      by (intro exI [of _ 0] exI [of _ "[]"]) (auto split: if_splits)
  next
    case True
    obtain ch p1 where g: "pipe_get pi = (ch, p1)" by fastforce
    have p1: "pipe_ok p1" "pipe_bytes pi = ch # pipe_bytes p1" "nread p1 = nread pi + 1"
      using pipe_queue.get_ok [OF less.prems(1)] True g by (auto simp: pipe_get_def)
    show ?thesis
    proof (cases "wr (addr + i)")
      case False
      then have "r = Ret (int i)" "pi' = p1" "m' = m" using eq True g by (simp_all add: user_copyout_def)
      then show ?thesis using p1 True False by (intro exI [of _ 0] exI [of _ "[ch]"]) auto
    next
      case w: True
      then have "piperead_loop (user_copyout wr) addr n (Suc i) p1 (m(addr + i := ch)) = (r, pi', m')"
        using eq True g by (simp add: user_copyout_def)
      from less.hyps [OF _ p1(1) this] True obtain k bs where
        k: "r = Ret (int (Suc i + k))" "pipe_ok pi'" "pipe_bytes p1 = bs @ pipe_bytes pi'" "nread pi' = nread p1 + of_nat (length bs)"
          "length bs = k \<and> (n \<le> int (Suc i + k) \<or> pipe_bytes pi' = []) \<or>
           length bs = Suc k \<and> int (Suc i + k) < n \<and> \<not> wr (addr + Suc i + k)"
          "\<forall>a. m' a = (if addr + Suc i \<le> a \<and> a < addr + Suc i + k then bs ! (a - (addr + Suc i)) else (m(addr + i := ch)) a)"
        by auto
      have "\<forall>a. m' a = (if addr + i \<le> a \<and> a < addr + i + Suc k then (ch # bs) ! (a - (addr + i)) else m a)"
        by (auto simp: k(6) nth_Cons')
      then show ?thesis using k p1 by (intro exI [of _ "Suc k"] exI [of _ "ch # bs"]) auto
    qed
  qed
qed

section \<open>The byte stream\<close>

text \<open>How many bytes a call tells its caller it moved.\<close>

definition io_count :: "io \<Rightarrow> nat" where
  "io_count r = (case r of Ret j \<Rightarrow> nat j | Wait _ \<Rightarrow> 0)"

text \<open>Any interleaving of writes and reads, each resumed or not, with reads and writes of user memory that may fail. \<open>W\<close> are the bytes
  writers put in: those \<open>copyin\<close> reads at the consecutive addresses of the write, as many as it advances the write counter. \<open>T\<close> are the
  bytes taken out, in order: \<open>Some b\<close> for a byte \<open>b\<close> the reader finds in its memory, at the address where it asked for it, and
  within the count that \<open>piperead\<close> returned; \<open>None\<close> for each further step of the read counter. \<open>F\<close> counts the reads that stop at
  an address that cannot be written.\<close>

inductive pipe_run :: "pipe \<Rightarrow> u8 list \<Rightarrow> u8 option list \<Rightarrow> nat \<Rightarrow> bool" where
  stream_start: "pipe_run (pipe_init page) [] [] 0"
| stream_write: "pipe_run pi W T F \<Longrightarrow> pipewrite_from ci killed addr n i pi = (r, pi') \<Longrightarrow>
    pipe_run pi' (W @ map (\<lambda>k. the (ci (addr + i + k))) [0..<unat (nwrite pi' - nwrite pi)]) T F"
| stream_read: "pipe_run pi W T F \<Longrightarrow> piperead (user_copyout wr) killed addr n pi m = (r, pi', m') \<Longrightarrow>
    pipe_run pi' W (T @ map (\<lambda>k. Some (m' (addr + k))) [0..<io_count r] @ replicate (unat (nread pi' - nread pi) - io_count r) None)
      (F + (if int (io_count r) < n \<and> \<not> wr (addr + io_count r) then 1 else 0))"
| stream_close: "pipe_run pi W T F \<Longrightarrow> pipe_run (fst (pipeclose writable pi)) W T F"

definition taken_bytes :: "u8 option list \<Rightarrow> u8 list \<Rightarrow> bool" where
  "taken_bytes T D \<longleftrightarrow> list_all2 (\<lambda>t b. t = None \<or> t = Some b) T D"

lemma small_diff: "length bs \<le> 512 \<Longrightarrow> w' = w + of_nat (length bs) \<Longrightarrow> unat (w' - w :: u32) = length bs"
  by (simp add: unsigned_of_nat take_bit_nat_eq_self)

lemma pipe_run_invariant:
  "pipe_run pi W T F \<Longrightarrow> pipe_ok pi \<and> (\<exists>D. W = D @ pipe_bytes pi \<and> taken_bytes T D \<and> count_list T None \<le> F)"
proof (induction rule: pipe_run.induct)
  case (stream_start page)
  then show ?case by (simp add: pipe_init_def pipe_ok_def pipe_bytes_def ring_between_def taken_bytes_def)
next
  case (stream_write pi W T F ci killed addr n i r pi')
  from stream_write.IH obtain D where D: "pipe_ok pi" "W = D @ pipe_bytes pi" "taken_bytes T D" "count_list T None \<le> F" by blast
  from pipewrite_from_spec [OF D(1) stream_write.hyps(2)] obtain bs where
    bs: "pipe_ok pi'" "pipe_bytes pi' = pipe_bytes pi @ bs" "nwrite pi' = nwrite pi + of_nat (length bs)"
      "\<forall>k<length bs. ci (addr + i + k) = Some (bs ! k)" by blast
  have "length bs \<le> 512" using pipe_queue.bounded [OF bs(1)] bs(2) by (simp add: PIPESIZE_def)
  then have n: "unat (nwrite pi' - nwrite pi) = length bs" using bs(3) by (rule small_diff)
  have "map (\<lambda>k. the (ci (addr + i + k))) [0..<length bs] = bs" using bs(4) by (intro nth_equalityI) auto
  then show ?case using D bs(1,2) by (simp add: n)
next
  case (stream_read pi W T F wr killed addr n m r pi' m')
  from stream_read.IH obtain D where D: "pipe_ok pi" "W = D @ pipe_bytes pi" "taken_bytes T D" "count_list T None \<le> F" by blast
  show ?case
  proof (cases "pipe_empty pi \<and> writeopen pi")
    case True
    then have "pi' = pi" "io_count r = 0" using stream_read.hyps(2) by (auto simp: piperead_def io_count_def split: if_splits)
    then show ?thesis using D by auto
  next
    case False
    then have "piperead_loop (user_copyout wr) addr n 0 pi m = (r, pi', m')" using stream_read.hyps(2) by (auto simp: piperead_def)
    from piperead_loop_spec [OF D(1) this] obtain k bs where
      k: "r = Ret (int k)" "pipe_ok pi'" "pipe_bytes pi = bs @ pipe_bytes pi'" "nread pi' = nread pi + of_nat (length bs)"
        "length bs = k \<or> length bs = Suc k \<and> int k < n \<and> \<not> wr (addr + k)"
        "\<forall>a. m' a = (if addr \<le> a \<and> a < addr + k then bs ! (a - addr) else m a)" by fastforce
    have "length bs \<le> 512" using pipe_queue.bounded [OF D(1)] k(3) by (simp add: PIPESIZE_def)
    then have n: "unat (nread pi' - nread pi) = length bs" using k(4) by (rule small_diff)
    have mv: "io_count r = k" by (simp add: io_count_def k(1))
    let ?new = "map (\<lambda>j. Some (m' (addr + j))) [0..<k] @ replicate (length bs - k) None"
    have "taken_bytes ?new bs"
      unfolding taken_bytes_def list_all2_conv_all_nth by (use k(5) in \<open>auto simp: k(6) nth_append\<close>)
    then have "taken_bytes (T @ ?new) (D @ bs)" using D(3) unfolding taken_bytes_def by (rule list_all2_appendI [rotated])
    moreover have "count_list ?new None \<le> (if int k < n \<and> \<not> wr (addr + k) then 1 else 0)"
    proof -
      have "count_list (map (\<lambda>j. Some (m' (addr + j))) [0..<k]) None = 0" by (auto simp: count_list_0_iff)
      then show ?thesis using k(5) by auto
    qed
    ultimately show ?thesis using D(2,4) k(2,3) unfolding n mv
      by (intro conjI exI [of _ "D @ bs"]) auto
  qed
next
  case (stream_close pi W T F writable)
  then show ?case by (simp add: pipeclose_def Let_def pipe_ok_def pipe_bytes_def)
qed

text \<open>C20: A pipe is a byte stream: whatever sequence of writes, reads and closes, the bytes taken out of it are, in order, a prefix of the
  bytes the writers gave \<open>copyin\<close>, and the rest is in the pipe, at most 512 bytes, although the two counters wrap around at
  \<open>2 ^ 32\<close>. Every byte taken out is found in the memory of the reader, but for at most one for each read that
  stops at an address that cannot be written: \<open>piperead\<close> advances \<open>nread\<close> before \<open>copyout\<close> fails, and that byte
  is lost. When no read fails, nothing is lost or repeated.\<close>

theorem pipe_stream:
  assumes "pipe_run pi W T F"
  shows "\<exists>D. W = D @ pipe_bytes pi \<and> list_all2 (\<lambda>t b. t = None \<or> t = Some b) T D \<and> count_list T None \<le> F \<and>
    (F = 0 \<longrightarrow> T = map Some D) \<and> length (pipe_bytes pi) \<le> 512"
proof -
  obtain D where D: "pipe_ok pi" "W = D @ pipe_bytes pi" "taken_bytes T D" "count_list T None \<le> F" using pipe_run_invariant [OF assms] by blast
  have "T = map Some D" if "F = 0"
  proof (rule nth_equalityI)
    show l: "length T = length (map Some D)" using D(3) by (simp add: taken_bytes_def list_all2_lengthD)
    fix j assume j: "j < length T"
    have "None \<notin> set T" using D(4) that by (simp add: count_list_0_iff)
    then have "T ! j \<noteq> None" using j by (metis nth_mem)
    then show "T ! j = map Some D ! j" using D(3) j l unfolding taken_bytes_def list_all2_conv_all_nth by auto
  qed
  then show ?thesis using D pipe_queue.bounded [OF D(1)] by (auto simp: taken_bytes_def PIPESIZE_def)
qed

text \<open>Three bytes written; a read of two that can write only the first address: the second byte is lost.\<close>

theorem pipe_stream_witness:
  "\<exists>pi D. pipe_run pi [7, 8, 9] [Some 7, None] 1 \<and> [7, 8, 9] = D @ pipe_bytes pi \<and>
     list_all2 (\<lambda>t b. t = None \<or> t = Some b) [Some 7, None] D"
proof -
  define p0 where "p0 = pipe_init (\<lambda>_. 0)"
  have r0: "pipe_run p0 [] [] 0" unfolding p0_def by (rule stream_start)
  let ?ci = "\<lambda>a. Some ([7, 8, 9] ! (a :: nat)) :: u8 option"
  define p3 where "p3 = pipe_put 9 (pipe_put 8 (pipe_put 7 p0))"
  have w: "pipewrite_from ?ci False 0 3 0 p0 = (Ret 3, p3)"
    by (simp add: pipewrite_from.simps p3_def p0_def pipe_init_def pipe_put_def pipe_full_def PIPESIZE_def)
  have "unat (nwrite p3 - nwrite p0) = 3" by (simp add: p3_def pipe_put_def)
  with stream_write [OF r0 w] have r1: "pipe_run p3 [7, 8, 9] [] 0" by (simp add: upt_rec)
  obtain p5 where p5: "piperead (user_copyout (\<lambda>a. a = 100)) False 100 2 p3 (\<lambda>_. 0) = (Ret 1, p5, (\<lambda>_. 0)(100 := 7))"
      "nread p5 = nread p3 + 2"
    by (simp add: piperead_def piperead_loop.simps pipe_get_def p3_def p0_def pipe_init_def pipe_put_def user_copyout_def
        pipe_empty_def PIPESIZE_def)
  from stream_read [OF r1 p5(1)] have "pipe_run p5 [7, 8, 9] [Some 7, None] 1" by (simp add: p5(2) io_count_def)
  with pipe_stream [OF this] show ?thesis by blast
qed

text \<open>C25: What a write does, whatever the state of the pipe: it appends exactly the bytes it could read at the consecutive addresses, \<open>k\<close> of
  them. With bytes left to write and the pipe full it sleeps when there is a reader and the writer is not killed, and fails otherwise; it
  returns \<open>k\<close> when all is written, or when the pipe has room and the next byte of the user cannot be read.\<close>

theorem pipewrite_result:
  assumes "pipe_ok pi" and "pipewrite ci killed addr n pi = (r, pi')"
  shows "\<exists>k. pipe_bytes pi' = pipe_bytes pi @ map (\<lambda>j. the (ci (addr + j))) [0..<k] \<and> (\<forall>j<k. ci (addr + j) \<noteq> None) \<and>
    (r = Wait k \<and> int k < n \<and> length (pipe_bytes pi') = 512 \<and> readopen pi \<and> \<not> killed \<or>
     r = Ret (-1) \<and> int k < n \<and> length (pipe_bytes pi') = 512 \<and> (\<not> readopen pi \<or> killed) \<or>
     r = Ret (int k) \<and> (n \<le> int k \<or> length (pipe_bytes pi') < 512 \<and> ci (addr + k) = None))"
proof -
  obtain bs where bs: "pipe_ok pi'" "pipe_bytes pi' = pipe_bytes pi @ bs" "\<forall>k<length bs. ci (addr + 0 + k) = Some (bs ! k)"
    "r = Wait (0 + length bs) \<and> int (0 + length bs) < n \<and> pipe_full pi' \<and> readopen pi \<and> \<not> killed \<or>
     r = Ret (-1) \<and> int (0 + length bs) < n \<and> pipe_full pi' \<and> (\<not> readopen pi \<or> killed) \<or>
     r = Ret (int (0 + length bs)) \<and> (n \<le> int (0 + length bs) \<or> \<not> pipe_full pi' \<and> ci (addr + 0 + length bs) = None)"
    using pipewrite_from_spec [OF assms(1) assms(2) [unfolded pipewrite_def]] by blast
  have "bs = map (\<lambda>k. the (ci (addr + k))) [0..<length bs]" using bs(3) by (intro nth_equalityI) auto
  moreover have "pipe_full pi' \<longleftrightarrow> length (pipe_bytes pi') = 512" "length (pipe_bytes pi') \<le> 512"
    using pipe_queue.full_iff [OF bs(1)] pipe_queue.bounded [OF bs(1)] by (simp_all add: PIPESIZE_def)
  ultimately show ?thesis using bs(2-4) by (intro exI [of _ "length bs"]) auto
qed

theorem pipewrite_result_witness:
  "\<exists>k pi'. pipewrite (\<lambda>a. Some (of_nat a)) False 65 3 (pipe_init (\<lambda>_. 0)) = (Ret 3, pi') \<and>
     pipe_bytes pi' = pipe_bytes (pipe_init (\<lambda>_. 0)) @ map (\<lambda>j. of_nat (65 + j)) [0..<k] \<and> 3 \<le> int k"
proof -
  let ?ci = "\<lambda>a. Some (of_nat a)" and ?pi = "pipe_init (\<lambda>_. 0)"
  obtain pi' where w: "pipewrite ?ci False 65 3 ?pi = (Ret 3, pi')"
    by (simp add: pipewrite_def pipewrite_from.simps pipe_full_def pipe_init_def pipe_put_def PIPESIZE_def)
  have "pipe_ok ?pi" by (simp add: pipe_ok_def pipe_init_def)
  from pipewrite_result [OF this w] w show ?thesis by auto
qed

end
