(* ===== verification/Console.thy ===== *)
theory Console
  imports Pipe
begin

text \<open>
  Console input and output (mp4/kernel/console.c) and the UART driver under it (mp4/kernel/uart.c).
  The input buffer holds the finished lines (from \<open>r\<close> to \<open>w\<close>) and the line being edited (from
  \<open>w\<close> to \<open>e\<close>). The echo of an input character is the list of bytes \<open>uartputc_sync\<close> sends.
  The UART's registers are the parameter state \<open>hw\<close>: the successive readings of the
  transmit-idle bit and the bytes written to \<open>THR\<close>.
\<close>

section \<open>Transmitting\<close>

record hw =
  tx_idle :: "bool list"
  thr_sent :: "u8 list"

text \<open>Reading \<open>LSR\<close>: the next observation of the idle bit; not idle when there is none left.\<close>

definition read_lsr :: "hw \<Rightarrow> bool \<times> hw" where
  "read_lsr h = (case tx_idle h of [] \<Rightarrow> (False, h) | b # bs \<Rightarrow> (b, h\<lparr>tx_idle := bs\<rparr>))"

definition write_thr :: "u8 \<Rightarrow> hw \<Rightarrow> hw" where
  "write_thr c h = h\<lparr>thr_sent := thr_sent h @ [c]\<rparr>"

record uart =
  uart_tx_buf :: "nat \<Rightarrow> u8"
  uart_tx_w :: nat
  uart_tx_r :: nat

definition UART_TX_BUF_SIZE :: nat where "UART_TX_BUF_SIZE = 32"

definition tx_put :: "u8 \<Rightarrow> uart \<Rightarrow> uart" where
  "tx_put c u = u\<lparr>uart_tx_buf := (uart_tx_buf u)(uart_tx_w u := c),
                  uart_tx_w := (uart_tx_w u + 1) mod UART_TX_BUF_SIZE\<rparr>"

definition tx_get :: "uart \<Rightarrow> u8 \<times> uart" where
  "tx_get u = (uart_tx_buf u (uart_tx_r u), u\<lparr>uart_tx_r := (uart_tx_r u + 1) mod UART_TX_BUF_SIZE\<rparr>)"

definition tx_full :: "uart \<Rightarrow> bool" where
  "tx_full u \<longleftrightarrow> (uart_tx_w u + 1) mod UART_TX_BUF_SIZE = uart_tx_r u"

definition tx_empty :: "uart \<Rightarrow> bool" where
  "tx_empty u \<longleftrightarrow> uart_tx_w u = uart_tx_r u"

text \<open>The loop runs once per idle observation, and stops at the first busy one.\<close>

function uartstart :: "uart \<Rightarrow> hw \<Rightarrow> uart \<times> hw" where
  "uartstart u h =
     (if tx_empty u then (u, h)
      else
        let (idle, h1) = read_lsr h in
        if \<not> idle then (u, h1)
        else let (c, u1) = tx_get u in uartstart u1 (write_thr c h1))"
  by pat_completeness auto
termination
  by (relation "measure (\<lambda>(u, h). length (tx_idle h))")
    (auto simp: read_lsr_def write_thr_def split: list.splits)

declare uartstart.simps [simp del]

text \<open>\<open>None\<close> is the busy loop after a panic; \<open>Some (Wait 0, ..)\<close> sleeps until there is room.\<close>

definition uartputc :: "bool \<Rightarrow> u8 \<Rightarrow> uart \<Rightarrow> hw \<Rightarrow> (io \<times> uart \<times> hw) option" where
  "uartputc panicked c u h =
     (if panicked then None
      else if tx_full u then Some (Wait 0, u, h)
      else let (u1, h1) = uartstart (tx_put c u) h in Some (Ret 0, u1, h1))"

function consolewrite_from ::
    "(nat \<Rightarrow> u8 option) \<Rightarrow> nat \<Rightarrow> int \<Rightarrow> nat \<Rightarrow> uart \<Rightarrow> hw \<Rightarrow> io \<times> uart \<times> hw" where
  "consolewrite_from ci src n i u h =
     (if int i < n then
        (case ci (src + i) of
           None \<Rightarrow> (Ret (int i), u, h)
         | Some c \<Rightarrow>
             (case uartputc False c u h of
                Some (Ret _, u1, h1) \<Rightarrow> consolewrite_from ci src n (Suc i) u1 h1
              | _ \<Rightarrow> (Wait i, u, h)))
      else (Ret (int i), u, h))"
  by pat_completeness auto
termination
  by (relation "measure (\<lambda>(ci, src, n, i, u, h). nat (n - int i))") auto

declare consolewrite_from.simps [simp del]

definition consolewrite :: "(nat \<Rightarrow> u8 option) \<Rightarrow> nat \<Rightarrow> int \<Rightarrow> uart \<Rightarrow> hw \<Rightarrow> io \<times> uart \<times> hw" where
  "consolewrite ci src n u h = consolewrite_from ci src n 0 u h"

section \<open>Line editing\<close>

record cons =
  cons_buf :: "nat \<Rightarrow> u8"
  cons_r :: u32
  cons_w :: u32
  cons_e :: u32

definition INPUT_BUF :: nat where "INPUT_BUF = 128"

definition ctrl :: "nat \<Rightarrow> nat" where "ctrl x = x - 64"

text \<open>\<open>BACKSPACE\<close> is outside the range of a byte.\<close>

definition BACKSPACE :: nat where "BACKSPACE = 0x100"

definition consputc :: "nat \<Rightarrow> u8 list" where
  "consputc c = (if c = BACKSPACE then [8, 32, 8] else [of_nat c])"

function kill_line :: "cons \<Rightarrow> u8 list \<Rightarrow> cons \<times> u8 list" where
  "kill_line s out =
     (if cons_e s \<noteq> cons_w s \<and> cons_buf s (unat (cons_e s - 1) mod INPUT_BUF) \<noteq> 10
      then kill_line (s\<lparr>cons_e := cons_e s - 1\<rparr>) (out @ consputc BACKSPACE)
      else (s, out))"
  by pat_completeness auto
termination
proof (relation "measure (\<lambda>(s, out). unat (cons_e s - cons_w s))")
  fix s :: cons and out :: "u8 list"
  assume "cons_e s \<noteq> cons_w s \<and> cons_buf s (unat (cons_e s - 1) mod INPUT_BUF) \<noteq> 10"
  then have "cons_e s - cons_w s \<noteq> 0" by simp
  then have "unat (cons_e s - cons_w s - 1) < unat (cons_e s - cons_w s)"
    by (simp add: unat_minus_one unat_gt_0)
  then have "unat (cons_e s - 1 - cons_w s) < unat (cons_e s - cons_w s)"
    by (simp only: diff_right_commute [of _ 1])
  then show "((s\<lparr>cons_e := cons_e s - 1\<rparr>, out @ consputc BACKSPACE), s, out)
      \<in> measure (\<lambda>(s, out). unat (cons_e s - cons_w s))" by simp
qed simp

declare kill_line.simps [simp del]

definition consoleintr :: "u8 \<Rightarrow> cons \<Rightarrow> cons \<times> u8 list" where
  "consoleintr c s =
     (if unat c = ctrl 80 then (s, [])
      else if unat c = ctrl 85 then kill_line s []
      else if unat c = ctrl 72 \<or> unat c = 0x7f then
        if cons_e s \<noteq> cons_w s then (s\<lparr>cons_e := cons_e s - 1\<rparr>, consputc BACKSPACE) else (s, [])
      else if c \<noteq> 0 \<and> unat (cons_e s - cons_r s) < INPUT_BUF then
        (let c1 = (if c = 13 then 10 else c);
             s1 = s\<lparr>cons_buf := (cons_buf s)(unat (cons_e s) mod INPUT_BUF := c1), cons_e := cons_e s + 1\<rparr>
         in (if c1 = 10 \<or> unat c1 = ctrl 68 \<or> cons_e s1 = cons_r s1 + of_nat INPUT_BUF
             then s1\<lparr>cons_w := cons_e s1\<rparr> else s1, consputc (unat c1)))
      else (s, []))"

section \<open>Reading lines\<close>

text \<open>\<open>n\<close> counts down from \<open>target\<close>; \<open>dst\<close> and the memory \<open>m\<close> advance.\<close>

function consoleread_loop ::
    "(nat \<Rightarrow> u8 \<Rightarrow> 'm \<Rightarrow> 'm option) \<Rightarrow> bool \<Rightarrow> nat \<Rightarrow> nat \<Rightarrow> nat \<Rightarrow> cons \<Rightarrow> 'm \<Rightarrow> io \<times> cons \<times> 'm" where
  "consoleread_loop co killed dst target n s m =
     (if n > 0 then
        if cons_r s = cons_w s then
          if killed then (Ret (-1), s, m) else (Wait (target - n), s, m)
        else
          let c = cons_buf s (unat (cons_r s) mod INPUT_BUF);
              s1 = s\<lparr>cons_r := cons_r s + 1\<rparr>
          in if unat c = ctrl 68 then
               (Ret (int target - int n), if n < target then s1\<lparr>cons_r := cons_r s1 - 1\<rparr> else s1, m)
             else
               (case co dst c m of
                  None \<Rightarrow> (Ret (int target - int n), s1, m)
                | Some m1 \<Rightarrow>
                    if c = 10 then (Ret (int target - int (n - 1)), s1, m1)
                    else consoleread_loop co killed (dst + 1) target (n - 1) s1 m1)
      else (Ret (int target - int n), s, m))"
  by pat_completeness auto
termination
  by (relation "measure (\<lambda>(co, killed, dst, target, n, s, m). n)") auto

declare consoleread_loop.simps [simp del]

definition consoleread ::
    "(nat \<Rightarrow> u8 \<Rightarrow> 'm \<Rightarrow> 'm option) \<Rightarrow> bool \<Rightarrow> nat \<Rightarrow> nat \<Rightarrow> cons \<Rightarrow> 'm \<Rightarrow> io \<times> cons \<times> 'm" where
  "consoleread co killed dst n s m = consoleread_loop co killed dst n n s m"

text \<open>\<open>uartintr\<close> feeds the received bytes to the console and then sends what is queued.\<close>

definition uartintr :: "u8 list \<Rightarrow> cons \<Rightarrow> uart \<Rightarrow> hw \<Rightarrow> cons \<times> uart \<times> hw" where
  "uartintr rx s u h =
     (let (s1, echo) = fold (\<lambda>c (s, out). let (s', o1) = consoleintr c s in (s', out @ o1)) rx (s, []);
          h1 = h\<lparr>thr_sent := thr_sent h @ echo\<rparr>;
          (u1, h2) = uartstart u h1
      in (s1, u1, h2))"

section \<open>The transmit buffer is a bounded queue\<close>

definition uart_ok :: "uart \<Rightarrow> bool" where
  "uart_ok u \<longleftrightarrow> uart_tx_w u < UART_TX_BUF_SIZE \<and> uart_tx_r u < UART_TX_BUF_SIZE"

definition tx_len :: "uart \<Rightarrow> nat" where
  "tx_len u = (uart_tx_w u + UART_TX_BUF_SIZE - uart_tx_r u) mod UART_TX_BUF_SIZE"

definition tx_bytes :: "uart \<Rightarrow> u8 list" where
  "tx_bytes u = map (\<lambda>i. uart_tx_buf u ((uart_tx_r u + i) mod UART_TX_BUF_SIZE)) [0..<tx_len u]"

lemma tx_cases:
  assumes "uart_ok u"
  shows "tx_len u = (if uart_tx_r u \<le> uart_tx_w u then uart_tx_w u - uart_tx_r u
                     else uart_tx_w u + 32 - uart_tx_r u)"
    and "i < 32 \<Longrightarrow> (i + 1) mod UART_TX_BUF_SIZE = (if i = 31 then 0 else i + 1)"
    and "uart_tx_w u < 32" and "uart_tx_r u < 32"
proof -
  show b: "uart_tx_w u < 32" "uart_tx_r u < 32" using assms by (simp_all add: uart_ok_def UART_TX_BUF_SIZE_def)
  show "tx_len u = (if uart_tx_r u \<le> uart_tx_w u then uart_tx_w u - uart_tx_r u
                     else uart_tx_w u + 32 - uart_tx_r u)"
  proof (cases "uart_tx_r u \<le> uart_tx_w u")
    case True
    then have e: "uart_tx_w u + 32 - uart_tx_r u = (uart_tx_w u - uart_tx_r u) + 32" by simp
    have "tx_len u = (uart_tx_w u - uart_tx_r u) mod 32"
      unfolding tx_len_def UART_TX_BUF_SIZE_def e by (rule mod_add_self2)
    then show ?thesis using True b by simp
  next
    case False
    then show ?thesis using b by (simp add: tx_len_def UART_TX_BUF_SIZE_def)
  qed
  show "i < 32 \<Longrightarrow> (i + 1) mod UART_TX_BUF_SIZE = (if i = 31 then 0 else i + 1)"
    by (simp add: UART_TX_BUF_SIZE_def)
qed

lemma tx_slot:
  assumes "uart_ok u" and "i \<le> tx_len u"
  shows "(uart_tx_r u + i) mod UART_TX_BUF_SIZE =
    (if uart_tx_r u + i < 32 then uart_tx_r u + i else uart_tx_r u + i - 32)"
proof (cases "uart_tx_r u + i < 32")
  case True
  then show ?thesis by (simp add: UART_TX_BUF_SIZE_def)
next
  case False
  have "uart_tx_r u + i < 64" using tx_cases [OF assms(1)] assms(2) by (auto split: if_splits)
  with False show ?thesis by (simp add: UART_TX_BUF_SIZE_def le_mod_geq)
qed

lemma tx_index: "uart_ok u \<Longrightarrow> (uart_tx_r u + tx_len u) mod UART_TX_BUF_SIZE = uart_tx_w u"
  using tx_slot [of u "tx_len u"] tx_cases [of u] by (auto split: if_splits)

lemma uart_ok_put: "uart_ok u \<Longrightarrow> uart_ok (tx_put c u)"
  by (simp add: uart_ok_def tx_put_def UART_TX_BUF_SIZE_def)

lemma uart_ok_get: "uart_ok u \<Longrightarrow> uart_ok (snd (tx_get u))"
  by (simp add: uart_ok_def tx_get_def UART_TX_BUF_SIZE_def)

lemma tx_full_iff: "uart_ok u \<Longrightarrow> tx_full u \<longleftrightarrow> tx_len u = 31"
  using tx_cases(2) [of u "uart_tx_w u"] tx_cases(1,3,4) [of u]
  by (auto simp: tx_full_def split: if_splits)

lemma tx_empty_iff: "uart_ok u \<Longrightarrow> tx_empty u \<longleftrightarrow> tx_len u = 0"
  using tx_cases(1,3,4) [of u] by (auto simp: tx_empty_def split: if_splits)

lemma tx_len_put:
  assumes "uart_ok u" and "\<not> tx_full u"
  shows "tx_len (tx_put c u) = Suc (tx_len u)"
proof -
  have w: "uart_tx_w (tx_put c u) = (if uart_tx_w u = 31 then 0 else uart_tx_w u + 1)"
    "uart_tx_r (tx_put c u) = uart_tx_r u"
    using tx_cases(2) [OF assms(1), of "uart_tx_w u"] tx_cases(3) [OF assms(1)] by (simp_all add: tx_put_def)
  show ?thesis
    using tx_cases(1) [OF uart_ok_put [OF assms(1)], of c] w tx_cases(1,3,4) [OF assms(1)]
      assms(2) tx_full_iff [OF assms(1)] by (auto split: if_splits)
qed

lemma tx_len_get:
  assumes "uart_ok u" and "\<not> tx_empty u"
  shows "tx_len u = Suc (tx_len (snd (tx_get u)))"
proof -
  have r: "uart_tx_r (snd (tx_get u)) = (if uart_tx_r u = 31 then 0 else uart_tx_r u + 1)"
    "uart_tx_w (snd (tx_get u)) = uart_tx_w u"
    using tx_cases(2) [OF assms(1), of "uart_tx_r u"] tx_cases(4) [OF assms(1)] by (simp_all add: tx_get_def)
  show ?thesis
    using tx_cases(1) [OF uart_ok_get [OF assms(1)]] r tx_cases(1,3,4) [OF assms(1)]
      assms(2) by (auto simp: tx_empty_def split: if_splits)
qed

interpretation tx_queue: byte_queue uart_ok tx_bytes "UART_TX_BUF_SIZE - 1" tx_put tx_get tx_full tx_empty
proof unfold_locales
  fix u :: uart and c
  assume ok: "uart_ok u"
  have len: "length (tx_bytes u) = tx_len u" for u by (simp add: tx_bytes_def)
  have lt: "tx_len u < UART_TX_BUF_SIZE" by (simp add: tx_len_def UART_TX_BUF_SIZE_def)
  then show "length (tx_bytes u) \<le> UART_TX_BUF_SIZE - 1" by (simp add: len)
  show "tx_full u \<longleftrightarrow> length (tx_bytes u) = UART_TX_BUF_SIZE - 1"
    using tx_full_iff [OF ok] by (simp add: len UART_TX_BUF_SIZE_def)
  show "tx_empty u \<longleftrightarrow> tx_bytes u = []"
    using tx_empty_iff [OF ok] by (simp add: tx_bytes_def)
  { assume nf: "\<not> tx_full u"
    have ne: "(uart_tx_r u + i) mod UART_TX_BUF_SIZE \<noteq> uart_tx_w u" if "i < tx_len u" for i
      using tx_slot [OF ok, of i] that tx_cases(1,3,4) [OF ok] by (auto split: if_splits)
    have "tx_bytes (tx_put c u) = tx_bytes u @ [c]"
      unfolding tx_bytes_def tx_len_put [OF ok nf]
      using ne tx_index [OF ok] by (simp add: tx_put_def)
    moreover have "uart_ok (tx_put c u)" by (rule uart_ok_put [OF ok])
    ultimately show "uart_ok (tx_put c u) \<and> tx_bytes (tx_put c u) = tx_bytes u @ [c]" by simp }
  { assume ne: "\<not> tx_empty u"
    have "((uart_tx_r u + 1) mod UART_TX_BUF_SIZE + i) mod UART_TX_BUF_SIZE = (uart_tx_r u + Suc i) mod UART_TX_BUF_SIZE" for i
      by (simp add: mod_add_left_eq)
    moreover have "uart_tx_r u mod UART_TX_BUF_SIZE = uart_tx_r u" using ok by (simp add: uart_ok_def)
    ultimately have "tx_bytes u = fst (tx_get u) # tx_bytes (snd (tx_get u))"
      unfolding tx_bytes_def tx_len_get [OF ok ne]
      by (simp add: map_upt_Suc tx_get_def del: upt_Suc)
    moreover have "uart_ok (snd (tx_get u))" by (rule uart_ok_get [OF ok])
    ultimately show "uart_ok (snd (tx_get u)) \<and> tx_bytes u = fst (tx_get u) # tx_bytes (snd (tx_get u))" by simp }
qed

text \<open>Everything written is sent, in order: what has left the UART followed by what is still queued.\<close>

definition tx_stream :: "uart \<Rightarrow> hw \<Rightarrow> u8 list" where
  "tx_stream u h = thr_sent h @ tx_bytes u"

lemma read_lsr_sent: "thr_sent (snd (read_lsr h)) = thr_sent h"
  by (simp add: read_lsr_def split: list.splits)

lemma uartstart_stream:
  "uart_ok u \<Longrightarrow> uart_ok (fst (uartstart u h)) \<and>
     tx_stream (fst (uartstart u h)) (snd (uartstart u h)) = tx_stream u h"
proof (induction u h rule: uartstart.induct)
  case (1 u h)
  obtain idle h1 where r: "read_lsr h = (idle, h1)" by fastforce
  have s1: "thr_sent h1 = thr_sent h" using read_lsr_sent [of h] r by simp
  show ?case
  proof (cases "tx_empty u \<or> \<not> idle")
    case True
    then show ?thesis using "1.prems" r s1 by (subst (1 2 3) uartstart.simps) (auto simp: tx_stream_def)
  next
    case False
    obtain c u1 where g: "tx_get u = (c, u1)" by fastforce
    have u1: "uart_ok u1" "tx_bytes u = c # tx_bytes u1"
      using tx_queue.get_ok [OF "1.prems"] False g by simp_all
    have "uartstart u h = uartstart u1 (write_thr c h1)"
      using False r g by (subst uartstart.simps) simp
    moreover have "tx_stream u1 (write_thr c h1) = tx_stream u h"
      using u1(2) s1 by (simp add: tx_stream_def write_thr_def)
    ultimately show ?thesis using "1.IH" [OF _ r [symmetric] refl _ g [symmetric] refl u1(1)] False by simp
  qed
qed

lemma uartputc_stream:
  assumes "uart_ok u" and "uartputc p c u h = Some (r, u1, h1)"
  shows "uart_ok u1" and "tx_stream u1 h1 = tx_stream u h @ (case r of Ret _ \<Rightarrow> [c] | Wait _ \<Rightarrow> [])"
proof -
  have "uart_ok u1 \<and> tx_stream u1 h1 = tx_stream u h @ (case r of Ret _ \<Rightarrow> [c] | Wait _ \<Rightarrow> [])"
  proof (cases "tx_full u")
    case True
    then show ?thesis using assms by (auto simp: uartputc_def split: if_splits)
  next
    case False
    note put = tx_queue.put_ok [OF assms(1) False, of c]
    have e: "r = Ret 0" "u1 = fst (uartstart (tx_put c u) h)" "h1 = snd (uartstart (tx_put c u) h)"
      using assms(2) False by (auto simp: uartputc_def split: if_splits prod.splits)
    show ?thesis using uartstart_stream [of "tx_put c u" h] put by (simp add: e tx_stream_def)
  qed
  then show "uart_ok u1" "tx_stream u1 h1 = tx_stream u h @ (case r of Ret _ \<Rightarrow> [c] | Wait _ \<Rightarrow> [])" by blast+
qed

lemma consolewrite_from_stream:
  assumes "uart_ok u" and "consolewrite_from ci src n i u h = (r, u', h')"
  shows "\<exists>bs. uart_ok u' \<and> tx_stream u' h' = tx_stream u h @ bs \<and>
    (\<forall>k<length bs. ci (src + i + k) = Some (bs ! k)) \<and>
    (r = Ret (int (i + length bs)) \<or> r = Wait (i + length bs))"
  using assms
proof (induction ci src n i u h rule: consolewrite_from.induct)
  case (1 ci src n i u h)
  note eq = "1.prems"(2) [unfolded consolewrite_from.simps [of ci src n i u h]]
  show ?case
  proof (cases "int i < n \<and> ci (src + i) \<noteq> None \<and> \<not> tx_full u")
    case False
    then show ?thesis
      using eq "1.prems"(1) by (intro exI [of _ "[]"]) (auto simp: uartputc_def split: if_splits option.splits)
  next
    case True
    then obtain c where c: "ci (src + i) = Some c" by auto
    obtain u1 h1 where "uartstart (tx_put c u) h = (u1, h1)" by fastforce
    then have p: "uartputc False c u h = Some (Ret 0, u1, h1)" using True by (simp add: uartputc_def)
    note st = uartputc_stream [OF "1.prems"(1) p]
    have "consolewrite_from ci src n (Suc i) u1 h1 = (r, u', h')" using eq True c p by simp
    from "1.IH" [OF _ c p refl refl refl st(1) this] True obtain bs where bs: "uart_ok u'"
      "tx_stream u' h' = tx_stream u1 h1 @ bs" "\<forall>k<length bs. ci (src + Suc i + k) = Some (bs ! k)"
      "r = Ret (int (Suc i + length bs)) \<or> r = Wait (Suc i + length bs)" by auto
    have "ci (src + i + k) = Some ((c # bs) ! k)" if "k < length (c # bs)" for k
      using that c bs(3) by (cases k) auto
    then show ?thesis using bs st(2) by (intro exI [of _ "c # bs"]) simp
  qed
qed

section \<open>Line discipline\<close>

interpretation cons_ring: ring INPUT_BUF
  by unfold_locales (simp_all add: INPUT_BUF_def)

text \<open>The finished lines and the line being edited.\<close>

definition cons_abs :: "cons \<Rightarrow> u8 list \<times> u8 list" where
  "cons_abs s = (ring_between INPUT_BUF (cons_buf s) (cons_r s) (cons_w s),
                 ring_between INPUT_BUF (cons_buf s) (cons_w s) (cons_e s))"

definition cons_ok :: "cons \<Rightarrow> bool" where
  "cons_ok s \<longleftrightarrow> unat (cons_w s - cons_r s) + unat (cons_e s - cons_w s) \<le> INPUT_BUF \<and>
     10 \<notin> set (snd (cons_abs s))"

text \<open>What each input character does to the two lists: \<open>^U\<close> discards the line being edited,
  backspace its last character, newline and \<open>^D\<close> finish it, and a full buffer finishes it too.\<close>

definition line_edit :: "u8 \<Rightarrow> u8 list \<times> u8 list \<Rightarrow> u8 list \<times> u8 list" where
  "line_edit c q =
     (let (ready, line) = q in
      if c = 16 then q
      else if c = 21 then (ready, [])
      else if c = 8 \<or> c = 127 then (ready, butlast line)
      else if c \<noteq> 0 \<and> length ready + length line < 128 then
        (let c1 = (if c = 13 then 10 else c); line1 = line @ [c1]
         in if c1 = 10 \<or> c1 = 4 \<or> length ready + length line1 = 128 then (ready @ line1, []) else (ready, line1))
      else q)"

lemma cons_total:
  assumes "cons_ok s"
  shows "unat (cons_e s - cons_r s) = unat (cons_w s - cons_r s) + unat (cons_e s - cons_w s)"
proof -
  have "unat ((cons_w s - cons_r s) + (cons_e s - cons_w s)) = unat (cons_w s - cons_r s) + unat (cons_e s - cons_w s)"
    by (rule unat_add_lem [THEN iffD1]) (use assms in \<open>simp add: cons_ok_def INPUT_BUF_def\<close>)
  moreover have "cons_e s - cons_r s = (cons_w s - cons_r s) + (cons_e s - cons_w s)" by (simp only: algebra_simps)
  ultimately show ?thesis by (simp only:)
qed

lemma cons_unput:
  assumes ok: "cons_ok s" and ne: "cons_e s \<noteq> cons_w s"
  shows "cons_ok (s\<lparr>cons_e := cons_e s - 1\<rparr>)"
    and "cons_abs (s\<lparr>cons_e := cons_e s - 1\<rparr>) = (fst (cons_abs s), butlast (snd (cons_abs s)))"
    and "cons_buf s (unat (cons_e s - 1) mod INPUT_BUF) \<in> set (snd (cons_abs s))"
proof -
  have le: "unat (cons_e s - cons_w s) \<le> INPUT_BUF" using ok by (simp add: cons_ok_def)
  note u = cons_ring.ring_unput [OF ne le, of "cons_buf s"]
  show a: "cons_abs (s\<lparr>cons_e := cons_e s - 1\<rparr>) = (fst (cons_abs s), butlast (snd (cons_abs s)))"
    by (simp add: cons_abs_def u)
  show "cons_buf s (unat (cons_e s - 1) mod INPUT_BUF) \<in> set (snd (cons_abs s))"
    by (simp add: cons_abs_def u)
  have "length (butlast (snd (cons_abs s))) = unat (cons_e s - 1 - cons_w s)"
    by (simp add: cons_abs_def u)
  moreover have "length (snd (cons_abs s)) = unat (cons_e s - cons_w s)" by (simp add: cons_abs_def)
  ultimately have "unat (cons_e s - 1 - cons_w s) \<le> unat (cons_e s - cons_w s)" by simp
  then show "cons_ok (s\<lparr>cons_e := cons_e s - 1\<rparr>)"
    using ok a in_set_butlastD by (fastforce simp: cons_ok_def)
qed

lemma kill_line_spec:
  "cons_ok s \<Longrightarrow> cons_ok (fst (kill_line s out)) \<and> cons_abs (fst (kill_line s out)) = (fst (cons_abs s), [])"
proof (induction s out rule: kill_line.induct)
  case (1 s out)
  show ?case
  proof (cases "cons_e s = cons_w s")
    case True
    then have "snd (cons_abs s) = []" by (simp add: cons_abs_def ring_between_def)
    with True "1.prems" show ?thesis by (subst (1 2) kill_line.simps) (simp add: prod_eq_iff)
  next
    case False
    have c: "cons_buf s (unat (cons_e s - 1) mod INPUT_BUF) \<noteq> 10"
      using cons_unput(3) [OF "1.prems" False] "1.prems" by (auto simp: cons_ok_def)
    then have "kill_line s out = kill_line (s\<lparr>cons_e := cons_e s - 1\<rparr>) (out @ consputc BACKSPACE)"
      using False by (subst kill_line.simps) simp
    then show ?thesis
      using "1.IH" [OF conjI [OF False c] cons_unput(1) [OF "1.prems" False]] cons_unput(2) [OF "1.prems" False] by simp
  qed
qed

lemma cons_put:
  fixes c
  assumes ok: "cons_ok s" and room: "unat (cons_e s - cons_r s) < INPUT_BUF"
  defines "s1 \<equiv> s\<lparr>cons_buf := (cons_buf s)(unat (cons_e s) mod INPUT_BUF := c), cons_e := cons_e s + 1\<rparr>"
  shows "cons_abs s1 = (fst (cons_abs s), snd (cons_abs s) @ [c])"
    and "unat (cons_w s1 - cons_r s1) + unat (cons_e s1 - cons_w s1) = Suc (unat (cons_e s - cons_r s))"
    and "cons_e s1 = cons_r s1 + of_nat INPUT_BUF \<longleftrightarrow> Suc (unat (cons_e s - cons_r s)) = INPUT_BUF"
proof -
  have t: "unat (cons_e s - cons_r s) = unat (cons_w s - cons_r s) + unat (cons_e s - cons_w s)"
    by (rule cons_total [OF ok])
  have lt: "unat (cons_e s - cons_w s) < INPUT_BUF" using room t by simp
  let ?b = "(cons_buf s)(unat (cons_e s) mod INPUT_BUF := c)"
  have p: "ring_between INPUT_BUF ?b (cons_w s) (cons_e s + 1) =
      ring_between INPUT_BUF (cons_buf s) (cons_w s) (cons_e s) @ [c]"
    by (rule cons_ring.ring_put [OF lt])
  have sum: "unat (cons_w s - cons_r s) + unat (cons_e s - cons_w s) < 2 ^ 32" using room t by (simp add: INPUT_BUF_def)
  have sum': "unat (cons_w s - cons_r s) + unat (cons_e s + 1 - cons_w s) < 2 ^ 32"
    using cons_ring.unat_suc [OF lt] room t by (simp add: INPUT_BUF_def)
  have "ring_between INPUT_BUF ?b (cons_r s) (cons_e s + 1) =
      ring_between INPUT_BUF (cons_buf s) (cons_r s) (cons_e s) @ [c]"
    by (rule cons_ring.ring_put [OF room])
  then have "ring_between INPUT_BUF ?b (cons_r s) (cons_w s) = ring_between INPUT_BUF (cons_buf s) (cons_r s) (cons_w s)"
    using p cons_ring.ring_split [OF sum, of "cons_buf s"] cons_ring.ring_split [OF sum', of ?b] by simp
  then show "cons_abs s1 = (fst (cons_abs s), snd (cons_abs s) @ [c])"
    using p by (simp add: cons_abs_def s1_def)
  show "unat (cons_w s1 - cons_r s1) + unat (cons_e s1 - cons_w s1) = Suc (unat (cons_e s - cons_r s))"
    using cons_ring.unat_suc [OF lt] t by (simp add: s1_def)
  have "cons_e s1 = cons_r s1 + of_nat INPUT_BUF \<longleftrightarrow> cons_e s + 1 - cons_r s = of_nat INPUT_BUF"
    by (auto simp: s1_def algebra_simps)
  also have "\<dots> \<longleftrightarrow> unat (cons_e s + 1 - cons_r s) = INPUT_BUF"
    by (simp add: word_unat_eq_iff INPUT_BUF_def)
  also have "\<dots> \<longleftrightarrow> Suc (unat (cons_e s - cons_r s)) = INPUT_BUF"
    unfolding cons_ring.unat_suc [OF room] ..
  finally show "cons_e s1 = cons_r s1 + of_nat INPUT_BUF \<longleftrightarrow> Suc (unat (cons_e s - cons_r s)) = INPUT_BUF" .
qed

lemma unat_keys:
  "unat c = ctrl 80 \<longleftrightarrow> c = (16 :: u8)" "unat c = ctrl 85 \<longleftrightarrow> c = 21" "unat c = ctrl 72 \<longleftrightarrow> c = 8"
  "unat c = 0x7f \<longleftrightarrow> c = 127" "unat c = ctrl 68 \<longleftrightarrow> c = 4"
  by (simp_all add: ctrl_def word_unat_eq_iff unsigned_of_nat take_bit_nat_eq_self)

lemma length_cons_abs:
  "length (fst (cons_abs s)) = unat (cons_w s - cons_r s)" "length (snd (cons_abs s)) = unat (cons_e s - cons_w s)"
  by (simp_all add: cons_abs_def)

text \<open>An ordinary character with room in the buffer.\<close>

lemma consoleintr_put:
  assumes ok: "cons_ok s" and other: "c \<noteq> 16" "c \<noteq> 21" "c \<noteq> 8" "c \<noteq> 127" "c \<noteq> 0"
    and room: "unat (cons_e s - cons_r s) < INPUT_BUF"
  shows "cons_ok (fst (consoleintr c s)) \<and> cons_abs (fst (consoleintr c s)) = line_edit c (cons_abs s)"
proof -
  let ?R = "fst (cons_abs s)" and ?L = "snd (cons_abs s)"
  note len = length_cons_abs [of s] and t = cons_total [OF ok] and keys = unat_keys
  define c1 where "c1 = (if c = 13 then 10 else c)"
  define s1 where "s1 = s\<lparr>cons_buf := (cons_buf s)(unat (cons_e s) mod INPUT_BUF := c1), cons_e := cons_e s + 1\<rparr>"
  note cp = cons_put [OF ok room, of c1, folded s1_def]
  let ?fin = "c1 = 10 \<or> c1 = 4 \<or> Suc (unat (cons_e s - cons_r s)) = INPUT_BUF"
  have f: "fst (consoleintr c s) = (if ?fin then s1\<lparr>cons_w := cons_e s1\<rparr> else s1)"
    unfolding consoleintr_def keys Let_def c1_def [symmetric] s1_def [symmetric] cp(3)
    by (simp only: other room simp_thms if_True if_False fst_conv not_False_eq_True)
  have le: "line_edit c (cons_abs s) = (if ?fin then (?R @ ?L @ [c1], []) else (?R, ?L @ [c1]))"
  proof -
    obtain R L where ca: "cons_abs s = (R, L)" by fastforce
    have l: "length R + length L < 128" "length R + length (L @ [c1]) = 128 \<longleftrightarrow> Suc (unat (cons_e s - cons_r s)) = INPUT_BUF"
      using room t len ca by (simp_all add: INPUT_BUF_def)
    have "line_edit c (R, L) = (if ?fin then (R @ L @ [c1], []) else (R, L @ [c1]))"
      unfolding line_edit_def Let_def prod.case c1_def [symmetric] l(2)
      by (simp only: other room l(1) simp_thms if_True if_False not_False_eq_True)
    then show ?thesis by (simp only: ca fst_conv snd_conv)
  qed
  have sum: "unat (cons_w s1 - cons_r s1) + unat (cons_e s1 - cons_w s1) < 2 ^ 32"
    using cp(2) room by (simp add: INPUT_BUF_def)
  show ?thesis
  proof (cases ?fin)
    case True
    have a: "cons_abs (s1\<lparr>cons_w := cons_e s1\<rparr>) = (?R @ ?L @ [c1], [])"
      using cp(1) cons_ring.ring_split [OF sum, of "cons_buf s1"]
      by (simp add: cons_abs_def) (simp add: ring_between_def)
    have "unat (cons_e s1 - cons_r s1) \<le> INPUT_BUF"
    proof -
      have "length (ring_between INPUT_BUF (cons_buf s1) (cons_r s1) (cons_e s1)) = Suc (unat (cons_e s - cons_r s))"
        using cons_ring.ring_split [OF sum, of "cons_buf s1"] cp(2) by simp
      then show ?thesis using room by simp
    qed
    then have "cons_ok (s1\<lparr>cons_w := cons_e s1\<rparr>)" using a by (simp add: cons_ok_def)
    then show ?thesis using f le a True by simp
  next
    case False
    have "cons_ok s1" using cp(1,2) room ok False by (auto simp: cons_ok_def)
    then show ?thesis using f le cp(1) False by simp
  qed
qed

text \<open>C24: The console's input handler implements line editing on two lists, the finished lines and
  the line being edited: erasing never reaches a finished line, and at most 128 characters are kept.\<close>

theorem consoleintr_edits_line:
  assumes ok: "cons_ok s"
  shows "cons_ok (fst (consoleintr c s)) \<and> cons_abs (fst (consoleintr c s)) = line_edit c (cons_abs s)"
proof -
  let ?R = "fst (cons_abs s)" and ?L = "snd (cons_abs s)"
  note len = length_cons_abs [of s] and t = cons_total [OF ok] and keys = unat_keys
  consider (p) "c = 16" | (u) "c = 21" | (h) "c = 8 \<or> c = 127"
    | (put) "c \<noteq> 16" "c \<noteq> 21" "c \<noteq> 8" "c \<noteq> 127" "c \<noteq> 0" "unat (cons_e s - cons_r s) < INPUT_BUF"
    | (drop) "c \<noteq> 16" "c \<noteq> 21" "c \<noteq> 8" "c \<noteq> 127" "\<not> (c \<noteq> 0 \<and> unat (cons_e s - cons_r s) < INPUT_BUF)"
    by blast
  then show ?thesis
  proof cases
    case p
    then show ?thesis using ok by (simp add: consoleintr_def ctrl_def line_edit_def split: prod.split)
  next
    case u
    then have "fst (consoleintr c s) = fst (kill_line s [])" by (simp add: consoleintr_def ctrl_def)
    moreover have "line_edit c (cons_abs s) = (?R, [])" using u by (simp add: line_edit_def split: prod.split)
    ultimately show ?thesis using kill_line_spec [OF ok, of "[]"] by simp
  next
    case h
    have le: "line_edit c (cons_abs s) = (?R, butlast ?L)" using h by (auto simp: line_edit_def split: prod.split)
    show ?thesis
    proof (cases "cons_e s = cons_w s")
      case True
      then have "?L = []" by (simp add: cons_abs_def ring_between_def)
      moreover have "consoleintr c s = (s, [])" using h True by (auto simp: consoleintr_def keys ctrl_def)
      ultimately show ?thesis using ok le by (simp add: prod_eq_iff)
    next
      case False
      then have "fst (consoleintr c s) = s\<lparr>cons_e := cons_e s - 1\<rparr>" using h by (auto simp: consoleintr_def keys ctrl_def)
      then show ?thesis using cons_unput(1,2) [OF ok False] le by simp
    qed
  next
    case put
    then show ?thesis by (rule consoleintr_put [OF ok])
  next
    case drop
    have "consoleintr c s = (s, [])"
      unfolding consoleintr_def keys by (simp only: drop simp_thms if_True if_False not_False_eq_True)
    moreover have "line_edit c (cons_abs s) = cons_abs s"
      using drop t len by (auto simp: line_edit_def INPUT_BUF_def split: prod.split)
    ultimately show ?thesis using ok by simp
  qed
qed

text \<open>C38: Bytes written to the console leave the UART in the order written: what has been sent plus
  what is queued grows by exactly the bytes the call reports.\<close>

theorem consolewrite_in_order:
  assumes "uart_ok u" and "consolewrite ci src n u h = (r, u', h')"
  shows "\<exists>k. (r = Ret (int k) \<or> r = Wait k) \<and> uart_ok u' \<and>
    thr_sent h' @ tx_bytes u' = thr_sent h @ tx_bytes u @ map (\<lambda>i. the (ci (src + i))) [0..<k]"
proof -
  obtain bs where bs: "uart_ok u'" "tx_stream u' h' = tx_stream u h @ bs"
    "\<forall>k<length bs. ci (src + 0 + k) = Some (bs ! k)" "r = Ret (int (0 + length bs)) \<or> r = Wait (0 + length bs)"
    using consolewrite_from_stream [OF assms(1) assms(2) [unfolded consolewrite_def]] by blast
  have "bs = map (\<lambda>i. the (ci (src + i))) [0..<length bs]" using bs(3) by (intro nth_equalityI) auto
  then show ?thesis using bs(1,2,4) by (intro exI [of _ "length bs"]) (auto simp: tx_stream_def)
qed

theorem consoleintr_edits_line_witness:
  "let s = \<lparr>cons_buf = (\<lambda>_. 97), cons_r = 0, cons_w = 0, cons_e = 2\<rparr> in
     cons_ok (fst (consoleintr 8 s)) \<and> cons_abs (fst (consoleintr 8 s)) = line_edit 8 (cons_abs s)"
  unfolding Let_def
  by (rule consoleintr_edits_line) (auto simp: cons_ok_def INPUT_BUF_def cons_abs_def ring_between_def)

theorem consolewrite_in_order_witness:
  "\<exists>r u' h'. consolewrite (\<lambda>a. Some (of_nat a)) 65 2 \<lparr>uart_tx_buf = (\<lambda>_. 0), uart_tx_w = 0, uart_tx_r = 0\<rparr>
       \<lparr>tx_idle = [True], thr_sent = []\<rparr> = (r, u', h') \<and> uart_ok u' \<and>
     (\<exists>k. thr_sent h' @ tx_bytes u' = map (\<lambda>i. of_nat (65 + i)) [0..<k])"
proof -
  let ?u = "\<lparr>uart_tx_buf = (\<lambda>_. 0), uart_tx_w = 0, uart_tx_r = 0\<rparr>" and ?h = "\<lparr>tx_idle = [True], thr_sent = []\<rparr>"
  obtain r u' h' where w: "consolewrite (\<lambda>a. Some (of_nat a)) 65 2 ?u ?h = (r, u', h')" by (metis prod_cases3)
  have "uart_ok ?u" "tx_bytes ?u = []" by (simp_all add: uart_ok_def tx_bytes_def tx_len_def UART_TX_BUF_SIZE_def)
  with consolewrite_in_order [OF _ w] w show ?thesis by fastforce
qed

end
