(* ===== verification/Sched.thy ===== *)
theory Sched
  imports Complex_Main "HOL-Library.Multiset" Prelude
begin

text \<open>
  The thread schedulers of mp3/xv6/user/threads_sched.c. A thread is named by the address of its
  \<open>struct thread\<close>, looked up in \<open>thrd\<close>; the run queue is the list of those addresses and the
  release queue the list of the \<open>release_queue_entry\<close> pairs, in list order (\<open>CList.user_list\<close>
  gives the list view of \<open>list_del\<close> and \<open>list_add_tail\<close>). A C \<open>int\<close> is an \<open>int\<close>: signed
  overflow is undefined in the source, which never tests for it.
\<close>

section \<open>Threads and scheduling requests\<close>

record thread =
  fp :: nat
  arg :: nat
  buf_set :: bool
  thrdstop_context_id :: int
  ID :: int
  is_real_time :: bool
  processing_time :: int
  deadline :: int
  period :: int
  cycles :: int
  remaining_time :: int
  current_deadline :: int
  priority :: int
  arrival_time :: int
  cbs_budget :: int
  cbs_remaining_budget :: int
  cbs_is_hard_rt :: bool
  cbs_is_throttled :: bool
  cbs_throttled_arrived_time :: int
  cbs_throttle_new_deadline :: int

type_synonym thrd_map = "nat \<Rightarrow> thread"

text \<open>\<open>scheduled_thread_list_member\<close> points to a thread or to the run queue's own head.\<close>

datatype list_member = RunQueue | Member nat

record threads_sched_args =
  current_time :: int
  time_quantum :: int
  run_queue :: "nat list"
  release_queue :: "(nat \<times> int) list"

record threads_sched_result =
  scheduled_thread_list_member :: list_member
  allocated_time :: int

definition sched_result :: "list_member \<Rightarrow> int \<Rightarrow> threads_sched_result" where
  "sched_result m t = \<lparr>scheduled_thread_list_member = m, allocated_time = t\<rparr>"

definition INT_MAX :: int where "INT_MAX = 2147483647"

section \<open>The selection loop\<close>

text \<open>
  \<open>list_for_each_entry(th, queue) { if (!eligible) continue; if (sel == NULL || better(th, sel))
  sel = th; }\<close>, the loop each scheduler writes with its own test.
\<close>

primrec select_from :: "('a \<Rightarrow> bool) \<Rightarrow> ('a \<Rightarrow> 'a \<Rightarrow> bool) \<Rightarrow> 'a list \<Rightarrow> 'a option \<Rightarrow> 'a option" where
  "select_from elig better [] sel = sel"
| "select_from elig better (th # ths) sel =
     select_from elig better ths
       (if \<not> elig th then sel
        else case sel of None \<Rightarrow> Some th | Some s \<Rightarrow> if better th s then Some th else Some s)"

lemma select_from_member:
  "select_from elig better ths sel = Some t \<Longrightarrow> sel = Some t \<or> t \<in> set ths \<and> elig t"
proof (induction ths arbitrary: sel)
  case (Cons x xs)
  from Cons.IH [of "if \<not> elig x then sel else case sel of None \<Rightarrow> Some x | Some s \<Rightarrow> if better x s then Some x else Some s"] Cons.prems
  show ?case by (auto split: if_splits option.splits)
qed simp

text \<open>Only comparisons of eligible threads of the queue matter.\<close>

lemma select_from_cong:
  assumes "\<And>x y. x \<in> Q \<Longrightarrow> y \<in> Q \<Longrightarrow> elig x \<Longrightarrow> elig y \<Longrightarrow> better x y = better' x y"
    and "set ths \<subseteq> Q" and "\<And>t. sel = Some t \<Longrightarrow> t \<in> Q \<and> elig t"
  shows "select_from elig better ths sel = select_from elig better' ths sel"
  using assms(2,3)
proof (induction ths arbitrary: sel)
  case (Cons x xs)
  let ?f = "\<lambda>b. if \<not> elig x then sel else case sel of None \<Rightarrow> Some x | Some s \<Rightarrow> if b x s then Some x else Some s"
  have same: "?f better = ?f better'" using Cons.prems assms(1) by (auto split: option.split)
  have "select_from elig better xs (?f better) = select_from elig better' xs (?f better)"
    by (rule Cons.IH) (use Cons.prems in \<open>auto split: if_splits option.splits\<close>)
  then show ?case using same by simp
qed simp

text \<open>A selection key: first the measure of the policy, then the thread id.\<close>

datatype 'a rank = Rank 'a int

instantiation rank :: (linorder) linorder
begin

fun less_rank :: "'a rank \<Rightarrow> 'a rank \<Rightarrow> bool" where
  "less_rank (Rank a i) (Rank b j) \<longleftrightarrow> a < b \<or> (a = b \<and> i < j)"

definition less_eq_rank :: "'a rank \<Rightarrow> 'a rank \<Rightarrow> bool" where
  "less_eq_rank x y \<longleftrightarrow> x < y \<or> x = y"

instance
proof
  fix x y z :: "'a rank"
  show "x < y \<longleftrightarrow> x \<le> y \<and> \<not> y \<le> x"
    by (cases x; cases y) (auto simp: less_eq_rank_def)
  show "x \<le> x" by (simp add: less_eq_rank_def)
  show "x \<le> y \<Longrightarrow> y \<le> z \<Longrightarrow> x \<le> z"
    by (cases x; cases y; cases z) (auto simp: less_eq_rank_def)
  show "x \<le> y \<Longrightarrow> y \<le> x \<Longrightarrow> x = y"
    by (cases x; cases y) (auto simp: less_eq_rank_def)
  show "x \<le> y \<or> y \<le> x"
    by (cases x; cases y) (auto simp: less_eq_rank_def)
qed

end

locale selector =
  fixes elig :: "'a \<Rightarrow> bool"
    and better :: "'a \<Rightarrow> 'a \<Rightarrow> bool"
    and key :: "'a \<Rightarrow> 'k :: linorder"
  assumes better_key: "elig x \<Longrightarrow> elig y \<Longrightarrow> better x y \<longleftrightarrow> key x < key y"
begin

lemma select_Some_acc:
  assumes "elig s"
  shows "\<exists>t. select_from elig better ths (Some s) = Some t \<and> elig t \<and>
    (t = s \<or> t \<in> set ths) \<and> key t \<le> key s \<and> (\<forall>u \<in> set ths. elig u \<longrightarrow> key t \<le> key u)"
  using assms
proof (induction ths arbitrary: s)
  case (Cons x xs)
  show ?case
  proof (cases "elig x \<and> better x s")
    case True
    with Cons.prems have "key x < key s" using better_key by blast
    with Cons.IH [of x] True show ?thesis by fastforce
  next
    case False
    then have "elig x \<Longrightarrow> key s \<le> key x" using better_key Cons.prems by (meson not_le)
    with Cons.IH [OF Cons.prems] False show ?thesis by fastforce
  qed
qed simp

lemma select_None_iff: "select_from elig better ths None = None \<longleftrightarrow> (\<forall>u \<in> set ths. \<not> elig u)"
proof (induction ths)
  case (Cons x xs)
  then show ?case using select_Some_acc [of x xs] by auto
qed simp

lemma select_best:
  assumes "select_from elig better ths None = Some t"
  shows "t \<in> set ths" and "elig t" and "u \<in> set ths \<Longrightarrow> elig u \<Longrightarrow> key t \<le> key u"
proof -
  have "t \<in> set ths \<and> elig t \<and> (\<forall>u \<in> set ths. elig u \<longrightarrow> key t \<le> key u)"
    using assms
  proof (induction ths)
    case (Cons x xs)
    show ?case
    proof (cases "elig x")
      case True
      with Cons.prems select_Some_acc [OF True, of xs] show ?thesis by auto
    next
      case False
      with Cons show ?thesis by auto
    qed
  qed simp
  then show "t \<in> set ths" "elig t" "u \<in> set ths \<Longrightarrow> elig u \<Longrightarrow> key t \<le> key u" by blast+
qed

text \<open>With distinct keys the choice does not depend on the order of the queue.\<close>

lemma select_order_independent:
  assumes "set ths = set ths'" and "inj_on key {u \<in> set ths. elig u}"
  shows "select_from elig better ths None = select_from elig better ths' None"
proof (cases "select_from elig better ths None")
  case None
  then show ?thesis using select_None_iff assms(1) by metis
next
  case (Some t)
  then obtain t' where t': "select_from elig better ths' None = Some t'"
    using select_None_iff [of ths'] select_best(1,2) [OF Some] assms(1) by fastforce
  have "key t = key t'"
    using select_best [OF Some] select_best [OF t'] assms(1) by (metis order_antisym)
  then have "t = t'"
    using assms select_best(1,2) [OF Some] select_best(1,2) [OF t'] by (simp add: inj_on_def)
  with Some t' show ?thesis by simp
qed

end

section \<open>Default policy\<close>

definition schedule_default :: "thrd_map \<Rightarrow> threads_sched_args \<Rightarrow> threads_sched_result" where
  "schedule_default thrd args =
     (case select_from (\<lambda>th. True) (\<lambda>th s. ID (thrd th) < ID (thrd s)) (run_queue args) None of
        Some t \<Rightarrow> sched_result (Member t) (remaining_time (thrd t))
      | None \<Rightarrow> sched_result RunQueue 1)"

section \<open>Highest response ratio next\<close>

text \<open>The arithmetic is that of \<open>int\<close>, 32 bits wide; it wraps around as the RISC-V instructions do.\<close>

definition wrap32 :: "int \<Rightarrow> int" where
  "wrap32 x = sint (of_int x :: 32 word)"

definition waiting_time :: "thrd_map \<Rightarrow> int \<Rightarrow> nat \<Rightarrow> int" where
  "waiting_time thrd now th = wrap32 (now - arrival_time (thrd th))"

definition hrrn_better :: "thrd_map \<Rightarrow> int \<Rightarrow> nat \<Rightarrow> nat \<Rightarrow> bool" where
  "hrrn_better thrd now th s =
     (let w1 = waiting_time thrd now th; b1 = processing_time (thrd th);
          w2 = waiting_time thrd now s; b2 = processing_time (thrd s);
          l = wrap32 (wrap32 (w1 + b1) * b2); r = wrap32 (wrap32 (w2 + b2) * b1)
      in l > r \<or> (l = r \<and> ID (thrd th) < ID (thrd s)))"

definition hrrn_eligible :: "thrd_map \<Rightarrow> nat \<Rightarrow> bool" where
  "hrrn_eligible thrd th \<longleftrightarrow> \<not> is_real_time (thrd th) \<and> \<not> processing_time (thrd th) \<le> 0"

definition schedule_hrrn :: "thrd_map \<Rightarrow> threads_sched_args \<Rightarrow> threads_sched_result" where
  "schedule_hrrn thrd args =
     (case select_from (hrrn_eligible thrd) (hrrn_better thrd (current_time args)) (run_queue args) None of
        Some t \<Rightarrow> sched_result (Member t) (remaining_time (thrd t))
      | None \<Rightarrow> sched_result RunQueue 1)"

section \<open>Priority round robin\<close>

text \<open>The first pass carries \<open>(highest_priority, count_in_group)\<close>, starting at \<open>(5, 0)\<close>.\<close>

primrec prio_pass :: "thrd_map \<Rightarrow> nat list \<Rightarrow> int \<times> nat \<Rightarrow> int \<times> nat" where
  "prio_pass thrd [] acc = acc"
| "prio_pass thrd (th # ths) acc =
     prio_pass thrd ths
       (if is_real_time (thrd th) then acc
        else if priority (thrd th) < fst acc then (priority (thrd th), 1)
        else if priority (thrd th) = fst acc then (fst acc, snd acc + 1)
        else acc)"

definition prio_member :: "thrd_map \<Rightarrow> int \<Rightarrow> nat \<Rightarrow> bool" where
  "prio_member thrd p th \<longleftrightarrow> \<not> is_real_time (thrd th) \<and> priority (thrd th) = p"

definition schedule_priority_rr ::
    "thrd_map \<Rightarrow> threads_sched_args \<Rightarrow> threads_sched_result \<times> nat list" where
  "schedule_priority_rr thrd args =
     (let (highest, count) = prio_pass thrd (run_queue args) (5, 0)
      in case List.find (prio_member thrd highest) (run_queue args) of
           Some t \<Rightarrow>
             if count = 1 \<or> remaining_time (thrd t) \<le> time_quantum args
             then (sched_result (Member t) (remaining_time (thrd t)), run_queue args)
             else (sched_result (Member t) (time_quantum args), remove1 t (run_queue args) @ [t])
         | None \<Rightarrow> (sched_result RunQueue 1, run_queue args))"

section \<open>Deadline monotonic\<close>

definition check_deadline_miss :: "thrd_map \<Rightarrow> nat list \<Rightarrow> int \<Rightarrow> nat option" where
  "check_deadline_miss thrd queue now =
     select_from (\<lambda>th. current_deadline (thrd th) \<le> now) (\<lambda>th m. ID (thrd th) < ID (thrd m)) queue None"

definition dm_thread_cmp :: "thread \<Rightarrow> thread \<Rightarrow> int" where
  "dm_thread_cmp a b = (if deadline a \<noteq> deadline b then deadline a - deadline b else ID a - ID b)"

text \<open>Releasing: entries that are due leave the release queue and their threads join the run queue;
  the earliest of the others is remembered.\<close>

primrec dm_release :: "int \<Rightarrow> (nat \<times> int) list \<Rightarrow> (nat \<times> int) list \<times> nat list \<times> int \<Rightarrow>
    (nat \<times> int) list \<times> nat list \<times> int" where
  "dm_release now [] acc = acc"
| "dm_release now (e # es) acc =
     (let (rel, runq, closest) = acc in
      dm_release now es
        (if snd e \<le> now then (rel, runq @ [fst e], closest)
         else (rel @ [e], runq, if snd e < closest then snd e else closest)))"

primrec next_release :: "(nat \<times> int) list \<Rightarrow> int \<Rightarrow> int" where
  "next_release [] acc = acc"
| "next_release (e # es) acc = next_release es (if snd e < acc then snd e else acc)"

definition schedule_dm ::
    "thrd_map \<Rightarrow> threads_sched_args \<Rightarrow> threads_sched_result \<times> nat list \<times> (nat \<times> int) list" where
  "schedule_dm thrd args =
     (let now = current_time args;
          (rel, runq, closest) = dm_release now (release_queue args) ([], run_queue args, INT_MAX)
      in case check_deadline_miss thrd runq now of
           Some m \<Rightarrow> (sched_result (Member m) 0, runq, rel)
         | None \<Rightarrow>
             if runq = [] then (sched_result RunQueue (closest - now), runq, rel)
             else
               (case select_from (\<lambda>th. is_real_time (thrd th))
                       (\<lambda>th s. dm_thread_cmp (thrd th) (thrd s) < 0) runq None of
                  None \<Rightarrow> (sched_result RunQueue 0, runq, rel)
                | Some t \<Rightarrow>
                    (let deadline_gap = current_deadline (thrd t) - now;
                         preempt_gap = next_release rel INT_MAX - now;
                         a1 = remaining_time (thrd t);
                         a2 = (if deadline_gap < a1 then deadline_gap else a1);
                         safe_alloc = (if preempt_gap < a2 then preempt_gap else a2)
                     in (sched_result (Member t) (if safe_alloc \<le> 0 then 0 else safe_alloc), runq, rel))))"

section \<open>The policies as selections\<close>

interpretation default_policy: selector "\<lambda>th. True" "\<lambda>th s. ID (thrd th) < ID (thrd s)"
    "\<lambda>th. ID (thrd th)"
  by unfold_locales simp

interpretation miss_policy: selector "\<lambda>th. current_deadline (thrd th) \<le> now"
    "\<lambda>th s. ID (thrd th) < ID (thrd s)" "\<lambda>th. ID (thrd th)"
  by unfold_locales simp

interpretation dm_policy: selector "\<lambda>th. is_real_time (thrd th)"
    "\<lambda>th s. dm_thread_cmp (thrd th) (thrd s) < 0" "\<lambda>th. Rank (deadline (thrd th)) (ID (thrd th))"
  by unfold_locales (auto simp: dm_thread_cmp_def)

text \<open>The response ratio \<open>(waiting + burst) / burst\<close> that HRRN compares by cross multiplication.\<close>

definition response_ratio :: "thrd_map \<Rightarrow> int \<Rightarrow> nat \<Rightarrow> rat" where
  "response_ratio thrd now th =
     of_int (now - arrival_time (thrd th) + processing_time (thrd th)) / of_int (processing_time (thrd th))"

definition ratio_better :: "thrd_map \<Rightarrow> int \<Rightarrow> nat \<Rightarrow> nat \<Rightarrow> bool" where
  "ratio_better thrd now x y \<longleftrightarrow> Rank (- response_ratio thrd now x) (ID (thrd x)) < Rank (- response_ratio thrd now y) (ID (thrd y))"

interpretation hrrn_policy: selector "hrrn_eligible thrd" "ratio_better thrd now"
    "\<lambda>th. Rank (- response_ratio thrd now th) (ID (thrd th))"
  by unfold_locales (rule ratio_better_def)

text \<open>No result of the comparison overflows 32 bits.\<close>

definition fits32 :: "int \<Rightarrow> bool" where
  "fits32 x \<longleftrightarrow> - (2 ^ 31) \<le> x \<and> x < 2 ^ 31"

definition hrrn_in_range :: "thrd_map \<Rightarrow> threads_sched_args \<Rightarrow> bool" where
  "hrrn_in_range thrd args \<longleftrightarrow> (\<forall>x \<in> set (run_queue args). \<forall>y \<in> set (run_queue args).
     let w = current_time args - arrival_time (thrd x); b = processing_time (thrd x) in
     fits32 w \<and> fits32 (w + b) \<and> fits32 ((w + b) * processing_time (thrd y)))"

lemma wrap32_fits: "fits32 x \<Longrightarrow> wrap32 x = x"
  by (simp add: wrap32_def fits32_def signed_of_int signed_take_bit_int_eq_self)

lemma hrrn_better_ratio:
  assumes e: "hrrn_eligible thrd x" "hrrn_eligible thrd y" and r: "hrrn_in_range thrd args"
    and q: "x \<in> set (run_queue args)" "y \<in> set (run_queue args)"
  shows "hrrn_better thrd (current_time args) x y = ratio_better thrd (current_time args) x y"
proof -
  define v b w d where "v = current_time args - arrival_time (thrd x)" and "b = processing_time (thrd x)"
    and "w = current_time args - arrival_time (thrd y)" and "d = processing_time (thrd y)"
  have f: "fits32 v" "fits32 (v + b)" "fits32 ((v + b) * d)" "fits32 w" "fits32 (w + d)" "fits32 ((w + d) * b)"
    using r q by (simp_all add: hrrn_in_range_def Let_def v_def b_def w_def d_def)
  have pos: "0 < (of_int b :: rat)" "0 < (of_int d :: rat)"
    using e by (simp_all add: hrrn_eligible_def b_def d_def)
  have gt: "(w + d) * b < (v + b) * d \<longleftrightarrow> (of_int (w + d) / of_int d :: rat) < of_int (v + b) / of_int b"
    using pos by (simp add: divide_less_eq less_divide_eq del: of_int_add flip: of_int_mult)
  have eq: "(v + b) * d = (w + d) * b \<longleftrightarrow> (of_int (v + b) / of_int b :: rat) = of_int (w + d) / of_int d"
    using pos by (simp add: frac_eq_eq del: of_int_add flip: of_int_mult)
  show ?thesis
    unfolding hrrn_better_def ratio_better_def Let_def waiting_time_def response_ratio_def less_rank.simps neg_less_iff_less
      neg_equal_iff_equal v_def [symmetric] b_def [symmetric] w_def [symmetric] d_def [symmetric]
      wrap32_fits [OF f(1)] wrap32_fits [OF f(2)] wrap32_fits [OF f(3)] wrap32_fits [OF f(4)] wrap32_fits [OF f(5)] wrap32_fits [OF f(6)]
      gt eq ..
qed

lemma hrrn_select:
  assumes "hrrn_in_range thrd args"
  shows "select_from (hrrn_eligible thrd) (hrrn_better thrd (current_time args)) (run_queue args) None =
    select_from (hrrn_eligible thrd) (ratio_better thrd (current_time args)) (run_queue args) None"
  by (rule select_from_cong [where Q = "set (run_queue args)"]) (auto simp: hrrn_better_ratio [OF _ _ assms])

section \<open>What each policy guarantees\<close>

lemma sched_result_simps [simp]:
  "scheduled_thread_list_member (sched_result m t) = m" "allocated_time (sched_result m t) = t"
  by (simp_all add: sched_result_def)

text \<open>The default scheduler picks the thread with the least id, for its whole remaining time; it goes
  idle only on an empty run queue.\<close>

theorem schedule_default_least_id:
  "case scheduled_thread_list_member (schedule_default thrd args) of
     RunQueue \<Rightarrow> run_queue args = []
   | Member t \<Rightarrow> t \<in> set (run_queue args) \<and> (\<forall>u. u \<in> set (run_queue args) \<longrightarrow> ID (thrd t) \<le> ID (thrd u)) \<and>
       allocated_time (schedule_default thrd args) = remaining_time (thrd t)"
proof (cases "select_from (\<lambda>th. True) (\<lambda>th s. ID (thrd th) < ID (thrd s)) (run_queue args) None")
  case None
  then show ?thesis
    using default_policy.select_None_iff [of thrd] by (simp add: schedule_default_def)
next
  case (Some t)
  then show ?thesis
    using default_policy.select_best [OF Some] by (simp add: schedule_default_def)
qed

text \<open>C27: As long as the 32-bit products of the comparison do not overflow, HRRN picks an eligible thread of highest response ratio, the least
  id among equals, although the code compares cross-multiplied integers and never divides; it goes idle only when no thread is eligible.\<close>

theorem schedule_hrrn_highest_ratio:
  assumes "hrrn_in_range thrd args"
  shows "case scheduled_thread_list_member (schedule_hrrn thrd args) of
     RunQueue \<Rightarrow> (\<forall>u. u \<in> set (run_queue args) \<longrightarrow> \<not> hrrn_eligible thrd u)
   | Member t \<Rightarrow> t \<in> set (run_queue args) \<and> hrrn_eligible thrd t \<and>
       allocated_time (schedule_hrrn thrd args) = remaining_time (thrd t) \<and>
       (\<forall>u. u \<in> set (run_queue args) \<longrightarrow> hrrn_eligible thrd u \<longrightarrow>
          response_ratio thrd (current_time args) u < response_ratio thrd (current_time args) t \<or>
          (response_ratio thrd (current_time args) u = response_ratio thrd (current_time args) t \<and>
           ID (thrd t) \<le> ID (thrd u)))"
proof (cases "select_from (hrrn_eligible thrd) (hrrn_better thrd (current_time args)) (run_queue args) None")
  case None
  then have "\<forall>u \<in> set (run_queue args). \<not> hrrn_eligible thrd u"
    using hrrn_policy.select_None_iff unfolding hrrn_select [OF assms] by blast
  with None show ?thesis by (simp add: schedule_hrrn_def)
next
  case (Some t)
  note best = hrrn_policy.select_best [OF Some [unfolded hrrn_select [OF assms]]]
  have "response_ratio thrd (current_time args) u < response_ratio thrd (current_time args) t \<or>
        (response_ratio thrd (current_time args) u = response_ratio thrd (current_time args) t \<and>
         ID (thrd t) \<le> ID (thrd u))"
    if "u \<in> set (run_queue args)" "hrrn_eligible thrd u" for u
    using best(3) [OF that] by (auto simp: less_eq_rank_def)
  with Some best(1,2) show ?thesis by (simp add: schedule_hrrn_def)
qed

text \<open>The first pass finds the smallest priority not above the starting value and its group size.\<close>

lemma prio_pass_spec:
  "prio_pass thrd ths (h, k) =
     (let p = fold (\<lambda>th m. if is_real_time (thrd th) then m else min (priority (thrd th)) m) ths h
      in (p, (if p = h then k else 0) + length (filter (prio_member thrd p) ths)))"
proof (induction ths arbitrary: h k)
  case (Cons x xs)
  let ?f = "\<lambda>th m. if is_real_time (thrd th) then m else min (priority (thrd th)) m"
  have le: "fold ?f xs m \<le> m" for m
  proof (induction xs arbitrary: m)
    case (Cons y ys)
    show ?case using Cons [of "?f y m"] by (auto split: if_splits)
  qed simp
  show ?case
    using le [of "priority (thrd x)"] le [of h]
    by (auto simp: Cons.IH Let_def prio_member_def min_def)
qed simp

lemma fold_prio_le:
  "fold (\<lambda>th m. if is_real_time (thrd th) then m else min (priority (thrd th)) m) ths (h :: int) \<le> h"
  "u \<in> set ths \<Longrightarrow> \<not> is_real_time (thrd u) \<Longrightarrow>
     fold (\<lambda>th m. if is_real_time (thrd th) then m else min (priority (thrd th)) m) ths h \<le> priority (thrd u)"
proof (induction ths arbitrary: h)
  case (Cons x xs)
  let ?f = "\<lambda>th m. if is_real_time (thrd th) then m else min (priority (thrd th)) m"
  { case 1 show ?case using Cons.IH(1) [of "?f x h"] by (auto split: if_splits) }
  { case 2 then show ?case using Cons.IH(1) [of "?f x h"] Cons.IH(2) [of "?f x h"] by (auto split: if_splits) }
qed simp_all

lemma find_first:
  "List.find P xs = Some t \<Longrightarrow> \<exists>ys zs. xs = ys @ t # zs \<and> P t \<and> (\<forall>y \<in> set ys. \<not> P y)"
proof (induction xs)
  case (Cons x xs)
  show ?case
  proof (cases "P x")
    case True
    then have "x # xs = [] @ t # xs" "P t" using Cons.prems by simp_all
    then show ?thesis by (metis empty_iff list.set(1))
  next
    case False
    with Cons obtain ys zs where "xs = ys @ t # zs" "P t" "\<forall>y \<in> set ys. \<not> P y" by auto
    then have "x # xs = (x # ys) @ t # zs \<and> P t \<and> (\<forall>y \<in> set (x # ys). \<not> P y)" using False by simp
    then show ?thesis by blast
  qed
qed simp

text \<open>C28: Priority round robin picks the first thread of the most urgent priority level; a time slice
  that ends early puts the thread at the tail, and the queue is only permuted.\<close>

theorem schedule_priority_rr_picks:
  assumes "schedule_priority_rr thrd args = (r, q)" and "scheduled_thread_list_member r = Member t"
  shows "(\<exists>ys zs. run_queue args = ys @ t # zs \<and> (\<forall>y \<in> set ys. \<not> prio_member thrd (priority (thrd t)) y)) \<and>
         \<not> is_real_time (thrd t) \<and> priority (thrd t) \<le> 5 \<and>
         (\<forall>u. u \<in> set (run_queue args) \<longrightarrow> \<not> is_real_time (thrd u) \<longrightarrow> priority (thrd t) \<le> priority (thrd u)) \<and>
         mset q = mset (run_queue args) \<and>
         allocated_time r \<le> remaining_time (thrd t) \<and>
         (allocated_time r < remaining_time (thrd t) \<longrightarrow> allocated_time r = time_quantum args \<and> last q = t)"
proof -
  obtain p k where pk: "prio_pass thrd (run_queue args) (5, 0) = (p, k)" by fastforce
  let ?f = "\<lambda>th m. if is_real_time (thrd th) then m else min (priority (thrd th)) m"
  have p: "p = fold ?f (run_queue args) 5" using pk by (simp add: prio_pass_spec Let_def)
  have find: "List.find (prio_member thrd p) (run_queue args) = Some t"
    using assms pk by (auto simp: schedule_priority_rr_def split: option.splits if_splits)
  obtain ys zs where yz: "run_queue args = ys @ t # zs" "prio_member thrd p t"
      "\<forall>y \<in> set ys. \<not> prio_member thrd p y"
    using find_first [OF find] by blast
  have pt: "priority (thrd t) = p" "\<not> is_real_time (thrd t)" using yz(2) by (auto simp: prio_member_def)
  have "p \<le> 5" "\<And>u. u \<in> set (run_queue args) \<Longrightarrow> \<not> is_real_time (thrd u) \<Longrightarrow> p \<le> priority (thrd u)"
    unfolding p by (rule fold_prio_le(1), rule fold_prio_le(2))
  moreover have "mset q = mset (run_queue args)"
  proof -
    have "mset (remove1 t (run_queue args) @ [t]) = mset (run_queue args)" by (simp add: yz(1))
    moreover have "q = run_queue args \<or> q = remove1 t (run_queue args) @ [t]"
      using assms(1) find pk by (auto simp: schedule_priority_rr_def split: if_splits)
    ultimately show ?thesis by metis
  qed
  moreover have "allocated_time r \<le> remaining_time (thrd t) \<and>
      (allocated_time r < remaining_time (thrd t) \<longrightarrow> allocated_time r = time_quantum args \<and> last q = t)"
    using assms(1) find pk by (auto simp: schedule_priority_rr_def split: if_splits)
  ultimately show ?thesis using yz pt by blast
qed

text \<open>The search of priority round robin starts at priority 5, so a queue holding only threads with a
  larger number is never served: the scheduler reports an idle tick.\<close>

theorem schedule_priority_rr_starves:
  assumes "\<forall>u \<in> set (run_queue args). priority (thrd u) > 5"
  shows "schedule_priority_rr thrd args = (sched_result RunQueue 1, run_queue args)"
proof -
  have "prio_pass thrd ths (5, 0) = (5, 0)" if "\<forall>u \<in> set ths. priority (thrd u) > 5" for ths
    using that by (induction ths) auto
  then have "prio_pass thrd (run_queue args) (5, 0) = (5, 0)" using assms by blast
  moreover have "List.find (prio_member thrd 5) (run_queue args) = None"
    using assms by (auto simp: find_None_iff prio_member_def)
  ultimately show ?thesis by (simp add: schedule_priority_rr_def)
qed

lemma dm_release_spec:
  "dm_release now es (rel, runq, c) =
     (rel @ filter (\<lambda>e. \<not> snd e \<le> now) es, runq @ map fst (filter (\<lambda>e. snd e \<le> now) es),
      next_release (filter (\<lambda>e. \<not> snd e \<le> now) es) c)"
  by (induction es arbitrary: rel runq c) auto

lemma next_release_spec:
  "next_release es a \<le> a" "e \<in> set es \<Longrightarrow> next_release es a \<le> snd e"
  "next_release es a = a \<or> (\<exists>e \<in> set es. next_release es a = snd e)"
proof (induction es arbitrary: a)
  case (Cons x xs)
  { case 1 show ?case using Cons.IH(1) [of a] Cons.IH(1) [of "snd x"] by auto }
  { case 2 then show ?case
      using Cons.IH(1) [of a] Cons.IH(2) [of a] Cons.IH(1) [of "snd x"] Cons.IH(2) [of "snd x"] by auto }
  { case 3 show ?case using Cons.IH(3) [of a] Cons.IH(3) [of "snd x"] by auto }
qed simp_all

lemma schedule_dm_cases:
  fixes args defines "now \<equiv> current_time args"
  defines "rel \<equiv> filter (\<lambda>e. \<not> snd e \<le> now) (release_queue args)"
  defines "runq \<equiv> run_queue args @ map fst (filter (\<lambda>e. snd e \<le> now) (release_queue args))"
  obtains (missed) m where "check_deadline_miss thrd runq now = Some m"
      "schedule_dm thrd args = (sched_result (Member m) 0, runq, rel)"
  | (idle) "check_deadline_miss thrd runq now = None" "runq = []"
      "schedule_dm thrd args = (sched_result RunQueue (next_release rel INT_MAX - now), runq, rel)"
  | (no_rt) "check_deadline_miss thrd runq now = None" "runq \<noteq> []" "\<forall>u \<in> set runq. \<not> is_real_time (thrd u)"
      "schedule_dm thrd args = (sched_result RunQueue 0, runq, rel)"
  | (run) t where "check_deadline_miss thrd runq now = None"
      "select_from (\<lambda>th. is_real_time (thrd th)) (\<lambda>th s. dm_thread_cmp (thrd th) (thrd s) < 0) runq None = Some t"
      "schedule_dm thrd args = (sched_result (Member t)
         (max 0 (min (min (remaining_time (thrd t)) (current_deadline (thrd t) - now))
                     (next_release rel INT_MAX - now))), runq, rel)"
proof -
  have rs: "dm_release now (release_queue args) ([], run_queue args, INT_MAX) =
      (rel, runq, next_release rel INT_MAX)"
    by (simp add: dm_release_spec rel_def runq_def)
  have clamp: "(if s \<le> 0 then 0 else s) = max 0 s" "(if b < a then b else a) = min a b" for s a b :: int
    by (simp_all add: max_def min_def)
  note eq = schedule_dm_def [of thrd args, unfolded Let_def, folded now_def, unfolded rs prod.case clamp]
  show thesis
  proof (cases "check_deadline_miss thrd runq now")
    case (Some m)
    show thesis by (rule missed [OF Some]) (simp only: eq Some option.case)
  next
    case None
    show thesis
    proof (cases "runq = []")
      case True
      show thesis by (rule idle [OF None True]) (simp only: eq None option.case if_P [OF True])
    next
      case False
      show thesis
      proof (cases "select_from (\<lambda>th. is_real_time (thrd th)) (\<lambda>th s. dm_thread_cmp (thrd th) (thrd s) < 0) runq None")
        case no: None
        have "\<forall>u \<in> set runq. \<not> is_real_time (thrd u)"
          by (rule dm_policy.select_None_iff [THEN iffD1, OF no])
        then show thesis
          by (rule no_rt [OF None False]) (simp only: eq None no option.case False if_False)
      next
        case (Some t)
        show thesis
          by (rule run [OF None Some]) (simp only: eq None Some option.case False if_False)
      qed
    qed
  qed
qed

lemma check_deadline_miss_None:
  "check_deadline_miss thrd q now = None \<longleftrightarrow> (\<forall>u \<in> set q. now < current_deadline (thrd u))"
  unfolding check_deadline_miss_def miss_policy.select_None_iff by auto

text \<open>C26: Deadline-monotonic scheduling runs the most urgent real-time thread for a positive time that
  ends before its own deadline and before the next release, or reports a missed deadline.\<close>

theorem schedule_dm_run:
  assumes "schedule_dm thrd args = (r, q, rel)" and "scheduled_thread_list_member r = Member t"
    and "\<forall>u \<in> set q. 0 < remaining_time (thrd u)" and "current_time args < INT_MAX"
  shows "t \<in> set q \<and>
    (if allocated_time r = 0 then current_deadline (thrd t) \<le> current_time args
     else is_real_time (thrd t) \<and> 0 < allocated_time r \<and> allocated_time r \<le> remaining_time (thrd t) \<and>
       current_time args + allocated_time r \<le> current_deadline (thrd t) \<and>
       (\<forall>e. e \<in> set rel \<longrightarrow> current_time args + allocated_time r \<le> snd e) \<and>
       (\<forall>u. u \<in> set q \<longrightarrow> current_time args < current_deadline (thrd u)) \<and>
       (\<forall>u. u \<in> set q \<longrightarrow> is_real_time (thrd u) \<longrightarrow>
          Rank (deadline (thrd t)) (ID (thrd t)) \<le> Rank (deadline (thrd u)) (ID (thrd u))))"
proof (cases rule: schedule_dm_cases [of thrd args])
  case (missed m)
  then have "t = m" "allocated_time r = 0" using assms(1,2) by auto
  moreover have "m \<in> set q" "current_deadline (thrd m) \<le> current_time args"
    using miss_policy.select_best(1,2) [OF missed(1) [unfolded check_deadline_miss_def]] missed(2) assms(1)
    by simp_all
  ultimately show ?thesis by simp
next
  case (run s)
  let ?now = "current_time args"
  have q: "q = run_queue args @ map fst (filter (\<lambda>e. snd e \<le> ?now) (release_queue args))"
    and rel: "rel = filter (\<lambda>e. \<not> snd e \<le> ?now) (release_queue args)"
    using assms(1) run(3) by simp_all
  have r: "r = sched_result (Member s) (max 0 (min (min (remaining_time (thrd s)) (current_deadline (thrd s) - ?now))
        (next_release rel INT_MAX - ?now)))"
    using assms(1) run(3) unfolding rel by simp
  have st: "s = t" using assms(2) r by simp
  have a: "allocated_time r = max 0 (min (min (remaining_time (thrd t)) (current_deadline (thrd t) - ?now))
        (next_release rel INT_MAX - ?now))"
    using r st by simp
  note best = dm_policy.select_best [OF run(2), folded q, unfolded st]
  have dl: "\<forall>u \<in> set q. ?now < current_deadline (thrd u)"
    using run(1) unfolding check_deadline_miss_None q .
  have nr: "?now < next_release rel INT_MAX"
    using next_release_spec(3) [of rel INT_MAX] assms(4) rel by auto
  have rem: "0 < remaining_time (thrd t)" "0 < current_deadline (thrd t) - ?now"
    using assms(3) best(1) dl by simp_all
  then have pos: "0 < allocated_time r" "allocated_time r \<le> remaining_time (thrd t)"
    "allocated_time r \<le> current_deadline (thrd t) - ?now"
    "allocated_time r \<le> next_release rel INT_MAX - ?now"
    using a nr by simp_all
  have ends: "?now + allocated_time r \<le> snd e" if "e \<in> set rel" for e
    using pos(4) next_release_spec(2) [OF that, of INT_MAX] by simp
  have "?now + allocated_time r \<le> current_deadline (thrd t)" using pos(3) by simp
  then show ?thesis using best(1,2) pos(1,2) ends dl best(3) by simp
qed (use assms in simp_all)

text \<open>With no thread ready, deadline-monotonic scheduling sleeps exactly until the next release.\<close>

theorem schedule_dm_idle:
  assumes "schedule_dm thrd args = (r, [], rel)" and "current_time args < INT_MAX"
  shows "scheduled_thread_list_member r = RunQueue \<and> 0 < allocated_time r \<and>
    (\<forall>e. e \<in> set rel \<longrightarrow> current_time args + allocated_time r \<le> snd e) \<and>
    (rel \<noteq> [] \<longrightarrow> (\<forall>e. e \<in> set rel \<longrightarrow> snd e \<le> INT_MAX) \<longrightarrow>
       (\<exists>e. e \<in> set rel \<and> current_time args + allocated_time r = snd e))"
proof (cases rule: schedule_dm_cases [of thrd args])
  case (missed m)
  then show ?thesis
    using assms miss_policy.select_best(1) [OF missed(1) [unfolded check_deadline_miss_def]] by auto
next
  case idle
  let ?n = "next_release rel INT_MAX"
  have r: "scheduled_thread_list_member r = RunQueue" "allocated_time r = ?n - current_time args"
    and rel: "\<And>e. e \<in> set rel \<Longrightarrow> current_time args < snd e"
    using idle assms by auto
  have ex: "\<exists>e. e \<in> set rel \<and> ?n = snd e" if nonempty: "rel \<noteq> []" "\<forall>e. e \<in> set rel \<longrightarrow> snd e \<le> INT_MAX"
  proof -
    obtain e where e: "e \<in> set rel" using nonempty(1) by (meson list.set_sel(1))
    show ?thesis
    proof (cases "?n = INT_MAX")
      case True
      with next_release_spec(2) [OF e, of INT_MAX] have "INT_MAX \<le> snd e" by simp
      moreover have "snd e \<le> INT_MAX" using nonempty(2) e by blast
      ultimately have "?n = snd e" using True by simp
      with e show ?thesis by blast
    next
      case False
      then show ?thesis using next_release_spec(3) [of rel INT_MAX] by blast
    qed
  qed
  have le: "current_time args + allocated_time r \<le> snd e" if "e \<in> set rel" for e
    using next_release_spec(2) [OF that, of INT_MAX] r by simp
  have "current_time args < ?n"
    using next_release_spec(3) [of rel INT_MAX] rel assms(2) by auto
  then show ?thesis using r le ex by auto
next
  case (run t)
  then show ?thesis using assms dm_policy.select_best(1) [OF run(2)] by auto
qed (use assms in auto)

section \<open>The properties at work\<close>

definition sample_thread :: "int \<Rightarrow> thread" where
  "sample_thread i = \<lparr>fp = 0, arg = 0, buf_set = False, thrdstop_context_id = -1, ID = i, is_real_time = True,
     processing_time = 3, deadline = 10, period = 10, cycles = 2, remaining_time = 3, current_deadline = 10,
     priority = 100, arrival_time = 0, cbs_budget = 0, cbs_remaining_budget = 0, cbs_is_hard_rt = False,
     cbs_is_throttled = False, cbs_throttled_arrived_time = 0, cbs_throttle_new_deadline = 0\<rparr>"

definition sample_args :: threads_sched_args where
  "sample_args = \<lparr>current_time = 1, time_quantum = 2, run_queue = [1, 2], release_queue = [(3, 9)]\<rparr>"

theorem schedule_priority_rr_picks_witness:
  "\<exists>th r q. schedule_priority_rr th sample_args = (r, q) \<and> scheduled_thread_list_member r = Member 1 \<and>
     priority (th 1) \<le> 5 \<and> mset q = mset [1, 2]"
proof -
  let ?th = "\<lambda>t. (sample_thread (int t))\<lparr>priority := int t, is_real_time := False\<rparr>"
  obtain r q where s: "schedule_priority_rr ?th sample_args = (r, q)" by fastforce
  have "scheduled_thread_list_member r = Member 1"
    using s by (auto simp: schedule_priority_rr_def prio_pass_def prio_member_def sample_args_def sample_thread_def
        sched_result_def split: if_splits)
  from schedule_priority_rr_picks [OF s this] s this show ?thesis by (fastforce simp: sample_args_def)
qed

theorem schedule_priority_rr_starves_witness:
  "schedule_priority_rr (\<lambda>t. sample_thread (int t)) sample_args = (sched_result RunQueue 1, run_queue sample_args)"
  by (rule schedule_priority_rr_starves) (simp add: sample_thread_def)

theorem schedule_dm_run_witness:
  "\<exists>r q rel. schedule_dm (\<lambda>t. sample_thread (int t)) sample_args = (r, q, rel) \<and>
     scheduled_thread_list_member r = Member 1 \<and> 1 \<in> set q"
proof -
  let ?th = "\<lambda>t. sample_thread (int t)"
  obtain r q rel where s: "schedule_dm ?th sample_args = (r, q, rel)" by (metis prod_cases3)
  have m: "scheduled_thread_list_member r = Member 1"
    using s by (auto simp: schedule_dm_def Let_def dm_release_def check_deadline_miss_def dm_thread_cmp_def next_release_def
        sample_args_def sample_thread_def sched_result_def split: if_splits)
  have "\<forall>u \<in> set q. 0 < remaining_time (?th u)" "current_time sample_args < INT_MAX"
    by (simp_all add: sample_thread_def sample_args_def INT_MAX_def)
  from schedule_dm_run [OF s m this] s m show ?thesis by blast
qed

theorem schedule_dm_idle_witness:
  "\<exists>r rel. schedule_dm (\<lambda>t. sample_thread (int t)) (sample_args\<lparr>run_queue := []\<rparr>) = (r, [], rel) \<and>
     scheduled_thread_list_member r = RunQueue \<and> 0 < allocated_time r"
proof -
  let ?th = "\<lambda>t. sample_thread (int t)"
  let ?a = "sample_args\<lparr>run_queue := []\<rparr>"
  obtain r q rel where s: "schedule_dm ?th ?a = (r, q, rel)" by (metis prod_cases3)
  have "q = []"
    using s by (auto simp: schedule_dm_def Let_def dm_release_def check_deadline_miss_def dm_thread_cmp_def next_release_def
        sample_args_def sample_thread_def sched_result_def split: if_splits option.splits)
  moreover have "current_time ?a < INT_MAX" by (simp add: sample_args_def INT_MAX_def)
  ultimately show ?thesis using schedule_dm_idle [of ?th ?a r rel] s by blast
qed

theorem schedule_default_least_id_witness:
  "scheduled_thread_list_member (schedule_default (\<lambda>t. sample_thread (int t)) sample_args) = Member 1 \<and>
     allocated_time (schedule_default (\<lambda>t. sample_thread (int t)) sample_args) = 3"
proof -
  let ?r = "schedule_default (\<lambda>t. sample_thread (int t)) sample_args"
  have "scheduled_thread_list_member ?r = Member 1"
    by (simp add: schedule_default_def sample_args_def sample_thread_def sched_result_def)
  then show ?thesis
    using schedule_default_least_id [where thrd = "\<lambda>t. sample_thread (int t)" and args = sample_args] by (simp add: sample_thread_def)
qed

theorem schedule_hrrn_highest_ratio_witness:
  "let th = (\<lambda>t. (sample_thread (int t))\<lparr>is_real_time := False, arrival_time := - int t\<rparr>) in
     scheduled_thread_list_member (schedule_hrrn th sample_args) = Member 2 \<and>
     response_ratio th 1 1 < response_ratio th 1 2"
proof -
  let ?th = "\<lambda>t. (sample_thread (int t))\<lparr>is_real_time := False, arrival_time := - int t\<rparr>"
  have m: "scheduled_thread_list_member (schedule_hrrn ?th sample_args) = Member 2"
    by (simp add: schedule_hrrn_def hrrn_better_def hrrn_eligible_def waiting_time_def wrap32_def Let_def sample_args_def sample_thread_def sched_result_def)
  have "1 \<in> set (run_queue sample_args)" "hrrn_eligible ?th 1" "ID (?th 2) \<noteq> ID (?th 1)" "\<not> ID (?th 2) \<le> ID (?th 1)" "current_time sample_args = 1"
    by (simp_all add: sample_args_def sample_thread_def hrrn_eligible_def)
  moreover have "hrrn_in_range ?th sample_args" by (simp add: hrrn_in_range_def fits32_def Let_def sample_args_def sample_thread_def)
  ultimately show ?thesis using m schedule_hrrn_highest_ratio [where thrd = ?th and args = sample_args] unfolding Let_def by fastforce
qed

text \<open>With products above \<open>2 ^ 31\<close> the comparison is wrong: of two threads that have waited 50000 ticks, with bursts of 50000 and 10
  ticks, the code picks the one of response ratio 2 and not the one of response ratio 5001.\<close>

lemma schedule_hrrn_overflow:
  defines "th \<equiv> (\<lambda>t. (sample_thread (int t))\<lparr>is_real_time := False, processing_time := (if t = 1 then 50000 else 10)\<rparr>)"
  shows "scheduled_thread_list_member (schedule_hrrn th (sample_args\<lparr>current_time := 50000\<rparr>)) = Member 1"
    and "response_ratio th 50000 1 < response_ratio th 50000 2"
  by (simp_all add: th_def schedule_hrrn_def hrrn_better_def hrrn_eligible_def waiting_time_def wrap32_def Let_def sample_args_def
      sample_thread_def sched_result_def response_ratio_def)

end
