(* ===== verification/Threads3.thy ===== *)
theory Threads3
  imports Sched
begin

text \<open>
  The user-level thread package of mp3/xv6/user/threads.c on top of the schedulers. The state names
  the threads by address; \<open>run_q\<close> and \<open>release_q\<close> are the two lists in list order. Control
  leaves a handler by dispatching a thread, by going back to the main loop, or by \<open>exit\<close>: that
  is its \<open>outcome\<close>. Stacks and the saved contexts belong to the kernel side (\<open>Thrd\<close>). Ticks
  are natural numbers; \<open>allocated_time\<close> is the unsigned 64-bit variable of the source.
\<close>

section \<open>State\<close>

record threads =
  thrds :: thrd_map
  run_q :: "nat list"
  release_q :: "(nat \<times> int) list"
  current :: list_member
  threading_system_time :: int
  allocated :: u64
  next_id :: int

datatype outcome = Dispatch nat u64 bool | BackToMain | Exit string

definition TIME_QUANTUM :: int where "TIME_QUANTUM = 2"

type_synonym scheduler =
  "thrd_map \<Rightarrow> threads_sched_args \<Rightarrow> threads_sched_result \<times> nat list \<times> (nat \<times> int) list"

definition upd_thread :: "nat \<Rightarrow> (thread \<Rightarrow> thread) \<Rightarrow> threads \<Rightarrow> threads" where
  "upd_thread t f s = s\<lparr>thrds := (thrds s)(t := f (thrds s t))\<rparr>"

section \<open>Operations\<close>

text \<open>\<open>addr\<close> is what \<open>malloc\<close> returned; the \<open>cbs\<close> part of the structure is not initialised.\<close>

definition thread_create :: "nat \<Rightarrow> nat \<Rightarrow> nat \<Rightarrow> bool \<Rightarrow> int \<Rightarrow> int \<Rightarrow> int \<Rightarrow> threads \<Rightarrow> threads" where
  "thread_create addr f a rt ptime per n s =
     (let s1 = upd_thread addr (\<lambda>t. t\<lparr>fp := f, arg := a, ID := next_id s, buf_set := False,
                 processing_time := ptime, period := per, deadline := per, cycles := n,
                 is_real_time := rt, remaining_time := ptime, current_deadline := 0,
                 priority := 100, arrival_time := 30000\<rparr>) s
      in s1\<lparr>next_id := next_id s + 1\<rparr>)"

definition thread_set_priority :: "nat \<Rightarrow> int \<Rightarrow> threads \<Rightarrow> threads" where
  "thread_set_priority t p s = upd_thread t (\<lambda>th. th\<lparr>priority := p\<rparr>) s"

definition init_thread_cbs :: "nat \<Rightarrow> int \<Rightarrow> bool \<Rightarrow> threads \<Rightarrow> threads" where
  "init_thread_cbs t budget hard s =
     upd_thread t (\<lambda>th. th\<lparr>cbs_budget := budget, cbs_remaining_budget := budget, cbs_is_hard_rt := hard,
       cbs_is_throttled := False, cbs_throttled_arrived_time := 0, cbs_throttle_new_deadline := 0\<rparr>) s"

definition thread_add_at :: "nat \<Rightarrow> int \<Rightarrow> threads \<Rightarrow> threads" where
  "thread_add_at t when_at s =
     (let s1 = upd_thread t (\<lambda>th. th\<lparr>arrival_time := when_at\<rparr>) s;
          s2 = (if is_real_time (thrds s1 t)
                then upd_thread t (\<lambda>th. th\<lparr>current_deadline := when_at + deadline th\<rparr>) s1 else s1)
      in s2\<lparr>release_q := release_q s2 @ [(t, when_at)]\<rparr>)"

text \<open>\<open>__release\<close> walks the release queue; \<open>kept\<close> are the entries already passed over.\<close>

primrec release_entries :: "(nat \<times> int) list \<Rightarrow> (nat \<times> int) list \<Rightarrow> threads \<Rightarrow> threads" where
  "release_entries [] kept s = s\<lparr>release_q := kept\<rparr>"
| "release_entries (e # es) kept s =
     (if threading_system_time s \<ge> snd e then
        let s1 = upd_thread (fst e) (\<lambda>th. th\<lparr>remaining_time := processing_time th,
                   current_deadline := snd e + deadline th\<rparr>) s
        in release_entries es kept (s1\<lparr>run_q := run_q s1 @ [fst e]\<rparr>)
      else release_entries es (kept @ [e]) s)"

definition release :: "threads \<Rightarrow> threads" where
  "release s = release_entries (release_q s) [] s"

definition schedule :: "scheduler \<Rightarrow> threads \<Rightarrow> threads" where
  "schedule sched s =
     (let (r, q, rel) = sched (thrds s) \<lparr>current_time = threading_system_time s, time_quantum = TIME_QUANTUM,
                          run_queue = run_q s, release_queue = release_q s\<rparr>
      in s\<lparr>run_q := q, release_q := rel, current := scheduled_thread_list_member r,
            allocated := of_int (allocated_time r)\<rparr>)"

definition dispatch :: "threads \<Rightarrow> outcome \<times> threads" where
  "dispatch s =
     (case current s of
        RunQueue \<Rightarrow> (BackToMain, s)
      | Member t \<Rightarrow>
          if is_real_time (thrds s t) \<and> allocated s = 0 then (Exit ''misses a deadline in dispatch'', s)
          else if buf_set (thrds s t) then (Dispatch t (allocated s) False, s)
          else (Dispatch t (allocated s) True, upd_thread t (\<lambda>th. th\<lparr>buf_set := True\<rparr>) s))"

text \<open>\<open>list_head.prev\<close>: the member before \<open>t\<close>, or the queue head.\<close>

definition prev_member :: "nat list \<Rightarrow> nat \<Rightarrow> list_member" where
  "prev_member q t =
     (case takeWhile (\<lambda>x. x \<noteq> t) q of [] \<Rightarrow> RunQueue | ys \<Rightarrow> Member (last ys))"

definition unlink_current :: "nat \<Rightarrow> threads \<Rightarrow> threads" where
  "unlink_current t s = s\<lparr>current := prev_member (run_q s) t, run_q := remove1 t (run_q s)\<rparr>"

text \<open>\<open>__thread_exit\<close>: the thread is freed, then another is chosen.\<close>

definition thread_exit_switch :: "scheduler \<Rightarrow> nat \<Rightarrow> threads \<Rightarrow> outcome \<times> threads" where
  "thread_exit_switch sched t s = dispatch (schedule sched (unlink_current t s))"

definition thread_exit :: "scheduler \<Rightarrow> int \<Rightarrow> threads \<Rightarrow> outcome \<times> threads" where
  "thread_exit sched consume_ticks s =
     (case current s of
        RunQueue \<Rightarrow> (Exit ''[FATAL] thread_exit is called on a nonexistent thread'', s)
      | Member t \<Rightarrow>
          thread_exit_switch sched t
            (release (s\<lparr>threading_system_time := threading_system_time s + consume_ticks\<rparr>)))"

text \<open>\<open>__finish_current\<close> and \<open>__rt_finish_current\<close>: \<open>Inl\<close> when the thread is done for good.\<close>

definition finish_current :: "scheduler \<Rightarrow> nat \<Rightarrow> threads \<Rightarrow> (outcome \<times> threads) + threads" where
  "finish_current sched t s =
     (let s1 = upd_thread t (\<lambda>th. th\<lparr>cycles := cycles th - 1\<rparr>) s
      in if cycles (thrds s1 t) > 0
         then Inr (thread_add_at t (current_deadline (thrds s1 t)) (unlink_current t s1))
         else Inl (thread_exit_switch sched t s1))"

definition rt_finish_current :: "scheduler \<Rightarrow> nat \<Rightarrow> threads \<Rightarrow> (outcome \<times> threads) + threads" where
  "rt_finish_current sched t s =
     (let s1 = upd_thread t (\<lambda>th. th\<lparr>cycles := cycles th - 1\<rparr>) s
      in if cycles (thrds s1 t) > 0
         then (let s2 = thread_add_at t (current_deadline (thrds s1 t)) (unlink_current t s1)
               in Inr (if \<not> cbs_is_hard_rt (thrds s2 t)
                       then upd_thread t (\<lambda>th. th\<lparr>cbs_remaining_budget := cbs_budget th\<rparr>) s2 else s2))
         else Inl (thread_exit_switch sched t s1))"

definition rotate_current :: "nat \<Rightarrow> threads \<Rightarrow> threads" where
  "rotate_current t s = (let s1 = unlink_current t s in s1\<lparr>run_q := run_q s1 @ [t]\<rparr>)"

definition charge :: "nat \<Rightarrow> int \<Rightarrow> threads \<Rightarrow> threads" where
  "charge t elapsed s =
     (let s1 = upd_thread t (\<lambda>th. th\<lparr>remaining_time := remaining_time th - elapsed\<rparr>) s
      in if \<not> cbs_is_hard_rt (thrds s1 t)
         then upd_thread t (\<lambda>th. th\<lparr>cbs_remaining_budget := cbs_remaining_budget th - elapsed\<rparr>) s1 else s1)"

definition switch_handler :: "scheduler \<Rightarrow> int \<Rightarrow> nat \<Rightarrow> threads \<Rightarrow> outcome \<times> threads" where
  "switch_handler sched elapsed t s =
     (let s1 = release (s\<lparr>threading_system_time := threading_system_time s + elapsed\<rparr>);
          s2 = charge t elapsed s1;
          th = thrds s2 t;
          now = threading_system_time s2
      in if is_real_time th \<and>
            (now > current_deadline th \<or> (now = current_deadline th \<and> remaining_time th > 0))
         then (Exit ''misses a deadline in swicth'', s2)
         else
           case (if remaining_time th \<le> 0 then
                   if is_real_time th then rt_finish_current sched t s2 else finish_current sched t s2
                 else Inr (rotate_current t s2)) of
             Inl r \<Rightarrow> r
           | Inr s3 \<Rightarrow> dispatch (schedule sched (release s3)))"

text \<open>One round of the main loop of \<open>thread_start_threading\<close>; \<open>None\<close> when both queues are empty.
  Back in the main loop with work left it sleeps for \<open>allocated_time\<close> ticks.\<close>

definition main_round :: "scheduler \<Rightarrow> threads \<Rightarrow> (outcome \<times> threads) option" where
  "main_round sched s =
     (if run_q s = [] \<and> release_q s = [] then None
      else Some (dispatch (schedule sched (release s))))"

definition back_to_main_handler :: "threads \<Rightarrow> threads" where
  "back_to_main_handler s =
     s\<lparr>threading_system_time := threading_system_time s + sint (allocated s)\<rparr>"

section \<open>The interface of a scheduler\<close>

locale scheduler_contract =
  fixes sched :: scheduler
  assumes conserves: "sched th args = (r, q, rel) \<Longrightarrow>
      mset q + mset (map fst rel) = mset (run_queue args) + mset (map fst (release_queue args))"
    and picks_runnable: "sched th args = (r, q, rel) \<Longrightarrow> scheduled_thread_list_member r = Member t \<Longrightarrow> t \<in> set q"
begin

lemma schedule_threads:
  "mset (run_q (schedule sched s)) + mset (map fst (release_q (schedule sched s))) =
     mset (run_q s) + mset (map fst (release_q s))"
proof -
  obtain r q rel where e: "sched (thrds s) \<lparr>current_time = threading_system_time s, time_quantum = TIME_QUANTUM,
      run_queue = run_q s, release_queue = release_q s\<rparr> = (r, q, rel)" by (metis prod_cases3)
  show ?thesis using conserves [OF e] by (simp add: schedule_def e)
qed

lemma schedule_current: "current (schedule sched s) = Member t \<Longrightarrow> t \<in> set (run_q (schedule sched s))"
proof -
  obtain r q rel where e: "sched (thrds s) \<lparr>current_time = threading_system_time s, time_quantum = TIME_QUANTUM,
      run_queue = run_q s, release_queue = release_q s\<rparr> = (r, q, rel)" by (metis prod_cases3)
  show "current (schedule sched s) = Member t \<Longrightarrow> t \<in> set (run_q (schedule sched s))"
    using picks_runnable [OF e] by (simp add: schedule_def e)
qed

end

section \<open>No thread is lost or duplicated\<close>

definition all_threads :: "threads \<Rightarrow> nat multiset" where
  "all_threads s = mset (run_q s) + mset (map fst (release_q s))"

lemma upd_thread_queues [simp]:
  "run_q (upd_thread t f s) = run_q s" "release_q (upd_thread t f s) = release_q s"
  "current (upd_thread t f s) = current s" "all_threads (upd_thread t f s) = all_threads s"
  "threading_system_time (upd_thread t f s) = threading_system_time s" "allocated (upd_thread t f s) = allocated s"
  "thrds (upd_thread t f s) = (thrds s)(t := f (thrds s t))"
  by (simp_all add: upd_thread_def all_threads_def)

lemma release_entries_threads:
  "all_threads (release_entries es kept s) = mset (run_q s) + mset (map fst kept) + mset (map fst es)"
  by (induction es arbitrary: kept s) (simp_all add: all_threads_def)

lemma release_threads: "all_threads (release s) = all_threads s"
  by (simp add: release_def release_entries_threads) (simp add: all_threads_def)

lemma release_entries_run: "set (run_q s) \<subseteq> set (run_q (release_entries es kept s))"
proof (induction es arbitrary: kept s)
  case (Cons e es)
  let ?s = "(upd_thread (fst e) (\<lambda>th. th\<lparr>remaining_time := processing_time th,
      current_deadline := snd e + deadline th\<rparr>) s)\<lparr>run_q := run_q s @ [fst e]\<rparr>"
  show ?case using Cons.IH [where s = ?s and kept = kept] Cons.IH [where s = s and kept = "kept @ [e]"]
    by (auto simp: Let_def)
qed simp

lemma release_run: "t \<in> set (run_q s) \<Longrightarrow> t \<in> set (run_q (release s))"
  using release_entries_run [of s "release_q s" "[]"] by (auto simp: release_def)

lemma release_entries_other: "t \<notin> fst ` set es \<Longrightarrow> thrds (release_entries es kept s) t = thrds s t"
  by (induction es arbitrary: kept s) (simp_all add: Let_def)

lemma release_entries_time: "threading_system_time (release_entries es kept s) = threading_system_time s"
  by (induction es arbitrary: kept s) (simp_all add: Let_def)

lemma release_other:
  "t \<notin> fst ` set (release_q s) \<Longrightarrow> thrds (release s) t = thrds s t"
  "threading_system_time (release s) = threading_system_time s"
  by (simp_all add: release_def release_entries_other release_entries_time)

lemma charge_current:
  "remaining_time (thrds (charge t e s) t) = remaining_time (thrds s t) - e"
  "is_real_time (thrds (charge t e s) t) = is_real_time (thrds s t)"
  "current_deadline (thrds (charge t e s) t) = current_deadline (thrds s t)"
  "cycles (thrds (charge t e s) t) = cycles (thrds s t)"
  "threading_system_time (charge t e s) = threading_system_time s"
  by (simp_all add: charge_def Let_def)

lemma dispatch_threads:
  "dispatch s = (out, s') \<Longrightarrow> all_threads s' = all_threads s \<and> run_q s' = run_q s \<and>
     (\<forall>u a b. out = Dispatch u a b \<longrightarrow> current s = Member u)"
  by (auto simp: dispatch_def split: list_member.splits if_splits)

lemma unlink_threads:
  "t \<in> set (run_q s) \<Longrightarrow> all_threads (unlink_current t s) = all_threads s - {#t#}"
  by (simp add: unlink_current_def all_threads_def)

lemma add_at_threads: "all_threads (thread_add_at t a s) = add_mset t (all_threads s)"
  by (simp add: thread_add_at_def Let_def all_threads_def)

context scheduler_contract
begin

lemma switch_out:
  assumes "dispatch (schedule sched s) = (out, s')"
  shows "all_threads s' = all_threads s" and "out = Dispatch u a b \<Longrightarrow> u \<in> set (run_q s')"
proof -
  note d = dispatch_threads [OF assms]
  have "all_threads (schedule sched s) = all_threads s" using schedule_threads by (simp only: all_threads_def)
  then show "all_threads s' = all_threads s" using d by simp
  show "out = Dispatch u a b \<Longrightarrow> u \<in> set (run_q s')" using d schedule_current [of s u] by simp
qed

lemma exit_switch:
  assumes "t \<in> set (run_q s)" and "thread_exit_switch sched t s = (out, s')"
  shows "all_threads s' = all_threads s - {#t#}" and "out = Dispatch u a b \<Longrightarrow> u \<in> set (run_q s')"
  using switch_out [OF assms(2) [unfolded thread_exit_switch_def]] unlink_threads [OF assms(1)] by simp_all

lemma finish_threads:
  assumes "t \<in> set (run_q s)" and "r = finish_current sched t s \<or> r = rt_finish_current sched t s"
  shows "case r of Inl (out, s') \<Rightarrow> cycles (thrds s t) \<le> 1 \<and> all_threads s' = all_threads s - {#t#} \<and>
             (\<forall>u a b. out = Dispatch u a b \<longrightarrow> u \<in> set (run_q s'))
         | Inr s' \<Rightarrow> 1 < cycles (thrds s t) \<and> all_threads s' = all_threads s"
proof (cases r)
  case (Inl p)
  obtain out s' where p: "p = (out, s')" by (cases p)
  have "thread_exit_switch sched t (upd_thread t (\<lambda>th. th\<lparr>cycles := cycles th - 1\<rparr>) s) = (out, s')"
    using assms(2) Inl p by (auto simp: finish_current_def rt_finish_current_def Let_def split: if_splits)
  moreover have "cycles (thrds s t) \<le> 1"
    using assms(2) Inl by (auto simp: finish_current_def rt_finish_current_def Let_def split: if_splits)
  ultimately have "cycles (thrds s t) \<le> 1 \<and> all_threads s' = all_threads s - {#t#} \<and> (\<forall>u a b. out = Dispatch u a b \<longrightarrow> u \<in> set (run_q s'))"
    using assms(1) exit_switch [of t "upd_thread t (\<lambda>th. th\<lparr>cycles := cycles th - 1\<rparr>) s" out s'] by simp
  then show ?thesis using Inl p by simp
next
  case (Inr s')
  let ?s1 = "upd_thread t (\<lambda>th. th\<lparr>cycles := cycles th - 1\<rparr>) s"
  have t: "t \<in> set (run_q ?s1)" using assms(1) by simp
  have "all_threads (thread_add_at t c (unlink_current t ?s1)) = all_threads s" for c
    using unlink_threads [OF t] assms(1) by (simp add: add_at_threads) (simp add: all_threads_def)
  then show ?thesis
    using assms(2) Inr by (auto simp: finish_current_def rt_finish_current_def Let_def split: if_splits)
qed

lemma charge_queues: "run_q (charge t e s) = run_q s" "all_threads (charge t e s) = all_threads s"
  by (simp_all add: charge_def Let_def)

lemma switch_handler_threads:
  assumes t: "t \<in> set (run_q s)" "t \<notin> fst ` set (release_q s)" and sw: "switch_handler sched e t s = (out, s')"
  shows "if is_real_time (thrds s t) \<and> (threading_system_time s + e > current_deadline (thrds s t) \<or>
        threading_system_time s + e = current_deadline (thrds s t) \<and> remaining_time (thrds s t) - e > 0)
    then out = Exit ''misses a deadline in swicth'' \<and> all_threads s' = all_threads s
    else all_threads s' = (if remaining_time (thrds s t) - e \<le> 0 \<and> cycles (thrds s t) \<le> 1
             then all_threads s - {#t#} else all_threads s) \<and>
         (\<forall>u a b. out = Dispatch u a b \<longrightarrow> u \<in> set (run_q s'))"
proof -
  define s2 where "s2 = charge t e (release (s\<lparr>threading_system_time := threading_system_time s + e\<rparr>))"
  have a2: "all_threads s2 = all_threads s" and t2: "t \<in> set (run_q s2)"
    using t release_run [of t "s\<lparr>threading_system_time := threading_system_time s + e\<rparr>"]
    by (simp_all add: s2_def charge_queues release_threads) (simp add: all_threads_def)
  define th now where "th = thrds s2 t" and "now = threading_system_time s2"
  have th: "remaining_time th = remaining_time (thrds s t) - e" "is_real_time th = is_real_time (thrds s t)"
      "current_deadline th = current_deadline (thrds s t)" "cycles th = cycles (thrds s t)" "now = threading_system_time s + e"
    using t(2) by (simp_all add: th_def now_def s2_def charge_current release_other)
  define r where "r = (if remaining_time th \<le> 0 then
      if is_real_time th then rt_finish_current sched t s2 else finish_current sched t s2
    else Inr (rotate_current t s2))"
  show ?thesis
  proof (cases "is_real_time th \<and> (now > current_deadline th \<or> (now = current_deadline th \<and> remaining_time th > 0))")
    case True
    then have "s' = s2" "out = Exit ''misses a deadline in swicth''"
      using sw by (simp_all add: switch_handler_def s2_def [symmetric] th_def now_def Let_def)
    then show ?thesis using a2 True by (simp add: th)
  next
    case False
    then have sw': "(case r of Inl r \<Rightarrow> r | Inr s3 \<Rightarrow> dispatch (schedule sched (release s3))) = (out, s')"
      using sw unfolding switch_handler_def Let_def s2_def [symmetric] th_def [symmetric] now_def [symmetric] r_def [symmetric]
      by (simp only: if_False)
    have fin: "case r of Inl (out, s') \<Rightarrow> remaining_time th \<le> 0 \<and> cycles th \<le> 1 \<and> all_threads s' = all_threads s2 - {#t#} \<and>
             (\<forall>u a b. out = Dispatch u a b \<longrightarrow> u \<in> set (run_q s'))
         | Inr s' \<Rightarrow> \<not> (remaining_time th \<le> 0 \<and> cycles th \<le> 1) \<and> all_threads s' = all_threads s2"
    proof (cases "remaining_time th \<le> 0")
      case True
      then have "r = finish_current sched t s2 \<or> r = rt_finish_current sched t s2" by (simp add: r_def)
      from finish_threads [OF t2 this] True show ?thesis by (auto simp: th_def split: sum.splits)
    next
      case False
      have "all_threads (rotate_current t s2) = all_threads s2"
        using unlink_threads [OF t2] t2 by (simp add: rotate_current_def Let_def all_threads_def unlink_current_def)
      with False show ?thesis by (simp add: r_def)
    qed
    have "all_threads s' = (if remaining_time th \<le> 0 \<and> cycles th \<le> 1 then all_threads s - {#t#} else all_threads s) \<and>
         (\<forall>u a b. out = Dispatch u a b \<longrightarrow> u \<in> set (run_q s'))"
    proof (cases r)
      case (Inl p)
      then show ?thesis using sw' fin a2 by (cases p) auto
    next
      case (Inr s3)
      then have "dispatch (schedule sched (release s3)) = (out, s')" using sw' by simp
      from switch_out [OF this] show ?thesis using fin a2 Inr by (auto simp: release_threads)
    qed
    then show ?thesis using False unfolding th by (simp only: if_False) blast
  qed
qed

end

section \<open>The four policies are schedulers\<close>

definition default_sched :: scheduler where
  "default_sched th args = (schedule_default th args, run_queue args, release_queue args)"

definition hrrn_sched :: scheduler where
  "hrrn_sched th args = (schedule_hrrn th args, run_queue args, release_queue args)"

definition priority_rr_sched :: scheduler where
  "priority_rr_sched th args = (let (r, q) = schedule_priority_rr th args in (r, q, release_queue args))"

interpretation default_threads: scheduler_contract default_sched
proof
  fix th args r q rel t
  assume e: "default_sched th args = (r, q, rel)"
  then show "mset q + mset (map fst rel) = mset (run_queue args) + mset (map fst (release_queue args))"
    by (simp add: default_sched_def)
  assume "scheduled_thread_list_member r = Member t"
  then show "t \<in> set q"
    using e default_policy.select_best(1) [of th "run_queue args"]
    by (auto simp: default_sched_def schedule_default_def split: option.splits)
qed

interpretation hrrn_threads: scheduler_contract hrrn_sched
proof
  fix th args r q rel t
  assume e: "hrrn_sched th args = (r, q, rel)"
  then show "mset q + mset (map fst rel) = mset (run_queue args) + mset (map fst (release_queue args))"
    by (simp add: hrrn_sched_def)
  assume "scheduled_thread_list_member r = Member t"
  then show "t \<in> set q"
    using e select_from_member [of "hrrn_eligible th" "hrrn_better th (current_time args)" "run_queue args" None]
    by (auto simp: hrrn_sched_def schedule_hrrn_def split: option.splits)
qed

interpretation priority_rr_threads: scheduler_contract priority_rr_sched
proof
  fix th args r q rel t
  assume e: "priority_rr_sched th args = (r, q, rel)"
  then have r: "schedule_priority_rr th args = (r, q)" "rel = release_queue args"
    by (auto simp: priority_rr_sched_def split: prod.splits)
  then show "mset q + mset (map fst rel) = mset (run_queue args) + mset (map fst (release_queue args))"
    using find_SomeD [of _ "run_queue args"]
    by (fastforce simp: schedule_priority_rr_def split: prod.splits option.splits if_splits)
  assume "scheduled_thread_list_member r = Member t"
  then show "t \<in> set q"
    using r find_SomeD [of _ "run_queue args"]
    by (fastforce simp: schedule_priority_rr_def split: prod.splits option.splits if_splits)
qed

interpretation dm_threads: scheduler_contract schedule_dm
proof
  fix th args r q rel t
  assume e: "schedule_dm th args = (r, q, rel)"
  let ?now = "current_time args"
  let ?q = "run_queue args @ map fst (filter (\<lambda>e. snd e \<le> ?now) (release_queue args))"
  let ?rel = "filter (\<lambda>e. \<not> snd e \<le> ?now) (release_queue args)"
  have qr: "q = ?q" "rel = ?rel"
    using e by (cases rule: schedule_dm_cases [of th args]; simp)+
  have "mset (filter (\<lambda>e. snd e \<le> ?now) xs) + mset (filter (\<lambda>e. \<not> snd e \<le> ?now) xs) = mset xs" for xs :: "(nat \<times> int) list"
    by (induction xs) auto
  then have "image_mset fst (mset (filter (\<lambda>e. snd e \<le> ?now) (release_queue args))) +
      image_mset fst (mset (filter (\<lambda>e. \<not> snd e \<le> ?now) (release_queue args))) =
      image_mset fst (mset (release_queue args))"
    by (metis image_mset_union)
  then show "mset q + mset (map fst rel) = mset (run_queue args) + mset (map fst (release_queue args))"
    by (simp add: qr del: mset_filter)
  assume m: "scheduled_thread_list_member r = Member t"
  show "t \<in> set q"
  proof (cases rule: schedule_dm_cases [of th args])
    case (missed u)
    then show ?thesis using e m miss_policy.select_best(1) [OF missed(1) [unfolded check_deadline_miss_def]] by simp
  next
    case (run u)
    then show ?thesis using e m dm_policy.select_best(1) [OF run(2)] by simp
  qed (use e m in simp_all)
qed

text \<open>C29: Under each of the four policies a time slice never loses or duplicates a thread. If the interrupted thread has missed its deadline
  the program exits. Otherwise every thread is still in exactly one of the two queues after the switch, the interrupted one included, unless its
  time for this period is used up and the period was its last: then it, and nothing else, is gone. The thread that runs next is in
  the run queue.\<close>

theorem switch_conserves_threads:
  assumes "sched \<in> {default_sched, hrrn_sched, priority_rr_sched, schedule_dm}"
    and "t \<in> set (run_q s)" and "t \<notin> fst ` set (release_q s)" and "switch_handler sched e t s = (out, s')"
  shows "if is_real_time (thrds s t) \<and> (threading_system_time s + e > current_deadline (thrds s t) \<or>
        threading_system_time s + e = current_deadline (thrds s t) \<and> remaining_time (thrds s t) - e > 0)
    then out = Exit ''misses a deadline in swicth'' \<and> all_threads s' = all_threads s
    else all_threads s' = (if remaining_time (thrds s t) - e \<le> 0 \<and> cycles (thrds s t) \<le> 1
             then all_threads s - {#t#} else all_threads s) \<and>
         (\<forall>u a b. out = Dispatch u a b \<longrightarrow> u \<in> set (run_q s'))"
  using assms(1,4) default_threads.switch_handler_threads [OF assms(2,3), of e out s']
    hrrn_threads.switch_handler_threads [OF assms(2,3), of e out s']
    priority_rr_threads.switch_handler_threads [OF assms(2,3), of e out s']
    dm_threads.switch_handler_threads [OF assms(2,3), of e out s'] by blast

text \<open>Thread 1 is preempted after one tick of three: it stays.\<close>

theorem switch_conserves_threads_witness:
  "\<exists>(s :: threads) out s'. switch_handler schedule_dm 1 1 s = (out, s') \<and> all_threads s = {#1, 2, 3#} \<and>
    all_threads s' = {#1, 2, 3#} \<and> (\<forall>u a b. out = Dispatch u a b \<longrightarrow> u \<in> set (run_q s'))"
proof -
  let ?s = "\<lparr>thrds = (\<lambda>t. sample_thread (int t)), run_q = [1, 2], release_q = [(3, 9)], current = Member 1,
     threading_system_time = 1, allocated = 2, next_id = 4\<rparr> :: threads"
  obtain out s' where s: "switch_handler schedule_dm 1 1 ?s = (out, s')" by fastforce
  have q: "1 \<in> set (run_q ?s)" "1 \<notin> fst ` set (release_q ?s)" and a: "all_threads ?s = {#1, 2, 3#}" by (simp_all add: all_threads_def)
  have "all_threads s' = all_threads ?s \<and> (\<forall>u a b. out = Dispatch u a b \<longrightarrow> u \<in> set (run_q s'))"
    using switch_conserves_threads [OF _ q s] by (simp add: sample_thread_def)
  then show ?thesis using a s by metis
qed

end
