(* ===== verification/Thrd.thy ===== *)
theory Thrd
  imports Prelude
begin

text \<open>
  The kernel's support for user-level threads (mp3/xv6/kernel/thrd.c, and the hooks in the timer
  interrupt and in \<open>usertrapret\<close> of mp3/xv6/kernel/trap.c). \<open>copyin\<close> and \<open>copyout\<close> of the
  context id are the parameters \<open>user_id\<close> (\<open>None\<close>: the read fails) and \<open>can_write\<close>. Writing
  outside the 16 saved contexts is undefined in C and a fault here.
\<close>

section \<open>State\<close>

definition MAX_THRD_NUM :: nat where "MAX_THRD_NUM = 16"

text \<open>\<open>regs i\<close> is register \<open>x\<close>i; \<open>a0\<close> is \<open>x10\<close>.\<close>

record trapframe =
  kernel_satp :: u64
  kernel_sp :: u64
  kernel_trap :: u64
  epc :: u64
  kernel_hartid :: u64
  regs :: "nat \<Rightarrow> u64"

definition a0 :: nat where "a0 = 10"

record thrd_proc =
  thrdstop_ticks :: int
  thrdstop_delay :: int
  thrdstop_id :: int
  thrdstop_handler_arg :: u64
  thrdstop_handler_pointer :: u64
  thrdstop_context :: "trapframe list"
  thrdstop_context_used :: "bool list"
  jump_flag :: bool
  resume_flag :: int
  cancel_save_flag :: int
  trapframe :: trapframe

section \<open>System calls\<close>

text \<open>The part of \<open>allocproc\<close> that concerns threads.\<close>

definition thrd_init :: "thrd_proc \<Rightarrow> thrd_proc" where
  "thrd_init p = p\<lparr>thrdstop_ticks := 0, thrdstop_delay := -1, jump_flag := False, resume_flag := -1,
     cancel_save_flag := -1, thrdstop_context_used := replicate MAX_THRD_NUM False\<rparr>"

definition free_context :: "bool list \<Rightarrow> nat option" where
  "free_context used = List.find (\<lambda>i. \<not> used ! i) [0..<MAX_THRD_NUM]"

text \<open>The result is the return value, the id written to user memory (if any), and the process.\<close>

definition sys_thrdstop ::
    "int \<Rightarrow> int option \<Rightarrow> bool \<Rightarrow> u64 \<Rightarrow> u64 \<Rightarrow> thrd_proc \<Rightarrow> int \<times> int option \<times> thrd_proc" where
  "sys_thrdstop delay user_id can_write handler handler_arg p =
     (case user_id of
        None \<Rightarrow> (-1, None, p)
      | Some context_id \<Rightarrow>
          let (id1, p1) =
                (if context_id < 0 then
                   (case free_context (thrdstop_context_used p) of
                      Some i \<Rightarrow> (int i, p\<lparr>thrdstop_context_used := (thrdstop_context_used p)[i := True]\<rparr>)
                    | None \<Rightarrow> (context_id, p))
                 else (context_id, p))
          in if id1 < 0 then (-1, None, p1)
             else if \<not> can_write then (-1, None, p1)
             else (0, Some id1, p1\<lparr>thrdstop_id := id1, thrdstop_delay := delay,
                     thrdstop_handler_pointer := handler, thrdstop_ticks := 0,
                     thrdstop_handler_arg := handler_arg\<rparr>))"

definition sys_cancelthrdstop :: "int \<Rightarrow> int \<Rightarrow> thrd_proc \<Rightarrow> int \<times> thrd_proc" where
  "sys_cancelthrdstop context_id is_exit p =
     (if context_id < 0 \<or> context_id \<ge> int MAX_THRD_NUM then (-1, p)
      else
        let consume_tick = thrdstop_ticks p;
            p1 = p\<lparr>thrdstop_delay := -1\<rparr>
        in (consume_tick,
            if is_exit = 0 then p1\<lparr>cancel_save_flag := context_id\<rparr>
            else if context_id \<ge> 0 \<and> context_id < int MAX_THRD_NUM
            then p1\<lparr>thrdstop_context_used := (thrdstop_context_used p1)[nat context_id := False]\<rparr>
            else p1))"

definition sys_thrdresume :: "int \<Rightarrow> thrd_proc \<Rightarrow> int \<times> thrd_proc" where
  "sys_thrdresume context_id p =
     (if context_id < 0 \<or> context_id \<ge> int MAX_THRD_NUM then (-1, p)
      else (0, p\<lparr>resume_flag := context_id\<rparr>))"

section \<open>The hooks in the trap path\<close>

definition timer_tick :: "thrd_proc \<Rightarrow> thrd_proc" where
  "timer_tick p =
     (if thrdstop_delay p > 0 then
        let p1 = p\<lparr>thrdstop_ticks := thrdstop_ticks p + 1\<rparr>
        in if thrdstop_ticks p1 \<ge> thrdstop_delay p1 then p1\<lparr>thrdstop_delay := -1, jump_flag := True\<rparr> else p1
      else p)"

definition save_context :: "int \<Rightarrow> thrd_proc \<Rightarrow> thrd_proc res" where
  "save_context c p =
     (if 0 \<le> c \<and> c < int MAX_THRD_NUM
      then Inr (p\<lparr>thrdstop_context := (thrdstop_context p)[nat c := trapframe p]\<rparr>)
      else Inl (Panic ''thrdstop_context: index out of bounds''))"

definition load_context :: "int \<Rightarrow> thrd_proc \<Rightarrow> thrd_proc res" where
  "load_context c p =
     (if 0 \<le> c \<and> c < int MAX_THRD_NUM
      then Inr (p\<lparr>trapframe := thrdstop_context p ! nat c\<rparr>)
      else Inl (Panic ''thrdstop_context: index out of bounds''))"

text \<open>\<open>k\<close> holds the four kernel values \<open>usertrapret\<close> stores before it returns to user space.\<close>

definition usertrapret :: "u64 \<times> u64 \<times> u64 \<times> u64 \<Rightarrow> thrd_proc \<Rightarrow> thrd_proc res" where
  "usertrapret k p =
     rbind
       (if resume_flag p \<noteq> -1 then
          rbind (load_context (resume_flag p) p) (\<lambda>p1. Inr (p1\<lparr>resume_flag := -1\<rparr>))
        else if jump_flag p then
          rbind (save_context (thrdstop_id p) p) (\<lambda>p1.
            let p2 = p1\<lparr>jump_flag := False\<rparr>;
                tf = trapframe p2
            in Inr (p2\<lparr>trapframe := tf\<lparr>epc := thrdstop_handler_pointer p2,
                                       regs := (regs tf)(a0 := thrdstop_handler_arg p2)\<rparr>\<rparr>))
        else if cancel_save_flag p \<noteq> -1 then
          rbind (save_context (cancel_save_flag p) p) (\<lambda>p1. Inr (p1\<lparr>cancel_save_flag := -1\<rparr>))
        else Inr p)
       (\<lambda>p3. case k of (satp, sp, trap, hart) \<Rightarrow>
          Inr (p3\<lparr>trapframe := (trapframe p3)\<lparr>kernel_satp := satp, kernel_sp := sp,
                    kernel_trap := trap, kernel_hartid := hart\<rparr>\<rparr>))"

section \<open>Properties\<close>

lemma timer_tick_jump: "jump_flag p \<Longrightarrow> jump_flag (timer_tick p)"
  by (simp add: timer_tick_def Let_def)

lemma ticks_before:
  assumes "0 < d" and "thrdstop_delay p = d" and "thrdstop_ticks p = 0" and "\<not> jump_flag p"
  shows "int k < d \<Longrightarrow> (timer_tick ^^ k) p = p\<lparr>thrdstop_ticks := int k\<rparr>"
proof (induction k)
  case 0
  then show ?case using assms by simp
next
  case (Suc k)
  then show ?case using assms by (simp add: timer_tick_def)
qed

text \<open>C35: The alarm fires exactly at the requested tick. After \<open>thrdstop\<close> with a positive delay the
  jump is pending after \<open>k\<close> timer ticks if and only if \<open>k\<close> has reached the delay, and a
  cancellation before that reports exactly the ticks consumed.\<close>

theorem thrdstop_fires_on_time:
  assumes "sys_thrdstop d user_id can_write handler arg p = (0, Some c, q)" and "0 < d" and "\<not> jump_flag p"
  shows "(jump_flag ((timer_tick ^^ k) q) \<longleftrightarrow> d \<le> int k) \<and>
    (int k < d \<longrightarrow> 0 \<le> c' \<longrightarrow> c' < int MAX_THRD_NUM \<longrightarrow>
       fst (sys_cancelthrdstop c' e ((timer_tick ^^ k) q)) = int k)"
proof -
  have q: "thrdstop_delay q = d" "thrdstop_ticks q = 0" "\<not> jump_flag q"
    using assms(1,3) by (auto simp: sys_thrdstop_def Let_def split: option.splits if_splits)
  note before = ticks_before [OF assms(2) q]
  have "jump_flag ((timer_tick ^^ k) q)" if "d \<le> int k"
    using that
  proof (induction k)
    case 0
    then show ?case using assms(2) by simp
  next
    case (Suc k)
    show ?case
    proof (cases "d \<le> int k")
      case True
      with Suc.IH show ?thesis by (simp add: timer_tick_jump)
    next
      case False
      then have "(timer_tick ^^ k) q = q\<lparr>thrdstop_ticks := int k\<rparr>" using before by simp
      moreover have "int k + 1 = d" using False Suc.prems by simp
      moreover have "jump_flag (timer_tick (q\<lparr>thrdstop_ticks := int k\<rparr>))"
        using calculation(2) q(1) assms(2) by (simp add: timer_tick_def)
      ultimately show ?thesis by simp
    qed
  qed
  moreover have "\<not> jump_flag ((timer_tick ^^ k) q)" if "int k < d"
    using before [OF that] q(3) by simp
  moreover have "fst (sys_cancelthrdstop c' e ((timer_tick ^^ k) q)) = int k"
    if "int k < d" "0 \<le> c'" "c' < int MAX_THRD_NUM"
    using before [OF that(1)] that(2,3) by (simp add: sys_cancelthrdstop_def Let_def)
  ultimately show ?thesis by (meson not_le)
qed

text \<open>A thread interrupted by its alarm continues where it was: the jump to the handler saves
  program counter and registers, and a later \<open>thrdresume\<close> of that context restores them.\<close>

theorem jump_then_resume:
  assumes j: "jump_flag p" "resume_flag p = -1" and c: "thrdstop_id p = int c" "c < MAX_THRD_NUM"
    and len: "length (thrdstop_context p) = MAX_THRD_NUM"
    and u: "usertrapret k p = Inr p1"
    and keep: "thrdstop_context q ! c = thrdstop_context p1 ! c"
    and r: "sys_thrdresume (int c) q = (0, q1)" "usertrapret k' q1 = Inr q2"
  shows "epc (trapframe p1) = thrdstop_handler_pointer p \<and>
    regs (trapframe p1) a0 = thrdstop_handler_arg p \<and> \<not> jump_flag p1 \<and>
    epc (trapframe q2) = epc (trapframe p) \<and> regs (trapframe q2) = regs (trapframe p)"
proof -
  have p1: "thrdstop_context p1 ! c = trapframe p" "epc (trapframe p1) = thrdstop_handler_pointer p"
    "regs (trapframe p1) a0 = thrdstop_handler_arg p" "\<not> jump_flag p1"
    using u j c len by (auto simp: usertrapret_def save_context_def Let_def split: prod.splits)
  obtain k1 k2 k3 k4 where k': "k' = (k1, k2, k3, k4)" by (cases k')
  have "trapframe q2 = (trapframe p)\<lparr>kernel_satp := fst k', kernel_sp := fst (snd k'),
      kernel_trap := fst (snd (snd k')), kernel_hartid := snd (snd (snd k'))\<rparr>"
    using r c(2) keep p1(1) by (auto simp: sys_thrdresume_def usertrapret_def load_context_def k')
  with p1 show ?thesis by simp
qed

text \<open>A negative id is replaced by the least unused context, which is then taken; ids are handed
  out again only after a cancellation with the exit flag.\<close>

theorem thrdstop_fresh_context:
  assumes "length (thrdstop_context_used p) = MAX_THRD_NUM" and "id0 < 0"
    and "sys_thrdstop d (Some id0) can_write h a p = (r, w, q)"
  shows "if r = 0 then \<exists>i. w = Some (int i) \<and> i < MAX_THRD_NUM \<and> \<not> thrdstop_context_used p ! i \<and>
           (\<forall>j<i. thrdstop_context_used p ! j) \<and>
           thrdstop_context_used q = (thrdstop_context_used p)[i := True]
         else w = None \<and> (\<not> can_write \<or> (\<forall>j<MAX_THRD_NUM. thrdstop_context_used p ! j))"
proof (cases "free_context (thrdstop_context_used p)")
  case None
  then have "\<forall>j<MAX_THRD_NUM. thrdstop_context_used p ! j" by (simp add: free_context_def find_upt_None)
  moreover have "r = -1" "w = None" using assms None by (simp_all add: sys_thrdstop_def)
  ultimately show ?thesis by simp
next
  case (Some i)
  then have i: "i < MAX_THRD_NUM" "\<not> thrdstop_context_used p ! i" "\<forall>j<i. thrdstop_context_used p ! j"
    by (auto simp: free_context_def find_upt_Some)
  show ?thesis using assms Some i by (auto simp: sys_thrdstop_def split: if_splits)
qed

text \<open>\<open>thrdstop\<close> does not check an id it is given: an id of 16 or more is accepted, and when the
  alarm goes off the trap path stores the trapframe outside \<open>thrdstop_context\<close>.\<close>

theorem thrdstop_unchecked_id:
  assumes "int MAX_THRD_NUM \<le> c" and "resume_flag p = -1"
  shows "\<exists>q. sys_thrdstop 1 (Some c) True h a p = (0, Some c, q) \<and>
    usertrapret k (timer_tick q) = Inl (Panic ''thrdstop_context: index out of bounds'')"
  using assms
  by (auto simp: sys_thrdstop_def timer_tick_def usertrapret_def save_context_def rbind_def MAX_THRD_NUM_def
      split: prod.splits)

section \<open>A process with an alarm\<close>

definition alarm_proc :: thrd_proc where
  "alarm_proc = (let tf = \<lparr>kernel_satp = 0, kernel_sp = 0, kernel_trap = 0, epc = 42, kernel_hartid = 0, regs = (\<lambda>i. of_nat i)\<rparr>
     in \<lparr>thrdstop_ticks = 0, thrdstop_delay = -1, thrdstop_id = 3, thrdstop_handler_arg = 5, thrdstop_handler_pointer = 1000,
         thrdstop_context = replicate 16 (tf\<lparr>epc := 0\<rparr>), thrdstop_context_used = replicate 16 False, jump_flag = False,
         resume_flag = -1, cancel_save_flag = -1, trapframe = tf\<rparr>)"

theorem thrdstop_fires_on_time_witness:
  "\<exists>c q. sys_thrdstop 3 (Some (-1)) True 1000 5 alarm_proc = (0, Some c, q) \<and>
     \<not> jump_flag ((timer_tick ^^ 2) q) \<and> jump_flag ((timer_tick ^^ 3) q)"
proof -
  obtain c q where s: "sys_thrdstop 3 (Some (-1)) True 1000 5 alarm_proc = (0, Some c, q)"
    by (simp add: sys_thrdstop_def free_context_def alarm_proc_def Let_def MAX_THRD_NUM_def upt_rec)
  have j: "\<not> jump_flag alarm_proc" by (simp add: alarm_proc_def Let_def)
  have "jump_flag ((timer_tick ^^ 2) q) \<longleftrightarrow> 3 \<le> int 2" "jump_flag ((timer_tick ^^ 3) q) \<longleftrightarrow> 3 \<le> int 3"
    using thrdstop_fires_on_time [OF s _ j] by simp_all
  with s show ?thesis by simp
qed

theorem jump_then_resume_witness:
  "\<exists>p1 q1 q2. usertrapret (1, 2, 3, 4) (alarm_proc\<lparr>jump_flag := True\<rparr>) = Inr p1 \<and> epc (trapframe p1) = 1000 \<and>
     sys_thrdresume (int 3) p1 = (0, q1) \<and> usertrapret (1, 2, 3, 4) q1 = Inr q2 \<and> epc (trapframe q2) = 42"
proof -
  let ?p = "alarm_proc\<lparr>jump_flag := True\<rparr>"
  obtain p1 where u: "usertrapret (1, 2, 3, 4) ?p = Inr p1"
    by (simp add: usertrapret_def save_context_def alarm_proc_def Let_def MAX_THRD_NUM_def)
  obtain q1 where r: "sys_thrdresume (int 3) p1 = (0, q1)" and q1: "resume_flag q1 = 3"
    by (simp add: sys_thrdresume_def MAX_THRD_NUM_def)
  obtain q2 where u2: "usertrapret (1, 2, 3, 4) q1 = Inr q2"
    using q1 by (simp add: usertrapret_def load_context_def MAX_THRD_NUM_def Let_def)
  have "epc (trapframe p1) = thrdstop_handler_pointer ?p \<and> regs (trapframe p1) a0 = thrdstop_handler_arg ?p \<and>
    \<not> jump_flag p1 \<and> epc (trapframe q2) = epc (trapframe ?p) \<and> regs (trapframe q2) = regs (trapframe ?p)"
    by (rule jump_then_resume [OF _ _ _ _ _ u _ r u2]) (simp_all add: alarm_proc_def Let_def MAX_THRD_NUM_def)
  moreover have "thrdstop_handler_pointer ?p = 1000" "epc (trapframe ?p) = 42" by (simp_all add: alarm_proc_def Let_def)
  ultimately show ?thesis using u r u2 by auto
qed

theorem thrdstop_fresh_context_witness:
  "\<exists>r w q. sys_thrdstop 3 (Some (-1)) True 1000 5 alarm_proc = (r, w, q) \<and>
     (if r = 0 then \<exists>i. w = Some (int i) \<and> i < MAX_THRD_NUM \<and>
           thrdstop_context_used q = (thrdstop_context_used alarm_proc)[i := True] else w = None)"
proof -
  obtain r w q where s: "sys_thrdstop 3 (Some (-1)) True 1000 5 alarm_proc = (r, w, q)" by (metis prod_cases3)
  have "length (thrdstop_context_used alarm_proc) = MAX_THRD_NUM"
    by (simp add: alarm_proc_def Let_def MAX_THRD_NUM_def)
  from thrdstop_fresh_context [OF this _ s] s show ?thesis by (auto split: if_splits)
qed

theorem thrdstop_unchecked_id_witness:
  "\<exists>q. sys_thrdstop 1 (Some 20) True 1000 5 alarm_proc = (0, Some 20, q) \<and>
    usertrapret (1, 2, 3, 4) (timer_tick q) = Inl (Panic ''thrdstop_context: index out of bounds'')"
  by (rule thrdstop_unchecked_id) (simp_all add: alarm_proc_def Let_def MAX_THRD_NUM_def)

end
