(* ===== verification/Threads1.thy ===== *)
theory Threads1
  imports Prelude
begin

text \<open>
  The user-level threads of mp1 (mp1/r13922165/threads.c): a circular list of threads that run until
  they yield, with signals, suspension and resumption. A thread is the address of its
  \<open>struct thread\<close>. A \<open>jmp_buf\<close> is the stack pointer and the point \<open>setjmp\<close> was called at; an
  operation that ends in a \<open>longjmp\<close> or a call of user code returns the \<open>control\<close> that gets the
  processor. \<open>None\<close> is a loop that never ends.
\<close>

section \<open>State\<close>

text \<open>Where \<open>setjmp\<close> was called: in \<open>dispatch\<close> before the thread's function or a handler, or in
  \<open>thread_yield\<close>, called from place \<open>k\<close> of the thread's code.\<close>

datatype point = Unset | AtFn | AtHandler | AtYield nat

record jmp_buf =
  jsp :: nat
  jpoint :: point

record uthread =
  tfp :: int
  targ :: nat
  tstack :: nat
  tstack_p :: nat
  tenv :: jmp_buf
  tbuf_set :: bool
  tID :: int
  tprevious :: nat
  tnext :: nat
  tsig_handler :: "int \<Rightarrow> int"
  tsigno :: int
  tsuspended :: bool
  thandler_env :: jmp_buf
  thandler_buf_set :: bool

text \<open>\<open>released\<close> collects what has been passed to \<open>free\<close>.\<close>

record mp1_state =
  uthr :: "nat \<Rightarrow> uthread"
  current_thread :: nat
  thread_id :: int
  released :: "nat set"

datatype control =
    CallFn nat nat \<comment> \<open>thread and stack pointer: its function is called with its argument\<close>
  | CallHandler nat int int nat \<comment> \<open>thread, handler, signal number, stack pointer\<close>
  | Yielded nat nat nat \<comment> \<open>\<open>thread_yield\<close> returns in the thread at this place and stack pointer\<close>
  | Wild nat \<comment> \<open>\<open>longjmp\<close> to a buffer that was never set, or into a call of \<open>dispatch\<close> that is over\<close>
  | MainReturn

definition NULL_FUNC :: int where "NULL_FUNC = -1"

definition upd_uthr :: "nat \<Rightarrow> (uthread \<Rightarrow> uthread) \<Rightarrow> mp1_state \<Rightarrow> mp1_state" where
  "upd_uthr t f s = s\<lparr>uthr := (uthr s)(t := f (uthr s t))\<rparr>"

abbreviation cur :: "mp1_state \<Rightarrow> uthread" where
  "cur s \<equiv> uthr s (current_thread s)"

section \<open>Creating threads\<close>

text \<open>\<open>p\<close> and \<open>stk\<close> are what the two calls of \<open>malloc\<close> returned; the stack has 0x100 words of 8 bytes.\<close>

definition thread_create_mp1 :: "int \<Rightarrow> nat \<Rightarrow> nat \<Rightarrow> nat \<Rightarrow> mp1_state \<Rightarrow> nat \<times> mp1_state" where
  "thread_create_mp1 f a p stk s =
     (p, (upd_uthr p (\<lambda>t. t\<lparr>tfp := f, targ := a, tID := thread_id s, tbuf_set := False, tstack := stk,
        tstack_p := stk + 0x100 * 8 - 2 * 8, tsuspended := False, tsig_handler := (tsig_handler t)(0 := NULL_FUNC, 1 := NULL_FUNC),
        tsigno := -1, thandler_buf_set := False\<rparr>) s)\<lparr>thread_id := thread_id s + 1\<rparr>)"

text \<open>A new thread inherits the handlers of the running one.\<close>

definition thread_add_runqueue_mp1 :: "nat \<Rightarrow> mp1_state \<Rightarrow> mp1_state" where
  "thread_add_runqueue_mp1 t s =
     (if current_thread s = 0 then upd_uthr t (\<lambda>x. x\<lparr>tnext := t, tprevious := t\<rparr>) (s\<lparr>current_thread := t\<rparr>)
      else
        let c = current_thread s;
            s1 = upd_uthr t (\<lambda>x. x\<lparr>tsig_handler := (tsig_handler x)
                   (0 := tsig_handler (uthr s c) 0, 1 := tsig_handler (uthr s c) 1)\<rparr>) s;
            s2 = upd_uthr t (\<lambda>x. x\<lparr>tprevious := tprevious (uthr s1 c), tnext := c\<rparr>) s1;
            s3 = upd_uthr (tprevious (uthr s2 c)) (\<lambda>x. x\<lparr>tnext := t\<rparr>) s2
        in upd_uthr c (\<lambda>x. x\<lparr>tprevious := t\<rparr>) s3)"

section \<open>Switching\<close>

text \<open>\<open>longjmp(buf, 1)\<close> for a buffer of the running thread, set in an earlier call. The code behind the \<open>setjmp\<close> of a handler calls
  \<open>handler\<close>, a local variable of the call of \<open>dispatch\<close> that was left when that handler returned: such a jump has no defined meaning. The code
  behind the other two reads \<open>current_thread\<close> only.\<close>

definition longjmp_to :: "jmp_buf \<Rightarrow> mp1_state \<Rightarrow> control" where
  "longjmp_to b s =
     (case jpoint b of
        Unset \<Rightarrow> Wild (current_thread s)
      | AtFn \<Rightarrow> CallFn (current_thread s) (jsp b)
      | AtHandler \<Rightarrow> Wild (current_thread s)
      | AtYield k \<Rightarrow> Yielded (current_thread s) k (jsp b))"

text \<open>The second half of \<open>dispatch\<close>: run or resume the thread's function.\<close>

definition dispatch_fn :: "mp1_state \<Rightarrow> control \<times> mp1_state" where
  "dispatch_fn s =
     (if tbuf_set (cur s) then (longjmp_to (tenv (cur s)) s, s)
      else
        let s1 = upd_uthr (current_thread s)
                   (\<lambda>t. t\<lparr>tbuf_set := True, tenv := \<lparr>jsp = tstack_p t, jpoint = AtFn\<rparr>\<rparr>) s
        in (longjmp_to (tenv (cur s1)) s1, s1))"

text \<open>The first half, when a signal has come and there is a handler for it. The first time, the jump is to the \<open>setjmp\<close> just passed, in the same
  call, so the local variable \<open>handler\<close> is still \<open>h\<close>.\<close>

definition dispatch_handler :: "int \<Rightarrow> mp1_state \<Rightarrow> control \<times> mp1_state" where
  "dispatch_handler h s =
     (if \<not> thandler_buf_set (cur s) then
        let s1 = upd_uthr (current_thread s) (\<lambda>t. t\<lparr>thandler_buf_set := True,
                   thandler_env := \<lparr>jsp = tstack_p t, jpoint = AtHandler\<rparr>\<rparr>) s
        in (CallHandler (current_thread s1) h (tsigno (cur s1)) (jsp (thandler_env (cur s1))), s1)
      else (longjmp_to (thandler_env (cur s)) s, s))"

text \<open>\<open>thread_exit\<close> up to its call of \<open>dispatch\<close>; \<open>None\<close> in the first component: it jumps to \<open>env_st\<close>.\<close>

definition thread_leave :: "mp1_state \<Rightarrow> bool \<times> mp1_state" where
  "thread_leave s =
     (let c = current_thread s; t = uthr s c in
      if tnext t \<noteq> c then
        let prev = tprevious t; nxt = tnext t;
            s1 = upd_uthr nxt (\<lambda>x. x\<lparr>tprevious := prev\<rparr>) (upd_uthr prev (\<lambda>x. x\<lparr>tnext := nxt\<rparr>) s)
        in (True, s1\<lparr>current_thread := nxt, released := released s \<union> {tstack (uthr s1 c), c}\<rparr>)
      else (False, s\<lparr>released := released s \<union> {tstack t, c}\<rparr>))"

partial_function (option) dispatch_mp1 :: "mp1_state \<Rightarrow> (control \<times> mp1_state) option" where
  [code]: "dispatch_mp1 s =
     (if tsigno (cur s) \<noteq> -1 then
        let h = tsig_handler (cur s) (tsigno (cur s)) in
        if h \<noteq> NULL_FUNC then Some (dispatch_handler h s)
        else (case thread_leave s of (others, s1) \<Rightarrow> if others then dispatch_mp1 s1 else Some (MainReturn, s1))
      else Some (dispatch_fn s))"

definition thread_exit_mp1 :: "mp1_state \<Rightarrow> (control \<times> mp1_state) option" where
  "thread_exit_mp1 s = (case thread_leave s of (others, s1) \<Rightarrow> if others then dispatch_mp1 s1 else Some (MainReturn, s1))"

text \<open>The handler returned: \<open>signo = -1\<close> and \<open>longjmp(env_tmp, 1)\<close>, which goes on with the second half.\<close>

definition handler_returned :: "mp1_state \<Rightarrow> control \<times> mp1_state" where
  "handler_returned s = dispatch_fn (upd_uthr (current_thread s) (\<lambda>t. t\<lparr>tsigno := -1\<rparr>) s)"

partial_function (option) skip_suspended :: "mp1_state \<Rightarrow> mp1_state option" where
  [code]: "skip_suspended s = (if tsuspended (cur s) then skip_suspended (s\<lparr>current_thread := tnext (cur s)\<rparr>) else Some s)"

definition schedule_mp1 :: "mp1_state \<Rightarrow> mp1_state option" where
  "schedule_mp1 s = skip_suspended (s\<lparr>current_thread := tnext (cur s)\<rparr>)"

text \<open>\<open>thread_yield\<close> called from place \<open>k\<close> with stack pointer \<open>sp\<close>.\<close>

definition thread_yield_mp1 :: "nat \<Rightarrow> nat \<Rightarrow> mp1_state \<Rightarrow> (control \<times> mp1_state) option" where
  "thread_yield_mp1 k sp s =
     (let b = \<lparr>jsp = sp, jpoint = AtYield k\<rparr>;
          s1 = (if tsigno (cur s) \<noteq> -1 then upd_uthr (current_thread s) (\<lambda>t. t\<lparr>thandler_env := b\<rparr>) s
                else upd_uthr (current_thread s) (\<lambda>t. t\<lparr>tenv := b\<rparr>) s)
      in Option.bind (schedule_mp1 s1) dispatch_mp1)"

definition thread_start_threading_mp1 :: "mp1_state \<Rightarrow> (control \<times> mp1_state) option" where
  "thread_start_threading_mp1 s = dispatch_mp1 s"

section \<open>Signals and suspension\<close>

definition thread_register_handler :: "int \<Rightarrow> int \<Rightarrow> mp1_state \<Rightarrow> mp1_state" where
  "thread_register_handler signo h s =
     upd_uthr (current_thread s) (\<lambda>t. t\<lparr>tsig_handler := (tsig_handler t)(signo := h)\<rparr>) s"

definition thread_kill :: "nat \<Rightarrow> int \<Rightarrow> mp1_state \<Rightarrow> mp1_state" where
  "thread_kill t signo s = (if t \<noteq> 0 then upd_uthr t (\<lambda>x. x\<lparr>tsigno := signo\<rparr>) s else s)"

text \<open>The result is \<open>Inl s\<close> when the caller goes on, \<open>Inr\<close> what \<open>thread_yield\<close> does otherwise.\<close>

definition thread_suspend :: "nat \<Rightarrow> nat \<Rightarrow> nat \<Rightarrow> mp1_state \<Rightarrow> mp1_state + (control \<times> mp1_state) option" where
  "thread_suspend t k sp s =
     (if t \<noteq> 0 then
        let s1 = upd_uthr t (\<lambda>x. x\<lparr>tsuspended := True\<rparr>) s
        in if t = current_thread s1 then Inr (thread_yield_mp1 k sp s1) else Inl s1
      else Inl s)"

definition thread_resume :: "nat \<Rightarrow> mp1_state \<Rightarrow> mp1_state" where
  "thread_resume t s = (if t \<noteq> 0 then upd_uthr t (\<lambda>x. x\<lparr>tsuspended := False\<rparr>) s else s)"

section \<open>The circular list\<close>

definition edges :: "nat list \<Rightarrow> (nat \<times> nat) set" where
  "edges xs = set (zip xs (rotate1 xs))"

text \<open>The run queue, the running thread first.\<close>

definition ring :: "mp1_state \<Rightarrow> nat list \<Rightarrow> bool" where
  "ring s xs \<longleftrightarrow> xs \<noteq> [] \<and> distinct xs \<and> 0 \<notin> set xs \<and> current_thread s = hd xs \<and>
     (\<forall>(a, b) \<in> edges xs. tnext (uthr s a) = b \<and> tprevious (uthr s b) = a)"

lemma edges_path: "length bs = length ys \<Longrightarrow> set (zip (bs @ [l]) (ys @ [z])) = insert (l, z) (set (zip bs ys))"
  by (simp add: insert_commute)

lemma edges_rotate: "edges (rotate1 xs) = edges xs"
proof (cases xs)
  case (Cons c ys)
  show ?thesis
  proof (cases ys)
    case (Cons y zs)
    have "edges (ys @ [c]) = insert (c, y) (set (zip (y # zs) (zs @ [c])))"
      using edges_path [of "y # zs" "zs @ [c]" c y] Cons by (simp add: edges_def)
    then show ?thesis using Cons \<open>xs = c # ys\<close> by (simp add: edges_def)
  qed (simp add: \<open>xs = c # ys\<close>)
qed simp

lemma edges_snoc:
  assumes "c # ys = bs @ [l]"
  shows "edges (c # ys) = insert (l, c) (set (zip bs ys))"
    and "edges (c # ys @ [t]) = insert (l, t) (insert (t, c) (set (zip bs ys)))"
    and "edges (t # c # ys) = insert (t, c) (insert (l, t) (set (zip bs ys)))"
proof -
  have len: "length bs = length ys" using arg_cong [OF assms, of length] by simp
  have "edges (c # ys) = set (zip (c # ys) (ys @ [c]))" by (simp add: edges_def)
  also have "\<dots> = set (zip (bs @ [l]) (ys @ [c]))" by (simp only: assms)
  finally show "edges (c # ys) = insert (l, c) (set (zip bs ys))" by (simp only: edges_path [OF len])
  have "edges (c # ys @ [t]) = set (zip ((c # ys) @ [t]) ((ys @ [t]) @ [c]))" by (simp add: edges_def)
  also have "\<dots> = insert (t, c) (set (zip (c # ys) (ys @ [t])))" by (rule edges_path) simp
  also have "\<dots> = insert (t, c) (set (zip (bs @ [l]) (ys @ [t])))" by (simp only: assms)
  finally show "edges (c # ys @ [t]) = insert (l, t) (insert (t, c) (set (zip bs ys)))"
    by (simp only: edges_path [OF len] insert_commute)
  have "edges (t # c # ys) = insert (t, c) (set (zip (c # ys) (ys @ [t])))" by (simp add: edges_def)
  also have "\<dots> = insert (t, c) (set (zip (bs @ [l]) (ys @ [t])))" by (simp only: assms)
  finally show "edges (t # c # ys) = insert (t, c) (insert (l, t) (set (zip bs ys)))" by (simp only: edges_path [OF len])
qed

lemma path_distinct:
  assumes "c # ys = bs @ [l]" and "distinct (c # ys)" and "(a, b) \<in> set (zip bs ys)"
  shows "a \<noteq> l" "b \<noteq> c" "a \<in> set (c # ys)" "b \<in> set (c # ys)"
proof -
  have "a \<in> set bs" "b \<in> set ys" using assms(3) by (auto dest: set_zip_leftD set_zip_rightD)
  moreover have "distinct (bs @ [l])" "set (c # ys) = set (bs @ [l])" using assms(1,2) by metis+
  ultimately show "a \<noteq> l" "b \<noteq> c" "a \<in> set (c # ys)" "b \<in> set (c # ys)" using assms(2) by auto
qed

lemma ring_rotate: "ring s xs \<Longrightarrow> ring (s\<lparr>current_thread := tnext (cur s)\<rparr>) (rotate1 xs)"
proof -
  assume r: "ring s xs"
  then obtain c ys where xs: "xs = c # ys" by (cases xs) (auto simp: ring_def)
  have "(c, hd (ys @ [c])) \<in> edges xs" by (cases ys) (simp_all add: edges_def xs)
  then have "tnext (cur s) = hd (rotate1 xs)" using r by (auto simp: ring_def xs)
  then show ?thesis using r by (auto simp: ring_def edges_rotate)
qed

lemma ring_cong:
  assumes "ring s xs" and "\<And>a. a \<in> set xs \<Longrightarrow> tnext (uthr t a) = tnext (uthr s a) \<and> tprevious (uthr t a) = tprevious (uthr s a)"
    and "current_thread t = current_thread s"
  shows "ring t xs"
proof -
  have "a \<in> set xs \<and> b \<in> set xs" if "(a, b) \<in> edges xs" for a b
    using that by (auto simp: edges_def dest: set_zip_leftD set_zip_rightD)
  then show ?thesis using assms by (fastforce simp: ring_def)
qed

text \<open>Fields of a thread other than the two links.\<close>

definition relinked :: "mp1_state \<Rightarrow> mp1_state \<Rightarrow> bool" where
  "relinked s u \<longleftrightarrow> (\<forall>a. \<exists>n p. uthr u a = (uthr s a)\<lparr>tnext := n, tprevious := p\<rparr>)"

lemma relinkedD:
  assumes "relinked s u"
  shows "tsigno (uthr u a) = tsigno (uthr s a)" "tsig_handler (uthr u a) = tsig_handler (uthr s a)"
    "tstack (uthr u a) = tstack (uthr s a)" "tsuspended (uthr u a) = tsuspended (uthr s a)"
    "tbuf_set (uthr u a) = tbuf_set (uthr s a)" "tenv (uthr u a) = tenv (uthr s a)" "tstack_p (uthr u a) = tstack_p (uthr s a)"
proof -
  obtain n p where "uthr u a = (uthr s a)\<lparr>tnext := n, tprevious := p\<rparr>" using assms unfolding relinked_def by meson
  then show "tsigno (uthr u a) = tsigno (uthr s a)" "tsig_handler (uthr u a) = tsig_handler (uthr s a)"
    "tstack (uthr u a) = tstack (uthr s a)" "tsuspended (uthr u a) = tsuspended (uthr s a)"
    "tbuf_set (uthr u a) = tbuf_set (uthr s a)" "tenv (uthr u a) = tenv (uthr s a)" "tstack_p (uthr u a) = tstack_p (uthr s a)"
    by simp_all
qed

lemma relinked_trans: "relinked s t \<Longrightarrow> relinked t u \<Longrightarrow> relinked s u"
  unfolding relinked_def
proof
  fix a assume a: "\<forall>a. \<exists>n p. uthr t a = (uthr s a)\<lparr>tnext := n, tprevious := p\<rparr>" "\<forall>a. \<exists>n p. uthr u a = (uthr t a)\<lparr>tnext := n, tprevious := p\<rparr>"
  obtain n p n' p' where "uthr t a = (uthr s a)\<lparr>tnext := n, tprevious := p\<rparr>" "uthr u a = (uthr t a)\<lparr>tnext := n', tprevious := p'\<rparr>"
    using a by meson
  then show "\<exists>n p. uthr u a = (uthr s a)\<lparr>tnext := n, tprevious := p\<rparr>" by (intro exI [of _ n'] exI [of _ p']) simp
qed

lemma relinked_refl: "(\<And>a. uthr u a = uthr s a) \<Longrightarrow> relinked s u"
  unfolding relinked_def
proof
  fix a assume "\<And>a. uthr u a = uthr s a"
  then show "\<exists>n p. uthr u a = (uthr s a)\<lparr>tnext := n, tprevious := p\<rparr>"
    by (intro exI [of _ "tnext (uthr s a)"] exI [of _ "tprevious (uthr s a)"]) simp
qed

text \<open>Leaving the list.\<close>

lemma ring_last:
  assumes "ring s (c # ys)" and "c # ys = bs @ [l]"
  shows "tnext (cur s) = hd (ys @ [c])" "tprevious (cur s) = l" "current_thread s = c"
proof -
  have "(c, hd (ys @ [c])) \<in> edges (c # ys)" by (cases ys) (simp_all add: edges_def)
  moreover have "(l, c) \<in> edges (c # ys)" by (simp add: edges_snoc(1) [OF assms(2)])
  ultimately show "tnext (cur s) = hd (ys @ [c])" "tprevious (cur s) = l" "current_thread s = c"
    using assms(1) by (auto simp: ring_def)
qed

lemma leave_last: "ring s [c] \<Longrightarrow> thread_leave s = (False, s\<lparr>released := released s \<union> {tstack (cur s), c}\<rparr>)"
  using ring_last [of s c "[]" "[]" c] by (simp add: thread_leave_def Let_def)

lemma leave_ring:
  assumes r: "ring s (c # y # zs)"
  obtains u where "thread_leave s = (True, u)" "ring u (y # zs)" "relinked s u" "released u = released s \<union> {tstack (uthr s c), c}"
proof -
  obtain bs l where bl: "y # zs = bs @ [l]" by (metis rev_exhaust list.discI)
  then have bl': "c # y # zs = (c # bs) @ [l]" by simp
  note L = ring_last [OF r bl']
  have d: "distinct (c # y # zs)" "0 \<notin> set (c # y # zs)" using r by (simp_all add: ring_def)
  let ?v = "upd_uthr y (\<lambda>x. x\<lparr>tprevious := l\<rparr>) (upd_uthr l (\<lambda>x. x\<lparr>tnext := y\<rparr>) s)"
  let ?u = "?v\<lparr>current_thread := y, released := released s \<union> {tstack (uthr ?v c), c}\<rparr>"
  have ne: "y \<noteq> c" "l \<noteq> c" using d(1) bl by (metis distinct.simps(2) list.set_intros(1), metis distinct.simps(2) last_in_set last_snoc list.discI)
  have "thread_leave s = (True, ?u)" using L ne by (simp add: thread_leave_def Let_def upd_uthr_def)
  moreover have "ring ?u (y # zs)"
    unfolding ring_def
  proof (intro conjI ballI)
    fix e assume e: "e \<in> edges (y # zs)"
    obtain a b where ab: "e = (a, b)" by force
    have old: "(a, b) \<in> edges (c # y # zs)" if "(a, b) \<in> set (zip bs zs)"
      using that by (simp add: edges_snoc(3) [OF bl])
    have "tnext (uthr ?u a) = b \<and> tprevious (uthr ?u b) = a"
    proof (cases "(a, b) = (l, y)")
      case True
      then show ?thesis by (simp add: upd_uthr_def)
    next
      case False
      then have z: "(a, b) \<in> set (zip bs zs)" using e unfolding ab edges_snoc(1) [OF bl] by blast
      have "a \<noteq> l" "b \<noteq> y" using path_distinct(1,2) [OF bl _ z] d(1) by simp_all
      moreover have "tnext (uthr s a) = b" "tprevious (uthr s b) = a" using old [OF z] r by (auto simp: ring_def)
      ultimately show ?thesis by (auto simp: upd_uthr_def)
    qed
    then show "case e of (a, b) \<Rightarrow> tnext (uthr ?u a) = b \<and> tprevious (uthr ?u b) = a" by (simp add: ab)
  qed (use d in simp_all)
  moreover have "relinked s ?u"
    unfolding relinked_def
  proof
    fix a
    show "\<exists>n p. uthr ?u a = (uthr s a)\<lparr>tnext := n, tprevious := p\<rparr>"
      by (intro exI [of _ "if a = l then y else tnext (uthr s a)"] exI [of _ "if a = y then l else tprevious (uthr s a)"])
        (simp add: upd_uthr_def)
  qed
  moreover have "released ?u = released s \<union> {tstack (uthr s c), c}" using ne by (simp add: upd_uthr_def)
  ultimately show ?thesis by (rule that)
qed

text \<open>Joining it.\<close>

lemma add_ring:
  assumes r: "ring s (c # ys)" and t: "t \<noteq> 0" "t \<notin> set (c # ys)"
  shows "ring (thread_add_runqueue_mp1 t s) (c # ys @ [t])"
proof -
  obtain bs l where bl: "c # ys = bs @ [l]" by (metis rev_exhaust list.discI)
  note L = ring_last [OF r bl]
  have d: "distinct (c # ys)" "c \<noteq> 0" "0 \<notin> set (c # ys)" using r by (simp_all add: ring_def)
  have ls: "l \<in> set (c # ys)" unfolding bl by simp
  then have lt: "l \<noteq> t" using t(2) by blast
  let ?u = "thread_add_runqueue_mp1 t s"
  have n: "tnext (uthr ?u a) = (if a = l then t else if a = t then c else tnext (uthr s a))"
    "tprevious (uthr ?u a) = (if a = c then t else if a = t then l else tprevious (uthr s a))" for a
    using L t lt d(2) by (auto simp: thread_add_runqueue_mp1_def Let_def upd_uthr_def)
  have "current_thread ?u = c" using L d(2) by (simp add: thread_add_runqueue_mp1_def Let_def upd_uthr_def)
  moreover have "tnext (uthr ?u a) = b \<and> tprevious (uthr ?u b) = a" if e: "(a, b) \<in> edges (c # ys @ [t])" for a b
  proof -
    consider "(a, b) = (l, t)" | "(a, b) = (t, c)" | "(a, b) \<in> set (zip bs ys)" using e unfolding edges_snoc(2) [OF bl] by blast
    then show ?thesis
    proof cases
      case 3
      note P = path_distinct [OF bl d(1) 3]
      have "(a, b) \<in> edges (c # ys)" using 3 by (simp add: edges_snoc(1) [OF bl])
      then have "tnext (uthr s a) = b" "tprevious (uthr s b) = a" using r by (auto simp: ring_def)
      moreover have "a \<noteq> t" "b \<noteq> t" using P(3,4) t(2) by blast+
      ultimately show ?thesis using P(1,2) by (simp add: n)
    qed (use t lt in \<open>auto simp: n\<close>)
  qed
  ultimately show ?thesis using d t by (auto simp: ring_def)
qed

section \<open>Scheduling\<close>

lemma skip_suspended_result:
  assumes "skip_suspended s = Some u"
  defines "P \<equiv> \<lambda>s u. \<not> tsuspended (cur u) \<and> uthr u = uthr s \<and> (\<forall>xs. ring s xs \<longrightarrow> current_thread u \<in> set xs)"
  shows "P s u"
proof (rule skip_suspended.raw_induct [where P = P, OF _ assms(1)])
  fix f s u
  assume 1: "\<And>s u. f s = Some u \<Longrightarrow> P s u"
    "(if tsuspended (cur s) then f (s\<lparr>current_thread := tnext (cur s)\<rparr>) else Some s) = Some u"
  show "P s u"
  proof (cases "tsuspended (cur s)")
    case True
    let ?s = "s\<lparr>current_thread := tnext (cur s)\<rparr>"
    have "f ?s = Some u" using 1(2) True by simp
    note IH = 1(1) [OF this, unfolded P_def]
    have "current_thread u \<in> set xs" if "ring s xs" for xs using IH ring_rotate [OF that] by auto
    then show ?thesis using IH by (auto simp: P_def)
  next
    case False
    then have "u = s" using 1(2) by simp
    then show ?thesis using False by (auto simp: ring_def P_def)
  qed
qed

lemma skip_suspended_find:
  assumes "ring s (as @ t # bs)" and "\<forall>a \<in> set as. tsuspended (uthr s a)" and "\<not> tsuspended (uthr s t)"
  shows "skip_suspended s = Some (s\<lparr>current_thread := t\<rparr>) \<and> ring (s\<lparr>current_thread := t\<rparr>) (t # bs @ as)"
  using assms
proof (induction as arbitrary: s bs)
  case Nil
  then have "current_thread s = t" by (simp add: ring_def)
  then have "s\<lparr>current_thread := t\<rparr> = s" by simp
  then show ?case using Nil \<open>current_thread s = t\<close> by (auto simp: skip_suspended.simps [of s])
next
  case (Cons a as)
  let ?s = "s\<lparr>current_thread := tnext (cur s)\<rparr>"
  have c: "current_thread s = a" using Cons.prems(1) by (simp add: ring_def)
  have "ring ?s (as @ t # (bs @ [a]))" using ring_rotate [OF Cons.prems(1)] by simp
  then have "skip_suspended ?s = Some (?s\<lparr>current_thread := t\<rparr>) \<and> ring (?s\<lparr>current_thread := t\<rparr>) (t # (bs @ [a]) @ as)"
    using Cons.prems(2,3) by (intro Cons.IH) simp_all
  then show ?case using c Cons.prems(2) by (simp add: skip_suspended.simps [of s])
qed

lemma find_split: "List.find P xs = Some x \<Longrightarrow> \<exists>as bs. xs = as @ x # bs \<and> (\<forall>a \<in> set as. \<not> P a) \<and> P x"
proof (induction xs)
  case (Cons y ys)
  show ?case
  proof (cases "P y")
    case True
    then show ?thesis using Cons.prems by (intro exI [of _ "[]"] exI [of _ ys]) simp
  next
    case False
    then obtain as bs where "ys = as @ x # bs" "\<forall>a \<in> set as. \<not> P a" "P x" using Cons by auto
    then show ?thesis using False by (intro exI [of _ "y # as"] exI [of _ bs]) simp
  qed
qed simp

text \<open>C30: The scheduler is first in, first out among the threads that are not suspended, starting behind the running
  one; the run queue is rotated and no thread is lost. It terminates if and only if some thread is not suspended:
  when the last such thread suspends itself, \<open>schedule\<close> loops forever.\<close>

theorem schedule_fifo_or_diverges:
  assumes r: "ring s (c # ys)"
  shows "case List.find (\<lambda>t. \<not> tsuspended (uthr s t)) (ys @ [c]) of
      None \<Rightarrow> schedule_mp1 s = None
    | Some t \<Rightarrow> schedule_mp1 s = Some (s\<lparr>current_thread := t\<rparr>) \<and>
        (\<exists>as bs. ys @ [c] = as @ t # bs \<and> (\<forall>a \<in> set as. tsuspended (uthr s a)) \<and> ring (s\<lparr>current_thread := t\<rparr>) (t # bs @ as))"
proof (cases "List.find (\<lambda>t. \<not> tsuspended (uthr s t)) (ys @ [c])")
  case None
  have R: "ring (s\<lparr>current_thread := tnext (cur s)\<rparr>) (ys @ [c])" using ring_rotate [OF r] by simp
  have "skip_suspended (s\<lparr>current_thread := tnext (cur s)\<rparr>) = None"
  proof (rule ccontr)
    assume "skip_suspended (s\<lparr>current_thread := tnext (cur s)\<rparr>) \<noteq> None"
    then obtain u where "skip_suspended (s\<lparr>current_thread := tnext (cur s)\<rparr>) = Some u" by blast
    from skip_suspended_result [OF this] R have "\<not> tsuspended (uthr s (current_thread u))" "current_thread u \<in> set (ys @ [c])" by auto
    then show False using find_NoneD [OF None] by blast
  qed
  then show ?thesis using None by (simp add: schedule_mp1_def)
next
  case (Some t)
  then obtain as bs where ab: "ys @ [c] = as @ t # bs" "\<forall>a \<in> set as. \<not> \<not> tsuspended (uthr s a)" "\<not> tsuspended (uthr s t)"
    using find_split [OF Some] by blast
  let ?s = "s\<lparr>current_thread := tnext (cur s)\<rparr>"
  have "ring ?s (as @ t # bs)" using ring_rotate [OF r] ab(1) by simp
  then have "skip_suspended ?s = Some (?s\<lparr>current_thread := t\<rparr>) \<and> ring (?s\<lparr>current_thread := t\<rparr>) (t # bs @ as)"
    using ab(2,3) by (intro skip_suspended_find) simp_all
  then show ?thesis using Some ab by (auto simp: schedule_mp1_def)
qed

section \<open>Dispatching and exit\<close>

text \<open>A thread with a signal it has no handler for.\<close>

definition doomed :: "mp1_state \<Rightarrow> nat \<Rightarrow> bool" where
  "doomed s t \<longleftrightarrow> tsigno (uthr s t) \<noteq> -1 \<and> tsig_handler (uthr s t) (tsigno (uthr s t)) = NULL_FUNC"

definition run_current :: "mp1_state \<Rightarrow> control \<times> mp1_state" where
  "run_current s = (if tsigno (cur s) \<noteq> -1 then dispatch_handler (tsig_handler (cur s) (tsigno (cur s))) s else dispatch_fn s)"

definition freed :: "mp1_state \<Rightarrow> nat list \<Rightarrow> nat set" where
  "freed s ts = set ts \<union> (\<lambda>t. tstack (uthr s t)) ` set ts"

lemma relinked_sets: "relinked s u \<Longrightarrow> doomed u = doomed s" "relinked s u \<Longrightarrow> freed u ts = freed s ts"
  by (simp_all add: doomed_def freed_def fun_eq_iff relinkedD)

lemma dispatch_live: "\<not> doomed s (current_thread s) \<Longrightarrow> dispatch_mp1 s = Some (run_current s)"
  by (auto simp: dispatch_mp1.simps [of s] doomed_def run_current_def Let_def)

lemma dispatch_doomed:
  "doomed s (current_thread s) \<Longrightarrow> dispatch_mp1 s = thread_exit_mp1 s"
  by (simp add: dispatch_mp1.simps [of s] doomed_def thread_exit_mp1_def Let_def)

lemma exit_spec:
  assumes "ring s (c # ys)"
  shows "case dropWhile (doomed s) ys of
      [] \<Rightarrow> \<exists>u. thread_exit_mp1 s = Some (MainReturn, u) \<and> released u = released s \<union> freed s (c # ys)
    | t # ts \<Rightarrow> \<exists>v. thread_exit_mp1 s = Some (run_current v) \<and> ring v (t # ts) \<and> relinked s v \<and>
        released v = released s \<union> freed s (c # takeWhile (doomed s) ys)"
  using assms
proof (induction ys arbitrary: s c)
  case Nil
  then have "current_thread s = c" by (simp add: ring_def)
  then show ?case using leave_last [OF Nil] by (simp add: thread_exit_mp1_def freed_def insert_commute)
next
  case (Cons y zs)
  obtain u where u: "thread_leave s = (True, u)" "ring u (y # zs)" "relinked s u" "released u = released s \<union> {tstack (uthr s c), c}"
    by (rule leave_ring [OF Cons.prems])
  have c: "current_thread u = y" "released u = released s \<union> freed s [c]" using u(2,4) by (auto simp: ring_def freed_def)
  have eq: "thread_exit_mp1 s = dispatch_mp1 u" using u(1) by (simp add: thread_exit_mp1_def)
  note R = relinked_sets [OF u(3)]
  show ?case
  proof (cases "doomed s y")
    case False
    then have "dispatch_mp1 u = Some (run_current u)" using dispatch_live [of u] c(1) by (simp add: R)
    then show ?thesis using False eq u(2,3) c(2) by auto
  next
    case True
    then have d: "dispatch_mp1 u = thread_exit_mp1 u" using dispatch_doomed [of u] c(1) by (simp add: R)
    have cat: "freed s [c] \<union> freed s (y # xs) = freed s (c # y # xs)" for xs by (auto simp: freed_def)
    show ?thesis
    proof (cases "dropWhile (doomed s) zs")
      case Nil
      then obtain w where "thread_exit_mp1 u = Some (MainReturn, w)" "released w = released u \<union> freed u (y # zs)"
        using Cons.IH [OF u(2)] unfolding R Nil by auto
      moreover have dw: "dropWhile (doomed s) (y # zs) = []" using Nil True by simp
      ultimately show ?thesis unfolding dw list.case using eq d c(2) cat [of zs] by (auto simp: R Un_assoc)
    next
      case (Cons t ts)
      then obtain v where v: "thread_exit_mp1 u = Some (run_current v)" "ring v (t # ts)" "relinked u v"
        "released v = released u \<union> freed u (y # takeWhile (doomed s) zs)" using Cons.IH [OF u(2)] unfolding R \<open>dropWhile (doomed s) zs = t # ts\<close> by auto
      have "released v = released s \<union> freed s (c # y # takeWhile (doomed s) zs)"
        using v(4) c(2) cat [of "takeWhile (doomed s) zs"] by (simp add: R Un_assoc)
      then show ?thesis using Cons True eq d v(1,2) relinked_trans [OF u(3) v(3)] by auto
    qed
  qed
qed

text \<open>C31: When a thread exits, the next thread of the run queue that has no fatal signal runs, whether or not it is
  suspended; exactly the exited thread and the skipped ones are freed with their stacks, the others keep their order
  and their state, and when none is left control returns to \<open>thread_start_threading\<close>. Exit always terminates.\<close>

theorem thread_exit_runs_next:
  assumes "ring s (c # ys)"
  shows "case dropWhile (doomed s) ys of
      [] \<Rightarrow> \<exists>u. thread_exit_mp1 s = Some (MainReturn, u) \<and> released u = released s \<union> freed s (c # ys)
    | t # ts \<Rightarrow> \<exists>v. thread_exit_mp1 s = Some (run_current v) \<and> ring v (t # ts) \<and> relinked s v \<and>
        released v = released s \<union> freed s (c # takeWhile (doomed s) ys)"
  using assms by (rule exit_spec)

section \<open>Signals\<close>

lemma ring_upd: "(\<And>x. tnext (f x) = tnext x) \<Longrightarrow> (\<And>x. tprevious (f x) = tprevious x) \<Longrightarrow> ring (upd_uthr t f s) xs = ring s xs"
proof
  assume f: "\<And>x. tnext (f x) = tnext x" "\<And>x. tprevious (f x) = tprevious x"
  show "ring s xs" if "ring (upd_uthr t f s) xs" by (rule ring_cong [OF that]) (simp_all add: upd_uthr_def f)
  show "ring (upd_uthr t f s) xs" if "ring s xs" by (rule ring_cong [OF that]) (simp_all add: upd_uthr_def f)
qed

lemma schedule_next:
  assumes "ring s (c # ys)" and "ys @ [c] = t # ts" and "\<not> tsuspended (uthr s t)"
  shows "schedule_mp1 s = Some (s\<lparr>current_thread := t\<rparr>)" "ring (s\<lparr>current_thread := t\<rparr>) (t # ts)"
proof -
  have "ring (s\<lparr>current_thread := tnext (cur s)\<rparr>) ([] @ t # ts)" using ring_rotate [OF assms(1)] assms(2) by simp
  from skip_suspended_find [OF this] assms(3)
  show "schedule_mp1 s = Some (s\<lparr>current_thread := t\<rparr>)" "ring (s\<lparr>current_thread := t\<rparr>) (t # ts)"
    by (simp_all add: schedule_mp1_def)
qed

text \<open>A thread with a first signal runs the handler on its own stack, then goes on where \<open>env\<close> says.\<close>

definition handling :: "mp1_state \<Rightarrow> mp1_state" where
  "handling s = upd_uthr (current_thread s)
     (\<lambda>t. t\<lparr>thandler_buf_set := True, thandler_env := \<lparr>jsp = tstack_p t, jpoint = AtHandler\<rparr>\<rparr>) s"

lemma first_signal:
  assumes "tsigno (cur s) = sig" "sig \<noteq> -1" "tsig_handler (cur s) sig = h" "h \<noteq> NULL_FUNC" "\<not> thandler_buf_set (cur s)"
  shows "dispatch_mp1 s = Some (CallHandler (current_thread s) h sig (tstack_p (cur s)), handling s)"
  using assms by (simp add: dispatch_mp1.simps [of s] dispatch_handler_def handling_def Let_def upd_uthr_def)

lemma later_signal:
  assumes "tsigno (cur s) = sig" "sig \<noteq> -1" "tsig_handler (cur s) sig \<noteq> NULL_FUNC" "thandler_buf_set (cur s)"
  shows "dispatch_mp1 s = Some (longjmp_to (thandler_env (cur s)) s, s)"
  using assms by (simp add: dispatch_mp1.simps [of s] dispatch_handler_def Let_def)

lemma after_handler:
  assumes "tbuf_set (cur s)"
  shows "handler_returned s = (longjmp_to (tenv (cur s)) s, upd_uthr (current_thread s) (\<lambda>t. t\<lparr>tsigno := -1\<rparr>) s)"
  using assms by (cases "jpoint (tenv (cur s))") (auto simp: handler_returned_def dispatch_fn_def Let_def longjmp_to_def upd_uthr_def)

text \<open>Yielding to a thread that is waiting further on in the run queue; the ones before it are suspended.\<close>

lemma yield_to:
  fixes s :: mp1_state and k sp :: nat
  assumes r: "ring s (d # us @ c # vs)" and us: "\<forall>u \<in> set us. tsuspended (uthr s u)" and c: "\<not> tsuspended (uthr s c)" and d: "tsigno (uthr s d) = -1"
  defines "b \<equiv> upd_uthr d (\<lambda>t. t\<lparr>tenv := \<lparr>jsp = sp, jpoint = AtYield k\<rparr>\<rparr>) s"
  shows "thread_yield_mp1 k sp s = dispatch_mp1 (b\<lparr>current_thread := c\<rparr>)" and "ring (b\<lparr>current_thread := c\<rparr>) (c # vs @ d # us)"
proof -
  have cd: "current_thread s = d" "c \<noteq> d" using r by (auto simp: ring_def)
  have rb: "ring b (d # us @ c # vs)" using r by (simp add: ring_upd b_def)
  have "ring (b\<lparr>current_thread := tnext (cur b)\<rparr>) (us @ c # (vs @ [d]))" using ring_rotate [OF rb] by simp
  moreover have sus: "tsuspended (uthr b a) = tsuspended (uthr s a)" for a by (simp add: b_def upd_uthr_def)
  ultimately have S: "schedule_mp1 b = Some (b\<lparr>current_thread := c\<rparr>)" "ring (b\<lparr>current_thread := c\<rparr>) (c # (vs @ [d]) @ us)"
    using skip_suspended_find [of "b\<lparr>current_thread := tnext (cur b)\<rparr>" us c "vs @ [d]"] us c by (simp_all add: schedule_mp1_def)
  then show "ring (b\<lparr>current_thread := c\<rparr>) (c # vs @ d # us)" by simp
  show "thread_yield_mp1 k sp s = dispatch_mp1 (b\<lparr>current_thread := c\<rparr>)"
    using S(1) d cd by (simp add: thread_yield_mp1_def Let_def b_def)
qed

text \<open>Yielding with a signal to oneself pending, all others suspended: the place goes to \<open>handler_env\<close>.\<close>

lemma yield_to_self:
  fixes s :: mp1_state and k sp :: nat
  assumes r: "ring s (c # us)" and us: "\<forall>u \<in> set us. tsuspended (uthr s u)" and c: "\<not> tsuspended (uthr s c)" and d: "tsigno (uthr s c) \<noteq> -1"
  defines "b \<equiv> upd_uthr c (\<lambda>t. t\<lparr>thandler_env := \<lparr>jsp = sp, jpoint = AtYield k\<rparr>\<rparr>) s"
  shows "thread_yield_mp1 k sp s = dispatch_mp1 b"
proof -
  have cd: "current_thread s = c" using r by (simp add: ring_def)
  have rb: "ring b (c # us)" using r by (simp add: ring_upd b_def)
  have "ring (b\<lparr>current_thread := tnext (cur b)\<rparr>) (us @ c # [])" using ring_rotate [OF rb] by simp
  moreover have sus: "tsuspended (uthr b a) = tsuspended (uthr s a)" for a by (simp add: b_def upd_uthr_def)
  ultimately have "schedule_mp1 b = Some (b\<lparr>current_thread := c\<rparr>)"
    using skip_suspended_find [of "b\<lparr>current_thread := tnext (cur b)\<rparr>" us c "[]"] us c by (simp add: schedule_mp1_def)
  moreover have "b\<lparr>current_thread := c\<rparr> = b" using cd by (cases s) (simp add: b_def upd_uthr_def)
  ultimately show ?thesis using d cd by (simp add: thread_yield_mp1_def Let_def b_def)
qed

text \<open>C32: The first signal of a thread is transparent to its code. Thread \<open>c\<close> waits at place \<open>k\<close> in \<open>thread_yield\<close>, anywhere in the run queue,
  and has had no signal yet; the running thread \<open>d\<close> signals it and yields, the threads between them being suspended. Then the handler runs on
  the stack of \<open>c\<close> with the signal number; of the other threads only \<open>d\<close> has changed, by the place it yields from. Whatever
  the handler does, as long as the context of \<open>c\<close> in \<open>env\<close> is what it was, \<open>c\<close> goes on at the place and stack pointer
  it yielded from when the handler returns, with no signal pending.\<close>

theorem signal_is_transparent:
  assumes r: "ring s (d # us @ c # vs)" and us: "\<forall>u \<in> set us. tsuspended (uthr s u)" and d: "tsigno (uthr s d) = -1"
    and c: "tbuf_set (uthr s c)" "tenv (uthr s c) = \<lparr>jsp = sp, jpoint = AtYield k\<rparr>" "\<not> tsuspended (uthr s c)" "\<not> thandler_buf_set (uthr s c)"
    and sig: "sig \<noteq> -1" "tsig_handler (uthr s c) sig = h" "h \<noteq> NULL_FUNC"
  shows "\<exists>s2. thread_yield_mp1 k2 sp2 (thread_kill c sig s) = Some (CallHandler c h sig (tstack_p (uthr s c)), s2) \<and>
    ring s2 (c # vs @ d # us) \<and> uthr s2 d = (uthr s d)\<lparr>tenv := \<lparr>jsp = sp2, jpoint = AtYield k2\<rparr>\<rparr> \<and>
    (\<forall>a. a \<noteq> c \<and> a \<noteq> d \<longrightarrow> uthr s2 a = uthr s a) \<and> tbuf_set (uthr s2 c) \<and> tenv (uthr s2 c) = tenv (uthr s c) \<and>
    (\<forall>w. current_thread w = c \<and> tbuf_set (uthr w c) \<and> tenv (uthr w c) = tenv (uthr s2 c) \<longrightarrow>
       handler_returned w = (Yielded c k sp, upd_uthr c (\<lambda>t. t\<lparr>tsigno := -1\<rparr>) w))"
proof -
  have cd: "c \<noteq> d" "c \<noteq> 0" "c \<notin> set us" using r by (auto simp: ring_def)
  let ?s = "thread_kill c sig s"
  have k: "?s = upd_uthr c (\<lambda>x. x\<lparr>tsigno := sig\<rparr>) s" using cd(2) by (simp add: thread_kill_def)
  have r': "ring ?s (d # us @ c # vs)" using r by (simp add: ring_upd k)
  have us': "\<forall>u \<in> set us. tsuspended (uthr ?s u)" using us cd by (auto simp: k upd_uthr_def)
  have c': "\<not> tsuspended (uthr ?s c)" "tsigno (uthr ?s d) = -1" using c(3) d cd by (simp_all add: k upd_uthr_def)
  note y = yield_to [OF r' us' c', where k = k2 and sp = sp2]
  define b where "b = (upd_uthr d (\<lambda>t. t\<lparr>tenv := \<lparr>jsp = sp2, jpoint = AtYield k2\<rparr>\<rparr>) ?s)\<lparr>current_thread := c\<rparr>"
  have b: "uthr b c = (uthr s c)\<lparr>tsigno := sig\<rparr>" "uthr b d = (uthr s d)\<lparr>tenv := \<lparr>jsp = sp2, jpoint = AtYield k2\<rparr>\<rparr>"
    "current_thread b = c" "a \<noteq> c \<Longrightarrow> a \<noteq> d \<Longrightarrow> uthr b a = uthr s a" for a
    using cd by (simp_all add: b_def k upd_uthr_def)
  have "dispatch_mp1 b = Some (CallHandler c h sig (tstack_p (uthr s c)), handling b)"
    using first_signal [of b sig h] c(4) sig by (simp add: b)
  moreover have "ring (handling b) (c # vs @ d # us)" using y(2) by (simp add: b_def [symmetric] handling_def ring_upd)
  moreover have "handler_returned w = (Yielded c k sp, upd_uthr c (\<lambda>t. t\<lparr>tsigno := -1\<rparr>) w)"
    if "current_thread w = c" "tbuf_set (uthr w c)" "tenv (uthr w c) = tenv (uthr (handling b) c)" for w
    using after_handler [of w] that c(2) by (simp add: handling_def b upd_uthr_def longjmp_to_def)
  ultimately show ?thesis using y(1) b cd c(1)
    by (intro exI [of _ "handling b"]) (simp add: b_def [symmetric], simp add: handling_def upd_uthr_def)
qed

text \<open>Three ways a signal is not transparent. A thread that signals itself and yields when no other thread can run loses the place it
  yielded from: \<open>thread_yield\<close> saves it in \<open>handler_env\<close>, which \<open>dispatch\<close> overwrites, so when the handler returns the thread goes
  back to where its context was last saved. \<open>handler_buf_set\<close> is never cleared, so when it signals itself again, whatever the signal, no handler
  runs: \<open>thread_yield\<close> just returns with the signal still pending. And a second signal sent by another thread, to a
  thread that has handled one, jumps into the call of \<open>dispatch\<close> that ended with the first handler.\<close>

theorem signal_defects:
  assumes r: "ring s (c # us)" and us: "\<forall>u \<in> set us. tsuspended (uthr s u)"
    and run: "tbuf_set (uthr s c)" "\<not> tsuspended (uthr s c)" "\<not> thandler_buf_set (uthr s c)"
    and sig: "sig \<noteq> -1" "tsig_handler (uthr s c) sig = h" "h \<noteq> NULL_FUNC"
    and sig2: "sig2 \<noteq> -1" "tsig_handler (uthr s c) sig2 \<noteq> NULL_FUNC"
    and t: "ring t (d # us' @ e # vs)" "\<forall>u \<in> set us'. tsuspended (uthr t u)" "tsigno (uthr t d) = -1"
      "\<not> tsuspended (uthr t e)" "thandler_buf_set (uthr t e)" "jpoint (thandler_env (uthr t e)) = AtHandler"
      "tsig_handler (uthr t e) sig2 \<noteq> NULL_FUNC"
  shows "(\<exists>s1 s2 s3. thread_yield_mp1 k sp (thread_kill c sig s) = Some (CallHandler c h sig (tstack_p (uthr s c)), s1) \<and>
      handler_returned s1 = (longjmp_to (tenv (uthr s c)) s, s2) \<and>
      thread_yield_mp1 k2 sp2 (thread_kill c sig2 s2) = Some (Yielded c k2 sp2, s3) \<and> tsigno (uthr s3 c) = sig2) \<and>
    (\<exists>t1. thread_yield_mp1 k2 sp2 (thread_kill e sig2 t) = Some (Wild e, t1))"
proof
  have c: "current_thread s = c" "c \<noteq> 0" "c \<notin> set us" using r by (auto simp: ring_def)
  let ?s = "thread_kill c sig s"
  have k: "thread_kill c x v = upd_uthr c (\<lambda>t. t\<lparr>tsigno := x\<rparr>) v" for x v using c(2) by (simp add: thread_kill_def)
  define b where "b = upd_uthr c (\<lambda>t. t\<lparr>thandler_env := \<lparr>jsp = sp, jpoint = AtYield k\<rparr>\<rparr>) ?s"
  have "ring ?s (c # us)" "\<forall>u \<in> set us. tsuspended (uthr ?s u)" "\<not> tsuspended (uthr ?s c)" "tsigno (uthr ?s c) \<noteq> -1"
    using r us run(2) sig(1) c(3) by (simp_all add: ring_upd k) (auto simp: upd_uthr_def)
  from yield_to_self [OF this, where k = k and sp = sp, folded b_def] have y: "thread_yield_mp1 k sp ?s = dispatch_mp1 b" .
  have b: "uthr b c = (uthr s c)\<lparr>tsigno := sig, thandler_env := \<lparr>jsp = sp, jpoint = AtYield k\<rparr>\<rparr>" "current_thread b = c"
    "a \<noteq> c \<Longrightarrow> uthr b a = uthr s a" for a using c by (simp_all add: b_def k upd_uthr_def)
  define s1 where "s1 = handling b"
  have d1: "dispatch_mp1 b = Some (CallHandler c h sig (tstack_p (uthr s c)), s1)"
    using first_signal [of b sig h] run(3) sig by (simp add: b s1_def)
  define s2 where "s2 = upd_uthr c (\<lambda>t. t\<lparr>tsigno := -1\<rparr>) s1"
  have "handler_returned s1 = (longjmp_to (tenv (uthr s c)) s, s2)"
    using after_handler [of s1] run(1) c by (simp add: s1_def s2_def handling_def b upd_uthr_def longjmp_to_def split: point.split)
  note first = this
  have s2: "uthr s2 c = (uthr s c)\<lparr>tsigno := -1, thandler_env := \<lparr>jsp = tstack_p (uthr s c), jpoint = AtHandler\<rparr>, thandler_buf_set := True\<rparr>"
    "a \<noteq> c \<Longrightarrow> uthr s2 a = uthr s a" for a by (simp_all add: s2_def s1_def handling_def b upd_uthr_def)
  have r2: "ring s2 (c # us)" using r by (simp add: s2_def s1_def handling_def b_def k ring_upd)
  let ?v = "thread_kill c sig2 s2"
  define e where "e = upd_uthr c (\<lambda>t. t\<lparr>thandler_env := \<lparr>jsp = sp2, jpoint = AtYield k2\<rparr>\<rparr>) ?v"
  have "\<forall>u \<in> set us. tsuspended (uthr ?v u)" using us c(3) s2(2) by (auto simp: k upd_uthr_def)
  moreover have "ring ?v (c # us)" "\<not> tsuspended (uthr ?v c)" "tsigno (uthr ?v c) \<noteq> -1"
    using r2 run(2) sig2(1) by (simp_all add: ring_upd k) (simp_all add: upd_uthr_def s2)
  ultimately have y2: "thread_yield_mp1 k2 sp2 ?v = dispatch_mp1 e" by (simp add: yield_to_self e_def)
  have ce: "current_thread e = c" using r2 by (simp add: e_def k upd_uthr_def ring_def)
  have "dispatch_mp1 e = Some (longjmp_to (thandler_env (cur e)) e, e)"
    by (rule later_signal [OF refl]) (use sig2 in \<open>simp_all add: ce\<close>, simp_all add: e_def k upd_uthr_def s2)
  moreover have "thandler_env (cur e) = \<lparr>jsp = sp2, jpoint = AtYield k2\<rparr>" unfolding ce by (simp add: e_def upd_uthr_def)
  ultimately have "dispatch_mp1 e = Some (Yielded c k2 sp2, e)" by (simp add: ce longjmp_to_def)
  moreover have "tsigno (uthr e c) = sig2" by (simp add: e_def k upd_uthr_def)
  ultimately show "\<exists>s1 s2 s3. thread_yield_mp1 k sp ?s = Some (CallHandler c h sig (tstack_p (uthr s c)), s1) \<and>
      handler_returned s1 = (longjmp_to (tenv (uthr s c)) s, s2) \<and>
      thread_yield_mp1 k2 sp2 (thread_kill c sig2 s2) = Some (Yielded c k2 sp2, s3) \<and> tsigno (uthr s3 c) = sig2"
    using y d1 y2 first by auto
next
  have e: "e \<noteq> 0" "e \<noteq> d" "e \<notin> set us'" using t(1) by (auto simp: ring_def)
  let ?t = "thread_kill e sig2 t"
  have k: "?t = upd_uthr e (\<lambda>x. x\<lparr>tsigno := sig2\<rparr>) t" using e(1) by (simp add: thread_kill_def)
  have "ring ?t (d # us' @ e # vs)" "\<forall>u \<in> set us'. tsuspended (uthr ?t u)" "\<not> tsuspended (uthr ?t e)" "tsigno (uthr ?t d) = -1"
    using t(1-4) e(2,3) by (simp_all add: ring_upd k) (auto simp: upd_uthr_def)
  note y = yield_to(1) [OF this, where k = k2 and sp = sp2]
  define b where "b = (upd_uthr d (\<lambda>t. t\<lparr>tenv := \<lparr>jsp = sp2, jpoint = AtYield k2\<rparr>\<rparr>) ?t)\<lparr>current_thread := e\<rparr>"
  have b: "uthr b e = (uthr t e)\<lparr>tsigno := sig2\<rparr>" "current_thread b = e" using e(2) by (simp_all add: b_def k upd_uthr_def)
  have "dispatch_mp1 b = Some (Wild e, b)"
    using later_signal [of b sig2] t(5-7) sig2(1) by (simp add: b longjmp_to_def)
  then show "\<exists>t1. thread_yield_mp1 k2 sp2 ?t = Some (Wild e, t1)" using y by (simp add: b_def [symmetric])
qed

section \<open>A small system\<close>

text \<open>Two threads, 100 and 200, with handlers 30 and 31 for both signals; 100 is running and 200 has yielded.\<close>

definition demo_mp1_empty :: mp1_state where
  "demo_mp1_empty = \<lparr>uthr = (\<lambda>_. \<lparr>tfp = 0, targ = 0, tstack = 0, tstack_p = 0, tenv = \<lparr>jsp = 0, jpoint = Unset\<rparr>, tbuf_set = False,
     tID = 0, tprevious = 0, tnext = 0, tsig_handler = (\<lambda>_. 0), tsigno = 0, tsuspended = False,
     thandler_env = \<lparr>jsp = 0, jpoint = Unset\<rparr>, thandler_buf_set = False\<rparr>), current_thread = 0, thread_id = 1, released = {}\<rparr>"

definition demo_mp1_one :: mp1_state where
  "demo_mp1_one = thread_register_handler 1 31 (thread_register_handler 0 30
     (thread_add_runqueue_mp1 100 (snd (thread_create_mp1 10 0 100 5000 demo_mp1_empty))))"

definition demo_mp1 :: mp1_state where
  "demo_mp1 = thread_add_runqueue_mp1 200 (snd (thread_create_mp1 11 0 200 9000 demo_mp1_one))"

lemmas mp1_ops = demo_mp1_empty_def demo_mp1_one_def demo_mp1_def thread_add_runqueue_mp1_def thread_create_mp1_def
  thread_register_handler_def upd_uthr_def Let_def NULL_FUNC_def

lemma demo_mp1_rings: "ring demo_mp1_one [100]" "ring demo_mp1 [100, 200]"
proof -
  show r: "ring demo_mp1_one [100]" by (simp add: ring_def edges_def mp1_ops)
  have "ring (snd (thread_create_mp1 11 0 200 9000 demo_mp1_one)) [100]"
    by (rule ring_cong [OF r]) (simp_all add: thread_create_mp1_def upd_uthr_def)
  from add_ring [OF this, of 200] show "ring demo_mp1 [100, 200]" by (simp add: demo_mp1_def)
qed

lemma demo_mp1_fields:
  "tsigno (uthr demo_mp1_one 100) = -1" "tsigno (uthr demo_mp1 200) = -1" "tsuspended (uthr demo_mp1 100) = False"
  "tsuspended (uthr demo_mp1 200) = False" "tbuf_set (uthr demo_mp1 200) = False" "tstack_p (uthr demo_mp1 200) = 11032"
  "tsig_handler (uthr demo_mp1 100) 0 = 30" "tsig_handler (uthr demo_mp1 200) 1 = 31" "tstack (uthr demo_mp1 100) = 5000"
  by (simp_all add: mp1_ops)

theorem schedule_fifo_or_diverges_witness:
  "schedule_mp1 demo_mp1 = Some (demo_mp1\<lparr>current_thread := 200\<rparr>) \<and>
   schedule_mp1 (upd_uthr 100 (tsuspended_update (\<lambda>_. True)) demo_mp1_one) = None"
proof -
  let ?s = "upd_uthr 100 (tsuspended_update (\<lambda>_. True)) demo_mp1_one"
  have "ring ?s [100]" using demo_mp1_rings(1) by (simp add: ring_upd)
  from schedule_fifo_or_diverges [OF this] have "schedule_mp1 ?s = None" by (simp add: upd_uthr_def)
  moreover have "schedule_mp1 demo_mp1 = Some (demo_mp1\<lparr>current_thread := 200\<rparr>)"
    using schedule_fifo_or_diverges [OF demo_mp1_rings(2)] by (simp add: demo_mp1_fields)
  ultimately show ?thesis by simp
qed

text \<open>Thread 100 exits while 200 is suspended: 200 runs.\<close>

theorem thread_exit_runs_next_witness:
  "\<exists>v. tsuspended (uthr v 200) \<and> released v = {100, 5000} \<and>
    thread_exit_mp1 (upd_uthr 200 (tsuspended_update (\<lambda>_. True)) demo_mp1) = Some (run_current v) \<and> fst (run_current v) = CallFn 200 11032"
proof -
  let ?s = "upd_uthr 200 (tsuspended_update (\<lambda>_. True)) demo_mp1"
  have r: "ring ?s [100, 200]" using demo_mp1_rings(2) by (simp add: ring_upd)
  have nd: "\<not> doomed ?s 200" by (simp add: doomed_def upd_uthr_def demo_mp1_fields)
  obtain v where v: "thread_exit_mp1 ?s = Some (run_current v)" "ring v [200]" "relinked ?s v" "released v = released ?s \<union> freed ?s [100]"
    using thread_exit_runs_next [OF r] nd by auto
  note R = relinkedD [OF v(3), of 200]
  have c: "current_thread v = 200" using v(2) by (simp add: ring_def)
  have "tsigno (cur v) = -1" "\<not> tbuf_set (cur v)" "tstack_p (cur v) = 11032"
    by (simp_all add: c R) (simp_all add: upd_uthr_def demo_mp1_fields)
  then have "fst (run_current v) = CallFn 200 11032"
    by (simp add: run_current_def dispatch_fn_def Let_def longjmp_to_def upd_uthr_def c)
  moreover have "tsuspended (uthr v 200)" by (simp add: R) (simp add: upd_uthr_def)
  moreover have "released ?s = {}" by (simp add: mp1_ops)
  moreover have "freed ?s [100] = {100, 5000}" by (auto simp: freed_def upd_uthr_def demo_mp1_fields)
  ultimately show ?thesis using v(1,4) by (intro exI [of _ v]) (simp add: insert_commute)
qed

lemma demo_mp1_handlers:
  "\<not> thandler_buf_set (uthr demo_mp1 200)" "tstack_p (uthr demo_mp1 100) = 7032" "tsig_handler (uthr demo_mp1 200) 0 = 30"
  "\<not> thandler_buf_set (uthr demo_mp1_one 100)" "tstack_p (uthr demo_mp1_one 100) = 7032" "\<not> tsuspended (uthr demo_mp1_one 100)"
  "tsig_handler (uthr demo_mp1_one 100) 0 = 30" "tsig_handler (uthr demo_mp1_one 100) 1 = 31" "current_thread demo_mp1_one = 100"
  "tsigno (uthr demo_mp1 100) = -1"
  by (simp_all add: mp1_ops)

text \<open>Thread 200 waits at place 8; 100 sends it signal 0 and yields at place 9.\<close>

theorem signal_is_transparent_witness:
  "\<exists>s s2. ring s [100, 200] \<and> thread_yield_mp1 9 5500 (thread_kill 200 0 s) = Some (CallHandler 200 30 0 11032, s2) \<and>
    ring s2 [200, 100] \<and> fst (handler_returned s2) = Yielded 200 8 9800"
proof -
  let ?s = "upd_uthr 200 (\<lambda>t. t\<lparr>tbuf_set := True, tenv := \<lparr>jsp = 9800, jpoint = AtYield 8\<rparr>\<rparr>) demo_mp1"
  have r: "ring ?s (100 # [] @ 200 # [])" using demo_mp1_rings(2) by (simp add: ring_upd)
  have f: "tsigno (uthr ?s 100) = -1" "tbuf_set (uthr ?s 200)" "tenv (uthr ?s 200) = \<lparr>jsp = 9800, jpoint = AtYield 8\<rparr>"
    "\<not> tsuspended (uthr ?s 200)" "\<not> thandler_buf_set (uthr ?s 200)" "tsig_handler (uthr ?s 200) 0 = 30" "tstack_p (uthr ?s 200) = 11032"
    by (simp_all add: upd_uthr_def demo_mp1_fields demo_mp1_handlers)
  have "\<forall>u \<in> set []. tsuspended (uthr ?s u)" "(0 :: int) \<noteq> -1" "(30 :: int) \<noteq> NULL_FUNC" by (simp_all add: NULL_FUNC_def)
  from signal_is_transparent [OF r this(1) f(1-5) this(2) f(6) this(3), of 9 5500] obtain s2 where
    s2: "thread_yield_mp1 9 5500 (thread_kill 200 0 ?s) = Some (CallHandler 200 30 0 11032, s2)" "ring s2 [200, 100]" "tbuf_set (uthr s2 200)"
      "\<forall>w. current_thread w = 200 \<and> tbuf_set (uthr w 200) \<and> tenv (uthr w 200) = tenv (uthr s2 200) \<longrightarrow>
        handler_returned w = (Yielded 200 8 9800, upd_uthr 200 (\<lambda>t. t\<lparr>tsigno := -1\<rparr>) w)" unfolding f(7) by auto
  have "current_thread s2 = 200" using s2(2) by (simp add: ring_def)
  then have "fst (handler_returned s2) = Yielded 200 8 9800" using s2(3,4) by simp
  then show ?thesis using s2(1,2) r by auto
qed

text \<open>Thread 100, alone and last saved at place 3, signals itself at place 7; 200, which has handled a signal, gets a second one.\<close>

theorem signal_defects_witness:
  "\<exists>s s1 s2 s3 t t1. tenv (uthr s 100) = \<lparr>jsp = 6000, jpoint = AtYield 3\<rparr> \<and>
    thread_yield_mp1 7 5500 (thread_kill 100 0 s) = Some (CallHandler 100 30 0 7032, s1) \<and>
    handler_returned s1 = (Yielded 100 3 6000, s2) \<and>
    thread_yield_mp1 9 5400 (thread_kill 100 1 s2) = Some (Yielded 100 9 5400, s3) \<and>
    thread_yield_mp1 9 5400 (thread_kill 200 1 t) = Some (Wild 200, t1)"
proof -
  let ?s = "upd_uthr 100 (\<lambda>t. t\<lparr>tbuf_set := True, tenv := \<lparr>jsp = 6000, jpoint = AtYield 3\<rparr>\<rparr>) demo_mp1_one"
  let ?t = "upd_uthr 200 (\<lambda>t. t\<lparr>thandler_buf_set := True, thandler_env := \<lparr>jsp = 11032, jpoint = AtHandler\<rparr>\<rparr>) demo_mp1"
  have r: "ring ?s (100 # [])" "ring ?t (100 # [] @ 200 # [])" using demo_mp1_rings by (simp_all add: ring_upd)
  have n: "\<forall>u \<in> set []. tsuspended (uthr x u)" for x by simp
  have f: "tbuf_set (uthr ?s 100)" "\<not> tsuspended (uthr ?s 100)" "\<not> thandler_buf_set (uthr ?s 100)" "(0 :: int) \<noteq> -1"
    "tsig_handler (uthr ?s 100) 0 = 30" "(30 :: int) \<noteq> NULL_FUNC" "(1 :: int) \<noteq> -1" "tsig_handler (uthr ?s 100) 1 \<noteq> NULL_FUNC"
    by (simp_all add: upd_uthr_def demo_mp1_handlers NULL_FUNC_def)
  have g: "tsigno (uthr ?t 100) = -1" "\<not> tsuspended (uthr ?t 200)" "thandler_buf_set (uthr ?t 200)"
    "jpoint (thandler_env (uthr ?t 200)) = AtHandler" "tsig_handler (uthr ?t 200) 1 \<noteq> NULL_FUNC"
    by (simp_all add: upd_uthr_def demo_mp1_fields demo_mp1_handlers NULL_FUNC_def)
  have v: "tstack_p (uthr ?s 100) = 7032" "tenv (uthr ?s 100) = \<lparr>jsp = 6000, jpoint = AtYield 3\<rparr>" "current_thread ?s = 100"
    by (simp_all add: upd_uthr_def demo_mp1_handlers)
  then have l: "longjmp_to (tenv (uthr ?s 100)) ?s = Yielded 100 3 6000" by (simp add: longjmp_to_def)
  from signal_defects [OF r(1) n f r(2) n g, of 7 5500 9 5400] show ?thesis unfolding l v(1) using v(2) by blast
qed

end
