(* ===== verification/Blocks.thy ===== *)
theory Blocks
  imports Log
begin

text \<open>
  The bottom layer of the file system (mp4/kernel/fs.c): the super block and the allocation of disk
  blocks in the free map. Every access goes through the buffer cache and the log, so the lemmas
  speak of \<open>view\<close>, the disk as the running system sees it. An operation runs inside a
  transaction: \<open>in_tx\<close>.
\<close>

unbundle bit_operations_syntax

section \<open>State\<close>

text \<open>The super block, as the unsigned values of its fields.\<close>

record superblock =
  magic :: nat
  sb_size :: nat
  nblocks :: nat
  ninodes :: nat
  nlog :: nat
  logstart :: nat
  inodestart :: nat
  bmapstart :: nat

text \<open>A pointer into \<open>icache\<close> is the index of the entry plus one; 0 is the null pointer.\<close>

record inode =
  idev :: nat
  inum :: nat
  iref :: int
  ilocked :: bool
  ivalid :: bool
  itype :: u16
  imajor :: u16
  imode :: u16
  inlink :: u16
  isize :: u32
  iaddrs :: "nat \<Rightarrow> u32"

record fs_state = log_state +
  sb :: superblock
  icache :: "nat \<Rightarrow> inode"

definition FSMAGIC :: nat where "FSMAGIC = 0x10203040"
definition BPB :: nat where "BPB = BSIZE * 8"

definition BBLOCK :: "nat \<Rightarrow> 'a fs_state_scheme \<Rightarrow> nat" where
  "BBLOCK b s = b div BPB + bmapstart (sb s)"

section \<open>Operations\<close>

definition readsb :: "nat \<Rightarrow> 'a fs_state_scheme \<Rightarrow> 'a fs_state_scheme res" where
  "readsb dev s =
     rbind (bread dev 1 s) (\<lambda>(bp, s1).
     let w = (\<lambda>k. unat (get32 (bdata (bufs s1 bp)) (4 * k))) in
     brelse bp (s1\<lparr>sb := \<lparr>magic = w 0, sb_size = w 1, nblocks = w 2, ninodes = w 3, nlog = w 4,
                         logstart = w 5, inodestart = w 6, bmapstart = w 7\<rparr>\<rparr>))"

definition fsinit :: "nat \<Rightarrow> 'a fs_state_scheme \<Rightarrow> 'a fs_state_scheme res" where
  "fsinit dev s =
     rbind (readsb dev s) (\<lambda>s1.
     if magic (sb s1) \<noteq> FSMAGIC then Inl (Panic ''invalid file system'')
     else initlog dev (logstart (sb s1)) (nlog (sb s1)) s1)"

text \<open>\<open>memset(bp->data, 0, BSIZE)\<close>: a block has no bytes from \<open>BSIZE\<close> on.\<close>

definition bzero :: "nat \<Rightarrow> nat \<Rightarrow> 'a fs_state_scheme \<Rightarrow> 'a fs_state_scheme res" where
  "bzero dev bno s =
     rbind (bread dev bno s) (\<lambda>(bp, s1).
     rbind (log_write bp (set_bdata bp (\<lambda>_. 0) s1)) (\<lambda>s2.
     brelse bp s2))"

text \<open>The bit \<open>1 << (bi % 8)\<close> of byte \<open>bi / 8\<close>.\<close>

definition bmask :: "nat \<Rightarrow> u8" where
  "bmask bi = push_bit (bi mod 8) 1"

definition in_use_bit :: "block \<Rightarrow> nat \<Rightarrow> bool" where
  "in_use_bit d bi \<longleftrightarrow> d (bi div 8) AND bmask bi \<noteq> 0"

definition set_use :: "nat \<Rightarrow> block \<Rightarrow> block" where
  "set_use bi d = d(bi div 8 := d (bi div 8) OR bmask bi)"

definition clear_use :: "nat \<Rightarrow> block \<Rightarrow> block" where
  "clear_use bi d = d(bi div 8 := d (bi div 8) AND NOT (bmask bi))"

text \<open>The outer loop visits one block of the free map per element of the list.\<close>

primrec balloc_scan :: "nat \<Rightarrow> nat list \<Rightarrow> 'a fs_state_scheme \<Rightarrow> (nat \<times> 'a fs_state_scheme) res" where
  "balloc_scan dev [] s = Inl (Panic ''balloc: out of blocks'')"
| "balloc_scan dev (b # bs) s =
     rbind (bread dev (BBLOCK b s) s) (\<lambda>(bp, s1).
     case List.find (\<lambda>bi. b + bi < sb_size (sb s1) \<and> \<not> in_use_bit (bdata (bufs s1 bp)) bi) [0..<BPB] of
       Some bi \<Rightarrow>
         rbind (log_write bp (set_bdata bp (set_use bi (bdata (bufs s1 bp))) s1)) (\<lambda>s2.
         rbind (brelse bp s2) (\<lambda>s3.
         rbind (bzero dev (b + bi) s3) (\<lambda>s4. Inr (b + bi, s4))))
     | None \<Rightarrow> rbind (brelse bp s1) (balloc_scan dev bs))"

definition balloc :: "nat \<Rightarrow> 'a fs_state_scheme \<Rightarrow> (nat \<times> 'a fs_state_scheme) res" where
  "balloc dev s = balloc_scan dev (map (\<lambda>k. k * BPB) [0..<(sb_size (sb s) + BPB - 1) div BPB]) s"

definition bfree :: "nat \<Rightarrow> nat \<Rightarrow> 'a fs_state_scheme \<Rightarrow> 'a fs_state_scheme res" where
  "bfree dev b s =
     rbind (bread dev (BBLOCK b s) s) (\<lambda>(bp, s1).
     let bi = b mod BPB in
     if \<not> in_use_bit (bdata (bufs s1 bp)) bi then Inl (Panic ''freeing free block'')
     else
       rbind (log_write bp (set_bdata bp (clear_use bi (bdata (bufs s1 bp))) s1)) (\<lambda>s2.
       brelse bp s2))"

section \<open>Block accesses inside a transaction\<close>

text \<open>\<open>in_log n B s\<close>: the log is consistent and has room for the blocks \<open>B\<close> and \<open>n\<close> others. A block
  that is logged already takes no more room (absorption). \<open>in_tx\<close>: a transaction is open, too.\<close>

definition in_log :: "nat \<Rightarrow> nat set \<Rightarrow> 'a log_state_scheme \<Rightarrow> bool" where
  "in_log n B s \<longleftrightarrow> log_ok s \<and> finite B \<and> card (homes s \<union> B) + n + 1 < log_size s"

definition in_tx :: "nat \<Rightarrow> nat set \<Rightarrow> 'a log_state_scheme \<Rightarrow> bool" where
  "in_tx n B s \<longleftrightarrow> in_log n B s \<and> 1 \<le> outstanding s"

definition unheld :: "'a log_state_scheme \<Rightarrow> nat \<Rightarrow> bool" where
  "unheld s b \<longleftrightarrow> (\<forall>i \<in> lock_set s. blockno (bufs s i) \<noteq> b)"

text \<open>What an access that ends with the locks \<open>L\<close> leaves alone: everything but the cache and the log,
  and in the cache the buffers it does not own.\<close>

definition tx_step :: "nat set \<Rightarrow> 'a log_state_scheme \<Rightarrow> 'a log_state_scheme \<Rightarrow> bool" where
  "tx_step L s t \<longleftrightarrow> disk t = disk s \<and> outstanding t = outstanding s \<and> committing t = committing s \<and>
     log_start t = log_start s \<and> log_size t = log_size s \<and> log_state.more t = log_state.more s \<and>
     homes s \<subseteq> homes t \<and> lock_set t = L \<and> (\<forall>i \<in> lock_set s \<inter> L. bufs t i = bufs s i)"

definition tx_frame :: "'a log_state_scheme \<Rightarrow> 'a log_state_scheme \<Rightarrow> bool" where
  "tx_frame s t \<longleftrightarrow> tx_step (lock_set s) s t"

lemma in_logD:
  assumes "in_log n B s"
  shows "log_ok s" "finite B" "card (homes s \<union> B) + n + 1 < log_size s" "quiet s"
    "bc_ok s (home_pins s)" "log_size s \<le> LOGSIZE" "lh_n s \<le> card (homes s \<union> B)"
proof -
  show "log_ok s" "finite B" "card (homes s \<union> B) + n + 1 < log_size s"
    using assms by (simp_all add: in_log_def)
  then show "quiet s" "bc_ok s (home_pins s)" "log_size s \<le> LOGSIZE" by (simp_all add: log_ok_def)
  have "finite (homes s)" by (simp add: homes_def)
  with card_homes [OF \<open>log_ok s\<close>] \<open>finite B\<close> show "lh_n s \<le> card (homes s \<union> B)"
    by (metis Un_upper1 card_mono finite_Un)
qed

lemma in_txD:
  assumes "in_tx n B s"
  shows "in_log n B s" "1 \<le> outstanding s" "log_ok s" "finite B" "card (homes s \<union> B) + n + 1 < log_size s"
    "bc_ok s (home_pins s)" "lh_n s \<le> card (homes s \<union> B)"
  using assms in_logD [of n B s] by (simp_all add: in_tx_def)

lemma finite_homes [simp]: "finite (homes s)"
  by (simp add: homes_def)

lemma in_log_mono:
  assumes "in_log n B s" and "m \<le> n" and "C \<subseteq> B"
  shows "in_log m C s"
proof -
  have "finite C" using assms(1,3) by (auto simp: in_log_def intro: finite_subset)
  moreover have "card (homes s \<union> C) \<le> card (homes s \<union> B)"
    using assms(1,3) by (intro card_mono) (auto simp: in_log_def)
  ultimately show ?thesis using assms(1,2) by (simp add: in_log_def)
qed

lemma in_tx_mono: "in_tx n B s \<Longrightarrow> m \<le> n \<Longrightarrow> C \<subseteq> B \<Longrightarrow> in_tx m C s"
  using in_log_mono by (auto simp: in_tx_def)

lemma in_tx_insert:
  assumes "in_tx (Suc n) B s"
  shows "in_tx n (insert b B) s"
proof -
  have "card (homes s \<union> insert b B) \<le> Suc (card (homes s \<union> B))"
    using assms by (simp add: in_tx_def in_log_def card_insert_le_m1 card_insert_if)
  then show ?thesis using assms by (simp add: in_tx_def in_log_def)
qed

lemma tx_frame_refl [simp]: "tx_frame s s"
  by (simp add: tx_frame_def tx_step_def)

lemma tx_step_trans:
  "tx_step L s t \<Longrightarrow> tx_step M t u \<Longrightarrow> lock_set s \<inter> M \<subseteq> L \<Longrightarrow> tx_step M s u"
  by (auto simp: tx_step_def)

lemma tx_frame_trans: "tx_frame s t \<Longrightarrow> tx_frame t u \<Longrightarrow> tx_frame s u"
  by (auto simp: tx_frame_def tx_step_def)

lemma tx_stepD:
  assumes "tx_step L s t"
  shows "disk t = disk s" "lock_set t = L" "log_state.more t = log_state.more s"
    "log_start t = log_start s" "log_size t = log_size s" "outstanding t = outstanding s"
    "homes s \<subseteq> homes t" "i \<in> lock_set s \<Longrightarrow> i \<in> L \<Longrightarrow> bufs t i = bufs s i"
  using assms by (simp_all add: tx_step_def)

lemmas tx_frameD = tx_stepD [OF tx_frame_def [THEN iffD1]]

lemma finite_lock_set [simp]: "finite (lock_set s)"
  by (simp add: lock_set_def)

lemma homes_more: "bcache.more t = bcache.more s \<Longrightarrow> homes t = homes s"
  using more_fields [of t s] by (simp add: homes_def)

lemma home_pins_cong: "homes t = homes s \<Longrightarrow> home_pins t = home_pins s"
  by (rule ext) (simp add: home_pins_def)

lemma log_ok_env:
  assumes "log_ok s" and "same_env s t" and "bc_ok t (home_pins s)"
  shows "log_ok t"
proof -
  note e = same_envD [OF assms(2)] and m = more_fields [OF same_envD(3) [OF assms(2)]]
  have h: "homes t = homes s" by (rule homes_more [OF e(3)])
  have "log_area t = log_area s" by (simp add: log_area_def m)
  then show ?thesis
    using assms(1,3) h home_pins_cong [OF h] by (simp add: log_ok_def m e)
qed

lemma tx_step_env:
  assumes "same_env s t" and "\<And>j. j \<in> lock_set s \<Longrightarrow> j \<in> lock_set t \<Longrightarrow> bufs t j = bufs s j"
  shows "tx_step (lock_set t) s t"
  using same_envD [OF assms(1)] more_fields [OF same_envD(3) [OF assms(1)]]
    homes_more [OF same_envD(3) [OF assms(1)]] assms(2)
  by (simp add: tx_step_def)

lemma in_log_env:
  assumes "in_log n B s" and "same_env s t" and "log_ok t"
  shows "in_log n B t"
  using assms same_envD [OF assms(2)] more_fields [OF same_envD(3) [OF assms(2)]] homes_more [of t s]
  by (simp add: in_log_def)

lemma view_unheld:
  assumes ok: "log_ok s" and b: "b \<notin> homes s" and u: "unheld s b"
  shows "view s b = disk s b"
proof -
  have bc: "bc_ok s (home_pins s)" using ok by (simp add: log_ok_def)
  then have cok: "cache_ok s (pins_of (home_pins s) s)" by (simp add: bc_ok_def)
  show ?thesis
  proof (cases "cached_at s b")
    case (Some i)
    note c = cached_at_Some [OF cok Some]
    have "\<not> locked (bufs s i)" using u c(1,3) by (auto simp: unheld_def lock_set_def)
    moreover have "pins_of (home_pins s) s i = 0" using b c by (simp add: pins_of_def home_pins_def)
    ultimately show ?thesis using cache_okD(7) [OF cok c(1)] c Some by (simp add: view_def)
  qed (simp add: view_def)
qed

lemma held_data:
  assumes "log_ok t" and "held t i b"
  shows "bdata (bufs t i) = view t b"
proof -
  have "cache_ok t (pins_of (home_pins t) t)" using assms(1) by (simp add: log_ok_def bc_ok_def)
  from view_buf [OF this heldD(1,4,3) [OF assms(2)]] show ?thesis using heldD(5) [OF assms(2)] by simp
qed

text \<open>Buffer \<open>i\<close> has been obtained for block \<open>b\<close>.\<close>

definition taken :: "'a log_state_scheme \<Rightarrow> nat \<Rightarrow> nat \<Rightarrow> 'a log_state_scheme \<Rightarrow> bool" where
  "taken s b i t \<longleftrightarrow> held t i b \<and> i \<notin> lock_set s \<and> tx_step (insert i (lock_set s)) s t \<and>
     view t = view s \<and> homes t = homes s \<and> (b \<in> homes s \<or> view s b = disk s b)"

lemma log_read:
  assumes tx: "in_log n B s" and b: "b < DISK1_START_BLOCK" and u: "unheld s b" and few: "card (lock_set s) \<le> 1"
  shows "\<exists>i t. bread ROOTDEV b s = Inr (i, t) \<and> taken s b i t \<and> in_log n B t \<and> bdata (bufs t i) = view s b"
proof -
  note D = in_logD [OF tx]
  have pc: "home_pins s c \<noteq> -1" for c by (simp add: home_pins_def)
  have "card (homes s) + card (lock_set s) < NBUF"
    using D(3,6,7) few card_homes [OF D(1)] by (simp add: LOGSIZE_def MAXOPBLOCKS_def NBUF_def)
  then have "room_for s (home_pins s) b"
    using b D(4) u pc by (auto simp: room_for_def unheld_def lock_set_def)
  from bread_spec [OF D(5) this] obtain i t where t: "bread ROOTDEV b s = Inr (i, t)" "bc_ok t (home_pins s)"
    "held t i b" "bdata (bufs t i) = view s b" "view t = view s" "same_env s t" "i \<notin> lock_set s"
    "lock_set t = insert i (lock_set s)" "\<forall>j. j \<noteq> i \<longrightarrow> bufs t j = bufs s j" by blast
  have ok: "log_ok t" by (rule log_ok_env [OF D(1) t(6,2)])
  have "\<forall>j \<in> lock_set s. bufs t j = bufs s j" using t(7,9) by metis
  then have "tx_step (insert i (lock_set s)) s t" using tx_step_env [OF t(6)] t(8) by auto
  moreover have "b \<in> homes s \<or> view s b = disk s b" using view_unheld [OF D(1) _ u] by blast
  moreover have "homes t = homes s" by (rule homes_more [OF same_envD(3) [OF t(6)]])
  ultimately show ?thesis using t in_log_env [OF tx t(6) ok] by (auto simp: taken_def)
qed

lemma takenD:
  assumes "taken s b i t"
  shows "held t i b" "i \<notin> lock_set s" "lock_set t = insert i (lock_set s)" "tx_step (insert i (lock_set s)) s t"
    "view t = view s" "b \<in> homes s \<or> view s b = disk s b" "homes t = homes s"
  using assms by (simp_all add: taken_def tx_step_def)

text \<open>Giving a buffer back: the block must be logged or unchanged.\<close>

lemma log_hold_release:
  assumes tx: "in_log n B t" and h: "held t i b" and clean: "b \<in> homes t \<or> view t b = disk t b"
  shows "\<exists>u. brelse i t = Inr u \<and> in_log n B u \<and> view u = view t \<and> homes u = homes t \<and> tx_step (lock_set t - {i}) t u"
proof -
  note D = in_logD [OF tx]
  have "home_pins t b \<noteq> 0 \<or> bdata (bufs t i) = disk t b"
    using clean held_data [OF D(1) h] by (auto simp: home_pins_def)
  from bc_release [where pc = "home_pins t", OF D(5) h this] obtain u where u: "brelse i t = Inr u" "bc_ok u (home_pins t)"
    "view u = view t" "same_env t u" "lock_set u = lock_set t - {i}" "\<forall>j. j \<noteq> i \<longrightarrow> bufs u j = bufs t j"
    by blast
  have ok: "log_ok u" by (rule log_ok_env [OF D(1) u(4,2)])
  have "tx_step (lock_set u) t u" by (rule tx_step_env [OF u(4)]) (use u(5,6) in auto)
  then show ?thesis
    using u(1,3,5) in_log_env [OF tx u(4) ok] homes_more [OF same_envD(3) [OF u(4)]] by auto
qed

text \<open>Changing a block: the new contents are visible at once, the disk is untouched.\<close>

lemma hold_update:
  assumes tx: "in_tx n B t" and h: "held t i b" and b: "data_block t b" "b \<in> B"
  shows "\<exists>u v. log_write i (set_bdata i d t) = Inr u \<and> brelse i u = Inr v \<and> in_tx n B v \<and>
    view v = (view t)(b := d) \<and> homes v = insert b (homes t) \<and> tx_step (lock_set t - {i}) t v"
proof -
  note D = in_txD [OF tx]
  define t1 where "t1 = set_bdata i d t"
  note sd = bc_set_data [OF D(6) h, of d, folded t1_def]
  have ok1: "log_ok t1" by (rule log_ok_env [OF D(3) sd(3,1)])
  note e1 = same_envD [OF sd(3)]
  note m1 = more_fields [OF e1(3)]
  have hd: "held t1 i b" using sd(5) h by simp
  have h1: "homes t1 = homes t" by (rule homes_more [OF e1(3)])
  have db: "data_block t1 b" using b(1) m1 by (simp add: data_block_def log_area_def)
  have room: "lh_n t1 + 1 < log_size t1" "1 \<le> outstanding t1" using D(2,5,7) m1 by simp_all
  note lw = log_write_spec [OF ok1 hd db room]
  then obtain u where w: "log_write i t1 = Inr u" by blast
  have u: "log_ok u" "homes u = insert b (homes t1)" "view u = view t1" "disk u = disk t1" "lock_set u = lock_set t1"
    "held u j c = held t1 j c" "outstanding u = outstanding t1"
    "committing u = committing t1" "log_start u = log_start t1" "log_size u = log_size t1"
    "log_state.more u = log_state.more t1" for j c
    using lw w by simp_all
  have bu: "\<forall>j. j \<noteq> i \<longrightarrow> bufs u j = bufs t1 j"
    using w by (auto simp: log_write_def Let_def bpin_def split: if_splits)
  have hu: "held u i b" using u(6) hd by simp
  have "home_pins u b \<noteq> 0" using u(2) by (simp add: home_pins_def)
  then obtain v where v: "brelse i u = Inr v" "bc_ok v (home_pins u)" "view v = view u" "same_env u v"
    "lock_set v = lock_set u - {i}" "\<forall>j. j \<noteq> i \<longrightarrow> bufs v j = bufs u j"
    using bc_release [OF _ hu, of "home_pins u"] u(1) by (auto simp: log_ok_def)
  have okv: "log_ok v" by (rule log_ok_env [OF u(1) v(4,2)])
  note ev = same_envD [OF v(4)] and mv = more_fields [OF same_envD(3) [OF v(4)]]
  have hv: "homes v = insert b (homes t)" using homes_more [OF ev(3)] u(2) h1 by simp
  have l: "lock_set v = lock_set t - {i}" using v(5) u(5) sd(4) by auto
  have "bufs v j = bufs t j" if "j \<in> lock_set t - {i}" for j
    using v(6) bu sd(6) that by auto
  then have "tx_step (lock_set t - {i}) t v"
    using ev(1) mv u(4,7-11) e1(1) m1 l hv by (auto simp: tx_step_def)
  moreover have "in_tx n B v"
  proof -
    have "homes v \<union> B = homes t \<union> B" using hv b(2) by auto
    then show ?thesis using okv D u(7,10) mv m1 by (simp add: in_tx_def in_log_def)
  qed
  moreover have "view v = (view t)(b := d)" using v(3) u(3) sd(2) by simp
  ultimately show ?thesis using w v(1) hv by (auto simp: t1_def)
qed

lemma log_release:
  assumes tx: "in_log n B t" and g: "taken s b i t"
  shows "\<exists>u. brelse i t = Inr u \<and> in_log n B u \<and> view u = view s \<and> homes u = homes s \<and> tx_frame s u"
proof -
  note T = takenD [OF g]
  have "b \<in> homes t \<or> view t b = disk t b" using T(5,6,7) tx_stepD(1) [OF T(4)] by simp
  from log_hold_release [OF tx T(1) this] obtain u where u: "brelse i t = Inr u" "in_log n B u" "view u = view t"
    "homes u = homes t" "tx_step (lock_set t - {i}) t u" by blast
  have "lock_set t - {i} = lock_set s" using T(2,3) by auto
  then have "tx_frame s u" using tx_step_trans [OF T(4) u(5)] by (auto simp: tx_frame_def)
  then show ?thesis using u T(5,7) by auto
qed

text \<open>The same inside a transaction, which no access closes.\<close>

lemma tx_read:
  assumes tx: "in_tx n B s" and b: "b < DISK1_START_BLOCK" and u: "unheld s b" and few: "card (lock_set s) \<le> 1"
  shows "\<exists>i t. bread ROOTDEV b s = Inr (i, t) \<and> taken s b i t \<and> in_tx n B t \<and> bdata (bufs t i) = view s b"
proof -
  obtain i t where t: "bread ROOTDEV b s = Inr (i, t)" "taken s b i t" "in_log n B t" "bdata (bufs t i) = view s b"
    using log_read [OF in_txD(1) [OF tx] b u few] by blast
  then show ?thesis using in_txD(2) [OF tx] tx_stepD(6) [OF takenD(4) [OF t(2)]] by (auto simp: in_tx_def)
qed

lemma hold_release:
  assumes tx: "in_tx n B t" and h: "held t i b" and clean: "b \<in> homes t \<or> view t b = disk t b"
  shows "\<exists>u. brelse i t = Inr u \<and> in_tx n B u \<and> view u = view t \<and> homes u = homes t \<and> tx_step (lock_set t - {i}) t u"
  using log_hold_release [OF in_txD(1) [OF tx] h clean] in_txD(2) [OF tx] tx_stepD(6) by (fastforce simp: in_tx_def)

lemma tx_release:
  assumes tx: "in_tx n B t" and g: "taken s b i t"
  shows "\<exists>u. brelse i t = Inr u \<and> in_tx n B u \<and> view u = view s \<and> homes u = homes s \<and> tx_frame s u"
proof -
  obtain u where u: "brelse i t = Inr u" "in_log n B u" "view u = view s" "homes u = homes s" "tx_frame s u"
    using log_release [OF in_txD(1) [OF tx] g] by blast
  have "outstanding u = outstanding t" using tx_frameD(6) [OF u(5)] tx_stepD(6) [OF takenD(4) [OF g]] by simp
  then show ?thesis using u in_txD(2) [OF tx] by (auto simp: in_tx_def)
qed

lemma tx_update:
  assumes tx: "in_tx n B t" and g: "taken s b i t" and b: "data_block s b" "b \<in> B"
  shows "\<exists>u v. log_write i (set_bdata i d t) = Inr u \<and> brelse i u = Inr v \<and>
    in_tx n B v \<and> view v = (view s)(b := d) \<and> tx_frame s v \<and> homes v = insert b (homes s)"
proof -
  note T = takenD [OF g]
  have "data_block t b" using b(1) tx_stepD(4,5) [OF T(4)] by (simp add: data_block_def log_area_def)
  from hold_update [OF tx T(1) this b(2), of d] obtain u v where u: "log_write i (set_bdata i d t) = Inr u"
    "brelse i u = Inr v" "in_tx n B v" "view v = (view t)(b := d)" "homes v = insert b (homes t)"
    "tx_step (lock_set t - {i}) t v" by blast
  have "lock_set t - {i} = lock_set s" using T(2,3) by auto
  then have "tx_frame s v" using tx_step_trans [OF T(4) u(6)] by (auto simp: tx_frame_def)
  then show ?thesis using u T(5,7) by auto
qed

lemma fs_more:
  assumes "log_state.more t = log_state.more (s :: 'a fs_state_scheme)"
  shows "sb t = sb s" "icache t = icache s" "fs_state.more t = fs_state.more s"
  using assms by (cases s, cases t, simp)+

lemma tx_step_fs:
  fixes s :: "'a fs_state_scheme"
  assumes "tx_step L s t"
  shows "sb t = sb s" "icache t = icache s" "fs_state.more t = fs_state.more s" "BBLOCK b t = BBLOCK b s"
    "data_block t b = data_block s b" "log_area t = log_area s"
proof -
  note D = tx_stepD [OF assms]
  note m = fs_more [OF D(3)]
  show "sb t = sb s" "icache t = icache s" "fs_state.more t = fs_state.more s" by (rule m)+
  then show "BBLOCK b t = BBLOCK b s" by (simp add: BBLOCK_def)
  show l: "log_area t = log_area s" by (simp add: log_area_def D)
  then show "data_block t b = data_block s b" by (simp add: data_block_def)
qed

lemmas tx_frame_fs = tx_step_fs [OF tx_frame_def [THEN iffD1]]
lemmas taken_fs = tx_step_fs [OF takenD(4)]

lemma tx_frame_unheld: "tx_frame s t \<Longrightarrow> unheld t b = unheld s b"
  by (simp add: unheld_def tx_frame_def tx_step_def)

section \<open>The free map\<close>

lemma in_use_bit_iff: "in_use_bit d i \<longleftrightarrow> bit (d (i div 8)) (i mod 8)"
proof
  assume "in_use_bit d i"
  then have "d (i div 8) AND bmask i \<noteq> 0" by (simp add: in_use_bit_def)
  then obtain n where "bit (d (i div 8) AND bmask i) n" by (auto simp: bit_eq_iff)
  then show "bit (d (i div 8)) (i mod 8)" by (auto simp: bmask_def bit_simps)
next
  assume "bit (d (i div 8)) (i mod 8)"
  then have "bit (d (i div 8) AND bmask i) (i mod 8)" by (simp add: bmask_def bit_simps)
  then show "in_use_bit d i" by (auto simp: in_use_bit_def)
qed

lemma same_bit: "i div 8 = j div 8 \<Longrightarrow> i mod 8 = j mod 8 \<longleftrightarrow> i = (j :: nat)"
  by (metis mult_div_mod_eq)

lemma bit_bmask: "bit (bmask i) n \<longleftrightarrow> n = i mod 8"
  by (auto simp: bmask_def bit_simps)

lemma set_use_bit: "in_use_bit (set_use i d) j \<longleftrightarrow> i = j \<or> in_use_bit d j"
proof (cases "i div 8 = j div 8")
  case True
  then have "in_use_bit (set_use i d) j \<longleftrightarrow> bit (d (j div 8)) (j mod 8) \<or> j mod 8 = i mod 8"
    by (simp add: in_use_bit_iff set_use_def bit_or_iff bit_bmask)
  then show ?thesis using same_bit [OF True] by (auto simp: in_use_bit_iff)
qed (auto simp: in_use_bit_iff set_use_def)

lemma clear_use_bit: "in_use_bit (clear_use i d) j \<longleftrightarrow> i \<noteq> j \<and> in_use_bit d j"
proof (cases "i div 8 = j div 8")
  case True
  have "j mod 8 < 8" by simp
  with True have "in_use_bit (clear_use i d) j \<longleftrightarrow> bit (d (j div 8)) (j mod 8) \<and> j mod 8 \<noteq> i mod 8"
    by (simp add: in_use_bit_iff clear_use_def bit_and_iff bit_not_iff bit_bmask)
  then show ?thesis using same_bit [OF True] by (auto simp: in_use_bit_iff)
qed (auto simp: in_use_bit_iff clear_use_def)

definition free_block :: "'a fs_state_scheme \<Rightarrow> nat \<Rightarrow> bool" where
  "free_block s b \<longleftrightarrow> b < sb_size (sb s) \<and> \<not> in_use_bit (view s (BBLOCK b s)) (b mod BPB)"

text \<open>The free map lies among the data blocks and covers itself, the boot block and the log: their
  bits are set.\<close>

definition layout_ok :: "'a fs_state_scheme \<Rightarrow> bool" where
  "layout_ok s \<longleftrightarrow> sb_size (sb s) \<le> DISK1_START_BLOCK \<and>
     (\<forall>b. b < sb_size (sb s) \<longrightarrow> data_block s (BBLOCK b s)) \<and>
     (\<forall>b. free_block s b \<longrightarrow> b \<noteq> 0 \<and> data_block s b \<and> (\<forall>c. c < sb_size (sb s) \<longrightarrow> BBLOCK c s \<noteq> b))"

lemma bmap_block: "layout_ok s \<Longrightarrow> b < sb_size (sb s) \<Longrightarrow> BBLOCK b s = bmapstart (sb s)"
  by (simp add: layout_ok_def BBLOCK_def BPB_def BSIZE_def DISK1_START_BLOCK_def FSSIZE_def)

lemma bzero_spec:
  assumes tx: "in_tx n B s" and b: "data_block s b" "b \<in> B" and u: "unheld s b" and few: "card (lock_set s) \<le> 1"
  shows "\<exists>t. bzero ROOTDEV b s = Inr t \<and> in_tx n B t \<and> view t = (view s)(b := \<lambda>_. 0) \<and> tx_frame s t"
proof -
  have lt: "b < DISK1_START_BLOCK" using b by (simp add: data_block_def)
  obtain i t where r: "bread ROOTDEV b s = Inr (i, t)" "taken s b i t" "in_tx n B t"
    using tx_read [OF tx lt u few] by blast
  from tx_update [OF r(3,2) b, of "\<lambda>_. 0"] show ?thesis using r(1) by (auto simp: bzero_def)
qed

text \<open>Reading a block and changing it.\<close>

lemma block_update:
  assumes tx: "in_tx n B s" and b: "data_block s m" "m \<in> B" and u: "unheld s m" and few: "card (lock_set s) \<le> 1"
  shows "\<exists>i t u v. bread ROOTDEV m s = Inr (i, t) \<and> bdata (bufs t i) = view s m \<and> taken s m i t \<and>
    log_write i (set_bdata i d t) = Inr u \<and> brelse i u = Inr v \<and> in_tx n B v \<and> view v = (view s)(m := d) \<and>
    tx_frame s v"
proof -
  have lt: "m < DISK1_START_BLOCK" using b by (simp add: data_block_def)
  obtain i t where r: "bread ROOTDEV m s = Inr (i, t)" "taken s m i t" "in_tx n B t" "bdata (bufs t i) = view s m"
    using tx_read [OF tx lt u few] by blast
  from tx_update [OF r(3,2) b, of d] show ?thesis using r by blast
qed

lemma bfree_spec:
  assumes tx: "in_tx n B s" and lay: "layout_ok s" and b: "b < sb_size (sb s)" "bmapstart (sb s) \<in> B"
    and u: "unheld s (bmapstart (sb s))" and few: "card (lock_set s) \<le> 1"
  shows "if free_block s b then bfree ROOTDEV b s = Inl (Panic ''freeing free block'')
    else \<exists>t. bfree ROOTDEV b s = Inr t \<and> in_tx n B t \<and> tx_frame s t \<and>
      view t = (view s)(BBLOCK b s := clear_use (b mod BPB) (view s (BBLOCK b s)))"
proof -
  note m = bmap_block [OF lay b(1)]
  have d: "data_block s (BBLOCK b s)" using lay b(1) by (simp add: layout_ok_def)
  from block_update [OF tx d _ _ few, of "clear_use (b mod BPB) (view s (BBLOCK b s))"] b(2) u
  obtain i t v w where r: "bread ROOTDEV (BBLOCK b s) s = Inr (i, t)" "bdata (bufs t i) = view s (BBLOCK b s)"
    "log_write i (set_bdata i (clear_use (b mod BPB) (view s (BBLOCK b s))) t) = Inr v" "brelse i v = Inr w"
    "in_tx n B w" "view w = (view s)(BBLOCK b s := clear_use (b mod BPB) (view s (BBLOCK b s)))" "tx_frame s w"
    unfolding m by blast
  show ?thesis using b r by (simp add: bfree_def free_block_def Let_def)
qed

lemma BPB_pos: "0 < BPB"
  by (simp add: BPB_def BSIZE_def)

lemma BBLOCK_mult: "m mod BPB = 0 \<Longrightarrow> bi < BPB \<Longrightarrow> BBLOCK (m + bi) s = BBLOCK m s \<and> (m + bi) mod BPB = bi"
proof -
  assume "m mod BPB = 0" "bi < BPB"
  then obtain q where m: "m = q * BPB" by (metis mod_eq_0_iff_dvd dvdE mult.commute)
  have "(q * BPB + bi) div BPB = q" "(q * BPB) div BPB = q" "(q * BPB + bi) mod BPB = bi"
    using \<open>bi < BPB\<close> by simp_all
  then show ?thesis by (simp add: m BBLOCK_def)
qed

lemma balloc_scan_spec:
  assumes "in_tx (Suc n) B s" and "layout_ok s" and "bmapstart (sb s) \<in> B" and "unheld s (bmapstart (sb s))"
    and "\<And>b. free_block s b \<Longrightarrow> unheld s b" and "card (lock_set s) \<le> 1"
    and "\<forall>m \<in> set ms. m mod BPB = 0 \<and> m < sb_size (sb s)"
  shows "if \<exists>m \<in> set ms. \<exists>bi < BPB. free_block s (m + bi)
    then \<exists>b t. balloc_scan ROOTDEV ms s = Inr (b, t) \<and> free_block s b \<and> in_tx n (insert b B) t \<and> tx_frame s t \<and>
      view t = (view s)(BBLOCK b s := set_use (b mod BPB) (view s (BBLOCK b s)), b := \<lambda>_. 0)
    else balloc_scan ROOTDEV ms s = Inl (Panic ''balloc: out of blocks'')"
  using assms
proof (induction ms arbitrary: s)
  case (Cons m ms)
  note tx = Cons.prems(1) and lay = Cons.prems(2) and mB = Cons.prems(3) and few = Cons.prems(6)
  let ?M = "BBLOCK m s"
  have m: "m mod BPB = 0" "m < sb_size (sb s)" using Cons.prems(7) by simp_all
  have M: "?M = bmapstart (sb s)" by (rule bmap_block [OF lay m(2)])
  have d: "data_block s ?M" using lay m by (simp add: layout_ok_def)
  have uM: "unheld s ?M" "?M \<in> B" using Cons.prems(3,4) M by simp_all
  have fb: "free_block s (m + bi) \<longleftrightarrow> m + bi < sb_size (sb s) \<and> \<not> in_use_bit (view s ?M) bi" if "bi < BPB" for bi
    using BBLOCK_mult [OF m(1) that, of s] by (simp add: free_block_def)
  let ?P = "\<lambda>bi. m + bi < sb_size (sb s) \<and> \<not> in_use_bit (view s ?M) bi"
  show ?case
  proof (cases "List.find ?P [0..<BPB]")
    case (Some bi)
    then have bi: "bi < BPB" "?P bi" by (auto simp: find_upt_Some)
    let ?b = "m + bi"
    have free: "free_block s ?b" using fb [OF bi(1)] bi(2) by simp
    have bb: "BBLOCK ?b s = ?M" "?b mod BPB = bi" using BBLOCK_mult [OF m(1) bi(1), of s] by simp_all
    have db: "data_block s ?b" "?M \<noteq> ?b" using lay free m(2) by (auto simp: layout_ok_def)
    have tx1: "in_tx n (insert ?b B) s" by (rule in_tx_insert [OF tx])
    from block_update [OF tx1 d _ uM(1) few, of "set_use bi (view s ?M)"] uM(2)
    obtain i t v w where r: "bread ROOTDEV ?M s = Inr (i, t)" "bdata (bufs t i) = view s ?M" "taken s ?M i t"
      "log_write i (set_bdata i (set_use bi (view s ?M)) t) = Inr v" "brelse i v = Inr w" "in_tx n (insert ?b B) w"
      "view w = (view s)(?M := set_use bi (view s ?M))" "tx_frame s w" by blast
    note fr = tx_frame_fs [OF r(8)]
    have "data_block w ?b" "unheld w ?b" "card (lock_set w) \<le> 1"
      using db Cons.prems(5) [OF free] fr tx_frame_unheld [OF r(8)] few tx_frameD(2) [OF r(8)] by simp_all
    then obtain x where x: "bzero ROOTDEV ?b w = Inr x" "in_tx n (insert ?b B) x"
      "view x = (view w)(?b := \<lambda>_. 0)" "tx_frame w x" using bzero_spec [OF r(6)] by blast
    have "balloc_scan ROOTDEV (m # ms) s = Inr (?b, x)" using r(1,2,4,5) taken_fs(1) [OF r(3)] x(1) Some by simp
    moreover have "tx_frame s x" by (rule tx_frame_trans [OF r(8) x(4)])
    moreover have "view x = (view s)(BBLOCK ?b s := set_use (?b mod BPB) (view s (BBLOCK ?b s)), ?b := \<lambda>_. 0)"
      unfolding bb using x(3) r(7) by simp
    moreover have ex: "\<exists>m \<in> set (m # ms). \<exists>bi < BPB. free_block s (m + bi)" using free bi(1) by auto
    ultimately show ?thesis unfolding if_P [OF ex] using free x(2) by blast
  next
    case None
    then have none: "\<not> free_block s (m + bi)" if "bi < BPB" for bi
      using fb [OF that] that by (auto simp: find_upt_None)
    have lt: "?M < DISK1_START_BLOCK" using d by (simp add: data_block_def)
    obtain i t where r: "bread ROOTDEV ?M s = Inr (i, t)" "taken s ?M i t" "in_tx (Suc n) B t" "bdata (bufs t i) = view s ?M"
      using tx_read [OF tx lt uM(1) few] by blast
    obtain u where u: "brelse i t = Inr u" "in_tx (Suc n) B u" "view u = view s" "tx_frame s u"
      using tx_release [OF r(3,2)] by blast
    note fr = tx_frame_fs [OF u(4)] tx_frame_unheld [OF u(4)] tx_frameD(2) [OF u(4)]
    have f: "free_block u b = free_block s b" for b by (simp add: free_block_def fr u(3))
    have eq: "balloc_scan ROOTDEV (m # ms) s = balloc_scan ROOTDEV ms u"
      using r(1,4) u(1) None taken_fs(1) [OF r(2)] by simp
    have lu: "layout_ok u" using lay by (simp add: layout_ok_def fr f)
    have ms: "\<forall>m \<in> set ms. m mod BPB = 0 \<and> m < sb_size (sb s)" using Cons.prems(7) by simp
    note IH = Cons.IH [OF u(2) lu, unfolded fr f u(3), OF mB Cons.prems(4,5) few ms]
    show ?thesis
    proof (cases "\<exists>m \<in> set ms. \<exists>bi < BPB. free_block s (m + bi)")
      case True
      then obtain b x where x: "balloc_scan ROOTDEV ms u = Inr (b, x)" "free_block s b" "in_tx n (insert b B) x" "tx_frame u x"
        "view x = (view s)(BBLOCK b s := set_use (b mod BPB) (view s (BBLOCK b s)), b := \<lambda>_. 0)"
        using IH by auto
      then show ?thesis using eq True tx_frame_trans [OF u(4) x(4)] by auto
    next
      case False
      then show ?thesis using IH eq none by auto
    qed
  qed
qed simp

lemma BBLOCK_same: "BBLOCK b s = BBLOCK c s \<Longrightarrow> b mod BPB = c mod BPB \<longleftrightarrow> b = c"
  unfolding BBLOCK_def by (metis add_right_cancel mult_div_mod_eq)

text \<open>The free blocks after marking block \<open>b\<close> as used, or as free.\<close>

lemma free_after_use:
  fixes s t :: "'a fs_state_scheme"
  assumes lay: "layout_ok s" and fr: "tx_frame s t" and b: "free_block s b"
    and v: "view t = (view s)(BBLOCK b s := set_use (b mod BPB) (view s (BBLOCK b s)), b := d)"
  shows "free_block t c \<longleftrightarrow> free_block s c \<and> c \<noteq> b" and "layout_ok t"
proof -
  note f = tx_frame_fs [OF fr]
  have *: "free_block t c \<longleftrightarrow> free_block s c \<and> c \<noteq> b" for c
  proof (cases "c < sb_size (sb s)")
    case True
    then have "BBLOCK c s \<noteq> b" using lay b by (simp add: layout_ok_def)
    then show ?thesis
      using b BBLOCK_same [of b s c] by (cases "BBLOCK c s = BBLOCK b s") (auto simp: free_block_def f v set_use_bit)
  qed (simp add: free_block_def f)
  show "free_block t c \<longleftrightarrow> free_block s c \<and> c \<noteq> b" by (rule *)
  show "layout_ok t" using lay by (simp add: layout_ok_def f *)
qed

lemma free_after_clear:
  fixes s t :: "'a fs_state_scheme"
  assumes lay: "layout_ok s" and fr: "tx_frame s t" and b: "b < sb_size (sb s)"
    and d: "b \<noteq> 0" "data_block s b" "\<And>c. c < sb_size (sb s) \<Longrightarrow> BBLOCK c s \<noteq> b"
    and v: "view t = (view s)(BBLOCK b s := clear_use (b mod BPB) (view s (BBLOCK b s)))"
  shows "free_block t c \<longleftrightarrow> free_block s c \<or> c = b" and "layout_ok t"
proof -
  note f = tx_frame_fs [OF fr]
  have *: "free_block t c \<longleftrightarrow> free_block s c \<or> c = b" for c
    using b BBLOCK_same [of b s c] by (cases "BBLOCK c s = BBLOCK b s") (auto simp: free_block_def f v clear_use_bit)
  show "free_block t c \<longleftrightarrow> free_block s c \<or> c = b" by (rule *)
  show "layout_ok t" using lay d by (auto simp: layout_ok_def f *)
qed

lemma balloc_spec:
  assumes tx: "in_tx (Suc n) B s" and lay: "layout_ok s" and B: "bmapstart (sb s) \<in> B"
    and u: "unheld s (bmapstart (sb s))" and uf: "\<And>b. free_block s b \<Longrightarrow> unheld s b" and few: "card (lock_set s) \<le> 1"
  shows "if \<exists>b. free_block s b
    then \<exists>b t. balloc ROOTDEV s = Inr (b, t) \<and> free_block s b \<and> in_tx n (insert b B) t \<and> tx_frame s t \<and>
      layout_ok t \<and> (\<forall>c. free_block t c \<longleftrightarrow> free_block s c \<and> c \<noteq> b) \<and>
      view t = (view s)(BBLOCK b s := set_use (b mod BPB) (view s (BBLOCK b s)), b := \<lambda>_. 0)
    else balloc ROOTDEV s = Inl (Panic ''balloc: out of blocks'')"
proof -
  let ?n = "sb_size (sb s)"
  let ?ms = "map (\<lambda>k. k * BPB) [0..<(?n + BPB - 1) div BPB]"
  have ms: "\<forall>m \<in> set ?ms. m mod BPB = 0 \<and> m < ?n"
  proof
    fix m assume "m \<in> set ?ms"
    then obtain k where k: "k < (?n + BPB - 1) div BPB" "m = k * BPB" by auto
    then have "Suc k * BPB \<le> ?n + BPB - 1" using div_times_less_eq_dividend [of "?n + BPB - 1" BPB]
      by (meson Suc_leI le_trans mult_le_mono1)
    then show "m mod BPB = 0 \<and> m < ?n" using k(2) BPB_pos by simp
  qed
  have cover: "(\<exists>m \<in> set ?ms. \<exists>bi < BPB. free_block s (m + bi)) \<longleftrightarrow> (\<exists>b. free_block s b)"
  proof
    assume "\<exists>b. free_block s b"
    then obtain b where b: "free_block s b" by blast
    then have "b < ?n" by (simp add: free_block_def)
    moreover have "b div BPB * BPB \<le> b" by (rule div_times_less_eq_dividend)
    ultimately have "b div BPB * BPB + BPB \<le> ?n + BPB - 1" using BPB_pos by linarith
    then have "Suc (b div BPB) \<le> (?n + BPB - 1) div BPB"
      using BPB_pos by (simp add: less_eq_div_iff_mult_less_eq)
    then have "b div BPB * BPB \<in> set ?ms" by auto
    moreover have "b mod BPB < BPB" "b div BPB * BPB + b mod BPB = b" using BPB_pos by simp_all
    ultimately show "\<exists>m \<in> set ?ms. \<exists>bi < BPB. free_block s (m + bi)" using b by metis
  qed blast
  note sc = balloc_scan_spec [OF tx lay B u uf few ms, unfolded cover, folded balloc_def]
  show ?thesis
  proof (cases "\<exists>b. free_block s b")
    case True
    then obtain b t where t: "balloc ROOTDEV s = Inr (b, t)" "free_block s b" "in_tx n (insert b B) t" "tx_frame s t"
      "view t = (view s)(BBLOCK b s := set_use (b mod BPB) (view s (BBLOCK b s)), b := \<lambda>_. 0)"
      using sc by auto
    show ?thesis using True t free_after_use [OF lay t(4,2,5)] by auto
  next
    case False
    then show ?thesis using sc by auto
  qed
qed

end
