(* ===== verification/Inodes.thy ===== *)
theory Inodes
  imports Blocks
begin

text \<open>
  Inodes (mp4/kernel/fs.c): the inode cache, the inodes on disk, the blocks of a file and reading
  and writing its contents. \<open>either_copyout\<close> and \<open>either_copyin\<close> are parameters: \<open>co dst bs m\<close> is
  the memory after copying \<open>bs\<close> to \<open>dst\<close>, \<open>ci src n\<close> the bytes that reach the destination, each
  with a flag that everything was copied; \<open>copy_out\<close> and \<open>copy_in\<close> are their kernel cases. File offsets are checked for wrap-around as
  \<open>uint\<close>; behind the check the loops count in natural numbers.
\<close>

definition NINODE :: nat where "NINODE = 50"
definition NDIRECT :: nat where "NDIRECT = 12"
definition NINDIRECT :: nat where "NINDIRECT = BSIZE div 4"
definition MAXFILE :: nat where "MAXFILE = NDIRECT + NINDIRECT"
definition SIZEOF_DINODE :: nat where "SIZEOF_DINODE = 64"
definition IPB :: nat where "IPB = BSIZE div SIZEOF_DINODE"
definition M_READ :: u16 where "M_READ = 1"
definition M_WRITE :: u16 where "M_WRITE = 2"
definition M_ALL :: u16 where "M_ALL = 3"
definition T_DIR :: u16 where "T_DIR = 1"
definition T_FILE :: u16 where "T_FILE = 2"
definition T_DEVICE :: u16 where "T_DEVICE = 3"
definition T_SYMLINK :: u16 where "T_SYMLINK = 4"

definition IBLOCK :: "nat \<Rightarrow> 'a fs_state_scheme \<Rightarrow> nat" where
  "IBLOCK i s = i div IPB + inodestart (sb s)"

text \<open>Where the inode with number \<open>i\<close> starts in its block.\<close>

definition dip_off :: "nat \<Rightarrow> nat" where
  "dip_off i = (i mod IPB) * SIZEOF_DINODE"

definition upd_inode :: "nat \<Rightarrow> (inode \<Rightarrow> inode) \<Rightarrow> 'a fs_state_scheme \<Rightarrow> 'a fs_state_scheme" where
  "upd_inode p f s = s\<lparr>icache := (icache s)(p := f (icache s p))\<rparr>"

section \<open>Inodes on disk\<close>

text \<open>\<open>type\<close>, \<open>major\<close>, \<open>mode\<close>, \<open>nlink\<close>, \<open>size\<close> and the 13 block addresses, 64 bytes in all.\<close>

definition store_dinode :: "nat \<Rightarrow> inode \<Rightarrow> block \<Rightarrow> block" where
  "store_dinode off ip d =
     fold (\<lambda>i. put32 (off + 12 + i * 4) (iaddrs ip i)) [0..<NDIRECT + 1]
       (put16 (off + 4) (imode ip) (put32 (off + 8) (isize ip) (put16 (off + 6) (inlink ip)
         (put16 (off + 2) (imajor ip) (put16 off (itype ip) d)))))"

definition load_dinode :: "nat \<Rightarrow> block \<Rightarrow> inode \<Rightarrow> inode" where
  "load_dinode off d ip =
     ip\<lparr>itype := get16 d off, imajor := get16 d (off + 2), inlink := get16 d (off + 6),
        isize := get32 d (off + 8), imode := get16 d (off + 4),
        iaddrs := (\<lambda>i. if i < NDIRECT + 1 then get32 d (off + 12 + i * 4) else iaddrs ip i)\<rparr>"

text \<open>\<open>memset(dip, 0, sizeof(*dip)); dip->type = type; dip->mode = M_ALL\<close>.\<close>

definition fresh_dinode :: "nat \<Rightarrow> u16 \<Rightarrow> block \<Rightarrow> block" where
  "fresh_dinode off ty d =
     put16 (off + 4) M_ALL (put16 off ty (\<lambda>k. if off \<le> k \<and> k < off + SIZEOF_DINODE then 0 else d k))"

definition iupdate :: "nat \<Rightarrow> 'a fs_state_scheme \<Rightarrow> 'a fs_state_scheme res" where
  "iupdate p s =
     rbind (bread (idev (icache s p)) (IBLOCK (inum (icache s p)) s) s) (\<lambda>(bp, s1).
     rbind (log_write bp (set_bdata bp
       (store_dinode (dip_off (inum (icache s1 p))) (icache s1 p) (bdata (bufs s1 bp))) s1)) (\<lambda>s2.
     brelse bp s2))"

section \<open>The inode cache\<close>

definition zero_inode :: inode where
  "zero_inode = \<lparr>idev = 0, inum = 0, iref = 0, ilocked = False, ivalid = False, itype = 0, imajor = 0, imode = 0,
     inlink = 0, isize = 0, iaddrs = (\<lambda>_. 0)\<rparr>"

text \<open>The cache is static, hence zero, when \<open>iinit\<close> initialises the locks.\<close>

definition iinit :: "'a fs_state_scheme \<Rightarrow> 'a fs_state_scheme" where
  "iinit s = s\<lparr>icache := (\<lambda>p. (icache s p)\<lparr>ilocked := False\<rparr>)\<rparr>"

definition iget :: "nat \<Rightarrow> nat \<Rightarrow> 'a fs_state_scheme \<Rightarrow> (nat \<times> 'a fs_state_scheme) res" where
  "iget dev n s =
     (case List.find (\<lambda>i. iref (icache s (Suc i)) > 0 \<and> idev (icache s (Suc i)) = dev \<and>
                          inum (icache s (Suc i)) = n) [0..<NINODE] of
        Some i \<Rightarrow> Inr (Suc i, upd_inode (Suc i) (\<lambda>ip. ip\<lparr>iref := iref ip + 1\<rparr>) s)
      | None \<Rightarrow>
          (case List.find (\<lambda>i. iref (icache s (Suc i)) = 0) [0..<NINODE] of
             Some i \<Rightarrow> Inr (Suc i, upd_inode (Suc i)
                         (\<lambda>ip. ip\<lparr>idev := dev, inum := n, iref := 1, ivalid := False\<rparr>) s)
           | None \<Rightarrow> Inl (Panic ''iget: no inodes'')))"

definition idup :: "nat \<Rightarrow> 'a fs_state_scheme \<Rightarrow> 'a fs_state_scheme" where
  "idup p s = upd_inode p (\<lambda>ip. ip\<lparr>iref := iref ip + 1\<rparr>) s"

primrec ialloc_scan :: "nat \<Rightarrow> u16 \<Rightarrow> nat list \<Rightarrow> 'a fs_state_scheme \<Rightarrow> (nat \<times> 'a fs_state_scheme) res" where
  "ialloc_scan dev ty [] s = Inl (Panic ''ialloc: no inodes'')"
| "ialloc_scan dev ty (n # ns) s =
     rbind (bread dev (IBLOCK n s) s) (\<lambda>(bp, s1).
     if get16 (bdata (bufs s1 bp)) (dip_off n) = 0 then
       rbind (log_write bp (set_bdata bp (fresh_dinode (dip_off n) ty (bdata (bufs s1 bp))) s1)) (\<lambda>s2.
       rbind (brelse bp s2) (iget dev n))
     else rbind (brelse bp s1) (ialloc_scan dev ty ns))"

definition ialloc :: "nat \<Rightarrow> u16 \<Rightarrow> 'a fs_state_scheme \<Rightarrow> (nat \<times> 'a fs_state_scheme) res" where
  "ialloc dev ty s = ialloc_scan dev ty [1..<ninodes (sb s)] s"

definition ilock :: "nat \<Rightarrow> 'a fs_state_scheme \<Rightarrow> 'a fs_state_scheme res" where
  "ilock p s =
     (if p = 0 \<or> iref (icache s p) < 1 then Inl (Panic ''ilock'')
      else if ilocked (icache s p) then Inl (Sleeps ''inode'')
      else
        let s1 = upd_inode p (\<lambda>ip. ip\<lparr>ilocked := True\<rparr>) s in
        if \<not> ivalid (icache s1 p) then
          rbind (bread (idev (icache s1 p)) (IBLOCK (inum (icache s1 p)) s1) s1) (\<lambda>(bp, s2).
          let s3 = upd_inode p (load_dinode (dip_off (inum (icache s2 p))) (bdata (bufs s2 bp))) s2 in
          rbind (brelse bp s3) (\<lambda>s4.
          let s5 = upd_inode p (\<lambda>ip. ip\<lparr>ivalid := True\<rparr>) s4 in
          if itype (icache s5 p) = 0 then Inl (Panic ''ilock: no type'') else Inr s5))
        else Inr s1)"

definition iunlock :: "nat \<Rightarrow> 'a fs_state_scheme \<Rightarrow> 'a fs_state_scheme res" where
  "iunlock p s =
     (if p = 0 \<or> \<not> ilocked (icache s p) \<or> iref (icache s p) < 1 then Inl (Panic ''iunlock'')
      else Inr (upd_inode p (\<lambda>ip. ip\<lparr>ilocked := False\<rparr>) s))"

text \<open>Discarding the contents: the direct blocks, then the blocks of the indirect block, then it.\<close>

definition itrunc_direct :: "nat \<Rightarrow> nat \<Rightarrow> 'a fs_state_scheme \<Rightarrow> 'a fs_state_scheme res" where
  "itrunc_direct p i s =
     (if iaddrs (icache s p) i \<noteq> 0 then
        rbind (bfree (idev (icache s p)) (unat (iaddrs (icache s p) i)) s) (\<lambda>s1.
        Inr (upd_inode p (\<lambda>ip. ip\<lparr>iaddrs := (iaddrs ip)(i := 0)\<rparr>) s1))
      else Inr s)"

definition itrunc_indirect :: "nat \<Rightarrow> nat \<Rightarrow> nat \<Rightarrow> 'a fs_state_scheme \<Rightarrow> 'a fs_state_scheme res" where
  "itrunc_indirect p bp j s =
     (if get32 (bdata (bufs s bp)) (j * 4) \<noteq> 0
      then bfree (idev (icache s p)) (unat (get32 (bdata (bufs s bp)) (j * 4))) s else Inr s)"

definition itrunc_blocks :: "nat \<Rightarrow> 'a fs_state_scheme \<Rightarrow> 'a fs_state_scheme res" where
  "itrunc_blocks p s =
     rbind (for_res (itrunc_direct p) [0..<NDIRECT] s) (\<lambda>s1.
     if iaddrs (icache s1 p) NDIRECT \<noteq> 0 then
       rbind (bread (idev (icache s1 p)) (unat (iaddrs (icache s1 p) NDIRECT)) s1) (\<lambda>(bp, s2).
       rbind (for_res (itrunc_indirect p bp) [0..<NINDIRECT] s2) (\<lambda>s3.
       rbind (brelse bp s3) (\<lambda>s4.
       rbind (bfree (idev (icache s4 p)) (unat (iaddrs (icache s4 p) NDIRECT)) s4) (\<lambda>s5.
       Inr (upd_inode p (\<lambda>ip. ip\<lparr>iaddrs := (iaddrs ip)(NDIRECT := 0)\<rparr>) s5)))))
     else Inr s1)"

definition itrunc :: "nat \<Rightarrow> 'a fs_state_scheme \<Rightarrow> 'a fs_state_scheme res" where
  "itrunc p s = rbind (itrunc_blocks p s) (\<lambda>s1. iupdate p (upd_inode p (\<lambda>ip. ip\<lparr>isize := 0\<rparr>) s1))"

definition iput :: "nat \<Rightarrow> 'a fs_state_scheme \<Rightarrow> 'a fs_state_scheme res" where
  "iput p s =
     rbind
       (if iref (icache s p) = 1 \<and> ivalid (icache s p) \<and> inlink (icache s p) = 0 then
          if ilocked (icache s p) then Inl (Sleeps ''inode'')
          else
            rbind (itrunc p (upd_inode p (\<lambda>ip. ip\<lparr>ilocked := True\<rparr>) s)) (\<lambda>s1.
            rbind (iupdate p (upd_inode p (\<lambda>ip. ip\<lparr>itype := 0\<rparr>) s1)) (\<lambda>s2.
            Inr (upd_inode p (\<lambda>ip. ip\<lparr>ivalid := False, ilocked := False\<rparr>) s2)))
        else Inr s) (\<lambda>s3.
     Inr (upd_inode p (\<lambda>ip. ip\<lparr>iref := iref ip - 1\<rparr>) s3))"

definition iunlockput :: "nat \<Rightarrow> 'a fs_state_scheme \<Rightarrow> 'a fs_state_scheme res" where
  "iunlockput p s = rbind (iunlock p s) (iput p)"

section \<open>The contents of a file\<close>

text \<open>\<open>if ((addr = ip->addrs[i]) == 0) { addr = balloc(..); ..; ip->addrs[i] = addr; }\<close>\<close>

definition bmap_slot :: "nat \<Rightarrow> nat \<Rightarrow> string \<Rightarrow> 'a fs_state_scheme \<Rightarrow> (nat \<times> 'a fs_state_scheme) res" where
  "bmap_slot p i msg s =
     (if iaddrs (icache s p) i = 0 then
        rbind (balloc (idev (icache s p)) s) (\<lambda>(addr, s1).
        if addr = 0 then Inl (Panic msg)
        else Inr (addr, upd_inode p (\<lambda>ip. ip\<lparr>iaddrs := (iaddrs ip)(i := of_nat addr)\<rparr>) s1))
      else Inr (unat (iaddrs (icache s p) i), s))"

text \<open>Entry \<open>n\<close> of the indirect block \<open>addr\<close>.\<close>

definition bmap_entry :: "nat \<Rightarrow> nat \<Rightarrow> nat \<Rightarrow> 'a fs_state_scheme \<Rightarrow> (nat \<times> 'a fs_state_scheme) res" where
  "bmap_entry p addr n s =
     rbind (bread (idev (icache s p)) addr s) (\<lambda>(bp, s1).
     let target_addr = get32 (bdata (bufs s1 bp)) (n * 4) in
     if target_addr = 0 then
       rbind (balloc (idev (icache s1 p)) s1) (\<lambda>(a, s2).
       if a = 0 then Inl (Panic ''bmap: balloc failed for data block via indirect'')
       else
         rbind (log_write bp (set_bdata bp (put32 (n * 4) (of_nat a) (bdata (bufs s2 bp))) s2)) (\<lambda>s3.
         rbind (brelse bp s3) (\<lambda>s4. Inr (a, s4))))
     else rbind (brelse bp s1) (\<lambda>s2. Inr (unat target_addr, s2)))"

definition bmap :: "nat \<Rightarrow> nat \<Rightarrow> 'a fs_state_scheme \<Rightarrow> (nat \<times> 'a fs_state_scheme) res" where
  "bmap p bn s =
     (if bn < NDIRECT then bmap_slot p bn ''bmap: balloc failed'' s
      else if bn - NDIRECT < NINDIRECT then
        rbind (bmap_slot p NDIRECT ''bmap: balloc failed for indirect block'' s) (\<lambda>(addr, s1).
        bmap_entry p addr (bn - NDIRECT) s1)
      else Inl (Panic ''bmap: out of range''))"

record stat =
  st_dev :: nat
  st_ino :: nat
  st_type :: u16
  st_nlink :: u16
  st_size :: nat
  st_mode :: int

definition stati :: "nat \<Rightarrow> 'a fs_state_scheme \<Rightarrow> stat" where
  "stati p s =
     (let ip = icache s p in
      \<lparr>st_dev = idev ip, st_ino = inum ip, st_type = itype ip, st_nlink = inlink ip,
       st_size = unat (isize ip), st_mode = sint (imode ip)\<rparr>)"

type_synonym 'm copyout = "nat \<Rightarrow> u8 list \<Rightarrow> 'm \<Rightarrow> 'm \<times> bool"
type_synonym copyin = "nat \<Rightarrow> nat \<Rightarrow> u8 list \<times> bool"

text \<open>\<open>either_copyout\<close> and \<open>either_copyin\<close> for kernel memory: \<open>memmove\<close>.\<close>

definition copy_out :: "(nat \<Rightarrow> u8) copyout" where
  "copy_out dst bs m = (\<lambda>a. if dst \<le> a \<and> a < dst + length bs then bs ! (a - dst) else m a, True)"

definition copy_in :: "(nat \<Rightarrow> u8) \<Rightarrow> copyin" where
  "copy_in m src n = (map m [src..<src + n], True)"

definition chunk :: "nat \<Rightarrow> nat \<Rightarrow> nat" where
  "chunk left off = min left (BSIZE - off mod BSIZE)"

lemma chunk_pos: "0 < left \<Longrightarrow> 0 < chunk left off"
  by (simp add: chunk_def BSIZE_def)

text \<open>\<open>left\<close> is \<open>n - tot\<close>; the result is the number of bytes copied.\<close>

function readi_loop :: "'m copyout \<Rightarrow> nat \<Rightarrow> nat \<Rightarrow> nat \<Rightarrow> nat \<Rightarrow> nat \<Rightarrow> 'a fs_state_scheme \<Rightarrow> 'm \<Rightarrow>
    (nat \<times> 'a fs_state_scheme \<times> 'm) res" where
  "readi_loop co p dst off left tot s mem =
     (if 0 < left then
        rbind (bmap p (off div BSIZE) s) (\<lambda>(b, s1).
        rbind (bread (idev (icache s1 p)) b s1) (\<lambda>(bp, s2).
        let m = chunk left off;
            (mem1, ok) = co dst (map (bdata (bufs s2 bp)) [off mod BSIZE ..< off mod BSIZE + m]) mem
        in if \<not> ok then rbind (brelse bp s2) (\<lambda>s3. Inr (tot, s3, mem1))
           else rbind (brelse bp s2) (\<lambda>s3. readi_loop co p (dst + m) (off + m) (left - m) (tot + m) s3 mem1)))
      else Inr (tot, s, mem))"
  by pat_completeness auto
termination
  by (relation "measure (\<lambda>(co, p, dst, off, left, tot, s, mem). left)") (auto simp: chunk_pos)

declare readi_loop.simps [simp del]

definition readi :: "'m copyout \<Rightarrow> nat \<Rightarrow> nat \<Rightarrow> u32 \<Rightarrow> u32 \<Rightarrow> 'a fs_state_scheme \<Rightarrow> 'm \<Rightarrow>
    (nat \<times> 'a fs_state_scheme \<times> 'm) res" where
  "readi co p dst off n s mem =
     (let size1 = isize (icache s p) in
      if off > size1 \<or> off + n < off then Inr (0, s, mem)
      else
        let n1 = (if off + n > size1 then size1 - off else n)
        in readi_loop co p dst (unat off) (unat n1) 0 s mem)"

definition blit :: "nat \<Rightarrow> u8 list \<Rightarrow> block \<Rightarrow> block" where
  "blit o1 bs d = (\<lambda>k. if o1 \<le> k \<and> k < o1 + length bs then bs ! (k - o1) else d k)"

text \<open>The result is the offset reached.\<close>

function writei_loop :: "copyin \<Rightarrow> nat \<Rightarrow> nat \<Rightarrow> nat \<Rightarrow> nat \<Rightarrow> 'a fs_state_scheme \<Rightarrow>
    (nat \<times> 'a fs_state_scheme) res" where
  "writei_loop ci p src off left s =
     (if 0 < left then
        rbind (bmap p (off div BSIZE) s) (\<lambda>(disk_lbn, s1).
        rbind (bread (idev (icache s1 p)) disk_lbn s1) (\<lambda>(bp, s2).
        let m = chunk left off;
            (bs, ok) = ci src m;
            s3 = set_bdata bp (blit (off mod BSIZE) bs (bdata (bufs s2 bp))) s2
        in if \<not> ok then rbind (brelse bp s3) (\<lambda>s4. Inr (off, s4))
           else rbind (log_write bp s3) (\<lambda>s4.
                rbind (brelse bp s4) (\<lambda>s5. writei_loop ci p (src + m) (off + m) (left - m) s5))))
      else Inr (off, s))"
  by pat_completeness auto
termination
  by (relation "measure (\<lambda>(ci, p, src, off, left, s). left)") (auto simp: chunk_pos)

declare writei_loop.simps [simp del]

definition writei :: "copyin \<Rightarrow> nat \<Rightarrow> nat \<Rightarrow> u32 \<Rightarrow> u32 \<Rightarrow> 'a fs_state_scheme \<Rightarrow>
    (int \<times> 'a fs_state_scheme) res" where
  "writei ci p src off n s =
     (if off > isize (icache s p) \<or> off + n < off then Inr (-1, s)
      else if unat (off + n) > MAXFILE * BSIZE then Inr (-1, s)
      else
        rbind (writei_loop ci p src (unat off) (unat n) s) (\<lambda>(off1, s1).
        if 0 < n then
          rbind (iupdate p (if off1 > unat (isize (icache s1 p))
                            then upd_inode p (\<lambda>ip. ip\<lparr>isize := of_nat off1\<rparr>) s1 else s1)) (\<lambda>s2.
          Inr (sint n, s2))
        else Inr (sint n, s1)))"

end
