(* ===== verification/Files.thy ===== *)
theory Files
  imports Inodes
begin

text \<open>
  What the inode layer does, in terms of files: \<open>fblk s p k\<close> is the block that holds part \<open>k\<close> of
  the file of inode \<open>p\<close> (0 when there is none yet) and \<open>fdata\<close> its contents, zeros for a hole.
  Allocating a block does not change \<open>fdata\<close>.
\<close>

section \<open>Changing the inode cache\<close>

lemma icache_updates [simp]:
  fixes s :: "'a fs_state_scheme"
  shows "bc_ok (s\<lparr>icache := f\<rparr>) pc = bc_ok s pc" "view (s\<lparr>icache := f\<rparr>) = view s"
    "lock_set (s\<lparr>icache := f\<rparr>) = lock_set s" "quiet (s\<lparr>icache := f\<rparr>) = quiet s"
  by ((rule bc_cong; simp) | simp add: quiet_def)+

lemma upd_inode_simps [simp]:
  fixes s :: "'a fs_state_scheme"
  shows "icache (upd_inode p f s) = (icache s)(p := f (icache s p))" "sb (upd_inode p f s) = sb s"
    "bufs (upd_inode p f s) = bufs s" "disk (upd_inode p f s) = disk s" "view (upd_inode p f s) = view s"
    "lock_set (upd_inode p f s) = lock_set s" "homes (upd_inode p f s) = homes s"
    "log_start (upd_inode p f s) = log_start s" "log_size (upd_inode p f s) = log_size s"
    "outstanding (upd_inode p f s) = outstanding s" "committing (upd_inode p f s) = committing s"
    "fs_state.more (upd_inode p f s) = fs_state.more s" "log_area (upd_inode p f s) = log_area s"
    "unheld (upd_inode p f s) b = unheld s b" "data_block (upd_inode p f s) b = data_block s b"
    "BBLOCK b (upd_inode p f s) = BBLOCK b s" "IBLOCK n (upd_inode p f s) = IBLOCK n s"
    "free_block (upd_inode p f s) b = free_block s b" "layout_ok (upd_inode p f s) = layout_ok s"
    "held (upd_inode p f s) i b = held s i b"
  by (simp_all add: upd_inode_def homes_def log_area_def unheld_def data_block_def BBLOCK_def IBLOCK_def
      free_block_def layout_ok_def held_def)

lemma log_ok_upd_inode [simp]: "log_ok (upd_inode p f s) = log_ok s"
proof -
  have "home_pins (upd_inode p f s) = home_pins s" by (rule home_pins_cong) simp
  moreover have "bc_ok (upd_inode p f s) pc = bc_ok s pc" "quiet (upd_inode p f s) = quiet s"
    "log_dev (upd_inode p f s) = log_dev s" "lh_n (upd_inode p f s) = lh_n s" "lh_block (upd_inode p f s) = lh_block s" for pc
    by (simp_all add: upd_inode_def)
  ultimately show ?thesis by (simp add: log_ok_def)
qed

lemma in_tx_upd_inode [simp]: "in_tx n B (upd_inode p f s) = in_tx n B s"
  by (simp add: in_tx_def in_log_def)

section \<open>Inodes on disk\<close>

lemma store_dinode_other:
  assumes "a < off \<or> off + SIZEOF_DINODE \<le> a"
  shows "store_dinode off ip d a = d a"
proof -
  have "a < off + 12 \<or> off + 12 + 13 * 4 \<le> a" using assms by (auto simp: SIZEOF_DINODE_def)
  then have "store_dinode off ip d a =
      (put16 (off + 4) (imode ip) (put32 (off + 8) (isize ip) (put16 (off + 6) (inlink ip)
         (put16 (off + 2) (imajor ip) (put16 off (itype ip) d))))) a"
    unfolding store_dinode_def NDIRECT_def using le32.fold_put_frame [of a "off + 12" 13] by simp
  also have "\<dots> = d a"
    using assms by (elim disjE) (simp_all add: le16.put_frame le32.put_frame SIZEOF_DINODE_def)
  finally show ?thesis .
qed

lemma load_store_dinode:
  "load_dinode off (store_dinode off ip d) jp =
     jp\<lparr>itype := itype ip, imajor := imajor ip, inlink := inlink ip, isize := isize ip, imode := imode ip,
        iaddrs := (\<lambda>i. if i < NDIRECT + 1 then iaddrs ip i else iaddrs jp i)\<rparr>"
proof -
  let ?h = "put16 (off + 4) (imode ip) (put32 (off + 8) (isize ip) (put16 (off + 6) (inlink ip)
         (put16 (off + 2) (imajor ip) (put16 off (itype ip) d))))"
  have hdr: "get16 (store_dinode off ip d) a = get16 ?h a" if "a + 2 \<le> off + 12" for a
    by (rule le16.get_local, unfold store_dinode_def, rule le32.fold_put_frame) (use that in simp)
  have sz: "get32 (store_dinode off ip d) (off + 8) = get32 ?h (off + 8)"
    by (rule le32.get_local, unfold store_dinode_def, rule le32.fold_put_frame) simp
  have b16: "a + 2 \<le> c \<or> c + 4 \<le> a \<Longrightarrow> get16 (put32 c v e) a = get16 e a" for a c v e
    by (rule le16.get_local) (rule le32.put_frame, auto)
  have b32: "a + 4 \<le> c \<or> c + 2 \<le> a \<Longrightarrow> get32 (put16 c v e) a = get32 e a" for a c v e
    by (rule le32.get_local) (rule le16.put_frame, auto)
  have f: "get16 ?h off = itype ip" "get16 ?h (off + 2) = imajor ip" "get16 ?h (off + 4) = imode ip"
    "get16 ?h (off + 6) = inlink ip" "get32 ?h (off + 8) = isize ip"
    by (simp_all add: le16.get_put le16.get_put_other le32.get_put b16 b32)
  have ad: "get32 (store_dinode off ip d) (off + 12 + i * 4) = iaddrs ip i" if "i < NDIRECT + 1" for i
    unfolding store_dinode_def by (rule le32.get_fold_put [OF that])
  show ?thesis
    unfolding load_dinode_def using hdr [of off] hdr [of "off + 2"] hdr [of "off + 4"] hdr [of "off + 6"] sz f ad
    by (simp cong: if_cong)
qed

lemma load_dinode_locked: "load_dinode off d (ip\<lparr>ilocked := b\<rparr>) = (load_dinode off d ip)\<lparr>ilocked := b\<rparr>"
  by (cases ip) (simp add: load_dinode_def cong: if_cong)

lemma load_dinode_local:
  assumes "\<And>a. off \<le> a \<Longrightarrow> a < off + SIZEOF_DINODE \<Longrightarrow> d' a = d a"
  shows "load_dinode off d' ip = load_dinode off d ip"
proof -
  have g16: "get16 d' (off + k) = get16 d (off + k)" if "k + 2 \<le> SIZEOF_DINODE" for k
    by (rule le16.get_local) (use assms that in auto)
  have g32: "get32 d' (off + k) = get32 d (off + k)" if "k + 4 \<le> SIZEOF_DINODE" for k
    by (rule le32.get_local) (use assms that in auto)
  have "get32 d' (off + 12 + i * 4) = get32 d (off + 12 + i * 4)" if "i < NDIRECT + 1" for i
    using g32 [of "12 + i * 4"] that by (simp add: add.assoc SIZEOF_DINODE_def NDIRECT_def)
  then show ?thesis
    using g16 [of 0] g16 [of 2] g16 [of 4] g16 [of 6] g32 [of 8]
    by (simp add: load_dinode_def SIZEOF_DINODE_def cong: if_cong)
qed

text \<open>Two inodes never overlap in a block.\<close>

lemma dip_disjoint:
  assumes "i div IPB = j div IPB" and "i \<noteq> j"
  shows "dip_off i + SIZEOF_DINODE \<le> dip_off j \<or> dip_off j + SIZEOF_DINODE \<le> dip_off i"
proof -
  have "i mod IPB \<noteq> j mod IPB" using assms by (metis mult_div_mod_eq)
  then have "Suc (i mod IPB) \<le> j mod IPB \<or> Suc (j mod IPB) \<le> i mod IPB" by linarith
  then have "Suc (i mod IPB) * SIZEOF_DINODE \<le> j mod IPB * SIZEOF_DINODE \<or>
      Suc (j mod IPB) * SIZEOF_DINODE \<le> i mod IPB * SIZEOF_DINODE" using mult_le_mono1 by blast
  then show ?thesis by (simp add: dip_off_def add.commute)
qed

lemma iupdate_spec:
  fixes s :: "'a fs_state_scheme"
  assumes tx: "in_tx n B s" and dev: "idev (icache s p) = ROOTDEV"
    and b: "data_block s (IBLOCK (inum (icache s p)) s)" "IBLOCK (inum (icache s p)) s \<in> B"
    and u: "unheld s (IBLOCK (inum (icache s p)) s)" and few: "card (lock_set s) \<le> 1"
  defines "ib \<equiv> IBLOCK (inum (icache s p)) s"
  shows "\<exists>t. iupdate p s = Inr t \<and> in_tx n B t \<and> tx_frame s t \<and>
    view t = (view s)(ib := store_dinode (dip_off (inum (icache s p))) (icache s p) (view s ib))"
proof -
  from block_update [OF tx b u few, folded ib_def, of "store_dinode (dip_off (inum (icache s p))) (icache s p) (view s ib)"]
  obtain i t v w where r: "bread ROOTDEV ib s = Inr (i, t)" "bdata (bufs t i) = view s ib" "taken s ib i t"
    "log_write i (set_bdata i (store_dinode (dip_off (inum (icache s p))) (icache s p) (view s ib)) t) = Inr v"
    "brelse i v = Inr w" "in_tx n B w" "tx_frame s w"
    "view w = (view s)(ib := store_dinode (dip_off (inum (icache s p))) (icache s p) (view s ib))" by blast
  show ?thesis using r taken_fs(2) [OF r(3)] by (simp add: iupdate_def dev ib_def [symmetric])
qed

text \<open>Locking an entry that has not been read yet.\<close>

lemma ilock_read:
  fixes s :: "'a fs_state_scheme"
  assumes tx: "in_tx n B s" and p: "p \<noteq> 0" "0 < iref (icache s p)" "\<not> ilocked (icache s p)" "\<not> ivalid (icache s p)"
    and dev: "idev (icache s p) = ROOTDEV" and b: "IBLOCK (inum (icache s p)) s < DISK1_START_BLOCK"
    and u: "unheld s (IBLOCK (inum (icache s p)) s)" and few: "card (lock_set s) \<le> 1"
  defines "jp \<equiv> (load_dinode (dip_off (inum (icache s p))) (view s (IBLOCK (inum (icache s p)) s)) (icache s p))
      \<lparr>ilocked := True, ivalid := True\<rparr>"
  shows "if itype jp = 0 then ilock p s = Inl (Panic ''ilock: no type'')
    else \<exists>t. ilock p s = Inr t \<and> in_tx n B t \<and> view t = view s \<and> disk t = disk s \<and> lock_set t = lock_set s \<and>
      sb t = sb s \<and> icache t = (icache s)(p := jp)"
proof -
  let ?s1 = "upd_inode p (\<lambda>ip. ip\<lparr>ilocked := True\<rparr>) s"
  let ?ib = "IBLOCK (inum (icache s p)) s"
  have "in_tx n B ?s1" "unheld ?s1 ?ib" "card (lock_set ?s1) \<le> 1" using tx u few by simp_all
  from tx_read [OF this(1) b this(2,3)] obtain i t where r: "bread ROOTDEV ?ib ?s1 = Inr (i, t)" "taken ?s1 ?ib i t"
    "in_tx n B t" "bdata (bufs t i) = view s ?ib" by auto
  let ?t1 = "upd_inode p (load_dinode (dip_off (inum (icache s p))) (view s ?ib)) t"
  have h: "held t i ?ib" using r(2) by (simp add: taken_def)
  have "held ?t1 i ?ib" "in_tx n B ?t1" "?ib \<in> homes ?t1 \<or> view ?t1 ?ib = disk ?t1 ?ib"
    using h r(3) takenD(5,6,7) [OF r(2)] tx_stepD(1) [OF takenD(4) [OF r(2)]] by simp_all
  from hold_release [OF this(2,1,3)] obtain v where v: "brelse i ?t1 = Inr v" "in_tx n B v" "view v = view t"
    "tx_step (lock_set t - {i}) ?t1 v" by auto
  have ls: "lock_set v = lock_set s" using tx_stepD(2) [OF v(4)] takenD(2,3) [OF r(2)] by auto
  note f = tx_step_fs [OF v(4)] and g = taken_fs [OF r(2)]
  let ?w = "upd_inode p (\<lambda>ip. ip\<lparr>ivalid := True\<rparr>) v"
  have ic: "icache ?w = (icache s)(p := jp)"
    by (simp add: f g jp_def load_dinode_locked)
  have inum: "inum (icache t p) = inum (icache s p)" "sb t = sb s" by (simp_all add: g)
  have eq: "ilock p s = (if itype (icache ?w p) = 0 then Inl (Panic ''ilock: no type'') else Inr ?w)"
    using p r(1,4) v(1) dev by (simp add: ilock_def Let_def inum)
  have "disk v = disk s" "view v = view s" "sb v = sb s"
    using tx_stepD(1) [OF v(4)] tx_stepD(1) [OF takenD(4) [OF r(2)]] v(3) takenD(5) [OF r(2)] f g by simp_all
  moreover have "icache ?w p = jp" by (simp only: ic fun_upd_same)
  ultimately show ?thesis using v(2) ls ic by (simp only: eq) simp
qed

section \<open>The blocks of a file\<close>

definition ind :: "'a fs_state_scheme \<Rightarrow> nat \<Rightarrow> nat" where
  "ind s p = unat (iaddrs (icache s p) NDIRECT)"

definition fblk :: "'a fs_state_scheme \<Rightarrow> nat \<Rightarrow> nat \<Rightarrow> nat" where
  "fblk s p k =
     (if k < NDIRECT then unat (iaddrs (icache s p) k)
      else if ind s p = 0 then 0
      else unat (get32 (view s (ind s p)) ((k - NDIRECT) * 4)))"

definition fdata :: "'a fs_state_scheme \<Rightarrow> nat \<Rightarrow> nat \<Rightarrow> block" where
  "fdata s p k = (if fblk s p k = 0 then (\<lambda>_. 0) else view s (fblk s p k))"

text \<open>A block that may belong to a file: a data block marked as used, not the free map.\<close>

definition owned :: "'a fs_state_scheme \<Rightarrow> nat \<Rightarrow> bool" where
  "owned s b \<longleftrightarrow> b \<noteq> 0 \<and> data_block s b \<and> b < sb_size (sb s) \<and> \<not> free_block s b \<and> b \<noteq> bmapstart (sb s)"

definition file_ok :: "'a fs_state_scheme \<Rightarrow> nat \<Rightarrow> bool" where
  "file_ok s p \<longleftrightarrow> idev (icache s p) = ROOTDEV \<and> (ind s p \<noteq> 0 \<longrightarrow> owned s (ind s p)) \<and>
     (\<forall>k<MAXFILE. fblk s p k \<noteq> 0 \<longrightarrow> owned s (fblk s p k) \<and> fblk s p k \<noteq> ind s p) \<and>
     (\<forall>k<MAXFILE. \<forall>l<MAXFILE. fblk s p k = fblk s p l \<and> fblk s p k \<noteq> 0 \<longrightarrow> k = l)"

text \<open>The blocks of the file, the indirect block included.\<close>

definition fset :: "'a fs_state_scheme \<Rightarrow> nat \<Rightarrow> nat set" where
  "fset s p = (insert (ind s p) (fblk s p ` {..<MAXFILE})) - {0}"

lemma file_okD:
  assumes "file_ok s p"
  shows "idev (icache s p) = ROOTDEV" "ind s p \<noteq> 0 \<Longrightarrow> owned s (ind s p)"
    "k < MAXFILE \<Longrightarrow> fblk s p k \<noteq> 0 \<Longrightarrow> owned s (fblk s p k)"
    "k < MAXFILE \<Longrightarrow> fblk s p k \<noteq> 0 \<Longrightarrow> fblk s p k \<noteq> ind s p"
    "k < MAXFILE \<Longrightarrow> l < MAXFILE \<Longrightarrow> fblk s p k = fblk s p l \<Longrightarrow> fblk s p k \<noteq> 0 \<Longrightarrow> k = l"
  using assms by (auto simp: file_ok_def)

lemma fset_owned: "file_ok s p \<Longrightarrow> b \<in> fset s p \<Longrightarrow> owned s b"
  by (auto simp: fset_def dest: file_okD(2,3))

text \<open>How an operation on file \<open>p\<close> may change the state: inode \<open>p\<close>'s addresses, the free map and the
  file's own blocks; blocks may be taken from the free ones.\<close>

definition file_step :: "nat \<Rightarrow> 'a fs_state_scheme \<Rightarrow> 'a fs_state_scheme \<Rightarrow> bool" where
  "file_step p s t \<longleftrightarrow> disk t = disk s \<and> sb t = sb s \<and> log_start t = log_start s \<and> log_size t = log_size s \<and>
     outstanding t = outstanding s \<and> committing t = committing s \<and>
     fs_state.more t = fs_state.more s \<and> lock_set t = {} \<and> homes s \<subseteq> homes t \<and> layout_ok t \<and> file_ok t p \<and>
     (\<exists>f. icache t = (icache s)(p := (icache s p)\<lparr>iaddrs := f\<rparr>)) \<and>
     (\<forall>c. free_block t c \<longrightarrow> free_block s c) \<and> (\<forall>c \<in> fset t p. c \<in> fset s p \<or> free_block s c) \<and> fset s p \<subseteq> fset t p \<and>
     (\<forall>c. c \<noteq> bmapstart (sb s) \<and> c \<notin> fset t p \<longrightarrow> view t c = view s c)"

lemma file_step_refl: "layout_ok s \<Longrightarrow> file_ok s p \<Longrightarrow> lock_set s = {} \<Longrightarrow> file_step p s s"
  by (auto simp: file_step_def intro!: exI [of _ "iaddrs (icache s p)"])

lemma file_step_trans: "file_step p s t \<Longrightarrow> file_step p t u \<Longrightarrow> file_step p s u"
  unfolding file_step_def by (elim conjE exE, intro conjI) (auto simp: subset_iff)

lemma file_stepD:
  assumes "file_step p s t"
  shows "disk t = disk s" "sb t = sb s" "lock_set t = {}" "layout_ok t" "file_ok t p" "fs_state.more t = fs_state.more s"
    "idev (icache t p) = idev (icache s p)" "inum (icache t p) = inum (icache s p)" "isize (icache t p) = isize (icache s p)"
    "data_block t b = data_block s b" "q \<noteq> p \<Longrightarrow> icache t q = icache s q" "outstanding t = outstanding s"
    "log_start t = log_start s" "log_size t = log_size s" "free_block t c \<Longrightarrow> free_block s c"
    "c \<noteq> bmapstart (sb s) \<Longrightarrow> c \<notin> fset t p \<Longrightarrow> view t c = view s c"
    "c \<in> fset t p \<Longrightarrow> c \<in> fset s p \<or> free_block s c" "IBLOCK n t = IBLOCK n s"
proof -
  obtain f where ic: "icache t = (icache s)(p := (icache s p)\<lparr>iaddrs := f\<rparr>)" using assms by (auto simp: file_step_def)
  show "idev (icache t p) = idev (icache s p)" "inum (icache t p) = inum (icache s p)" "isize (icache t p) = isize (icache s p)"
    "q \<noteq> p \<Longrightarrow> icache t q = icache s q" by (simp_all add: ic)
  show "data_block t b = data_block s b" using assms by (simp add: data_block_def log_area_def file_step_def)
  show "IBLOCK n t = IBLOCK n s" using assms by (simp add: IBLOCK_def file_step_def)
qed (use assms in \<open>auto simp: file_step_def\<close>)

text \<open>A file none of whose blocks is touched keeps its contents.\<close>

lemma other_file_unchanged:
  assumes st: "file_step p s t" and q: "file_ok s q" "q \<noteq> p" and disj: "fset s p \<inter> fset s q = {}"
  shows "fblk t q k = fblk s q k" and "k < MAXFILE \<Longrightarrow> fdata t q k = fdata s q k"
proof -
  note D = file_stepD [OF st]
  have same: "view t c = view s c" if "c \<in> fset s q" for c
  proof -
    have "owned s c" by (rule fset_owned [OF q(1) that])
    then have "c \<noteq> bmapstart (sb s)" "\<not> free_block s c" by (simp_all add: owned_def)
    moreover have "c \<notin> fset s p" using that disj by blast
    ultimately show ?thesis using D(16) D(17) by blast
  qed
  have i: "ind t q = ind s q" using D(11) [OF q(2)] by (simp add: ind_def)
  have "view t (ind s q) = view s (ind s q)" if "ind s q \<noteq> 0" using that same by (simp add: fset_def)
  then show b: "fblk t q k = fblk s q k" for k using D(11) [OF q(2)] i by (simp add: fblk_def)
  show "fdata t q k = fdata s q k" if "k < MAXFILE"
    using same [of "fblk s q k"] that by (auto simp: fdata_def b fset_def)
qed

lemma get32_zero [simp]: "get32 (\<lambda>_. 0) off = 0"
  by (simp add: get32_def)

lemma unat_block [simp]: "b < DISK1_START_BLOCK \<Longrightarrow> unat (of_nat b :: u32) = b"
  by (simp add: DISK1_START_BLOCK_def FSSIZE_def unsigned_of_nat take_bit_nat_eq_self)

text \<open>Taking a free block \<open>b\<close>: it is zeroed, and its bit in the free map is set.\<close>

definition took :: "nat \<Rightarrow> 'a fs_state_scheme \<Rightarrow> 'a fs_state_scheme \<Rightarrow> bool" where
  "took b s t \<longleftrightarrow> free_block s b \<and> tx_frame s t \<and> layout_ok t \<and> (\<forall>c. free_block t c \<longleftrightarrow> free_block s c \<and> c \<noteq> b) \<and>
     view t b = (\<lambda>_. 0) \<and> (\<forall>c. c \<noteq> b \<and> c \<noteq> bmapstart (sb s) \<longrightarrow> view t c = view s c)"

lemma balloc_took:
  assumes tx: "in_tx (Suc n) B s" and lay: "layout_ok s" and B: "bmapstart (sb s) \<in> B"
    and u: "unheld s (bmapstart (sb s))" and uf: "\<And>b. free_block s b \<Longrightarrow> unheld s b" and few: "card (lock_set s) \<le> 1"
    and free: "\<exists>b. free_block s b"
  shows "\<exists>b t. balloc ROOTDEV s = Inr (b, t) \<and> took b s t \<and> in_tx n (insert b B) t"
proof -
  obtain b t where t: "balloc ROOTDEV s = Inr (b, t)" "free_block s b" "in_tx n (insert b B) t" "tx_frame s t" "layout_ok t"
    "\<forall>c. free_block t c \<longleftrightarrow> free_block s c \<and> c \<noteq> b"
    "view t = (view s)(BBLOCK b s := set_use (b mod BPB) (view s (BBLOCK b s)), b := \<lambda>_. 0)"
    using balloc_spec [OF tx lay B u uf few] free by auto
  have "BBLOCK b s = bmapstart (sb s)" using bmap_block [OF lay] t(2) by (simp add: free_block_def)
  then show ?thesis using t by (auto simp: took_def)
qed

lemma tookD:
  assumes "took b s t" and "layout_ok s"
  shows "owned t b" "b < DISK1_START_BLOCK" "\<not> owned s b" "b \<noteq> 0" "c \<noteq> b \<Longrightarrow> c \<noteq> bmapstart (sb s) \<Longrightarrow> view t c = view s c"
    "view t b = (\<lambda>_. 0)" "sb t = sb s" "icache t = icache s" "b \<noteq> bmapstart (sb s)" "owned s c \<Longrightarrow> owned t c"
proof -
  have fr: "tx_frame s t" using assms(1) by (simp add: took_def)
  note f = tx_frame_fs [OF fr]
  have b: "free_block s b" "\<not> free_block t b" using assms(1) by (simp_all add: took_def)
  then have lt: "b < sb_size (sb s)" by (simp add: free_block_def)
  have n: "b \<noteq> 0" "data_block s b" using b assms(2) by (auto simp: layout_ok_def)
  have "BBLOCK b s \<noteq> b" using b lt assms(2) by (auto simp: layout_ok_def)
  then have m: "b \<noteq> bmapstart (sb s)" using bmap_block [OF assms(2) lt] by simp
  show "owned t b" using b n lt m by (simp add: owned_def f)
  show "b < DISK1_START_BLOCK" using n(2) by (simp add: data_block_def)
  show "\<not> owned s b" using b(1) by (simp add: owned_def)
  show "owned s c \<Longrightarrow> owned t c" using assms(1) by (auto simp: owned_def f took_def)
  show "c \<noteq> b \<Longrightarrow> c \<noteq> bmapstart (sb s) \<Longrightarrow> view t c = view s c" "view t b = (\<lambda>_. 0)"
    using assms(1) by (simp_all add: took_def)
  show "b \<noteq> 0" "b \<noteq> bmapstart (sb s)" "sb t = sb s" "icache t = icache s" by (rule n m f)+
qed

text \<open>Adding block \<open>b\<close> to a file, as its indirect block (\<open>new = None\<close>) or as part \<open>k\<close>.\<close>

lemma add_block:
  assumes ok: "file_ok s p" and dev: "idev (icache u p) = idev (icache s p)"
    and ow: "owned u b" "\<And>c. owned s c \<Longrightarrow> owned u c" and nb: "\<not> owned s b" "b \<noteq> 0"
    and hole: "case new of None \<Rightarrow> ind s p = 0 | Some k \<Rightarrow> k < MAXFILE \<and> fblk s p k = 0"
    and iu: "ind u p = (if new = None then b else ind s p)"
    and fb: "\<And>l. l < MAXFILE \<Longrightarrow> fblk u p l = (if new = Some l then b else fblk s p l)"
  shows "file_ok u p" and "fset u p = insert b (fset s p)"
proof -
  note F = file_okD [OF ok]
  have ne: "fblk s p l \<noteq> b" "ind s p \<noteq> b" if "l < MAXFILE" for l using F(3) [OF that] F(2) nb by metis+
  show "file_ok u p"
    unfolding file_ok_def
  proof (intro conjI allI impI)
    show "idev (icache u p) = ROOTDEV" using F(1) dev by simp
    show "owned u (ind u p)" if "ind u p \<noteq> 0" using that ow F(2) by (simp add: iu split: if_splits)
    fix k assume k: "k < MAXFILE"
    { assume "fblk u p k \<noteq> 0"
      then show "owned u (fblk u p k)" using ow F(3) [OF k] by (simp add: fb [OF k] split: if_splits)
      show "fblk u p k \<noteq> ind u p"
      proof (cases "new = Some k")
        case True
        then show ?thesis using ne(2) [OF k] fb [OF k] by (simp add: iu)
      next
        case False
        then have "fblk s p k \<noteq> 0" "fblk u p k = fblk s p k" using \<open>fblk u p k \<noteq> 0\<close> fb [OF k] by simp_all
        then show ?thesis using F(4) [OF k] ne(1) [OF k] by (simp add: iu)
      qed }
    fix l assume l: "l < MAXFILE" "fblk u p k = fblk u p l \<and> fblk u p k \<noteq> 0"
    show "k = l"
    proof (rule ccontr)
      assume "k \<noteq> l"
      moreover have "new \<noteq> Some k" using l ne(1) [OF l(1)] fb [OF k] fb [OF l(1)] calculation by auto
      moreover have "new \<noteq> Some l" using l ne(1) [OF k] fb [OF k] fb [OF l(1)] calculation(1) by auto
      ultimately show False using l(2) F(5) [OF k l(1)] fb [OF k] fb [OF l(1)] by simp
    qed
  qed
  show "fset u p = insert b (fset s p)"
  proof (cases new)
    case None
    then have "fblk u p ` {..<MAXFILE} = fblk s p ` {..<MAXFILE}" using fb by (auto simp: image_iff)
    then show ?thesis using None hole nb(2) by (auto simp: fset_def iu)
  next
    case (Some k)
    then have k: "k < MAXFILE" "fblk s p k = 0" using hole by simp_all
    have "fblk u p ` {..<MAXFILE} = insert b (fblk s p ` ({..<MAXFILE} - {k}))"
    proof (intro equalityI subsetI)
      fix c assume "c \<in> insert b (fblk s p ` ({..<MAXFILE} - {k}))"
      then consider "c = b" | l where "l < MAXFILE" "l \<noteq> k" "c = fblk s p l" by auto
      then show "c \<in> fblk u p ` {..<MAXFILE}"
      proof cases
        case 1
        then have "c = fblk u p k" using fb [OF k(1)] Some by simp
        then show ?thesis using k(1) by simp
      next
        case 2
        then have "c = fblk u p l" using fb [OF 2(1)] Some by simp
        then show ?thesis using 2(1) by simp
      qed
    qed (use fb Some in \<open>auto split: if_splits\<close>)
    moreover have "fblk s p ` {..<MAXFILE} - {0} = fblk s p ` ({..<MAXFILE} - {k}) - {0}" using k(2) by auto
    ultimately show ?thesis using Some nb(2) by (auto simp: fset_def iu)
  qed
qed

text \<open>The address of block \<open>b\<close> is stored in the inode itself.\<close>

lemma set_addr_step:
  assumes tk: "took b s t" and lay: "layout_ok s" and ok: "file_ok s p" and ls: "lock_set s = {}"
    and i: "i \<le> NDIRECT" and hole: "iaddrs (icache s p) i = 0"
  defines "u \<equiv> upd_inode p (\<lambda>ip. ip\<lparr>iaddrs := (iaddrs ip)(i := of_nat b)\<rparr>) t"
  shows "file_step p s u" and "k < MAXFILE \<Longrightarrow> fblk u p k = (if k = i \<and> i < NDIRECT then b else fblk s p k)"
    and "unat (iaddrs (icache u p) i) = b" and "k < MAXFILE \<Longrightarrow> fdata u p k = fdata s p k"
proof -
  note T = tookD [OF tk lay] and F = file_okD [OF ok]
  have fr: "tx_frame s t" "layout_ok t" using tk by (simp_all add: took_def)
  have ic: "icache u p = (icache s p)\<lparr>iaddrs := (iaddrs (icache s p))(i := of_nat b)\<rparr>" by (simp add: u_def T(8))
  have vu: "view u = view t" by (simp add: u_def)
  show ub: "unat (iaddrs (icache u p) i) = b" using T(2) by (simp add: ic)
  have iu: "ind u p = (if i = NDIRECT then b else ind s p)" using ub by (auto simp: ind_def ic)
  have vs: "view t c = view s c" if "owned s c" for c
  proof -
    have "c \<noteq> b" using that T(3) by blast
    then show ?thesis using T(5) [of c] that by (simp add: owned_def)
  qed
  have fb: "fblk u p k = (if k = i \<and> i < NDIRECT then b else fblk s p k)" if "k < MAXFILE" for k
  proof (cases "i = NDIRECT")
    case True
    then have "ind s p = 0" using hole by (simp add: ind_def)
    then show ?thesis using True T(4,6) by (simp add: fblk_def iu ic vu)
  next
    case False
    then show ?thesis using i vs [of "ind s p"] F(2) ub by (auto simp: fblk_def iu ic vu)
  qed
  show "fblk u p k = (if k = i \<and> i < NDIRECT then b else fblk s p k)" if "k < MAXFILE" by (rule fb [OF that])
  show "fdata u p k = fdata s p k" if k: "k < MAXFILE"
  proof (cases "k = i \<and> i < NDIRECT")
    case True
    then have "fblk s p k = 0" using hole by (simp add: fblk_def)
    then show ?thesis using True k T(4,6) by (simp add: fdata_def fb vu)
  next
    case False
    then show ?thesis using vs [of "fblk s p k"] F(3) [OF k] k by (auto simp: fdata_def fb vu)
  qed
  let ?new = "if i = NDIRECT then None else Some i"
  have h: "case ?new of None \<Rightarrow> ind s p = 0 | Some k \<Rightarrow> k < MAXFILE \<and> fblk s p k = 0"
    using hole i by (auto simp: ind_def fblk_def MAXFILE_def)
  have ow: "owned u c = owned t c" for c by (simp add: owned_def u_def)
  have ab: "file_ok u p" "fset u p = insert b (fset s p)"
    by (rule add_block [OF ok _ _ _ T(3,4) h]; use T(1,10) iu fb i in \<open>auto simp: ow ic\<close>)+
  show "file_step p s u"
    unfolding file_step_def
  proof (intro conjI)
    show "\<exists>f. icache u = (icache s)(p := icache s p\<lparr>iaddrs := f\<rparr>)" by (auto simp: u_def T(8))
    show "\<forall>c. free_block u c \<longrightarrow> free_block s c" using tk by (simp add: u_def took_def)
    show "\<forall>c \<in> fset u p. c \<in> fset s p \<or> free_block s c" using tk by (auto simp: ab(2) took_def)
    show "fset s p \<subseteq> fset u p" using ab(2) by auto
    show "\<forall>c. c \<noteq> bmapstart (sb s) \<and> c \<notin> fset u p \<longrightarrow> view u c = view s c" using T(5) by (simp add: ab(2) vu)
    show "file_ok u p" by (rule ab(1))
  qed (use tx_frameD [OF fr(1)] tx_frame_fs [OF fr(1)] fr ls tk in \<open>simp_all add: u_def tx_frame_def tx_step_def took_def\<close>)
qed

end
