(* ===== verification/Dirs.thy ===== *)
theory Dirs
  imports Files CString
begin

text \<open>
  Directories and path names (mp4/kernel/fs.c). A directory is a file of 16-byte entries. A path
  is a C string: the rest of a caller's array (\<open>Arr\<close>, without its NUL), or a position in the
  static buffer of \<open>concat_path\<close> (\<open>Buf\<close>), which every symbolic link on the way overwrites. A
  lookup can run forever (a link that leads through itself), so \<open>namex\<close> is a partial function:
  \<open>None\<close> is a call that never returns.
\<close>

definition DIRSIZ :: nat where "DIRSIZ = 14"
definition SIZEOF_DIRENT :: nat where "SIZEOF_DIRENT = 16"
definition ROOTINO :: nat where "ROOTINO = 1"
definition MAXPATH :: nat where "MAXPATH = 128"
definition MAX_SYMLINK_DEPTH :: nat where "MAX_SYMLINK_DEPTH = 10"

section \<open>Directories\<close>

text \<open>A local array of bytes at address \<open>a\<close>: \<open>xs\<close>, then NULs.\<close>

definition place :: "nat \<Rightarrow> u8 list \<Rightarrow> cmem \<Rightarrow> cmem" where
  "place a xs m = (\<lambda>k. if k < a then m k else if k < a + length xs then xs ! (k - a) else 0)"

text \<open>The first name is at address 0 and the second at 64, farther than the comparison looks.\<close>

definition namecmp :: "u8 list \<Rightarrow> u8 list \<Rightarrow> int" where
  "namecmp s t = strncmp (place 64 t (place 0 s (\<lambda>_. 0))) 0 64 DIRSIZ"

text \<open>\<open>struct dirent\<close> at address 0: \<open>ushort inum; char name[DIRSIZ]\<close>.\<close>

definition de_inum :: "cmem \<Rightarrow> u16" where
  "de_inum de = get16 de 0"

definition de_name :: "cmem \<Rightarrow> u8 list" where
  "de_name de = map de [2..<2 + DIRSIZ]"

text \<open>\<open>strncpy(de.name, name, DIRSIZ); de.inum = inum\<close>, with \<open>name\<close> at address 64.\<close>

definition make_dirent :: "u8 list \<Rightarrow> nat \<Rightarrow> cmem" where
  "make_dirent name n = put16 0 (of_nat n) (strncpy (place 64 name (\<lambda>_. 0)) 2 64 (int DIRSIZ))"

text \<open>The offsets \<open>for (off = 0; off < size; off += sizeof(de))\<close> visits; a read does not change the size.\<close>

definition dir_offs :: "nat \<Rightarrow> nat list" where
  "dir_offs sz = map (\<lambda>k. k * SIZEOF_DIRENT) [0..<(sz + SIZEOF_DIRENT - 1) div SIZEOF_DIRENT]"

definition read_dirent :: "nat \<Rightarrow> nat \<Rightarrow> 'a fs_state_scheme \<Rightarrow> (nat \<times> 'a fs_state_scheme \<times> cmem) res" where
  "read_dirent dp off s = readi copy_out dp 0 (of_nat off) (of_nat SIZEOF_DIRENT) s (\<lambda>_. 0)"

text \<open>The results are the inode pointer (0: not found), \<open>*poff\<close> and the state.\<close>

primrec dirlookup_scan :: "nat \<Rightarrow> u8 list \<Rightarrow> nat list \<Rightarrow> 'a fs_state_scheme \<Rightarrow>
    (nat \<times> nat \<times> 'a fs_state_scheme) res" where
  "dirlookup_scan dp name [] s = Inr (0, 0, s)"
| "dirlookup_scan dp name (off # offs) s =
     rbind (read_dirent dp off s) (\<lambda>(r, s1, de).
     if r \<noteq> SIZEOF_DIRENT then Inl (Panic ''dirlookup read'')
     else if de_inum de = 0 then dirlookup_scan dp name offs s1
     else if namecmp name (de_name de) = 0 then
       rbind (iget (idev (icache s1 dp)) (unat (de_inum de)) s1) (\<lambda>(ip, s2). Inr (ip, off, s2))
     else dirlookup_scan dp name offs s1)"

definition dirlookup :: "nat \<Rightarrow> u8 list \<Rightarrow> 'a fs_state_scheme \<Rightarrow> (nat \<times> nat \<times> 'a fs_state_scheme) res" where
  "dirlookup dp name s =
     (if itype (icache s dp) \<noteq> T_DIR then Inl (Panic ''dirlookup not DIR'')
      else dirlookup_scan dp name (dir_offs (unat (isize (icache s dp)))) s)"

text \<open>The offset of the first empty entry, or the one after the last.\<close>

primrec dirlink_slot :: "nat \<Rightarrow> nat \<Rightarrow> nat list \<Rightarrow> 'a fs_state_scheme \<Rightarrow> (nat \<times> 'a fs_state_scheme) res" where
  "dirlink_slot dp end1 [] s = Inr (end1, s)"
| "dirlink_slot dp end1 (off # offs) s =
     rbind (read_dirent dp off s) (\<lambda>(r, s1, de).
     if r \<noteq> SIZEOF_DIRENT then Inl (Panic ''dirlink read'')
     else if de_inum de = 0 then Inr (off, s1)
     else dirlink_slot dp end1 offs s1)"

definition dirlink :: "nat \<Rightarrow> u8 list \<Rightarrow> nat \<Rightarrow> 'a fs_state_scheme \<Rightarrow> (int \<times> 'a fs_state_scheme) res" where
  "dirlink dp name n s =
     rbind (dirlookup dp name s) (\<lambda>(ip, _, s1).
     if ip \<noteq> 0 then rbind (iput ip s1) (\<lambda>s2. Inr (-1, s2))
     else
       let offs = dir_offs (unat (isize (icache s1 dp))) in
       rbind (dirlink_slot dp (length offs * SIZEOF_DIRENT) offs s1) (\<lambda>(off, s2).
       rbind (writei (copy_in (make_dirent name n)) dp 0 (of_nat off) (of_nat SIZEOF_DIRENT) s2) (\<lambda>(r, s3).
       if r \<noteq> int SIZEOF_DIRENT then Inl (Panic ''dirlink'') else Inr (0, s3))))"

section \<open>Path names\<close>

text \<open>The current directory of the calling process and the static buffer of \<open>concat_path\<close>, at
  addresses 0 to 127 of \<open>pathmem\<close>; \<open>namex\<close>'s local array \<open>target\<close> is at 256.\<close>

record path_state = fs_state +
  cwd :: nat
  pathmem :: cmem

datatype cptr = Arr "u8 list" | Buf nat

definition PATHBUF :: nat where "PATHBUF = 128"
definition SLASH :: u8 where "SLASH = 47"

definition string_at :: "cmem \<Rightarrow> cptr \<Rightarrow> u8 list" where
  "string_at m p = (case p of Arr xs \<Rightarrow> xs | Buf k \<Rightarrow> takeWhile (\<lambda>c. c \<noteq> 0) (map m [k..<PATHBUF]))"

definition advance :: "nat \<Rightarrow> cptr \<Rightarrow> cptr" where
  "advance n p = (case p of Arr xs \<Rightarrow> Arr (drop n xs) | Buf k \<Rightarrow> Buf (k + n))"

definition char_at :: "cmem \<Rightarrow> cptr \<Rightarrow> nat \<Rightarrow> u8" where
  "char_at m p j = (case p of Arr xs \<Rightarrow> if j < length xs then xs ! j else 0 | Buf k \<Rightarrow> m (k + j))"

text \<open>\<open>skipelem\<close> returns the pointer after the element and the element, cut at \<open>DIRSIZ\<close>.\<close>

definition skipelem :: "cmem \<Rightarrow> cptr \<Rightarrow> (cptr \<times> u8 list) option" where
  "skipelem m path =
     (let xs = string_at m path;
          s = dropWhile (\<lambda>c. c = SLASH) xs;
          elem = takeWhile (\<lambda>c. c \<noteq> SLASH) s;
          rest = dropWhile (\<lambda>c. c = SLASH) (dropWhile (\<lambda>c. c \<noteq> SLASH) s)
      in if s = [] then None else Some (advance (length xs - length rest) path, take DIRSIZ elem))"

text \<open>\<open>safestrcat(buf, src, max)\<close>: \<open>src\<close> may point into \<open>buf\<close>, which changes under it.\<close>

function safestrcat_from :: "nat \<Rightarrow> cptr \<Rightarrow> nat \<Rightarrow> nat \<Rightarrow> cmem \<Rightarrow> cmem" where
  "safestrcat_from max1 src i j m =
     (if i < max1 - 1 \<and> char_at m src j \<noteq> 0
      then safestrcat_from max1 src (i + 1) (j + 1) (m(i := char_at m src j))
      else m(i := 0))"
  by pat_completeness auto
termination
  by (relation "measure (\<lambda>(max1, src, i, j, m). max1 - i)") auto

declare safestrcat_from.simps [simp del]

definition safestrcat :: "cptr \<Rightarrow> nat \<Rightarrow> cmem \<Rightarrow> cmem" where
  "safestrcat src max1 m =
     safestrcat_from max1 src (length (takeWhile (\<lambda>c. c \<noteq> 0) (map m [0..<max1]))) 0 m"

text \<open>\<open>concat_path(target, rest)\<close> returns \<open>buf\<close>, that is \<open>Buf 0\<close>.\<close>

definition concat_path :: "u8 list \<Rightarrow> cptr \<Rightarrow> cmem \<Rightarrow> cmem" where
  "concat_path target rest m =
     (let m1 = safestrcpy (place 256 target m) 0 256 (int PATHBUF)
      in if char_at m1 rest 0 \<noteq> 0
         then safestrcat rest PATHBUF (safestrcat (Arr [SLASH]) PATHBUF m1) else m1)"

definition at_end :: "'a path_state_scheme \<Rightarrow> cptr \<Rightarrow> bool" where
  "at_end s path \<longleftrightarrow> char_at (pathmem s) path 0 = 0"

definition namex_start :: "cptr \<Rightarrow> 'a path_state_scheme \<Rightarrow> (nat \<times> 'a path_state_scheme) res" where
  "namex_start path s =
     (if char_at (pathmem s) path 0 = SLASH then iget ROOTDEV ROOTINO s
      else Inr (cwd s, idup (cwd s) s))"

text \<open>One iteration of the loop of \<open>namex\<close>, after \<open>skipelem\<close>: it returns an inode pointer, goes on
  from another inode, or calls \<open>namex\<close> again on the path a symbolic link gives.\<close>

datatype 's walk = Return nat 's | Continue nat nat 's | Restart cptr 's

definition namex_elem :: "bool \<Rightarrow> bool \<Rightarrow> nat \<Rightarrow> cptr \<Rightarrow> u8 list \<Rightarrow> nat \<Rightarrow> 'a path_state_scheme \<Rightarrow>
    'a path_state_scheme walk res" where
  "namex_elem parent follow ip path name depth s =
     rbind (ilock ip s) (\<lambda>s1.
     if itype (icache s1 ip) \<noteq> T_DIR then rbind (iunlockput ip s1) (\<lambda>s2. Inr (Return 0 s2))
     else if imode (icache s1 ip) AND M_READ = 0 then rbind (iunlockput ip s1) (\<lambda>s2. Inr (Return 0 s2))
     else if parent \<and> at_end s1 path then rbind (iunlock ip s1) (\<lambda>s2. Inr (Return ip s2))
     else
       rbind (dirlookup ip name s1) (\<lambda>(next, _, s2).
       if next = 0 then rbind (iunlockput ip s2) (\<lambda>s3. Inr (Return 0 s3))
       else
         rbind (iunlockput ip s2) (\<lambda>s3.
         if follow then
           rbind (ilock next s3) (\<lambda>s4.
           if itype (icache s4 next) = T_SYMLINK \<and> \<not> at_end s4 path then
             if depth + 1 > MAX_SYMLINK_DEPTH then rbind (iunlockput next s4) (\<lambda>s5. Inr (Return 0 s5))
             else
               rbind (readi copy_out next 0 0 (of_nat DIRSIZ) s4 (\<lambda>_. 0)) (\<lambda>(_, s5, target).
               rbind (iunlockput next s5) (\<lambda>s6.
               Inr (Restart (Buf 0) (s6\<lparr>pathmem := concat_path
                 (takeWhile (\<lambda>c. c \<noteq> 0) (map target [0..<DIRSIZ + 1])) path (pathmem s6)\<rparr>))))
           else rbind (iunlock next s4) (\<lambda>s5. Inr (Continue next depth s5)))
         else Inr (Continue next depth s3))))"

text \<open>As in the source the depth is never carried on: each recursive call counts from 0 again, and
  each call leaves its loop at the first symbolic link it follows.\<close>

partial_function (option) namex_loop :: "bool \<Rightarrow> bool \<Rightarrow> nat \<Rightarrow> cptr \<Rightarrow> u8 list \<Rightarrow> nat \<Rightarrow> 'a path_state_scheme \<Rightarrow>
    (nat \<times> u8 list \<times> 'a path_state_scheme) res option" where
  [code]: "namex_loop parent follow ip path name depth s =
     (case skipelem (pathmem s) path of
        None \<Rightarrow>
          if parent then Some (rbind (iput ip s) (\<lambda>s1. Inr (0, name, s1))) else Some (Inr (ip, name, s))
      | Some (path1, name1) \<Rightarrow>
          (case namex_elem parent follow ip path1 name1 depth s of
             Inl e \<Rightarrow> Some (Inl e)
           | Inr (Return r s1) \<Rightarrow> Some (Inr (r, name1, s1))
           | Inr (Continue ip1 depth1 s1) \<Rightarrow> namex_loop parent follow ip1 path1 name1 depth1 s1
           | Inr (Restart path2 s1) \<Rightarrow>
               (case namex_start path2 s1 of
                  Inl e \<Rightarrow> Some (Inl e)
                | Inr (ip1, s2) \<Rightarrow> namex_loop parent follow ip1 path2 name1 0 s2)))"

definition namex :: "cptr \<Rightarrow> bool \<Rightarrow> bool \<Rightarrow> 'a path_state_scheme \<Rightarrow>
    (nat \<times> u8 list \<times> 'a path_state_scheme) res option" where
  "namex path parent follow s =
     (case namex_start path s of
        Inl e \<Rightarrow> Some (Inl e)
      | Inr (ip, s1) \<Rightarrow> namex_loop parent follow ip path [] 0 s1)"

definition namei :: "u8 list \<Rightarrow> 'a path_state_scheme \<Rightarrow> (nat \<times> u8 list \<times> 'a path_state_scheme) res option" where
  "namei path s = namex (Arr path) False False s"

definition namei_follow :: "u8 list \<Rightarrow> 'a path_state_scheme \<Rightarrow> (nat \<times> u8 list \<times> 'a path_state_scheme) res option" where
  "namei_follow path s = namex (Arr path) False True s"

definition nameiparent :: "u8 list \<Rightarrow> 'a path_state_scheme \<Rightarrow> (nat \<times> u8 list \<times> 'a path_state_scheme) res option" where
  "nameiparent path s = namex (Arr path) True False s"

text \<open>Results that may not come: sequencing for \<open>res option\<close>.\<close>

definition obind :: "'x res option \<Rightarrow> ('x \<Rightarrow> 'y res option) \<Rightarrow> 'y res option" where
  "obind r f = (case r of None \<Rightarrow> None | Some (Inl e) \<Rightarrow> Some (Inl e) | Some (Inr x) \<Rightarrow> f x)"

lemma obind_simps [simp]:
  "obind None f = None" "obind (Some (Inl e)) f = Some (Inl e)" "obind (Some (Inr x)) f = f x"
  by (simp_all add: obind_def)

lemma obind_cong [fundef_cong]:
  "r = r' \<Longrightarrow> (\<And>x. r' = Some (Inr x) \<Longrightarrow> f x = g x) \<Longrightarrow> obind r f = obind r' g"
  by (auto simp: obind_def split: option.splits sum.splits)

function follow_symlink :: "nat \<Rightarrow> nat \<Rightarrow> bool \<Rightarrow> 'a path_state_scheme \<Rightarrow> (nat \<times> 'a path_state_scheme) res option" where
  "follow_symlink ip depth read s =
     (if depth > 10 then Some (rbind (iunlockput ip s) (\<lambda>s1. Inr (0, s1)))
      else if itype (icache s ip) \<noteq> T_SYMLINK then Some (Inr (ip, s))
      else
        obind (Some (readi copy_out ip 0 0 (of_nat MAXPATH) s (\<lambda>_. 0))) (\<lambda>(len, s1, target).
        obind (Some (iunlockput ip s1)) (\<lambda>s2.
        if len = 0 then Some (Inr (0, s2))
        else
          obind (namei (takeWhile (\<lambda>c. c \<noteq> 0) (map target [0..<MAXPATH])) s2) (\<lambda>(next, _, s3).
          if next = 0 then Some (Inr (0, s3))
          else
            obind (Some (ilock next s3)) (\<lambda>s4.
            if itype (icache s4 next) = T_SYMLINK then follow_symlink next (depth + 1) read s4
            else if read then obind (Some (iunlockput next s4)) (\<lambda>s5. Some (Inr (ip, s5)))
            else Some (Inr (next, s4)))))))"
  by pat_completeness auto
termination
  by (relation "measure (\<lambda>(ip, depth, read, s). 11 - depth)") auto

declare follow_symlink.simps [simp del]

end
