(* ===== verification/FileTable.thy ===== *)
theory FileTable
  imports Dirs Pipe
begin

text \<open>
  Open files (mp4/kernel/file.c), pipe creation (pipealloc of mp4/kernel/pipe.c) and the system
  state the system calls work on. A pointer into the file table is the index plus one, a pipe is
  named by the page that holds it. User memory and the devices are one component \<open>'m\<close>, changed by
  the parameters \<open>co\<close> (copyout) and \<open>dev\<close> (the functions in \<open>devsw\<close>); \<open>ci\<close> is copyin.
\<close>

section \<open>State\<close>

datatype ftype = FD_NONE | FD_PIPE | FD_INODE | FD_DEVICE

record open_file =
  ftyp :: ftype
  fref :: int
  freadable :: bool
  fwritable :: bool
  fpipe :: nat
  fip :: nat
  foff :: u32
  fmajor :: u16

text \<open>The file table, the pages used as pipes, the free pages of \<open>kalloc\<close> in list order and, of
  the calling process, its descriptors and whether it has been killed.\<close>

record sys_state = path_state +
  ftable :: "nat \<Rightarrow> open_file"
  pipes :: "nat \<Rightarrow> pipe"
  pages :: "nat list"
  ofile :: "nat \<Rightarrow> nat"
  killed :: bool

definition NFILE :: nat where "NFILE = 100"
definition NOFILE :: nat where "NOFILE = 16"
definition NDEV :: nat where "NDEV = 10"

definition upd_file :: "nat \<Rightarrow> (open_file \<Rightarrow> open_file) \<Rightarrow> 'a sys_state_scheme \<Rightarrow> 'a sys_state_scheme" where
  "upd_file f g s = s\<lparr>ftable := (ftable s)(f := g (ftable s f))\<rparr>"

text \<open>\<open>kalloc\<close> and \<open>kfree\<close> as their callers see them: the free list as a list of pages.\<close>

definition page_alloc :: "'a sys_state_scheme \<Rightarrow> nat \<times> 'a sys_state_scheme" where
  "page_alloc s = (case pages s of [] \<Rightarrow> (0, s) | p # ps \<Rightarrow> (p, s\<lparr>pages := ps\<rparr>))"

definition page_free :: "nat \<Rightarrow> 'a sys_state_scheme \<Rightarrow> 'a sys_state_scheme" where
  "page_free p s = s\<lparr>pages := p # pages s\<rparr>"

section \<open>The file table\<close>

definition filealloc :: "'a sys_state_scheme \<Rightarrow> nat \<times> 'a sys_state_scheme" where
  "filealloc s =
     (case List.find (\<lambda>i. fref (ftable s (Suc i)) = 0) [0..<NFILE] of
        Some i \<Rightarrow> (Suc i, upd_file (Suc i) (\<lambda>x. x\<lparr>fref := 1\<rparr>) s)
      | None \<Rightarrow> (0, s))"

definition filedup :: "nat \<Rightarrow> 'a sys_state_scheme \<Rightarrow> 'a sys_state_scheme res" where
  "filedup f s =
     (if fref (ftable s f) < 1 then Inl (Panic ''filedup'')
      else Inr (upd_file f (\<lambda>x. x\<lparr>fref := fref x + 1\<rparr>) s))"

text \<open>\<open>pipeclose(ff.pipe, ff.writable)\<close>, with the page given back when both ends are closed.\<close>

definition close_pipe :: "nat \<Rightarrow> bool \<Rightarrow> 'a sys_state_scheme \<Rightarrow> 'a sys_state_scheme" where
  "close_pipe p w s =
     (let (pi, dead) = pipeclose w (pipes s p);
          s1 = s\<lparr>pipes := (pipes s)(p := pi)\<rparr>
      in if dead then page_free p s1 else s1)"

definition fileclose :: "nat \<Rightarrow> 'a sys_state_scheme \<Rightarrow> 'a sys_state_scheme res" where
  "fileclose f s =
     (if fref (ftable s f) < 1 then Inl (Panic ''fileclose'')
      else if fref (ftable s f) - 1 > 0 then Inr (upd_file f (\<lambda>x. x\<lparr>fref := fref x - 1\<rparr>) s)
      else
        let ff = ftable s f;
            s1 = upd_file f (\<lambda>x. x\<lparr>fref := 0, ftyp := FD_NONE\<rparr>) s
        in if ftyp ff = FD_PIPE then Inr (close_pipe (fpipe ff) (fwritable ff) s1)
           else if ftyp ff = FD_INODE \<or> ftyp ff = FD_DEVICE then
             rbind (begin_op s1) (\<lambda>s2. rbind (iput (fip ff) s2) end_op)
           else Inr s1)"

section \<open>Pipes\<close>

definition open_pipe_end :: "nat \<Rightarrow> bool \<Rightarrow> open_file \<Rightarrow> open_file" where
  "open_pipe_end p w x = x\<lparr>ftyp := FD_PIPE, freadable := \<not> w, fwritable := w, fpipe := p\<rparr>"

text \<open>The results are the two files (\<open>None\<close>: -1). On failure the files allocated are closed.\<close>

definition pipealloc :: "'a sys_state_scheme \<Rightarrow> ((nat \<times> nat) option \<times> 'a sys_state_scheme) res" where
  "pipealloc s =
     (let (f0, s1) = filealloc s;
          (f1, s2) = (if f0 = 0 then (0, s1) else filealloc s1);
          (p, s3) = (if f1 = 0 then (0, s2) else page_alloc s2)
      in if f0 = 0 \<or> f1 = 0 \<or> p = 0 then
           rbind (if f0 \<noteq> 0 then fileclose f0 s3 else Inr s3) (\<lambda>s4.
           rbind (if f1 \<noteq> 0 then fileclose f1 s4 else Inr s4) (\<lambda>s5. Inr (None, s5)))
         else
           let s4 = s3\<lparr>pipes := (pipes s3)(p := pipe_init (\<lambda>_. 5))\<rparr> in
           Inr (Some (f0, f1), upd_file f1 (open_pipe_end p True) (upd_file f0 (open_pipe_end p False) s4)))"

section \<open>Reading and writing open files\<close>

text \<open>\<open>struct stat\<close> as bytes; \<open>junk\<close> is what the stack held in the padding, which is copied out too.\<close>

definition SIZEOF_STAT :: nat where "SIZEOF_STAT = 32"

definition stat_bytes :: "cmem \<Rightarrow> stat \<Rightarrow> u8 list" where
  "stat_bytes junk st =
     map (put32 24 (of_int (st_mode st)) (put32 20 0 (put32 16 (of_nat (st_size st))
       (put16 10 (st_nlink st) (put16 8 (st_type st) (put32 4 (of_nat (st_ino st))
       (put32 0 (of_nat (st_dev st)) junk))))))) [0..<SIZEOF_STAT]"

definition filestat :: "'m copyout \<Rightarrow> cmem \<Rightarrow> nat \<Rightarrow> nat \<Rightarrow> 'a sys_state_scheme \<Rightarrow> 'm \<Rightarrow>
    (int \<times> 'a sys_state_scheme \<times> 'm) res" where
  "filestat co junk f addr s mem =
     (if ftyp (ftable s f) = FD_INODE \<or> ftyp (ftable s f) = FD_DEVICE then
        rbind (ilock (fip (ftable s f)) s) (\<lambda>s1.
        let st = stati (fip (ftable s1 f)) s1 in
        rbind (iunlock (fip (ftable s1 f)) s1) (\<lambda>s2.
        let (mem1, ok) = co addr (stat_bytes junk st) mem in
        Inr (if ok then 0 else -1, s2, mem1)))
      else Inr (-1, s, mem))"

text \<open>Copying one byte; a copy of one byte that fails changes nothing.\<close>

definition byte_out :: "'m copyout \<Rightarrow> nat \<Rightarrow> u8 \<Rightarrow> 'm \<Rightarrow> 'm option" where
  "byte_out co a c mem = (let (mem1, ok) = co a [c] mem in if ok then Some mem1 else None)"

definition byte_in :: "copyin \<Rightarrow> nat \<Rightarrow> u8 option" where
  "byte_in ci a = (let (bs, ok) = ci a 1 in if ok then Some (hd bs) else None)"

text \<open>\<open>dev m\<close> is \<open>devsw[m].read\<close> or \<open>devsw[m].write\<close>, \<open>None\<close> a null pointer.\<close>

type_synonym 'm device = "nat \<Rightarrow> nat \<Rightarrow> int \<Rightarrow> 'm \<Rightarrow> (io \<times> 'm) option"

definition dev_call :: "'m device \<Rightarrow> u16 \<Rightarrow> nat \<Rightarrow> int \<Rightarrow> 'm \<Rightarrow> io \<times> 'm" where
  "dev_call dev major addr n mem =
     (if sint major < 0 \<or> int NDEV \<le> sint major then (Ret (-1), mem)
      else case dev (unat major) addr n mem of None \<Rightarrow> (Ret (-1), mem) | Some r \<Rightarrow> r)"

definition fileread :: "'m copyout \<Rightarrow> 'm device \<Rightarrow> nat \<Rightarrow> nat \<Rightarrow> int \<Rightarrow> 'a sys_state_scheme \<Rightarrow> 'm \<Rightarrow>
    (io \<times> 'a sys_state_scheme \<times> 'm) res" where
  "fileread co dev f addr n s mem =
     (let x = ftable s f in
      if \<not> freadable x then Inr (Ret (-1), s, mem)
      else case ftyp x of
        FD_PIPE \<Rightarrow>
          (let (r, pi, mem1) = piperead (byte_out co) (killed s) addr n (pipes s (fpipe x)) mem
           in Inr (r, s\<lparr>pipes := (pipes s)(fpipe x := pi)\<rparr>, mem1))
      | FD_DEVICE \<Rightarrow> (let (r, mem1) = dev_call dev (fmajor x) addr n mem in Inr (r, s, mem1))
      | FD_INODE \<Rightarrow>
          rbind (ilock (fip x) s) (\<lambda>s1.
          rbind (readi co (fip x) addr (foff x) (of_int n) s1 mem) (\<lambda>(r, s2, mem1).
          let s3 = (if r > 0 then upd_file f (\<lambda>x. x\<lparr>foff := foff x + of_nat r\<rparr>) s2 else s2) in
          rbind (iunlock (fip x) s3) (\<lambda>s4. Inr (Ret (int r), s4, mem1))))
      | FD_NONE \<Rightarrow> Inl (Panic ''fileread''))"

text \<open>The bytes one transaction of \<open>filewrite\<close> may write.\<close>

definition WRITE_MAX :: int where "WRITE_MAX = ((int MAXOPBLOCKS - 1 - 1 - 2) div 2) * int BSIZE"

lemma WRITE_MAX_pos: "0 < WRITE_MAX"
  by (simp add: WRITE_MAX_def MAXOPBLOCKS_def BSIZE_def)

text \<open>One transaction: the result is \<open>r\<close>.\<close>

definition filewrite_part :: "copyin \<Rightarrow> nat \<Rightarrow> nat \<Rightarrow> int \<Rightarrow> 'a sys_state_scheme \<Rightarrow> (int \<times> 'a sys_state_scheme) res" where
  "filewrite_part ci f addr n1 s =
     (let ip = fip (ftable s f) in
      rbind (begin_op s) (\<lambda>s1.
      rbind (ilock ip s1) (\<lambda>s2.
      rbind (writei ci ip addr (foff (ftable s2 f)) (of_int n1) s2) (\<lambda>(r, s3).
      let s4 = (if r > 0 then upd_file f (\<lambda>x. x\<lparr>foff := foff x + of_int r\<rparr>) s3 else s3) in
      rbind (iunlock ip s4) (\<lambda>s5.
      rbind (end_op s5) (\<lambda>s6. Inr (r, s6)))))))"

function filewrite_loop :: "copyin \<Rightarrow> nat \<Rightarrow> nat \<Rightarrow> int \<Rightarrow> int \<Rightarrow> 'a sys_state_scheme \<Rightarrow> (int \<times> 'a sys_state_scheme) res" where
  "filewrite_loop ci f addr n i s =
     (if i < n then
        let n1 = min (n - i) WRITE_MAX in
        rbind (filewrite_part ci f (addr + nat i) n1 s) (\<lambda>(r, s1).
        if r < 0 then Inr (i, s1)
        else if r \<noteq> n1 then Inl (Panic ''short filewrite'')
        else filewrite_loop ci f addr n (i + r) s1)
      else Inr (i, s))"
  by pat_completeness auto
termination
  by (relation "measure (\<lambda>(ci, f, addr, n, i, s). nat (n - i))") (use WRITE_MAX_pos in auto)

declare filewrite_loop.simps [simp del]

definition filewrite :: "copyin \<Rightarrow> 'm device \<Rightarrow> nat \<Rightarrow> nat \<Rightarrow> int \<Rightarrow> 'a sys_state_scheme \<Rightarrow> 'm \<Rightarrow>
    (io \<times> 'a sys_state_scheme \<times> 'm) res" where
  "filewrite ci dev f addr n s mem =
     (let x = ftable s f in
      if \<not> fwritable x then Inr (Ret (-1), s, mem)
      else case ftyp x of
        FD_PIPE \<Rightarrow>
          (let (r, pi) = pipewrite (byte_in ci) (killed s) addr n (pipes s (fpipe x))
           in Inr (r, s\<lparr>pipes := (pipes s)(fpipe x := pi)\<rparr>, mem))
      | FD_DEVICE \<Rightarrow> (let (r, mem1) = dev_call dev (fmajor x) addr n mem in Inr (r, s, mem1))
      | FD_INODE \<Rightarrow>
          rbind (filewrite_loop ci f addr n 0 s) (\<lambda>(i, s1). Inr (Ret (if i = n then n else -1), s1, mem))
      | FD_NONE \<Rightarrow> Inl (Panic ''filewrite''))"

end
