(* ===== verification/Sysfile.thy ===== *)
theory Sysfile
  imports FileTable
begin

text \<open>
  The file system calls (mp4/kernel/sysfile.c). A call gets what \<open>argint\<close>, \<open>argaddr\<close> and
  \<open>argstr\<close> fetched: integers, addresses, and a path or \<open>None\<close> where \<open>argstr\<close> failed. The calls
  that look a path up return a \<open>res option\<close>, \<open>None\<close> when the lookup never ends.
\<close>

section \<open>File descriptors\<close>

definition argfd :: "int \<Rightarrow> 'a sys_state_scheme \<Rightarrow> (nat \<times> nat) option" where
  "argfd fd s =
     (if fd < 0 \<or> int NOFILE \<le> fd \<or> ofile s (nat fd) = 0 then None else Some (nat fd, ofile s (nat fd)))"

definition fdalloc :: "nat \<Rightarrow> 'a sys_state_scheme \<Rightarrow> int \<times> 'a sys_state_scheme" where
  "fdalloc f s =
     (case List.find (\<lambda>fd. ofile s fd = 0) [0..<NOFILE] of
        Some fd \<Rightarrow> (int fd, s\<lparr>ofile := (ofile s)(fd := f)\<rparr>)
      | None \<Rightarrow> (-1, s))"

definition sys_dup :: "int \<Rightarrow> 'a sys_state_scheme \<Rightarrow> (int \<times> 'a sys_state_scheme) res" where
  "sys_dup fd0 s =
     (case argfd fd0 s of
        None \<Rightarrow> Inr (-1, s)
      | Some (_, f) \<Rightarrow>
          (let (fd, s1) = fdalloc f s
           in if fd < 0 then Inr (-1, s1) else rbind (filedup f s1) (\<lambda>s2. Inr (fd, s2))))"

definition sys_read :: "'m copyout \<Rightarrow> 'm device \<Rightarrow> int \<Rightarrow> nat \<Rightarrow> int \<Rightarrow> 'a sys_state_scheme \<Rightarrow> 'm \<Rightarrow>
    (io \<times> 'a sys_state_scheme \<times> 'm) res" where
  "sys_read co dev fd p n s mem =
     (case argfd fd s of None \<Rightarrow> Inr (Ret (-1), s, mem) | Some (_, f) \<Rightarrow> fileread co dev f p n s mem)"

definition sys_write :: "copyin \<Rightarrow> 'm device \<Rightarrow> int \<Rightarrow> nat \<Rightarrow> int \<Rightarrow> 'a sys_state_scheme \<Rightarrow> 'm \<Rightarrow>
    (io \<times> 'a sys_state_scheme \<times> 'm) res" where
  "sys_write ci dev fd p n s mem =
     (case argfd fd s of None \<Rightarrow> Inr (Ret (-1), s, mem) | Some (_, f) \<Rightarrow> filewrite ci dev f p n s mem)"

definition sys_close :: "int \<Rightarrow> 'a sys_state_scheme \<Rightarrow> (int \<times> 'a sys_state_scheme) res" where
  "sys_close fd0 s =
     (case argfd fd0 s of
        None \<Rightarrow> Inr (-1, s)
      | Some (fd, f) \<Rightarrow> rbind (fileclose f (s\<lparr>ofile := (ofile s)(fd := 0)\<rparr>)) (\<lambda>s1. Inr (0, s1)))"

definition sys_fstat :: "'m copyout \<Rightarrow> cmem \<Rightarrow> int \<Rightarrow> nat \<Rightarrow> 'a sys_state_scheme \<Rightarrow> 'm \<Rightarrow>
    (int \<times> 'a sys_state_scheme \<times> 'm) res" where
  "sys_fstat co junk fd st s mem =
     (case argfd fd s of None \<Rightarrow> Inr (-1, s, mem) | Some (_, f) \<Rightarrow> filestat co junk f st s mem)"

text \<open>The two descriptors are the 4-byte integers of \<open>fdarray\<close>.\<close>

definition int_bytes :: "int \<Rightarrow> u8 list" where
  "int_bytes i = map (put32 0 (of_int i) (\<lambda>_. 0)) [0..<4]"

definition close_both :: "nat \<Rightarrow> nat \<Rightarrow> 'a sys_state_scheme \<Rightarrow> (int \<times> 'a sys_state_scheme) res" where
  "close_both rfile wfile s = rbind (fileclose rfile s) (\<lambda>s1. rbind (fileclose wfile s1) (\<lambda>s2. Inr (-1, s2)))"

definition sys_pipe :: "'m copyout \<Rightarrow> nat \<Rightarrow> 'a sys_state_scheme \<Rightarrow> 'm \<Rightarrow> ((int \<times> 'a sys_state_scheme) \<times> 'm) res" where
  "sys_pipe co fdarray s mem =
     rbind (pipealloc s) (\<lambda>(fs, s1).
     case fs of
       None \<Rightarrow> Inr ((-1, s1), mem)
     | Some (rfile, wfile) \<Rightarrow>
         let (fd0, s2) = fdalloc rfile s1;
             (fd1, s3) = (if fd0 < 0 then (-1, s2) else fdalloc wfile s2)
         in if fd0 < 0 \<or> fd1 < 0 then
              rbind (close_both rfile wfile (if fd0 \<ge> 0 then s3\<lparr>ofile := (ofile s3)(nat fd0 := 0)\<rparr> else s3))
                (\<lambda>r. Inr (r, mem))
            else
              let (mem1, ok1) = co fdarray (int_bytes fd0) mem;
                  (mem2, ok2) = (if ok1 then co (fdarray + 4) (int_bytes fd1) mem1 else (mem1, False))
              in if \<not> ok1 \<or> \<not> ok2 then
                   rbind (close_both rfile wfile (s3\<lparr>ofile := (ofile s3)(nat fd0 := 0, nat fd1 := 0)\<rparr>)) (\<lambda>r. Inr (r, mem2))
                 else Inr ((0, s3), mem2))"

section \<open>Links\<close>

text \<open>Changing a field of a locked inode: the change, then \<open>iupdate\<close>.\<close>

definition change_inode :: "nat \<Rightarrow> (inode \<Rightarrow> inode) \<Rightarrow> 'a fs_state_scheme \<Rightarrow> 'a fs_state_scheme res" where
  "change_inode p f s = iupdate p (upd_inode p f s)"

text \<open>\<open>iunlockput(ip); end_op(); return r\<close> and \<open>end_op(); return r\<close>.\<close>

definition put_end :: "nat \<Rightarrow> int \<Rightarrow> 'a fs_state_scheme \<Rightarrow> (int \<times> 'a fs_state_scheme) res" where
  "put_end p r s = rbind (iunlockput p s) (\<lambda>s1. rbind (end_op s1) (\<lambda>s2. Inr (r, s2)))"

definition end_ret :: "int \<Rightarrow> 'a fs_state_scheme \<Rightarrow> (int \<times> 'a fs_state_scheme) res" where
  "end_ret r s = rbind (end_op s) (\<lambda>s1. Inr (r, s1))"

text \<open>The label \<open>bad\<close> of \<open>sys_link\<close>.\<close>

definition link_undo :: "nat \<Rightarrow> 'a fs_state_scheme \<Rightarrow> (int \<times> 'a fs_state_scheme) res" where
  "link_undo ip s =
     rbind (ilock ip s) (\<lambda>s1.
     rbind (change_inode ip (\<lambda>x. x\<lparr>inlink := inlink x - 1\<rparr>) s1) (put_end ip (-1)))"

definition sys_link :: "u8 list option \<Rightarrow> u8 list option \<Rightarrow> 'a path_state_scheme \<Rightarrow>
    (int \<times> 'a path_state_scheme) res option" where
  "sys_link old1 new1 s =
     (case (old1, new1) of
        (Some old, Some new) \<Rightarrow>
          obind (Some (begin_op s)) (\<lambda>s1.
          obind (namei old s1) (\<lambda>(ip, _, s2).
          if ip = 0 then Some (end_ret (-1) s2)
          else
            obind (Some (ilock ip s2)) (\<lambda>s3.
            if itype (icache s3 ip) = T_DIR then Some (put_end ip (-1) s3)
            else
              obind (Some (change_inode ip (\<lambda>x. x\<lparr>inlink := inlink x + 1\<rparr>) s3)) (\<lambda>s4.
              obind (Some (iunlock ip s4)) (\<lambda>s5.
              obind (nameiparent new s5) (\<lambda>(dp, name, s6).
              if dp = 0 then Some (link_undo ip s6)
              else
                obind (Some (ilock dp s6)) (\<lambda>s7.
                obind (Some (if idev (icache s7 dp) \<noteq> idev (icache s7 ip) then Inr (-1, s7)
                             else dirlink dp name (inum (icache s7 ip)) s7)) (\<lambda>(r, s8).
                obind (Some (iunlockput dp s8)) (\<lambda>s9.
                if r < 0 then Some (link_undo ip s9)
                else Some (rbind (iput ip s9) (end_ret 0)))))))))))
      | _ \<Rightarrow> Some (Inr (-1, s)))"

primrec isdirempty_scan :: "nat \<Rightarrow> nat list \<Rightarrow> 'a fs_state_scheme \<Rightarrow> (bool \<times> 'a fs_state_scheme) res" where
  "isdirempty_scan dp [] s = Inr (True, s)"
| "isdirempty_scan dp (off # offs) s =
     rbind (read_dirent dp off s) (\<lambda>(r, s1, de).
     if r \<noteq> SIZEOF_DIRENT then Inl (Panic ''isdirempty: readi'')
     else if de_inum de \<noteq> 0 then Inr (False, s1)
     else isdirempty_scan dp offs s1)"

definition isdirempty :: "nat \<Rightarrow> 'a fs_state_scheme \<Rightarrow> (bool \<times> 'a fs_state_scheme) res" where
  "isdirempty dp s = isdirempty_scan dp (drop 2 (dir_offs (unat (isize (icache s dp))))) s"

text \<open>After both inodes are locked: clear the entry at \<open>off\<close> and drop the link.\<close>

definition unlink_entry :: "nat \<Rightarrow> nat \<Rightarrow> nat \<Rightarrow> 'a fs_state_scheme \<Rightarrow> (int \<times> 'a fs_state_scheme) res" where
  "unlink_entry dp ip off s =
     rbind (writei (copy_in (\<lambda>_. 0)) dp 0 (of_nat off) (of_nat SIZEOF_DIRENT) s) (\<lambda>(r, s1).
     if r \<noteq> int SIZEOF_DIRENT then Inl (Panic ''unlink: writei'')
     else
       rbind (if itype (icache s1 ip) = T_DIR then change_inode dp (\<lambda>x. x\<lparr>inlink := inlink x - 1\<rparr>) s1 else Inr s1) (\<lambda>s2.
       rbind (iunlockput dp s2) (\<lambda>s3.
       rbind (change_inode ip (\<lambda>x. x\<lparr>inlink := inlink x - 1\<rparr>) s3) (put_end ip 0))))"

definition sys_unlink :: "u8 list option \<Rightarrow> 'a path_state_scheme \<Rightarrow> (int \<times> 'a path_state_scheme) res option" where
  "sys_unlink path1 s =
     (case path1 of
        None \<Rightarrow> Some (Inr (-1, s))
      | Some path \<Rightarrow>
          obind (Some (begin_op s)) (\<lambda>s1.
          obind (nameiparent path s1) (\<lambda>(dp, name, s2).
          if dp = 0 then Some (end_ret (-1) s2)
          else
            obind (Some (ilock dp s2)) (\<lambda>s3.
            if namecmp name [46] = 0 \<or> namecmp name [46, 46] = 0 then Some (put_end dp (-1) s3)
            else
              obind (Some (dirlookup dp name s3)) (\<lambda>(ip, off, s4).
              if ip = 0 then Some (put_end dp (-1) s4)
              else
                obind (Some (ilock ip s4)) (\<lambda>s5.
                if sint (inlink (icache s5 ip)) < 1 then Some (Inl (Panic ''unlink: nlink < 1''))
                else
                  obind (Some (if itype (icache s5 ip) = T_DIR then isdirempty ip s5 else Inr (True, s5))) (\<lambda>(empty, s6).
                  if \<not> empty then Some (rbind (iunlockput ip s6) (put_end dp (-1)))
                  else Some (unlink_entry dp ip off s6))))))))"

section \<open>Creating\<close>

text \<open>The part of \<open>create\<close> after the name was found to be new.\<close>

definition create_new :: "nat \<Rightarrow> u8 list \<Rightarrow> u16 \<Rightarrow> u16 \<Rightarrow> 'a fs_state_scheme \<Rightarrow> (nat \<times> 'a fs_state_scheme) res" where
  "create_new dp name type major s =
     rbind (ialloc (idev (icache s dp)) type s) (\<lambda>(ip, s1).
     if ip = 0 then Inl (Panic ''create: ialloc'')
     else
       rbind (ilock ip s1) (\<lambda>s2.
       rbind (change_inode ip (\<lambda>x. x\<lparr>imajor := major, inlink := 1, imode := M_ALL\<rparr>) s2) (\<lambda>s3.
       rbind
         (if type = T_DIR then
            rbind (change_inode dp (\<lambda>x. x\<lparr>inlink := inlink x + 1\<rparr>) s3) (\<lambda>s4.
            rbind (dirlink ip [46] (inum (icache s4 ip)) s4) (\<lambda>(r1, s5).
            rbind (if r1 < 0 then Inr (-1, s5) else dirlink ip [46, 46] (inum (icache s5 dp)) s5) (\<lambda>(r2, s6).
            if r2 < 0 then Inl (Panic ''create dots'') else Inr s6)))
          else Inr s3) (\<lambda>s7.
       rbind (dirlink dp name (inum (icache s7 ip)) s7) (\<lambda>(r, s8).
       if r < 0 then Inl (Panic ''create: dirlink'')
       else rbind (iunlockput dp s8) (\<lambda>s9. Inr (ip, s9)))))))"

definition create :: "u8 list \<Rightarrow> u16 \<Rightarrow> u16 \<Rightarrow> 'a path_state_scheme \<Rightarrow> (nat \<times> 'a path_state_scheme) res option" where
  "create path type major s =
     obind (nameiparent path s) (\<lambda>(dp, name, s1).
     if dp = 0 then Some (Inr (0, s1))
     else
       Some (rbind (ilock dp s1) (\<lambda>s2.
       rbind (dirlookup dp name s2) (\<lambda>(ip, _, s3).
       if ip \<noteq> 0 then
         rbind (iunlockput dp s3) (\<lambda>s4.
         rbind (ilock ip s4) (\<lambda>s5.
         if type = T_FILE \<and> (itype (icache s5 ip) = T_FILE \<or> itype (icache s5 ip) = T_DEVICE) then Inr (ip, s5)
         else rbind (iunlockput ip s5) (\<lambda>s6. Inr (0, s6))))
       else create_new dp name type major s3))))"

text \<open>\<open>sys_mkdir\<close> and \<open>sys_mknod\<close> end the same way.\<close>

definition make_node :: "u8 list option \<Rightarrow> u16 \<Rightarrow> u16 \<Rightarrow> 'a path_state_scheme \<Rightarrow> (int \<times> 'a path_state_scheme) res option" where
  "make_node path1 type major s =
     obind (Some (begin_op s)) (\<lambda>s1.
     case path1 of
       None \<Rightarrow> Some (end_ret (-1) s1)
     | Some path \<Rightarrow>
         obind (create path type major s1) (\<lambda>(ip, s2).
         if ip = 0 then Some (end_ret (-1) s2) else Some (put_end ip 0 s2)))"

definition sys_mkdir :: "u8 list option \<Rightarrow> 'a path_state_scheme \<Rightarrow> (int \<times> 'a path_state_scheme) res option" where
  "sys_mkdir path s = make_node path T_DIR 0 s"

definition sys_mknod :: "u8 list option \<Rightarrow> int \<Rightarrow> 'a path_state_scheme \<Rightarrow> (int \<times> 'a path_state_scheme) res option" where
  "sys_mknod path major s = make_node path T_DEVICE (of_int major) s"

definition sys_chdir :: "u8 list option \<Rightarrow> 'a path_state_scheme \<Rightarrow> (int \<times> 'a path_state_scheme) res option" where
  "sys_chdir path1 s =
     obind (Some (begin_op s)) (\<lambda>s1.
     case path1 of
       None \<Rightarrow> Some (end_ret (-1) s1)
     | Some path \<Rightarrow>
         obind (namei path s1) (\<lambda>(ip, _, s2).
         if ip = 0 then Some (end_ret (-1) s2)
         else
           Some (rbind (ilock ip s2) (\<lambda>s3.
           if itype (icache s3 ip) \<noteq> T_DIR then put_end ip (-1) s3
           else
             rbind (iunlock ip s3) (\<lambda>s4.
             rbind (iput (cwd s4) s4) (\<lambda>s5.
             rbind (end_op s5) (\<lambda>s6. Inr (0, s6\<lparr>cwd := ip\<rparr>))))))))"

section \<open>Opening\<close>

definition O_RDONLY :: u32 where "O_RDONLY = 0"
definition O_WRONLY :: u32 where "O_WRONLY = 1"
definition O_RDWR :: u32 where "O_RDWR = 2"
definition O_CREATE :: u32 where "O_CREATE = 0x200"
definition O_TRUNC :: u32 where "O_TRUNC = 0x400"
definition O_NOACCESS :: u32 where "O_NOACCESS = 4"

definition has_flag :: "u32 \<Rightarrow> u32 \<Rightarrow> bool" where
  "has_flag omode f \<longleftrightarrow> omode AND f \<noteq> 0"

text \<open>The access check of \<open>sys_open\<close>.\<close>

definition access_denied :: "u32 \<Rightarrow> u16 \<Rightarrow> bool" where
  "access_denied omode mode \<longleftrightarrow> \<not> has_flag omode O_NOACCESS \<and>
     ((has_flag omode O_WRONLY \<or> has_flag omode O_RDWR) \<and> mode AND M_WRITE = 0 \<or>
      (omode = O_RDONLY \<or> has_flag omode O_RDWR) \<and> mode AND M_READ = 0)"

text \<open>\<open>end_op(); return -1\<close> where an inode pointer is expected: 0 says that the call has ended.\<close>

definition open_lookup :: "u8 list \<Rightarrow> u32 \<Rightarrow> 'a path_state_scheme \<Rightarrow> (nat \<times> 'a path_state_scheme) res option" where
  "open_lookup path omode s =
     (let fail = (\<lambda>s. Some (rbind (end_op s) (\<lambda>s1. Inr (0, s1)))) in
      if has_flag omode O_CREATE then
        obind (create path T_FILE 0 s) (\<lambda>(ip, s1). if ip = 0 then fail s1 else Some (Inr (ip, s1)))
      else
        obind (namei_follow path s) (\<lambda>(ip0, _, s1).
        if ip0 = 0 then fail s1
        else
          obind (Some (ilock ip0 s1)) (\<lambda>s2.
          obind (if itype (icache s2 ip0) = T_SYMLINK \<and> \<not> has_flag omode O_NOACCESS
                 then follow_symlink ip0 0 False s2 else Some (Inr (ip0, s2))) (\<lambda>(ip, s3).
          if ip = 0 then fail s3
          else if itype (icache s3 ip) = T_DIR \<and> omode \<noteq> O_RDONLY \<and> omode \<noteq> O_NOACCESS
                  \<or> access_denied omode (imode (icache s3 ip))
          then obind (Some (iunlockput ip s3)) fail
          else Some (Inr (ip, s3))))))"

text \<open>What \<open>sys_open\<close> stores in the new file.\<close>

definition open_file_init :: "u32 \<Rightarrow> nat \<Rightarrow> inode \<Rightarrow> open_file \<Rightarrow> open_file" where
  "open_file_init omode ip node x =
     (let x1 = (if itype node = T_DEVICE then x\<lparr>ftyp := FD_DEVICE, fmajor := imajor node\<rparr>
                else x\<lparr>ftyp := FD_INODE, foff := 0\<rparr>)
      in x1\<lparr>fip := ip,
            freadable := \<not> has_flag omode O_NOACCESS \<and> \<not> has_flag omode O_WRONLY,
            fwritable := \<not> has_flag omode O_NOACCESS \<and> (has_flag omode O_WRONLY \<or> has_flag omode O_RDWR)\<rparr>)"

definition open_inode :: "u32 \<Rightarrow> nat \<Rightarrow> 'a sys_state_scheme \<Rightarrow> (int \<times> 'a sys_state_scheme) res" where
  "open_inode omode ip s =
     (if itype (icache s ip) = T_DEVICE \<and> (sint (imajor (icache s ip)) < 0 \<or> int NDEV \<le> sint (imajor (icache s ip)))
      then put_end ip (-1) s
      else
        let (f, s1) = filealloc s;
            (fd, s2) = (if f = 0 then (-1, s1) else fdalloc f s1)
        in if f = 0 \<or> fd < 0 then
             rbind (if f \<noteq> 0 then fileclose f s2 else Inr s2) (put_end ip (-1))
           else
             let s3 = upd_file f (open_file_init omode ip (icache s2 ip)) s2 in
             rbind (if has_flag omode O_TRUNC \<and> itype (icache s3 ip) = T_FILE then itrunc ip s3 else Inr s3) (\<lambda>s4.
             rbind (iunlock ip s4) (\<lambda>s5.
             rbind (end_op s5) (\<lambda>s6. Inr (fd, s6)))))"

definition sys_open :: "u8 list option \<Rightarrow> u32 \<Rightarrow> 'a sys_state_scheme \<Rightarrow> (int \<times> 'a sys_state_scheme) res option" where
  "sys_open path1 omode s =
     (case path1 of
        None \<Rightarrow> Some (Inr (-1, s))
      | Some path \<Rightarrow>
          obind (Some (begin_op s)) (\<lambda>s1.
          obind (open_lookup path omode s1) (\<lambda>(ip, s2).
          if ip = 0 then Some (Inr (-1, s2)) else Some (open_inode omode ip s2))))"

section \<open>Access control and symbolic links\<close>

text \<open>\<open>ip->mode |= mode\<close> or \<open>ip->mode &= ~mode\<close>.\<close>

definition chmod_mode :: "int \<Rightarrow> bool \<Rightarrow> u16 \<Rightarrow> u16" where
  "chmod_mode mode set1 m = (if set1 then m OR of_int mode else m AND NOT (of_int mode))"

text \<open>\<open>strcmp(de.name, ".") == 0 || strcmp(de.name, "..") == 0\<close>; the literal is at address 64.\<close>

definition is_dots :: "cmem \<Rightarrow> bool" where
  "is_dots de \<longleftrightarrow> strcmp (place 64 [46] de) 2 64 = Some 0 \<or> strcmp (place 64 [46, 46] de) 2 64 = Some 0"

lemma obind_mono [partial_function_mono]:
  assumes "mono_option B" and "\<And>y. mono_option (\<lambda>f. C y f)"
  shows "mono_option (\<lambda>f. obind (B f) (\<lambda>y. C y f))"
proof (rule monotoneI)
  fix f g :: "'a \<Rightarrow> 'b option" assume fg: "option.le_fun f g"
  have b: "option_ord (B f) (B g)" using monotoneD [OF assms(1)] fg by simp
  have c: "option_ord (C y f) (C y g)" for y using monotoneD [OF assms(2)] fg by simp
  show "option_ord (obind (B f) (\<lambda>y. C y f)) (obind (B g) (\<lambda>y. C y g))"
  proof (cases "B f = None")
    case False
    then have "B g = B f" using b by (auto simp: flat_ord_def)
    then show ?thesis using c by (cases "B f" rule: option.exhaust; cases "the (B f)") (auto simp: flat_ord_def)
  qed (simp add: flat_ord_def)
qed

text \<open>The loop of \<open>chmod_recursive\<close> over the entries of directory \<open>dp\<close>, from offset \<open>off\<close> on.\<close>

partial_function (option) chmod_recursive_from :: "nat \<Rightarrow> int \<Rightarrow> bool \<Rightarrow> nat \<Rightarrow> 'a fs_state_scheme \<Rightarrow>
    'a fs_state_scheme res option" where
  [code]: "chmod_recursive_from dp mode set1 off s =
     (if off < unat (isize (icache s dp)) then
        obind (Some (read_dirent dp off s)) (\<lambda>(r, s1, de).
        if r \<noteq> SIZEOF_DIRENT \<or> de_inum de = 0 \<or> is_dots de
        then chmod_recursive_from dp mode set1 (off + SIZEOF_DIRENT) s1
        else
          obind (Some (iget (idev (icache s1 dp)) (unat (de_inum de)) s1)) (\<lambda>(ip, s2).
          obind (Some (ilock ip s2)) (\<lambda>s3.
          obind (Some (change_inode ip (\<lambda>x. x\<lparr>imode := chmod_mode mode set1 (imode x)\<rparr>) s3)) (\<lambda>s4.
          obind (if itype (icache s4 ip) = T_DIR then chmod_recursive_from ip mode set1 0 s4 else Some (Inr s4)) (\<lambda>s5.
          obind (Some (iunlockput ip s5)) (\<lambda>s6.
          chmod_recursive_from dp mode set1 (off + SIZEOF_DIRENT) s6))))))
      else Some (Inr s))"

definition chmod_recursive :: "nat \<Rightarrow> int \<Rightarrow> bool \<Rightarrow> 'a fs_state_scheme \<Rightarrow> 'a fs_state_scheme res option" where
  "chmod_recursive dp mode set1 s = chmod_recursive_from dp mode set1 0 s"

text \<open>A link that cannot be followed reaches \<open>iunlockput(0)\<close>.\<close>

definition chmod_follow :: "nat \<Rightarrow> bool \<Rightarrow> 'a path_state_scheme \<Rightarrow> (nat \<times> 'a path_state_scheme) res option" where
  "chmod_follow ip0 recursive s =
     (let fail = (\<lambda>ip s. Some (rbind (iunlockput ip s) (\<lambda>s1. rbind (end_op s1) (\<lambda>s2. Inr (0, s2))))) in
      if itype (icache s ip0) = T_SYMLINK then
        obind (follow_symlink ip0 0 False s) (\<lambda>(ip, s1).
        if ip = 0 then fail ip s1
        else if imode (icache s1 ip) AND M_READ = 0 \<and> itype (icache s1 ip) = T_DIR \<and> recursive then fail ip s1
        else Some (Inr (ip, s1)))
      else Some (Inr (ip0, s)))"

definition sys_chmod :: "u8 list option \<Rightarrow> int \<Rightarrow> bool \<Rightarrow> bool \<Rightarrow> 'a path_state_scheme \<Rightarrow>
    (int \<times> 'a path_state_scheme) res option" where
  "sys_chmod path1 mode recursive set1 s =
     (case path1 of
        None \<Rightarrow> Some (Inr (1, s))
      | Some path \<Rightarrow>
          obind (Some (begin_op s)) (\<lambda>s1.
          obind (namei_follow path s1) (\<lambda>(ip0, _, s2).
          if ip0 = 0 then Some (end_ret 2 s2)
          else
            obind (Some (ilock ip0 s2)) (\<lambda>s3.
            obind (chmod_follow ip0 recursive s3) (\<lambda>(ip, s4).
            if ip = 0 then Some (Inr (2, s4))
            else
              obind (Some (change_inode ip (\<lambda>x. x\<lparr>imode := chmod_mode mode set1 (imode x)\<rparr>) s4)) (\<lambda>s5.
              obind (if recursive \<and> itype (icache s5 ip) = T_DIR then chmod_recursive ip mode set1 s5 else Some (Inr s5)) (\<lambda>s6.
              Some (put_end ip 0 s6))))))))"

definition sys_symlink :: "u8 list option \<Rightarrow> u8 list option \<Rightarrow> 'a path_state_scheme \<Rightarrow>
    (int \<times> 'a path_state_scheme) res option" where
  "sys_symlink target1 path1 s =
     (case (target1, path1) of
        (Some target, Some path) \<Rightarrow>
          obind (Some (begin_op s)) (\<lambda>s1.
          obind (namei path s1) (\<lambda>(ip0, _, s2).
          if ip0 \<noteq> 0 then Some (end_ret (-1) s2)
          else
            obind (create path T_SYMLINK 0 s2) (\<lambda>(ip, s3).
            if ip = 0 then Some (end_ret (-1) s3)
            else
              Some (rbind (writei (copy_in (place 0 target (\<lambda>_. 0))) ip 0 0 (of_nat (length target)) s3) (\<lambda>(r, s4).
              put_end ip (if r \<noteq> int (length target) then -1 else 0) s4)))))
      | _ \<Rightarrow> Some (Inr (-1, s)))"

definition sys_readlink :: "'m copyout \<Rightarrow> u8 list option \<Rightarrow> nat \<Rightarrow> 'a path_state_scheme \<Rightarrow> 'm \<Rightarrow>
    (int \<times> 'a path_state_scheme \<times> 'm) res option" where
  "sys_readlink co path1 buf s mem =
     (case path1 of
        None \<Rightarrow> Some (Inr (-1, s, mem))
      | Some path \<Rightarrow>
          obind (Some (begin_op s)) (\<lambda>s1.
          obind (namei path s1) (\<lambda>(ip, _, s2).
          if ip = 0 then Some (rbind (end_ret (-1) s2) (\<lambda>(r, s3). Inr (r, s3, mem)))
          else
            obind (Some (ilock ip s2)) (\<lambda>s3.
            obind (follow_symlink ip 0 True s3) (\<lambda>(resolved, s4).
            if resolved = 0 \<or> itype (icache s4 resolved) \<noteq> T_SYMLINK
            then Some (rbind (put_end ip (-1) s4) (\<lambda>(r, s5). Inr (r, s5, mem)))
            else
              Some (rbind (readi copy_out resolved 0 0 (of_nat MAXPATH) s4 (\<lambda>_. 0)) (\<lambda>(len, s5, target).
              rbind (end_op s5) (\<lambda>s6.
              if len = 0 then Inr (-1, s6, mem)
              else
                let (mem1, ok) = co buf (map target [0..<len]) mem
                in Inr (if ok then int len else -1, s6, mem1)))))))))"

section \<open>Raw access to the disk\<close>

definition sys_raw_read :: "'m copyout \<Rightarrow> int \<Rightarrow> nat \<Rightarrow> 'a sys_state_scheme \<Rightarrow> 'm \<Rightarrow>
    (int \<times> 'a sys_state_scheme \<times> 'm) res" where
  "sys_raw_read co pbn addr s mem =
     (if pbn < 0 \<or> int FSSIZE \<le> pbn then Inr (-1, s, mem)
      else
        rbind (bget ROOTDEV (nat pbn) s) (\<lambda>(b, s1).
        let s2 = virtio_disk_rw b False s1;
            (mem1, ok) = co addr (map (bdata (bufs s2 b)) [0..<BSIZE]) mem
        in rbind (brelse b s2) (\<lambda>s3. Inr (if ok then 0 else -1, s3, mem1))))"

definition sys_raw_write :: "copyin \<Rightarrow> int \<Rightarrow> nat \<Rightarrow> 'a sys_state_scheme \<Rightarrow> (int \<times> 'a sys_state_scheme) res" where
  "sys_raw_write ci pbn addr s =
     (if pbn < 0 \<or> int FSSIZE \<le> pbn then Inr (-1, s)
      else
        rbind (bget ROOTDEV (nat pbn) s) (\<lambda>(b, s1).
        let (bs, ok) = ci addr BSIZE;
            s2 = set_bdata b (blit 0 bs (bdata (bufs s1 b))) s1
        in if \<not> ok then rbind (brelse b s2) (\<lambda>s3. Inr (-1, s3))
           else
             let s3 = virtio_disk_rw b True (upd_buf b (\<lambda>b. b\<lparr>valid := True\<rparr>) s2)
             in rbind (brelse b s3) (\<lambda>s4. Inr (0, s4))))"

definition sys_get_disk_lbn :: "int \<Rightarrow> int \<Rightarrow> 'a sys_state_scheme \<Rightarrow> (int \<times> 'a sys_state_scheme) res" where
  "sys_get_disk_lbn fd file_lbn s =
     (case argfd fd s of
        None \<Rightarrow> Inr (-1, s)
      | Some (_, f) \<Rightarrow>
          if \<not> freadable (ftable s f) then Inr (-1, s)
          else
            let ip = fip (ftable s f) in
            rbind (ilock ip s) (\<lambda>s1.
            rbind (bmap ip (unat (of_int file_lbn :: u32)) s1) (\<lambda>(disk_lbn, s2).
            rbind (iunlock ip s2) (\<lambda>s3. Inr (int disk_lbn, s3)))))"

end
