(* ===== verification/Mp0.thy ===== *)
theory Mp0
  imports Sysfile
begin

text \<open>
  The directory traversal program of mp0 (mp0/r13922165/mp0.c). Strings are in a flat memory
  (\<open>CString\<close>); the kernel the program runs on is not part of mp0, so the results of its system calls
  are the parameter \<open>user_fs\<close>. \<open>None\<close> is a loop that never ends.
\<close>

section \<open>Counting occurrences\<close>

text \<open>The inner loop of \<open>my_strstr\<close>: the result is where \<open>n\<close> ends.\<close>

partial_function (option) match_from :: "cmem \<Rightarrow> nat \<Rightarrow> nat \<Rightarrow> nat option" where
  [code]: "match_from m h n =
     (if m h \<noteq> 0 \<and> m n \<noteq> 0 \<and> m h = m n then match_from m (h + 1) (n + 1) else Some n)"

text \<open>0 is the null pointer.\<close>

partial_function (option) strstr_from :: "cmem \<Rightarrow> nat \<Rightarrow> nat \<Rightarrow> nat option" where
  [code]: "strstr_from m haystack needle =
     (if m haystack = 0 then Some 0
      else Option.bind (match_from m haystack needle) (\<lambda>n.
        if m n = 0 then Some haystack else strstr_from m (haystack + 1) needle))"

definition my_strstr :: "cmem \<Rightarrow> nat \<Rightarrow> nat \<Rightarrow> nat option" where
  "my_strstr m haystack needle = (if m needle = 0 then Some haystack else strstr_from m haystack needle)"

partial_function (option) count_from :: "cmem \<Rightarrow> nat \<Rightarrow> nat \<Rightarrow> nat \<Rightarrow> int \<Rightarrow> int option" where
  [code]: "count_from m key key_len p count =
     Option.bind (my_strstr m p key) (\<lambda>q. if q \<noteq> 0 then count_from m key key_len (q + key_len) (count + 1) else Some count)"

definition count_occurrences :: "cmem \<Rightarrow> nat \<Rightarrow> nat \<Rightarrow> int \<Rightarrow> int option" where
  "count_occurrences m path key count = Option.bind (strlen m key) (\<lambda>key_len. count_from m key key_len path count)"

section \<open>Traversing a directory\<close>

text \<open>What the system calls return: whether \<open>open\<close> of a path succeeds when \<open>n\<close> directories are already
  open, the type \<open>fstat\<close> and \<open>stat\<close> report (\<open>None\<close>: -1), and the entries the successive reads of an open
  directory return, each an inode number and a field of \<open>DIRSIZ\<close> bytes.\<close>

record user_fs =
  uopen :: "nat \<Rightarrow> u8 list \<Rightarrow> bool"
  ufstat :: "u8 list \<Rightarrow> u16 option"
  ustat :: "nat \<Rightarrow> u8 list \<Rightarrow> u16 option"
  uentries :: "u8 list \<Rightarrow> (u16 \<times> u8 list) list"

datatype line = Count "u8 list" int | OpenError "u8 list" | StatError "u8 list"

definition BUFSIZE :: nat where "BUFSIZE = 512"

text \<open>The count for a path held in \<open>buf\<close>.\<close>

definition occurrences :: "u8 list \<Rightarrow> u8 list \<Rightarrow> int option" where
  "occurrences key path = count_occurrences (place 1024 key (place 512 path (\<lambda>_. 0))) 512 1024 0"

text \<open>\<open>traverse\<close> up to its loop: what it prints, and the entries to go through when the directory could be
  opened.\<close>

definition traverse_open :: "user_fs \<Rightarrow> u8 list \<Rightarrow> nat \<Rightarrow> u8 list \<Rightarrow> (line \<times> (u16 \<times> u8 list) list) option" where
  "traverse_open fs key n path =
     (if \<not> uopen fs n path then Some (OpenError path, [])
      else if ufstat fs path = None then Some (OpenError path, [])
      else if ufstat fs path \<noteq> Some T_DIR then Some (OpenError path, [])
      else map_option (\<lambda>k. (Count path k, uentries fs path)) (occurrences key path))"

definition is_dot_name :: "u8 list \<Rightarrow> bool" where
  "is_dot_name nm \<longleftrightarrow> takeWhile (\<lambda>c. c \<noteq> 0) nm \<in> {[46], [46, 46]}"

text \<open>\<open>strcpy(buf, path)\<close>, a slash, and the name with a NUL behind its \<open>DIRSIZ\<close> bytes; writing behind the end
  of \<open>buf\<close> is the fault.\<close>

definition make_path :: "u8 list \<Rightarrow> u8 list \<Rightarrow> u8 list res" where
  "make_path path nm =
     (if BUFSIZE < length path + 1 + DIRSIZ + 1 then Inl (Panic ''buf overflow'')
      else Inr (path @ [SLASH] @ takeWhile (\<lambda>c. c \<noteq> 0) nm))"

text \<open>The results are the lines printed and the numbers of files and directories found.\<close>

definition found :: "line list \<Rightarrow> int \<Rightarrow> int \<Rightarrow> (line list \<times> int \<times> int) res option \<Rightarrow> (line list \<times> int \<times> int) res option" where
  "found ls f d r = obind r (\<lambda>(ls1, f1, d1). Some (Inr (ls @ ls1, f + f1, d + d1)))"

lemma found_mono [partial_function_mono]:
  "mono_option B \<Longrightarrow> mono_option (\<lambda>g. found ls f d (B g))"
  unfolding found_def by (intro obind_mono option.const_mono)

partial_function (option) traverse_entries :: "user_fs \<Rightarrow> u8 list \<Rightarrow> nat \<Rightarrow> u8 list \<Rightarrow> (u16 \<times> u8 list) list \<Rightarrow>
    (line list \<times> int \<times> int) res option" where
  [code]: "traverse_entries fs key n path des =
     (case des of
        [] \<Rightarrow> Some (Inr ([], 0, 0))
      | (ino, nm) # des1 \<Rightarrow>
          if ino = 0 \<or> is_dot_name nm then traverse_entries fs key n path des1
          else case make_path path nm of
            Inl e \<Rightarrow> Some (Inl e)
          | Inr buf \<Rightarrow>
              (case ustat fs n buf of
                 None \<Rightarrow> found [StatError buf] 0 0 (traverse_entries fs key n path des1)
               | Some ty \<Rightarrow>
                   Option.bind (occurrences key buf) (\<lambda>k.
                   if ty = T_FILE then found [Count buf k] 1 0 (traverse_entries fs key n path des1)
                   else if ty = T_DIR then
                     Option.bind (traverse_open fs key n buf) (\<lambda>(l, sub).
                     obind (traverse_entries fs key (n + 1) buf sub) (\<lambda>(ls, f, d).
                     found (l # ls) f (d + 1) (traverse_entries fs key n path des1)))
                   else traverse_entries fs key n path des1)))"

definition traverse :: "user_fs \<Rightarrow> u8 list \<Rightarrow> u8 list \<Rightarrow> (line list \<times> int \<times> int) res option" where
  "traverse fs path key =
     Option.bind (traverse_open fs key 0 path) (\<lambda>(l, des). found [l] 0 0 (traverse_entries fs key 1 path des))"

section \<open>Occurrences in a string\<close>

lemma match_from_prefix:
  "cstr m h xs \<Longrightarrow> cstr m n ks \<Longrightarrow>
   \<exists>e. match_from m h n = Some e \<and> (m e = 0 \<longleftrightarrow> take (length ks) xs = ks)"
proof (induction ks arbitrary: h n xs)
  case Nil
  then show ?case by (simp add: cstr_simps match_from.simps [of m h n])
next
  case (Cons k ks)
  then have k: "m n = k" "k \<noteq> 0" "cstr m (n + 1) ks" by (simp_all add: cstr_simps)
  show ?case
  proof (cases xs)
    case Nil
    then show ?thesis using Cons.prems k by (simp add: cstr_simps match_from.simps [of m h n])
  next
    case (Cons x ys)
    then have x: "m h = x" "x \<noteq> 0" "cstr m (h + 1) ys" using Cons.prems by (simp_all add: cstr_simps)
    show ?thesis
    proof (cases "x = k")
      case True
      then show ?thesis using Cons.IH [OF x(3) k(3)] x k Cons by (simp add: match_from.simps [of m h n])
    next
      case False
      then show ?thesis using x k Cons by (simp add: match_from.simps [of m h n])
    qed
  qed
qed

text \<open>The first position at which \<open>ks\<close> occurs in \<open>xs\<close>.\<close>

fun first_occ :: "u8 list \<Rightarrow> u8 list \<Rightarrow> nat option" where
  "first_occ ks [] = None"
| "first_occ ks (x # xs) = (if take (length ks) (x # xs) = ks then Some 0 else map_option Suc (first_occ ks xs))"

lemma strstr_from_first:
  assumes "cstr m h xs" and "cstr m n ks" and "ks \<noteq> []"
  shows "strstr_from m h n = Some (case first_occ ks xs of None \<Rightarrow> 0 | Some i \<Rightarrow> h + i)"
  using assms(1)
proof (induction xs arbitrary: h)
  case Nil
  then show ?case by (simp add: cstr_simps strstr_from.simps [of m h n])
next
  case (Cons x xs)
  obtain e where e: "match_from m h n = Some e" "m e = 0 \<longleftrightarrow> take (length ks) (x # xs) = ks"
    using match_from_prefix [OF Cons.prems assms(2)] by blast
  have x: "m h \<noteq> 0" "cstr m (h + 1) xs" using Cons.prems by (simp_all add: cstr_simps)
  show ?case using e x Cons.IH [OF x(2)]
    by (simp add: strstr_from.simps [of m h n]) (auto split: option.splits)
qed

lemma first_occ_Some: "first_occ ks xs = Some i \<Longrightarrow> i < length xs \<and> take (length ks) (drop i xs) = ks"
  by (induction xs arbitrary: i) (auto split: if_splits)

lemma cstr_drop: "cstr m h xs \<Longrightarrow> i \<le> length xs \<Longrightarrow> cstr m (h + i) (drop i xs)"
proof (induction i arbitrary: h xs)
  case (Suc i)
  then obtain y ys where xs: "xs = y # ys" by (cases xs) auto
  then show ?case using Suc.IH [of "h + 1" ys] Suc.prems by (simp add: cstr_simps)
qed simp

text \<open>The greedy count, and what it means: the largest number of occurrences that do not overlap.\<close>

lemma drop_shorter: "ks \<noteq> [] \<Longrightarrow> i < length xs \<Longrightarrow> length xs - (i + length ks) < length xs"
  by (cases ks) simp_all

function greedy :: "u8 list \<Rightarrow> u8 list \<Rightarrow> nat" where
  "greedy ks xs =
     (if ks = [] then 0 else case first_occ ks xs of None \<Rightarrow> 0 | Some i \<Rightarrow> Suc (greedy ks (drop (i + length ks) xs)))"
  by pat_completeness auto
termination
  by (relation "measure (\<lambda>(ks, xs). length xs)") (auto dest!: first_occ_Some simp: drop_shorter)

declare greedy.simps [simp del]

definition disjoint_occs :: "u8 list \<Rightarrow> u8 list \<Rightarrow> nat set \<Rightarrow> bool" where
  "disjoint_occs ks xs S \<longleftrightarrow> (\<forall>i \<in> S. i < length xs \<and> take (length ks) (drop i xs) = ks) \<and>
     (\<forall>i \<in> S. \<forall>j \<in> S. i < j \<longrightarrow> i + length ks \<le> j)"

lemma count_from_greedy:
  assumes "cstr m p xs" and "p \<noteq> 0" and "cstr m key ks" and "ks \<noteq> []"
  shows "count_from m key (length ks) p c = Some (c + int (greedy ks xs))"
  using assms(1,2)
proof (induction "length xs" arbitrary: xs p c rule: less_induct)
  case less
  have k: "m key \<noteq> 0" using assms(3,4) by (cases ks) (simp_all add: cstr_simps)
  have st: "my_strstr m p key = Some (case first_occ ks xs of None \<Rightarrow> 0 | Some i \<Rightarrow> p + i)"
    using strstr_from_first [OF less.prems(1) assms(3,4)] k by (simp add: my_strstr_def)
  show ?case
  proof (cases "first_occ ks xs")
    case None
    then show ?thesis using st assms(4) by (simp add: count_from.simps [of m key _ p] greedy.simps [of ks xs])
  next
    case (Some i)
    note F = first_occ_Some [OF Some]
    then have le: "i + length ks \<le> length xs" by (metis add.commute drop_drop length_take length_drop min.cobounded1 le_diff_conv2 less_imp_le)
    have "cstr m (p + (i + length ks)) (drop (i + length ks) xs)" by (rule cstr_drop [OF less.prems(1) le])
    then have "count_from m key (length ks) (p + (i + length ks)) (c + 1) = Some (c + 1 + int (greedy ks (drop (i + length ks) xs)))"
      using less.hyps [of "drop (i + length ks) xs" "p + (i + length ks)" "c + 1"] F drop_shorter [OF assms(4), of i xs] less.prems(2) by simp
    then show ?thesis using st Some less.prems(2) assms(4)
      by (simp add: count_from.simps [of m key _ p] greedy.simps [of ks xs] add.assoc)
  qed
qed

lemma first_occ_least: "first_occ ks xs = None \<Longrightarrow> j < length xs \<Longrightarrow> take (length ks) (drop j xs) \<noteq> ks"
  "first_occ ks xs = Some i \<Longrightarrow> j < i \<Longrightarrow> take (length ks) (drop j xs) \<noteq> ks"
proof -
  show "first_occ ks xs = None \<Longrightarrow> j < length xs \<Longrightarrow> take (length ks) (drop j xs) \<noteq> ks"
  proof (induction xs arbitrary: j)
    case (Cons x xs)
    then show ?case by (cases j) (auto split: if_splits)
  qed simp
  show "first_occ ks xs = Some i \<Longrightarrow> j < i \<Longrightarrow> take (length ks) (drop j xs) \<noteq> ks"
  proof (induction xs arbitrary: i j)
    case (Cons x xs)
    then show ?case by (cases j) (auto split: if_splits)
  qed simp
qed

lemma disjoint_occs_shift:
  assumes d: "disjoint_occs ks xs S" and k: "k \<le> length xs"
  defines "R \<equiv> {s. s + k \<in> S}"
  shows "disjoint_occs ks (drop k xs) R"
proof -
  have "i < length (drop k xs)" "take (length ks) (drop i (drop k xs)) = ks" if "i \<in> R" for i
    using d that k by (auto simp: disjoint_occs_def R_def)
  moreover have "i + length ks \<le> j" if "i \<in> R" "j \<in> R" "i < j" for i j
  proof -
    have "i + k \<in> S" "j + k \<in> S" "i + k < j + k" using that by (simp_all add: R_def)
    then have "i + k + length ks \<le> j + k" using d unfolding disjoint_occs_def by blast
    then show ?thesis by simp
  qed
  ultimately show ?thesis by (simp add: disjoint_occs_def)
qed

text \<open>Only one of them starts in the first occurrence.\<close>

lemma one_start:
  assumes d: "disjoint_occs ks xs S" and i: "first_occ ks xs = Some i"
  shows "finite S" and "card {s \<in> S. s < i + length ks} \<le> 1"
proof -
  note D = d [unfolded disjoint_occs_def]
  show fin: "finite S" using D by (intro finite_subset [of S "{..<length xs}"]) auto
  have ge: "i \<le> s" if "s \<in> S" for s using first_occ_least(2) [OF i, of s] D that by (meson not_le)
  have less: False if "s \<in> S" "t \<in> S" "t < i + length ks" "s < t" for s t
  proof -
    have "s + length ks \<le> t" using D that by blast
    then show False using ge [OF that(1)] that(3) by simp
  qed
  have "\<forall>s \<in> {s \<in> S. s < i + length ks}. \<forall>t \<in> {s \<in> S. s < i + length ks}. s = t"
    using less by (metis (mono_tags, lifting) linorder_neqE_nat mem_Collect_eq)
  then show "card {s \<in> S. s < i + length ks} \<le> 1" using fin by (simp add: card_le_Suc0_iff_eq)
qed

lemma first_occ_fits: "first_occ ks xs = Some i \<Longrightarrow> ks \<noteq> [] \<Longrightarrow> i + length ks \<le> length xs"
proof -
  assume "first_occ ks xs = Some i"
  then have "i < length xs" "length (take (length ks) (drop i xs)) = length ks" using first_occ_Some by (metis, metis)
  then show ?thesis by simp
qed

lemma greedy_upper:
  assumes ks: "ks \<noteq> []"
  shows "disjoint_occs ks xs S \<Longrightarrow> card S \<le> greedy ks xs"
proof (induction "length xs" arbitrary: xs S rule: less_induct)
  case less
  show ?case
  proof (cases "first_occ ks xs")
    case None
    have "i \<notin> S" for i using less.prems first_occ_least(1) [OF None, of i] unfolding disjoint_occs_def by blast
    then have "S = {}" by blast
    then show ?thesis by simp
  next
    case (Some i)
    let ?k = "i + length ks"
    let ?R = "{s. s + ?k \<in> S}"
    have eq: "S = {s \<in> S. s < ?k} \<union> (\<lambda>s. s + ?k) ` ?R"
    proof (intro equalityI subsetI)
      fix s assume s: "s \<in> S"
      show "s \<in> {s \<in> S. s < ?k} \<union> (\<lambda>s. s + ?k) ` ?R"
      proof (cases "s < ?k")
        case False
        then have "s = (s - ?k) + ?k" "s - ?k \<in> ?R" using s by simp_all
        then show ?thesis by blast
      qed (use s in simp)
    qed auto
    have "card S = card ({s \<in> S. s < ?k} \<union> (\<lambda>s. s + ?k) ` ?R)" by (rule arg_cong [OF eq])
    moreover have "card ((\<lambda>s. s + ?k) ` ?R) = card ?R" by (rule card_image) (simp add: inj_on_def)
    moreover have "card ?R \<le> greedy ks (drop ?k xs)"
    proof (rule less.hyps [OF _ disjoint_occs_shift [OF less.prems first_occ_fits [OF Some ks]]])
      show "length (drop ?k xs) < length xs" using drop_shorter [OF ks, of i xs] first_occ_Some [OF Some] by simp
    qed
    ultimately have "card S \<le> 1 + greedy ks (drop ?k xs)"
      using card_Un_le [of "{s \<in> S. s < ?k}" "(\<lambda>s. s + ?k) ` ?R"] one_start(2) [OF less.prems Some] by linarith
    then show ?thesis using Some ks by (simp add: greedy.simps [of ks xs])
  qed
qed

lemma greedy_attained:
  assumes ks: "ks \<noteq> []"
  shows "\<exists>S. disjoint_occs ks xs S \<and> card S = greedy ks xs"
proof (induction "length xs" arbitrary: xs rule: less_induct)
  case less
  show ?case
  proof (cases "first_occ ks xs")
    case None
    then show ?thesis using ks by (intro exI [of _ "{}"]) (simp add: greedy.simps [of ks xs] disjoint_occs_def)
  next
    case (Some i)
    let ?k = "i + length ks"
    note F = first_occ_Some [OF Some]
    obtain S where S: "disjoint_occs ks (drop ?k xs) S" "card S = greedy ks (drop ?k xs)"
      using less.hyps [of "drop ?k xs"] drop_shorter [OF ks, of i xs] F by auto
    note D = S(1) [unfolded disjoint_occs_def]
    have "finite S" using D by (intro finite_subset [of S "{..<length xs}"]) auto
    let ?T = "insert i ((\<lambda>s. s + ?k) ` S)"
    have "i \<notin> (\<lambda>s. s + ?k) ` S" using ks by auto
    then have "card ?T = Suc (card S)" using \<open>finite S\<close> by (simp add: card_image inj_on_def)
    moreover have "disjoint_occs ks xs ?T"
      using D F unfolding disjoint_occs_def by (auto simp: drop_drop add.commute)
    ultimately show ?thesis using S(2) Some ks by (intro exI [of _ ?T]) (simp add: greedy.simps [of ks xs])
  qed
qed

lemma count_from_empty_key:
  assumes "m key = 0" and "p \<noteq> 0"
  shows "count_from m key 0 p c = None"
proof (rule ccontr)
  define P where "P = (\<lambda>(m :: cmem) key (len :: nat) p (c :: int) (r :: int). m key = 0 \<and> len = 0 \<and> p \<noteq> (0 :: nat) \<longrightarrow> False)"
  assume "count_from m key 0 p c \<noteq> None"
  then obtain r where r: "count_from m key 0 p c = Some r" by blast
  have "P m key 0 p c r"
  proof (rule count_from.raw_induct [where P = P, OF _ r])
    fix f m key and len p :: nat and c r
    assume "\<And>m key len p c r. f m key len p c = Some r \<Longrightarrow> P m key len p c r"
      "Option.bind (my_strstr m p key) (\<lambda>q. if q \<noteq> 0 then f m key len (q + len) (c + 1) else Some c) = Some r"
    then show "P m key len p c r" by (fastforce simp: P_def my_strstr_def)
  qed
  then show False using assms by (simp add: P_def)
qed

section \<open>Properties\<close>

text \<open>C33: The number reported for a path is the largest number of occurrences of the key in it that do not overlap. For
  the empty key the loop never ends, since the search never moves on.\<close>

theorem count_occurrences_maximal:
  assumes "cstr m path xs" and "path \<noteq> 0" and "cstr m key ks"
  shows "if ks = [] then count_occurrences m path key c = None
    else \<exists>S. disjoint_occs ks xs S \<and> count_occurrences m path key c = Some (c + int (card S)) \<and>
      (\<forall>T. disjoint_occs ks xs T \<longrightarrow> card T \<le> card S)"
proof (cases "ks = []")
  case True
  then have "m key = 0" using assms(3) by (simp add: cstr_simps)
  then show ?thesis
    using True strlen_cstr [OF assms(3)] count_from_empty_key [of m key path c] assms(2) by (simp add: count_occurrences_def)
next
  case False
  obtain S where S: "disjoint_occs ks xs S" "card S = greedy ks xs" using greedy_attained [OF False] by blast
  have "count_occurrences m path key c = Some (c + int (card S))"
    using strlen_cstr [OF assms(3)] count_from_greedy [OF assms False] by (simp add: count_occurrences_def S(2))
  then show ?thesis using False S greedy_upper [OF False] by auto
qed

theorem count_occurrences_maximal_witness:
  "let m = place 20 [97, 97] (place 10 [98, 97, 97, 97, 97, 97] (\<lambda>_. 0)) in
   count_occurrences m 10 30 0 = None \<and>
   (\<exists>S. disjoint_occs [97, 97] [98, 97, 97, 97, 97, 97] S \<and> count_occurrences m 10 20 0 = Some (0 + int (card S)) \<and> 2 \<le> card S)"
proof -
  define m where "m = place 20 [97, 97] (place 10 [98, 97, 97, 97, 97, 97] (\<lambda>_. 0))"
  have c: "cstr m 10 [98, 97, 97, 97, 97, 97]" "cstr m 20 [97, 97]" "cstr m 30 []"
    by (simp_all add: m_def place_def cstr_simps)
  have two: "disjoint_occs [97, 97] [98, 97, 97, 97, 97, 97] {1, 3}" by (simp add: disjoint_occs_def)
  have "count_occurrences m 10 30 0 = None" using count_occurrences_maximal [OF c(1) _ c(3), of 0] by simp
  moreover obtain S where "disjoint_occs [97, 97] [98, 97, 97, 97, 97, 97] S"
    "count_occurrences m 10 20 0 = Some (0 + int (card S))" "card {1 :: nat, 3} \<le> card S"
    using count_occurrences_maximal [OF c(1) _ c(2), of 0] two by auto
  ultimately show ?thesis by (auto simp: Let_def m_def [symmetric])
qed

section \<open>What a traversal finds\<close>

text \<open>A directory tree: the names and the nodes below.\<close>

datatype ftree = Reg | Other u16 | Dir "(u8 list \<times> ftree) list"

fun files :: "ftree \<Rightarrow> int" and files_below :: "(u8 list \<times> ftree) list \<Rightarrow> int" where
  "files Reg = 1"
| "files (Other ty) = 0"
| "files (Dir cs) = files_below cs"
| "files_below [] = 0"
| "files_below ((nm, t) # cs) = files t + files_below cs"

fun dirs :: "ftree \<Rightarrow> int" and dirs_below :: "(u8 list \<times> ftree) list \<Rightarrow> int" where
  "dirs Reg = 0"
| "dirs (Other ty) = 0"
| "dirs (Dir cs) = dirs_below cs + 1"
| "dirs_below [] = 0"
| "dirs_below ((nm, t) # cs) = dirs t + dirs_below cs"

fun report :: "u8 list \<Rightarrow> u8 list \<Rightarrow> ftree \<Rightarrow> line list" and
    report_below :: "u8 list \<Rightarrow> u8 list \<Rightarrow> (u8 list \<times> ftree) list \<Rightarrow> line list" where
  "report key path Reg = [Count path (int (greedy key path))]"
| "report key path (Other ty) = []"
| "report key path (Dir cs) = Count path (int (greedy key path)) # report_below key path cs"
| "report_below key path [] = []"
| "report_below key path ((nm, t) # cs) = report key (path @ [SLASH] @ nm) t @ report_below key path cs"

text \<open>The system calls show the tree \<open>t\<close> at a path, with \<open>n\<close> directories open, and every path fits the buffer.\<close>

inductive shows_tree :: "user_fs \<Rightarrow> nat \<Rightarrow> u8 list \<Rightarrow> ftree \<Rightarrow> bool" and
    shows_entries :: "user_fs \<Rightarrow> nat \<Rightarrow> u8 list \<Rightarrow> (u16 \<times> u8 list) list \<Rightarrow> (u8 list \<times> ftree) list \<Rightarrow> bool" for fs where
  regular: "ustat fs n path = Some T_FILE \<Longrightarrow> shows_tree fs n path Reg"
| other: "ustat fs n path = Some ty \<Longrightarrow> ty \<noteq> T_FILE \<Longrightarrow> ty \<noteq> T_DIR \<Longrightarrow> shows_tree fs n path (Other ty)"
| dir: "ustat fs n path = Some T_DIR \<Longrightarrow> uopen fs n path \<Longrightarrow> ufstat fs path = Some T_DIR \<Longrightarrow>
    shows_entries fs (n + 1) path (uentries fs path) cs \<Longrightarrow> shows_tree fs n path (Dir cs)"
| none: "shows_entries fs n path [] []"
| skip: "ino = 0 \<or> is_dot_name nm \<Longrightarrow> shows_entries fs n path des cs \<Longrightarrow> shows_entries fs n path ((ino, nm) # des) cs"
| entry: "ino \<noteq> 0 \<Longrightarrow> \<not> is_dot_name nm \<Longrightarrow> length path + 1 + DIRSIZ + 1 \<le> BUFSIZE \<Longrightarrow> length nm \<le> DIRSIZ \<Longrightarrow>
    shows_tree fs n (path @ [SLASH] @ takeWhile (\<lambda>c. c \<noteq> 0) nm) t \<Longrightarrow> shows_entries fs n path des cs \<Longrightarrow>
    shows_entries fs n path ((ino, nm) # des) ((takeWhile (\<lambda>c. c \<noteq> 0) nm, t) # cs)"

lemma cstr_place:
  assumes "0 \<notin> set xs"
  shows "cstr (place a xs m) a xs" and "a + length xs < b \<Longrightarrow> cstr (place b ys (place a xs m)) a xs"
  using assms by (auto simp: cstr_def place_def)

lemma occurrences_greedy:
  assumes "key \<noteq> []" and "0 \<notin> set key" and "0 \<notin> set path" and "length path < BUFSIZE"
  shows "occurrences key path = Some (int (greedy key path))"
proof -
  let ?m = "place 1024 key (place 512 path (\<lambda>_. 0))"
  have c: "cstr ?m 512 path" "cstr ?m 1024 key" using assms by (auto intro!: cstr_place simp: BUFSIZE_def)
  show ?thesis
    using count_from_greedy [OF c(1) _ c(2) assms(1), of 0] strlen_cstr [OF c(2)]
    by (simp add: occurrences_def count_occurrences_def)
qed

text \<open>Going through the entries reports exactly the nodes below.\<close>

lemma traverse_entries_report:
  assumes key: "key \<noteq> []" "0 \<notin> set key"
  shows "shows_tree fs n path t \<Longrightarrow> 0 \<notin> set path \<longrightarrow> length path < BUFSIZE \<longrightarrow>
      (case t of Dir cs \<Rightarrow> traverse_open fs key n path = Some (Count path (int (greedy key path)), uentries fs path) \<and>
          traverse_entries fs key (n + 1) path (uentries fs path) = Some (Inr (report_below key path cs, files_below cs, dirs_below cs))
       | _ \<Rightarrow> True)"
    and "shows_entries fs n path des cs \<Longrightarrow> 0 \<notin> set path \<longrightarrow> length path < BUFSIZE \<longrightarrow>
      traverse_entries fs key n path des = Some (Inr (report_below key path cs, files_below cs, dirs_below cs))"
proof (induction rule: shows_tree_shows_entries.inducts)
  case (dir n path cs)
  then show ?case using occurrences_greedy [OF key] by (simp add: traverse_open_def)
next
  case (none n path)
  then show ?case by (simp add: traverse_entries.simps [of fs key n path])
next
  case (skip ino nm n path des cs)
  then show ?case by (simp add: traverse_entries.simps [of fs key n path "(ino, nm) # des"])
next
  case (entry ino nm path n t des cs)
  let ?nm = "takeWhile (\<lambda>c. c \<noteq> 0) nm"
  let ?buf = "path @ [SLASH] @ ?nm"
  show ?case
  proof (intro impI)
    assume p: "0 \<notin> set path" "length path < BUFSIZE"
    have "length ?nm \<le> DIRSIZ" using entry.hyps(4) length_takeWhile_le [of _ nm] by (rule order_trans [rotated])
    then have b: "0 \<notin> set ?buf" "length ?buf < BUFSIZE"
      using p(1) entry.hyps(3) by (auto simp: SLASH_def dest: set_takeWhileD)
    note oc = occurrences_greedy [OF key b]
    have mk: "make_path path nm = Inr ?buf" using entry.hyps(3) by (simp add: make_path_def)
    have rest: "traverse_entries fs key n path des = Some (Inr (report_below key path cs, files_below cs, dirs_below cs))"
      using entry.IH(4) p by simp
    note eq = traverse_entries.simps [of fs key n path "(ino, nm) # des"]
    show "traverse_entries fs key n path ((ino, nm) # des) =
        Some (Inr (report_below key path ((?nm, t) # cs), files_below ((?nm, t) # cs), dirs_below ((?nm, t) # cs)))"
      using entry.IH(1)
    proof cases
      case regular
      then show ?thesis using eq entry.hyps(1,2) mk oc rest by (simp add: found_def)
    next
      case (other ty)
      then show ?thesis using eq entry.hyps(1,2) mk oc rest by simp
    next
      case (dir ds)
      have "traverse_open fs key n ?buf = Some (Count ?buf (int (greedy key ?buf)), uentries fs ?buf)"
        "traverse_entries fs key (n + 1) ?buf (uentries fs ?buf) = Some (Inr (report_below key ?buf ds, files_below ds, dirs_below ds))"
        using entry.IH(2) b dir(1) by simp_all
      moreover have "T_DIR \<noteq> T_FILE" by (simp add: T_DIR_def T_FILE_def)
      ultimately show ?thesis using eq entry.hyps(1,2) mk oc rest dir by (simp add: found_def algebra_simps)
    qed
  qed
qed simp_all

text \<open>C34: For a directory tree whose paths fit the buffer, the traversal terminates, reports every file and directory
  below the root once, in the order of the entries, with its number of occurrences of the key, and counts the regular
  files and the directories; other nodes, removed entries and the two dot names are passed over.\<close>

theorem traverse_reports_tree:
  assumes "shows_tree fs 0 path (Dir cs)" and "key \<noteq> []" and "0 \<notin> set key" and "0 \<notin> set path" and "length path < BUFSIZE"
  shows "traverse fs path key = Some (Inr (report key path (Dir cs), files (Dir cs), dirs (Dir cs) - 1))"
  using traverse_entries_report(1) [OF assms(2,3,1)] assms(4,5) by (simp add: traverse_def found_def)

definition demo_fs :: user_fs where
  "demo_fs = \<lparr>uopen = (\<lambda>n p. n < 14), ufstat = (\<lambda>p. Some T_DIR),
     ustat = (\<lambda>n p. Some (if length p = 3 then T_FILE else T_DIR)),
     uentries = (\<lambda>p. if p = [97] then [(1, [46]), (0, [98]), (3, [98]), (4, [99, 99])] else [(4, [46]), (1, [46, 46])])\<rparr>"

theorem traverse_reports_tree_witness:
  "traverse demo_fs [97] [97] =
    Some (Inr (report [97] [97] (Dir [([98], Reg), ([99, 99], Dir [])]), 1, 1))"
proof -
  have dots: "is_dot_name [46]" "is_dot_name [46, 46]" "\<not> is_dot_name [98]" "\<not> is_dot_name [99, 99]" by (simp_all add: is_dot_name_def)
  have f: "shows_tree demo_fs 1 [97, SLASH, 98] Reg" by (rule regular) (simp add: demo_fs_def)
  have "shows_entries demo_fs (1 + 1) [97, SLASH, 99, 99] [(4, [46]), (1, [46, 46])] []" using dots by (intro skip none) simp_all
  then have d: "shows_tree demo_fs 1 [97, SLASH, 99, 99] (Dir [])"
    by (intro dir) (simp_all add: demo_fs_def)
  have tw: "takeWhile (\<lambda>c. c \<noteq> 0) [98] = [98 :: u8]" "takeWhile (\<lambda>c. c \<noteq> 0) [99, 99] = [99, 99 :: u8]" by simp_all
  have l: "length [97 :: u8] + 1 + DIRSIZ + 1 \<le> BUFSIZE" by (simp add: DIRSIZ_def BUFSIZE_def)
  have "shows_entries demo_fs (0 + 1) [97] [(3, [98]), (4, [99, 99])] [([98], Reg), ([99, 99], Dir [])]"
    using entry [OF _ dots(3) l, of 3 demo_fs 1 Reg "[(4, [99, 99])]" "[([99, 99], Dir [])]"]
      entry [OF _ dots(4) l, of 4 demo_fs 1 "Dir []" "[]" "[]"] f d none [of demo_fs 1 "[97]"]
    by (simp add: DIRSIZ_def)
  then have "shows_entries demo_fs (0 + 1) [97] (uentries demo_fs [97]) [([98], Reg), ([99, 99], Dir [])]"
    using dots by (simp add: demo_fs_def skip)
  then have "shows_tree demo_fs 0 [97] (Dir [([98], Reg), ([99, 99], Dir [])])"
    by (intro dir) (simp_all add: demo_fs_def)
  from traverse_reports_tree [OF this, of "[97]"] show ?thesis by (simp add: BUFSIZE_def)
qed

end
