(* ===== verification/FileIO.thy ===== *)
theory FileIO
  imports Files
begin

text \<open>
  Reading and writing files (\<open>bmap\<close>, \<open>readi\<close>, \<open>writei\<close> of mp4/kernel/fs.c), on top of the view
  of a file as the contents \<open>fdata\<close> of its parts.
\<close>

section \<open>Finding the block of a part of the file\<close>

lemma bmap_slot_spec:
  assumes tx: "in_tx (Suc n) B s" and lay: "layout_ok s" and B: "bmapstart (sb s) \<in> B" and ls: "lock_set s = {}"
    and ok: "file_ok s p" and i: "i \<le> NDIRECT" and hole: "iaddrs (icache s p) i = 0 \<Longrightarrow> \<exists>b. free_block s b"
  shows "\<exists>a u. bmap_slot p i msg s = Inr (a, u) \<and> a \<noteq> 0 \<and> in_tx n (insert a B) u \<and> file_step p s u \<and>
    unat (iaddrs (icache u p) i) = a \<and> (\<forall>k<MAXFILE. fdata u p k = fdata s p k) \<and>
    (\<forall>k<MAXFILE. fblk u p k = (if k = i \<and> i < NDIRECT then a else fblk s p k)) \<and>
    (\<forall>c. free_block s c \<longrightarrow> free_block u c \<or> c = a) \<and> (iaddrs (icache s p) i \<noteq> 0 \<longrightarrow> u = s)"
proof (cases "iaddrs (icache s p) i = 0")
  case True
  have uh: "unheld s b" for b using ls by (simp add: unheld_def)
  obtain b t where t: "balloc ROOTDEV s = Inr (b, t)" "took b s t" "in_tx n (insert b B) t"
    using balloc_took [OF tx lay B uh uh _ hole [OF True]] ls by auto
  note T = tookD [OF t(2) lay] and S = set_addr_step [OF t(2) lay ok ls i True]
  let ?u = "upd_inode p (\<lambda>ip. ip\<lparr>iaddrs := (iaddrs ip)(i := of_nat b)\<rparr>) t"
  have eq: "bmap_slot p i msg s = Inr (b, ?u)"
    using True t(1) T(4) file_okD(1) [OF ok] by (simp add: bmap_slot_def)
  have "free_block s c \<longrightarrow> free_block ?u c \<or> c = b" for c using t(2) by (simp add: took_def)
  then show ?thesis using eq T(4) t(3) S True by auto
next
  case False
  then have a: "unat (iaddrs (icache s p) i) \<noteq> 0" by (simp add: unsigned_eq_0_iff)
  have eq: "bmap_slot p i msg s = Inr (unat (iaddrs (icache s p) i), s)" using False by (simp add: bmap_slot_def)
  show ?thesis
    using a eq in_tx_insert [OF tx] file_step_refl [OF lay ok ls] by (auto simp: fblk_def)
qed

text \<open>Releasing or reading a buffer is no step of a file.\<close>

lemma frame_file_step:
  assumes fr: "tx_frame s u" and v: "view u = view s" and lay: "layout_ok s" and ok: "file_ok s p" and ls: "lock_set s = {}"
  shows "file_step p s u" and "fblk u p k = fblk s p k" and "fdata u p k = fdata s p k" and "free_block u c = free_block s c"
proof -
  note f = tx_frame_fs [OF fr] and D = tx_frameD [OF fr]
  have fr': "free_block u c = free_block s c" for c by (simp add: free_block_def f v)
  have ind: "ind u p = ind s p" by (simp add: ind_def f)
  have fb: "fblk u p k = fblk s p k" for k by (simp add: fblk_def ind f v)
  have ow: "owned u b = owned s b" for b by (simp add: owned_def f fr')
  have "layout_ok u" using lay by (simp add: layout_ok_def f fr')
  moreover have "file_ok u p" using ok by (simp add: file_ok_def f ind fb ow)
  moreover have "fset u p = fset s p" by (simp add: fset_def ind fb)
  moreover have "\<exists>f. icache u = (icache s)(p := (icache s p)\<lparr>iaddrs := f\<rparr>)"
    using f(2) by (intro exI [of _ "iaddrs (icache s p)"]) simp
  ultimately show "file_step p s u"
    using D ls fr v f by (simp add: file_step_def fr' tx_frame_def tx_step_def)
  show "fblk u p k = fblk s p k" "free_block u c = free_block s c" by (rule fb fr')+
  show "fdata u p k = fdata s p k" by (simp add: fdata_def fb v)
qed

text \<open>Changing a block that is not the free map.\<close>

lemma change_block:
  assumes lay: "layout_ok t" and st: "tx_step L t v" and v: "view v = (view t)(a := d)" and a: "a \<noteq> bmapstart (sb t)"
  shows "layout_ok v" and "free_block v c = free_block t c" and "owned v c = owned t c"
proof -
  note f = tx_step_fs [OF st]
  have fr: "free_block v c = free_block t c" for c
  proof (cases "c < sb_size (sb t)")
    case True
    then have "BBLOCK c t \<noteq> a" using bmap_block [OF lay True] a by simp
    then show ?thesis by (simp add: free_block_def f v)
  qed (simp add: free_block_def f)
  then show "free_block v c = free_block t c" "owned v c = owned t c" by (simp_all add: owned_def f)
  show "layout_ok v" using lay by (simp add: layout_ok_def f fr)
qed

text \<open>The address of block \<open>b\<close> is stored in entry \<open>j\<close> of the indirect block.\<close>

lemma set_entry_step:
  assumes tk: "took b t w" and lay: "layout_ok t" and sw: "tx_step {} w v" and st: "tx_step {} s v"
    and vw: "view v = (view w)(ind s p := put32 (j * 4) (of_nat b) (view s (ind s p)))"
    and t: "view t = view s" "sb t = sb s" "icache t = icache s" "\<And>c. free_block t c = free_block s c" "\<And>c. owned t c = owned s c"
    and ok: "file_ok s p" and ls: "lock_set s = {}" and ind: "ind s p \<noteq> 0" and j: "j < NINDIRECT"
    and hole: "fblk s p (NDIRECT + j) = 0"
  shows "file_step p s v" and "k < MAXFILE \<Longrightarrow> fblk v p k = (if k = NDIRECT + j then b else fblk s p k)"
    and "k < MAXFILE \<Longrightarrow> fdata v p k = fdata s p k" and "free_block s c \<Longrightarrow> free_block v c \<or> c = b"
proof -
  note T = tookD [OF tk lay] and F = file_okD [OF ok]
  have oi: "owned s (ind s p)" by (rule F(2) [OF ind])
  have w: "layout_ok w" "sb w = sb s" "icache w = icache s" using tk T(7,8) t(2,3) by (simp_all add: took_def)
  have im: "ind s p \<noteq> bmapstart (sb w)" using oi w(2) by (simp add: owned_def)
  note C = change_block [OF w(1) sw vw im]
  note f = tx_step_fs [OF st]
  have nb: "\<not> owned s b" "b \<noteq> 0" "b \<noteq> ind s p" using T(3,4) t(5) oi by auto
  have iv: "ind v p = ind s p" by (simp add: ind_def f)
  have vs: "view v c = view s c" if "owned s c" "c \<noteq> ind s p" for c
  proof -
    have "c \<noteq> b" using that nb(1) by blast
    then show ?thesis using T(5) [of c] that by (simp add: owned_def vw t)
  qed
  have fb: "fblk v p k = (if k = NDIRECT + j then b else fblk s p k)" for k
  proof (cases "k < NDIRECT")
    case False
    have "get32 (put32 (j * 4) (of_nat b) (view s (ind s p))) ((k - NDIRECT) * 4) = get32 (view s (ind s p)) ((k - NDIRECT) * 4)"
      if "k \<noteq> NDIRECT + j" by (rule le32.get_put_other) (use that False in arith)
    then show ?thesis using False ind T(2) by (auto simp: fblk_def iv vw le32.get_put)
  qed (simp add: fblk_def f)
  show "fblk v p k = (if k = NDIRECT + j then b else fblk s p k)" by (rule fb)
  show "fdata v p k = fdata s p k" if k: "k < MAXFILE"
  proof (cases "k = NDIRECT + j")
    case True
    then show ?thesis using nb T(6) hole by (simp add: fdata_def fb vw)
  next
    case False
    then show ?thesis using vs [of "fblk s p k"] F(3,4) [OF k] by (auto simp: fdata_def fb)
  qed
  have k: "NDIRECT + j < MAXFILE" using j by (simp add: MAXFILE_def)
  have fset: "file_ok v p" "fset v p = insert b (fset s p)"
    by (rule add_block [OF ok _ _ _ nb(1,2), where new = "Some (NDIRECT + j)"];
        use T(1,10) t(5) C(3) k hole iv fb in \<open>simp add: f\<close>)+
  have ti: "ind s p \<in> fset v p" using ind by (simp add: fset_def iv)
  show "free_block s c \<Longrightarrow> free_block v c \<or> c = b" using tk t(4) C(2) by (auto simp: took_def)
  show "file_step p s v"
    unfolding file_step_def
  proof (intro conjI)
    show "\<exists>g. icache v = (icache s)(p := (icache s p)\<lparr>iaddrs := g\<rparr>)"
      using f(2) by (intro exI [of _ "iaddrs (icache s p)"]) simp
    show "\<forall>c. free_block v c \<longrightarrow> free_block s c" using tk t(4) C(2) by (simp add: took_def)
    show "\<forall>c \<in> fset v p. c \<in> fset s p \<or> free_block s c" using tk t(4) by (auto simp: fset(2) took_def)
    show "fset s p \<subseteq> fset v p" using fset(2) by auto
    show "\<forall>c. c \<noteq> bmapstart (sb s) \<and> c \<notin> fset v p \<longrightarrow> view v c = view s c"
      using T(5) ti by (auto simp: fset(2) vw t)
    show "file_ok v p" "layout_ok v" by (rule fset(1) C(1))+
  qed (use st f in \<open>simp_all add: tx_step_def\<close>)
qed

lemma bmap_entry_spec:
  assumes tx: "in_tx (Suc n) B s" and lay: "layout_ok s" and B: "bmapstart (sb s) \<in> B" "ind s p \<in> B" and ls: "lock_set s = {}"
    and ok: "file_ok s p" and ind: "ind s p \<noteq> 0" and j: "j < NINDIRECT" 
    and hole: "fblk s p (NDIRECT + j) = 0 \<Longrightarrow> \<exists>b. free_block s b"
  shows "\<exists>a u. bmap_entry p (ind s p) j s = Inr (a, u) \<and> a \<noteq> 0 \<and> in_tx n (insert a B) u \<and> file_step p s u \<and>
    (\<forall>k<MAXFILE. fdata u p k = fdata s p k) \<and>
    (\<forall>k<MAXFILE. fblk u p k = (if k = NDIRECT + j then a else fblk s p k)) \<and>
    (\<forall>c. free_block s c \<longrightarrow> free_block u c \<or> c = a) \<and> icache u = icache s \<and>
    (fblk s p (NDIRECT + j) \<noteq> 0 \<longrightarrow> (\<forall>c. free_block u c = free_block s c))"
proof -
  have oi: "owned s (ind s p)" by (rule file_okD(2) [OF ok ind])
  have lt: "ind s p < DISK1_START_BLOCK" using oi by (simp add: owned_def data_block_def)
  have "unheld s (ind s p)" "card (lock_set s) \<le> 1" using ls by (simp_all add: unheld_def)
  from tx_read [OF tx lt this] obtain i t where r: "bread ROOTDEV (ind s p) s = Inr (i, t)" "taken s (ind s p) i t"
    "in_tx (Suc n) B t" "bdata (bufs t i) = view s (ind s p)" by blast
  note R = takenD [OF r(2)] and f = taken_fs [OF r(2)]
  have dev: "idev (icache s p) = ROOTDEV" "idev (icache t p) = ROOTDEV" using file_okD(1) [OF ok] by (simp_all add: f)
  have fb: "fblk s p (NDIRECT + j) = unat (get32 (view s (ind s p)) (j * 4))" using ind by (simp add: fblk_def)
  show ?thesis
  proof (cases "get32 (view s (ind s p)) (j * 4) = 0")
    case False
    obtain u where u: "brelse i t = Inr u" "in_tx (Suc n) B u" "view u = view s" "tx_frame s u"
      using tx_release [OF r(3,2)] by blast
    have eq: "bmap_entry p (ind s p) j s = Inr (fblk s p (NDIRECT + j), u)"
      using r(1,4) u(1) False dev fb by (simp add: bmap_entry_def Let_def)
    have "fblk s p (NDIRECT + j) \<noteq> 0" using False fb by (simp add: unsigned_eq_0_iff)
    then show ?thesis
      using eq in_tx_insert [OF u(2)] frame_file_step [OF u(4,3) lay ok ls] tx_frame_fs(2) [OF u(4)] by auto
  next
    case True
    have ft: "free_block t c = free_block s c" "owned t c = owned s c" "layout_ok t" for c
      using lay by (simp_all add: owned_def free_block_def layout_ok_def f R(5))
    have bn: "blockno (bufs t i) = ind s p" "lock_set t = {i}" using heldD [OF R(1)] R(3) ls by simp_all
    have "unheld t (bmapstart (sb t))" "unheld t b" if "free_block t b" for b
      using oi that ft(1) bn by (auto simp: unheld_def owned_def f)
    moreover have "unheld t (bmapstart (sb t))" using oi bn by (auto simp: unheld_def owned_def f)
    moreover have "\<exists>b. free_block t b" using hole True fb ft(1) by simp
    ultimately obtain b w where w: "balloc ROOTDEV t = Inr (b, w)" "took b t w" "in_tx n (insert b B) w"
      using balloc_took [OF r(3) ft(3)] B(1) f bn(2) by auto
    have fw: "tx_frame t w" using w(2) by (simp add: took_def)
    have bi: "bufs w i = bufs t i" "lock_set w = {i}" using tx_frameD(2,8) [OF fw] bn(2) by auto
    have hw: "held w i (ind s p)" using R(1) bi by (simp add: held_def)
    have dw: "data_block w (ind s p)" using oi tx_frame_fs(5) [OF fw] f(5) by (simp add: owned_def)
    let ?d = "put32 (j * 4) (of_nat b) (view s (ind s p))"
    obtain x v where v: "log_write i (set_bdata i ?d w) = Inr x" "brelse i x = Inr v" "in_tx n (insert b B) v"
      "view v = (view w)(ind s p := ?d)" "tx_step (lock_set w - {i}) w v"
      using hold_update [OF w(3) hw dw, of ?d] B(2) by blast
    have sw: "tx_step {} w v" using v(5) bi(2) by simp
    have "tx_step {i} s w" by (rule tx_step_trans [OF R(4), of "{i}"]) (use fw bn(2) ls in \<open>simp_all add: tx_frame_def\<close>)
    then have sv: "tx_step {} s v" using tx_step_trans sw by blast
    note S = set_entry_step [OF w(2) ft(3) sw sv v(4) R(5) f(1,2) ft(1,2) ok ls ind j]
    have eq: "bmap_entry p (ind s p) j s = Inr (b, v)"
      using r(1,4) w(1) v(1,2) bi(1) True dev tookD(4) [OF w(2) ft(3)] by (simp add: bmap_entry_def Let_def)
    have "fblk s p (NDIRECT + j) = 0" using True fb by simp
    then show ?thesis using eq v(3) tookD(4) [OF w(2) ft(3)] S tx_step_fs(2) [OF sv] by auto
  qed
qed

text \<open>The number of free blocks, and how many of them part \<open>k\<close> of a file takes when it is a hole.\<close>

definition nfree :: "'a fs_state_scheme \<Rightarrow> nat" where
  "nfree s = card {b. free_block s b}"

definition need :: "'a fs_state_scheme \<Rightarrow> nat \<Rightarrow> nat \<Rightarrow> nat" where
  "need s p k = (if fblk s p k \<noteq> 0 then 0 else if k < NDIRECT \<or> ind s p \<noteq> 0 then 1 else 2)"

lemma finite_free [simp]: "finite {b. free_block s b}"
  by (rule finite_subset [of _ "{..<sb_size (sb s)}"]) (auto simp: free_block_def)

lemma nfree_pos: "0 < nfree s \<longleftrightarrow> (\<exists>b. free_block s b)"
  by (simp add: nfree_def card_gt_0_iff)

lemma nfree_step:
  fixes s u :: "'a fs_state_scheme"
  assumes "\<forall>c. free_block s c \<longrightarrow> free_block u c \<or> c = a"
  shows "nfree s \<le> Suc (nfree u)"
proof -
  have "card {b. free_block s b} \<le> card (insert a {b. free_block u b})"
    using assms by (intro card_mono) auto
  then show ?thesis by (simp add: nfree_def card_insert_if split: if_splits)
qed

lemma nfree_same: "(\<And>c. free_block u c = free_block s c) \<Longrightarrow> nfree u = nfree s"
  by (simp add: nfree_def)

text \<open>\<open>bmap\<close> finds or allocates the block of a part, and does not change the file's contents. It logs
  at most two blocks beside the free map.\<close>

lemma bmap_direct:
  assumes tx: "in_tx (Suc (Suc n)) B s" and lay: "layout_ok s" and B: "bmapstart (sb s) \<in> B" and ls: "lock_set s = {}"
    and ok: "file_ok s p" and bn: "bn < NDIRECT" and room: "need s p bn \<le> nfree s"
  shows "\<exists>b C u. bmap p bn s = Inr (b, u) \<and> b \<noteq> 0 \<and> insert b B \<subseteq> C \<and> in_tx n C u \<and> file_step p s u \<and>
    (\<forall>k<MAXFILE. fblk u p k = (if k = bn then b else fblk s p k)) \<and>
    (\<forall>k<MAXFILE. fdata u p k = fdata s p k) \<and> nfree s \<le> nfree u + need s p bn"
proof -
  have z: "fblk s p bn = 0 \<longleftrightarrow> iaddrs (icache s p) bn = 0" using bn by (simp add: fblk_def unsigned_eq_0_iff)
  have hole: "\<exists>b. free_block s b" if "iaddrs (icache s p) bn = 0"
    using room that z bn nfree_pos [of s] by (simp add: need_def)
  from bmap_slot_spec [OF tx lay B ls ok less_imp_le [OF bn] hole, of "''bmap: balloc failed''"] obtain a u where
    u: "bmap_slot p bn ''bmap: balloc failed'' s = Inr (a, u)" "a \<noteq> 0" "in_tx (Suc n) (insert a B) u" "file_step p s u"
    "\<forall>k<MAXFILE. fdata u p k = fdata s p k" "\<forall>k<MAXFILE. fblk u p k = (if k = bn \<and> bn < NDIRECT then a else fblk s p k)"
    "\<forall>c. free_block s c \<longrightarrow> free_block u c \<or> c = a" "iaddrs (icache s p) bn \<noteq> 0 \<longrightarrow> u = s" by blast
  have "nfree s \<le> nfree u + need s p bn"
    using nfree_step [OF u(7)] u(8) z bn by (cases "fblk s p bn = 0") (simp_all add: need_def)
  moreover have "in_tx n (insert a B) u" by (rule in_tx_mono [OF u(3)]) simp_all
  ultimately show ?thesis using u(1-6) bn by (auto simp: bmap_def)
qed

lemma bmap_indirect:
  assumes tx: "in_tx (Suc (Suc n)) B s" and lay: "layout_ok s" and B: "bmapstart (sb s) \<in> B" and ls: "lock_set s = {}"
    and ok: "file_ok s p" and j: "j < NINDIRECT" and room: "need s p (NDIRECT + j) \<le> nfree s"
  shows "\<exists>b C u. bmap p (NDIRECT + j) s = Inr (b, u) \<and> b \<noteq> 0 \<and> insert b B \<subseteq> C \<and> in_tx n C u \<and> file_step p s u \<and>
    (\<forall>k<MAXFILE. fblk u p k = (if k = NDIRECT + j then b else fblk s p k)) \<and>
    (\<forall>k<MAXFILE. fdata u p k = fdata s p k) \<and> nfree s \<le> nfree u + need s p (NDIRECT + j)"
proof -
  let ?k = "NDIRECT + j" and ?m = "''bmap: balloc failed for indirect block''"
  have z: "ind s p = 0 \<longleftrightarrow> iaddrs (icache s p) NDIRECT = 0" by (simp add: ind_def unsigned_eq_0_iff)
  have kM: "?k < MAXFILE" using j by (simp add: MAXFILE_def)
  have nz: "ind s p \<noteq> 0" if "fblk s p ?k \<noteq> 0" using that by (auto simp: fblk_def split: if_splits)
  have "\<exists>b. free_block s b" if "iaddrs (icache s p) NDIRECT = 0"
    using room that z nz nfree_pos [of s] by (auto simp: need_def split: if_splits)
  from bmap_slot_spec [OF tx lay B ls ok _ this, of NDIRECT ?m] obtain a t where
    t: "bmap_slot p NDIRECT ?m s = Inr (a, t)" "a \<noteq> 0" "in_tx (Suc n) (insert a B) t" "file_step p s t"
    "unat (iaddrs (icache t p) NDIRECT) = a" "\<forall>k<MAXFILE. fdata t p k = fdata s p k"
    "\<forall>k<MAXFILE. fblk t p k = fblk s p k" "\<forall>c. free_block s c \<longrightarrow> free_block t c \<or> c = a"
    "iaddrs (icache s p) NDIRECT \<noteq> 0 \<longrightarrow> t = s" by auto
  note D = file_stepD [OF t(4)]
  have a: "ind t p = a" using t(5) by (simp add: ind_def)
  have nt: "nfree s \<le> nfree t + (if ind s p = 0 then 1 else 0)"
    using nfree_step [OF t(8)] t(9) z by simp
  have hole: "\<exists>b. free_block t b" if "fblk t p ?k = 0"
    using room that t(7) kM nt nfree_pos [of t] by (simp add: need_def split: if_splits)
  from bmap_entry_spec [OF t(3) D(4) _ _ D(3) D(5) _ j hole] D(2) B a t(2) obtain b u where
    u: "bmap_entry p a j t = Inr (b, u)" "b \<noteq> 0" "in_tx n (insert b (insert a B)) u" "file_step p t u"
    "\<forall>k<MAXFILE. fdata u p k = fdata t p k" "\<forall>k<MAXFILE. fblk u p k = (if k = ?k then b else fblk t p k)"
    "\<forall>c. free_block t c \<longrightarrow> free_block u c \<or> c = b" "fblk t p ?k \<noteq> 0 \<longrightarrow> (\<forall>c. free_block u c = free_block t c)"
    by auto
  have "nfree t \<le> nfree u + (if fblk s p ?k = 0 then 1 else 0)"
    using nfree_step [OF u(7)] u(8) t(7) kM nfree_same [of u t] by (cases "fblk s p ?k = 0") simp_all
  then have "nfree s \<le> nfree u + need s p ?k" using nt nz by (auto simp: need_def split: if_splits)
  moreover have "bmap p ?k s = Inr (b, u)" using t(1) u(1) j by (simp add: bmap_def)
  ultimately show ?thesis
    using u(2,3,5,6) t(6,7) file_step_trans [OF t(4) u(4)]
    by (intro exI [of _ b] exI [of _ "insert b (insert a B)"] exI [of _ u]) auto
qed

lemma bmap_spec:
  assumes tx: "in_tx (Suc (Suc n)) B s" and lay: "layout_ok s" and B: "bmapstart (sb s) \<in> B" and ls: "lock_set s = {}"
    and ok: "file_ok s p" and bn: "bn < MAXFILE" and room: "need s p bn \<le> nfree s"
  shows "\<exists>b C u. bmap p bn s = Inr (b, u) \<and> b \<noteq> 0 \<and> insert b B \<subseteq> C \<and> in_tx n C u \<and> file_step p s u \<and>
    (\<forall>k<MAXFILE. fblk u p k = (if k = bn then b else fblk s p k)) \<and>
    (\<forall>k<MAXFILE. fdata u p k = fdata s p k) \<and> nfree s \<le> nfree u + need s p bn"
proof (cases "bn < NDIRECT")
  case False
  then obtain j where j: "bn = NDIRECT + j" "j < NINDIRECT" using bn
    by (metis MAXFILE_def le_Suc_ex nat_add_left_cancel_less not_less)
  show ?thesis using bmap_indirect [OF tx lay B ls ok j(2)] room j(1) by simp
qed (rule bmap_direct [OF tx lay B ls ok _ room])

section \<open>Reading\<close>

text \<open>Byte \<open>a\<close> of the file.\<close>

definition fbyte :: "'a fs_state_scheme \<Rightarrow> nat \<Rightarrow> nat \<Rightarrow> u8" where
  "fbyte s p a = fdata s p (a div BSIZE) (a mod BSIZE)"

text \<open>A copy out of kernel memory may be split, as \<open>readi\<close> does.\<close>

locale copier =
  fixes co :: "'m copyout"
  assumes co_Nil: "co dst [] m = (m, True)"
    and co_append: "co dst (xs @ ys) m = (let (m1, ok) = co dst xs m in if ok then co (dst + length xs) ys m1 else (m1, False))"
begin

lemma co_first:
  assumes "co dst xs m = (m1, ok)"
  shows "fst (co dst (xs @ ys) m) = (if ok then fst (co (dst + length xs) ys m1) else m1)"
    and "snd (co dst (xs @ ys) m) \<longleftrightarrow> ok \<and> snd (co (dst + length xs) ys m1)"
  using assms by (simp_all add: co_append)

end

interpretation kernel_copy: copier copy_out
proof unfold_locales
  fix dst xs ys m
  have "copy_out dst (xs @ ys) m = copy_out (dst + length xs) ys (fst (copy_out dst xs m))"
    by (auto simp: copy_out_def fun_eq_iff nth_append)
  then show "copy_out dst (xs @ ys) m =
      (let (m1, ok) = copy_out dst xs m in if ok then copy_out (dst + length xs) ys m1 else (m1, False))"
    by (simp add: copy_out_def)
qed (auto simp: copy_out_def fun_eq_iff)

lemma BSIZE_pos [simp]: "0 < BSIZE"
  by (simp add: BSIZE_def)

text \<open>A step of the loops stays in one block.\<close>

lemma chunk_same: "i < chunk left off \<Longrightarrow> (off + i) div BSIZE = off div BSIZE \<and> (off + i) mod BSIZE = off mod BSIZE + i"
proof -
  assume "i < chunk left off"
  then have lt: "off mod BSIZE + i < BSIZE" by (simp add: chunk_def less_diff_conv add.commute)
  have "off + i = off div BSIZE * BSIZE + (off mod BSIZE + i)" by simp
  then have "(off + i) div BSIZE = off div BSIZE + (off mod BSIZE + i) div BSIZE"
    "(off + i) mod BSIZE = (off mod BSIZE + i) mod BSIZE"
    by (metis BSIZE_pos div_mult_self3 not_gr_zero, metis mod_mult_self3)
  with lt show ?thesis by simp
qed

lemma chunk_le: "chunk left off \<le> left" "off mod BSIZE + chunk left off \<le> BSIZE"
proof -
  show "chunk left off \<le> left" by (simp add: chunk_def)
  have "off mod BSIZE < BSIZE" by simp
  then show "off mod BSIZE + chunk left off \<le> BSIZE" unfolding chunk_def by linarith
qed

lemma chunk_bytes:
  "map (fdata s p (off div BSIZE)) [off mod BSIZE..<off mod BSIZE + chunk left off] = map (fbyte s p) [off..<off + chunk left off]"
  by (rule nth_equalityI) (auto simp: fbyte_def chunk_same)

lemma bmap_mapped:
  assumes lg: "in_log n B s" and ls: "lock_set s = {}" and ok: "file_ok s p" and bn: "bn < MAXFILE" and nz: "fblk s p bn \<noteq> 0"
  shows "\<exists>t. bmap p bn s = Inr (fblk s p bn, t) \<and> in_log n B t \<and> view t = view s \<and> tx_frame s t"
proof (cases "bn < NDIRECT")
  case True
  then show ?thesis using nz lg by (auto simp: bmap_def bmap_slot_def fblk_def unsigned_eq_0_iff)
next
  case False
  then have i: "ind s p \<noteq> 0" "iaddrs (icache s p) NDIRECT \<noteq> 0" using nz by (auto simp: fblk_def ind_def split: if_splits)
  have oi: "owned s (ind s p)" by (rule file_okD(2) [OF ok i(1)])
  have lt: "ind s p < DISK1_START_BLOCK" using oi by (simp add: owned_def data_block_def)
  have "unheld s (ind s p)" "card (lock_set s) \<le> 1" using ls by (simp_all add: unheld_def)
  from log_read [OF lg lt this] obtain j t where r: "bread ROOTDEV (ind s p) s = Inr (j, t)" "taken s (ind s p) j t"
    "in_log n B t" "bdata (bufs t j) = view s (ind s p)" by blast
  obtain u where u: "brelse j t = Inr u" "in_log n B u" "view u = view s" "tx_frame s u"
    using log_release [OF r(3,2)] by blast
  have "bmap_entry p (ind s p) (bn - NDIRECT) s = Inr (fblk s p bn, u)"
    using r(1,4) u(1) nz False i(1) file_okD(1) [OF ok] by (simp add: bmap_entry_def Let_def fblk_def unsigned_eq_0_iff)
  moreover have "bn - NDIRECT < NINDIRECT" using bn False by (simp add: MAXFILE_def)
  ultimately show ?thesis using u False i(2) by (auto simp: bmap_def bmap_slot_def ind_def)
qed

text \<open>Reading the bytes from \<open>off\<close> on amounts to one copy of them.\<close>

definition mapped :: "'a fs_state_scheme \<Rightarrow> nat \<Rightarrow> nat \<Rightarrow> bool" where
  "mapped s p len \<longleftrightarrow> (\<forall>a<len. a div BSIZE < MAXFILE \<and> fblk s p (a div BSIZE) \<noteq> 0)"

context copier
begin

lemma readi_loop_spec:
  fixes s :: "'a fs_state_scheme"
  assumes "in_log n B s" and "layout_ok s" and "lock_set s = {}" and "file_ok s p" and "mapped s p (off + left)"
  shows "\<exists>r t. readi_loop co p dst off left tot s mem = Inr (r, t, fst (co dst (map (fbyte s p) [off..<off + left]) mem)) \<and>
    in_log n B t \<and> view t = view s \<and> tx_frame s t \<and> r \<le> tot + left \<and>
    (snd (co dst (map (fbyte s p) [off..<off + left]) mem) \<longleftrightarrow> r = tot + left)"
  using assms
proof (induction left arbitrary: off tot dst s mem rule: less_induct)
  case (less left)
  show ?case
  proof (cases "left = 0")
    case True
    then show ?thesis using less.prems(1) by (simp add: readi_loop.simps [of co p dst off] co_Nil)
  next
    case False
    let ?bn = "off div BSIZE" and ?m = "chunk left off"
    have bn: "?bn < MAXFILE" "fblk s p ?bn \<noteq> 0" using less.prems(5) False by (auto simp: mapped_def)
    note M = chunk_pos [of left off] chunk_le [of left off]
    obtain t where t: "bmap p ?bn s = Inr (fblk s p ?bn, t)" "in_log n B t" "view t = view s" "tx_frame s t"
      using bmap_mapped [OF less.prems(1,3,4) bn] by blast
    note F = frame_file_step [OF t(4,3) less.prems(2,4,3)]
    note D = file_stepD [OF F(1)]
    have ow: "fblk s p ?bn < DISK1_START_BLOCK"
      using file_okD(3) [OF less.prems(4) bn] by (simp add: owned_def data_block_def)
    have "unheld t (fblk s p ?bn)" "card (lock_set t) \<le> 1" using D(3) by (simp_all add: unheld_def)
    from log_read [OF t(2) ow this] obtain i u where u: "bread ROOTDEV (fblk s p ?bn) t = Inr (i, u)"
      "taken t (fblk s p ?bn) i u" "in_log n B u" "bdata (bufs u i) = view s (fblk s p ?bn)" using t(3) by auto
    obtain v where v: "brelse i u = Inr v" "in_log n B v" "view v = view s" "tx_frame t v"
      using log_release [OF u(3,2)] t(3) by auto
    have fr: "tx_frame s v" by (rule tx_frame_trans [OF t(4) v(4)])
    note G = frame_file_step [OF fr v(3) less.prems(2,4,3)]
    note H = file_stepD [OF G(1)]
    have fb: "fbyte v p = fbyte s p" by (rule ext) (simp add: fbyte_def G(3))
    have bytes: "map (bdata (bufs u i)) [off mod BSIZE..<off mod BSIZE + ?m] = map (fbyte s p) [off..<off + ?m]"
      using u(4) bn(2) chunk_bytes [of s p off left] by (simp add: fdata_def)
    obtain m1 ok where co: "co dst (map (fbyte s p) [off..<off + ?m]) mem = (m1, ok)" by (cases "co dst (map (fbyte s p) [off..<off + ?m]) mem")
    have idev: "idev (icache t p) = ROOTDEV" by (rule file_okD(1) [OF D(5)])
    let ?rest = "map (fbyte s p) [off + ?m..<off + left]"
    have all: "map (fbyte s p) [off..<off + left] = map (fbyte s p) [off..<off + ?m] @ ?rest"
      using M(2) using upt_add_eq_append [of off "off + ?m" "left - ?m"] by (simp flip: map_append)
    have step: "readi_loop co p dst off left tot s mem =
      (if ok then readi_loop co p (dst + ?m) (off + ?m) (left - ?m) (tot + ?m) v m1 else Inr (tot, v, m1))"
      using False t(1) u(1) v(1) idev co by (simp add: readi_loop.simps [of co p dst off] Let_def bytes)
    show ?thesis
    proof (cases ok)
      case True
      have lt: "left - ?m < left" using M(1) False by simp
      have "mapped v p (off + ?m + (left - ?m))" using less.prems(5) M(2) by (simp add: mapped_def G(2))
      from less.IH [OF lt v(2) H(4,3,5) this, of "dst + ?m" "tot + ?m" m1] obtain r w where
        w: "readi_loop co p (dst + ?m) (off + ?m) (left - ?m) (tot + ?m) v m1 = Inr (r, w, fst (co (dst + ?m) ?rest m1))"
        "in_log n B w" "view w = view v" "tx_frame v w" "r \<le> tot + left" "snd (co (dst + ?m) ?rest m1) \<longleftrightarrow> r = tot + left"
        using M(2) by (auto simp: fb)
      show ?thesis
        using True step w(1,2,3,5,6) v(3) tx_frame_trans [OF fr w(4)] co_first [OF co, of ?rest] by (auto simp: all)
    next
      case False
      moreover have "tot \<noteq> tot + left" using \<open>left \<noteq> 0\<close> by simp
      ultimately show ?thesis using step v(2,3) fr co_first [OF co, of ?rest] by (auto simp: all)
    qed
  qed
qed

end

text \<open>The number of bytes there are to read.\<close>

definition avail :: "u32 \<Rightarrow> u32 \<Rightarrow> u32 \<Rightarrow> nat" where
  "avail sz off n = (if unat off > unat sz \<or> unat off + unat n \<ge> 2 ^ 32 then 0 else min (unat n) (unat sz - unat off))"

lemma plus_wraps:
  fixes a b :: u32
  shows "a + b < a \<longleftrightarrow> unat a + unat b \<ge> 2 ^ 32" and "\<not> a + b < a \<Longrightarrow> unat (a + b) = unat a + unat b"
proof -
  have *: "unat (a + b) = (if unat a + unat b < 2 ^ 32 then unat a + unat b else unat a + unat b - 2 ^ 32)"
    using unat_plus_if' [of a b] by simp
  have "unat b < 2 ^ 32" using unsigned_less [of b] by simp
  then show "a + b < a \<longleftrightarrow> unat a + unat b \<ge> 2 ^ 32" unfolding word_less_nat_alt * by auto
  then show "\<not> a + b < a \<Longrightarrow> unat (a + b) = unat a + unat b" using * by simp
qed

lemma avail_le: "0 < avail sz off n \<Longrightarrow> unat off + avail sz off n \<le> unat sz"
  by (auto simp: avail_def split: if_splits)

lemma readi_avail:
  "readi co p dst off n s mem =
     (if avail (isize (icache s p)) off n = 0 then Inr (0, s, mem)
      else readi_loop co p dst (unat off) (avail (isize (icache s p)) off n) 0 s mem)"
proof (cases "off > isize (icache s p) \<or> off + n < off")
  case True
  then have "avail (isize (icache s p)) off n = 0"
    using plus_wraps(1) [of off n] by (auto simp: avail_def word_less_nat_alt [of "isize (icache s p)"])
  then show ?thesis using True by (auto simp: readi_def)
next
  case False
  let ?sz = "isize (icache s p)"
  have le: "unat off \<le> unat ?sz" and nw: "unat (off + n) = unat off + unat n" "\<not> unat off + unat n \<ge> 2 ^ 32"
    using False plus_wraps [of off n] by (auto simp: word_less_nat_alt not_less)
  have "unat (if off + n > ?sz then ?sz - off else n) = avail ?sz off n"
    using le nw by (auto simp: avail_def word_less_nat_alt unat_sub word_le_nat_alt)
  then show ?thesis using False by (auto simp: readi_def Let_def readi_loop.simps [of co p dst "unat off" 0])
qed

lemma readi_contents:
  fixes s :: "'a fs_state_scheme"
  assumes co: "copier co" and lg: "in_log b B s" and lay: "layout_ok s" and ls: "lock_set s = {}" and ok: "file_ok s p"
    and m: "mapped s p (unat (isize (icache s p)))"
  shows "\<exists>r t. readi co p dst off n s mem =
      Inr (r, t, fst (co dst (map (fbyte s p) [unat off..<unat off + avail (isize (icache s p)) off n]) mem)) \<and>
    in_log b B t \<and> view t = view s \<and> tx_frame s t \<and> r \<le> avail (isize (icache s p)) off n \<and>
    (snd (co dst (map (fbyte s p) [unat off..<unat off + avail (isize (icache s p)) off n]) mem) \<longleftrightarrow>
      r = avail (isize (icache s p)) off n)"
proof (cases "avail (isize (icache s p)) off n = 0")
  case True
  then show ?thesis using copier.co_Nil [OF co] lg by (simp add: readi_avail)
next
  case False
  then have "mapped s p (unat off + avail (isize (icache s p)) off n)"
    using m avail_le [of "isize (icache s p)" off n] by (auto simp: mapped_def)
  from copier.readi_loop_spec [OF co lg lay ls ok this, of dst 0 mem] show ?thesis using False by (simp add: readi_avail)
qed

section \<open>Writing\<close>

text \<open>A change of blocks that are neither the file's nor the free map.\<close>

lemma foreign_change:
  assumes fr: "tx_frame u w" and v: "\<And>c. c \<in> fset u p \<or> c = bmapstart (sb u) \<Longrightarrow> view w c = view u c"
    and lay: "layout_ok u" and ok: "file_ok u p"
  shows "layout_ok w" and "file_ok w p" and "fblk w p k = fblk u p k" and "k < MAXFILE \<Longrightarrow> fdata w p k = fdata u p k"
    and "free_block w c = free_block u c" and "fset w p = fset u p"
proof -
  note f = tx_frame_fs [OF fr] and F = file_okD [OF ok]
  have fr': "free_block w c = free_block u c" for c
  proof (cases "c < sb_size (sb u)")
    case True
    then show ?thesis using bmap_block [OF lay True] v by (simp add: free_block_def f)
  qed (simp add: free_block_def f)
  have ind: "ind w p = ind u p" by (simp add: ind_def f)
  have "view w (ind u p) = view u (ind u p)" if "ind u p \<noteq> 0" using that v by (simp add: fset_def)
  then have fb: "fblk w p k = fblk u p k" for k by (simp add: fblk_def ind f)
  have ow: "owned w b = owned u b" for b by (simp add: owned_def f fr')
  show "layout_ok w" using lay by (simp add: layout_ok_def f fr')
  show "file_ok w p" using ok by (simp add: file_ok_def f ind fb ow)
  show "fset w p = fset u p" by (simp add: fset_def ind fb)
  show "free_block w c = free_block u c" "fblk w p k = fblk u p k" by (rule fr' fb)+
  show "fdata w p k = fdata u p k" if "k < MAXFILE" using that v [of "fblk u p k"] by (auto simp: fdata_def fb fset_def)
qed

text \<open>A change of one part of the file.\<close>

lemma own_write:
  assumes fr: "tx_frame u w" and vw: "view w = (view u)(fblk u p bn := d)" and bn: "bn < MAXFILE" "fblk u p bn \<noteq> 0"
    and lay: "layout_ok u" and ok: "file_ok u p" and ls: "lock_set u = {}"
  shows "file_step p u w" and "fblk w p k = fblk u p k" and "k < MAXFILE \<Longrightarrow> fdata w p k = (if k = bn then d else fdata u p k)"
    and "nfree w = nfree u"
proof -
  note f = tx_frame_fs [OF fr] and F = file_okD [OF ok]
  have st: "tx_step {} u w" using fr ls by (simp add: tx_frame_def)
  have ob: "owned u (fblk u p bn)" by (rule F(3) [OF bn])
  note C = change_block [OF lay st vw] 
  have nm: "fblk u p bn \<noteq> bmapstart (sb u)" using ob by (simp add: owned_def)
  have ind: "ind w p = ind u p" by (simp add: ind_def f)
  have "view w (ind u p) = view u (ind u p)" if "ind u p \<noteq> 0" using F(4) [OF bn] by (simp add: vw)
  then have fb: "fblk w p k = fblk u p k" for k by (simp add: fblk_def ind f)
  show "fblk w p k = fblk u p k" by (rule fb)
  show "fdata w p k = (if k = bn then d else fdata u p k)" if k: "k < MAXFILE"
  proof (cases "k = bn")
    case False
    then show ?thesis using F(5) [OF k bn(1)] by (auto simp: fdata_def fb vw)
  qed (use bn(2) in \<open>simp add: fdata_def fb vw\<close>)
  show "nfree w = nfree u" using C(2) [OF nm] by (rule nfree_same)
  have ts: "fset w p = fset u p" by (simp add: fset_def ind fb)
  have bin: "fblk u p bn \<in> fset u p" using bn by (auto simp: fset_def)
  show "file_step p u w"
    unfolding file_step_def
  proof (intro conjI)
    show "\<exists>g. icache w = (icache u)(p := (icache u p)\<lparr>iaddrs := g\<rparr>)"
      using f(2) by (intro exI [of _ "iaddrs (icache u p)"]) simp
    show "layout_ok w" by (rule C(1) [OF nm])
    show "file_ok w p" using ok by (simp add: file_ok_def f ind fb C(3) [OF nm])
    show "\<forall>c. c \<noteq> bmapstart (sb u) \<and> c \<notin> fset w p \<longrightarrow> view w c = view u c" using bin by (auto simp: vw ts)
  qed (use st f C(2) [OF nm] in \<open>auto simp: tx_step_def ts\<close>)
qed

text \<open>The blocks a write of \<open>left\<close> bytes at \<open>off\<close> touches, and those of them that must be allocated.\<close>

definition nblk :: "nat \<Rightarrow> nat \<Rightarrow> nat" where
  "nblk off left = (if left = 0 then 0 else (off + left - 1) div BSIZE + 1 - off div BSIZE)"

definition hole_set :: "'a fs_state_scheme \<Rightarrow> nat \<Rightarrow> nat \<Rightarrow> nat \<Rightarrow> nat set" where
  "hole_set s p off left = {k. off div BSIZE \<le> k \<and> k < off div BSIZE + nblk off left \<and> fblk s p k = 0}"

lemma nblk_step:
  fixes off left :: nat
  assumes "0 < left"
  defines "m \<equiv> chunk left off"
  shows "nblk off left = Suc (nblk (off + m) (left - m))" and "left - m > 0 \<Longrightarrow> (off + m) div BSIZE = Suc (off div BSIZE)"
proof -
  let ?q = "off div BSIZE" and ?r = "off mod BSIZE"
  have off: "off = ?q * BSIZE + ?r" and r: "?r < BSIZE" by simp_all
  have "nblk off left = Suc (nblk (off + m) (left - m)) \<and> (left - m > 0 \<longrightarrow> (off + m) div BSIZE = Suc ?q)"
  proof (cases "left \<le> BSIZE - ?r")
    case True
    have "left - 1 < chunk left off" using True assms(1) r by (simp add: chunk_def)
    then have "(off + (left - 1)) div BSIZE = ?q" by (rule chunk_same [THEN conjunct1])
    then show ?thesis using True assms(1) by (simp add: nblk_def m_def chunk_def)
  next
    case False
    then have m: "m = BSIZE - ?r" by (simp add: m_def chunk_def)
    have "off + m = ?q * BSIZE + BSIZE" using off r m by linarith
    then have "off + m = Suc ?q * BSIZE" by simp
    then have q: "(off + m) div BSIZE = Suc ?q" by simp
    have "off + m + (left - m) - 1 = off + left - 1" "left - m > 0" using False m by linarith+
    moreover have "Suc ?q \<le> (off + left - 1) div BSIZE"
      using div_le_mono [of "off + m" "off + left - 1" BSIZE] q False m by linarith
    ultimately show ?thesis using q assms(1) by (simp add: nblk_def)
  qed
  then show "nblk off left = Suc (nblk (off + m) (left - m))" "left - m > 0 \<Longrightarrow> (off + m) div BSIZE = Suc ?q" by auto
qed

lemma nblk_max: "off + left \<le> MAXFILE * BSIZE \<Longrightarrow> k < off div BSIZE + nblk off left \<Longrightarrow> k < MAXFILE"
proof -
  assume a: "off + left \<le> MAXFILE * BSIZE" "k < off div BSIZE + nblk off left"
  show ?thesis
  proof (cases "left = 0")
    case True
    then have "k < off div BSIZE" using a(2) by (simp add: nblk_def)
    also have "off div BSIZE \<le> MAXFILE" using a(1) by (simp add: div_le_mono [of off "MAXFILE * BSIZE" BSIZE, simplified])
    finally show ?thesis .
  next
    case False
    have "off div BSIZE \<le> (off + left - 1) div BSIZE" using False by (intro div_le_mono) simp
    then have "k \<le> (off + left - 1) div BSIZE" using a(2) False by (simp add: nblk_def)
    moreover have "(off + left - 1) div BSIZE < MAXFILE" using a(1) False by (simp add: less_mult_imp_div_less)
    ultimately show ?thesis by simp
  qed
qed

lemma nblk_covers: "off \<le> a \<Longrightarrow> a < off + left \<Longrightarrow> off div BSIZE \<le> a div BSIZE \<and> a div BSIZE < off div BSIZE + nblk off left"
proof -
  assume a: "off \<le> a" "a < off + left"
  then have "off div BSIZE \<le> a div BSIZE" "a div BSIZE \<le> (off + left - 1) div BSIZE" by (intro div_le_mono; linarith)+
  then show ?thesis using a by (simp add: nblk_def)
qed

lemma in_chunk:
  "a div BSIZE = off div BSIZE \<Longrightarrow> m \<le> chunk left off \<Longrightarrow> off \<le> a \<and> a < off + m \<longleftrightarrow> off mod BSIZE \<le> a mod BSIZE \<and> a mod BSIZE < off mod BSIZE + m"
  "a div BSIZE = off div BSIZE \<Longrightarrow> off \<le> a \<Longrightarrow> a - off = a mod BSIZE - off mod BSIZE"
proof -
  assume "a div BSIZE = off div BSIZE"
  then have "a = off div BSIZE * BSIZE + a mod BSIZE" "off = off div BSIZE * BSIZE + off mod BSIZE"
    by (metis div_mult_mod_eq, simp)
  then show "off \<le> a \<and> a < off + m \<longleftrightarrow> off mod BSIZE \<le> a mod BSIZE \<and> a mod BSIZE < off mod BSIZE + m"
    "off \<le> a \<Longrightarrow> a - off = a mod BSIZE - off mod BSIZE" by linarith+
qed

lemma fbyte_blit:
  fixes w u :: "'a fs_state_scheme" and off left :: nat
  defines "m \<equiv> chunk left off"
  assumes "fdata w p (a div BSIZE) =
    (if a div BSIZE = off div BSIZE then blit (off mod BSIZE) (map data [src..<src + m]) (fdata u p (off div BSIZE))
     else fdata u p (a div BSIZE))"
  shows "fbyte w p a = (if off \<le> a \<and> a < off + m then data (src + (a - off)) else fbyte u p a)"
proof (cases "a div BSIZE = off div BSIZE")
  case True
  note I = in_chunk [OF True]
  show ?thesis
    using assms(2) True I(1) [of m left] I(2) by (auto simp: fbyte_def blit_def m_def)
next
  case False
  have "\<not> (off \<le> a \<and> a < off + m)"
  proof
    assume "off \<le> a \<and> a < off + m"
    then have "a - off < chunk left off" "off + (a - off) = a" unfolding m_def by linarith+
    then have "a div BSIZE = off div BSIZE" using chunk_same by metis
    then show False using False by simp
  qed
  then show ?thesis using assms(2) False by (auto simp: fbyte_def)
qed

text \<open>The parameters of a write that a failing copy does not cut short.\<close>

definition copies_in :: "copyin \<Rightarrow> (nat \<Rightarrow> u8) \<Rightarrow> nat \<Rightarrow> nat \<Rightarrow> bool" where
  "copies_in ci data src len \<longleftrightarrow> (\<forall>a m. src \<le> a \<and> a + m \<le> src + len \<longrightarrow> ci a m = copy_in data a m)"

text \<open>What a write leaves: the new bytes, everything written to in place.\<close>

definition written :: "'a fs_state_scheme \<Rightarrow> nat \<Rightarrow> nat \<Rightarrow> nat \<Rightarrow> (nat \<Rightarrow> u8) \<Rightarrow> nat \<Rightarrow> 'a fs_state_scheme \<Rightarrow> bool" where
  "written s p off left data src t \<longleftrightarrow>
     (\<forall>a < MAXFILE * BSIZE. fbyte t p a = (if off \<le> a \<and> a < off + left then data (src + (a - off)) else fbyte s p a)) \<and>
     (\<forall>k < MAXFILE. fblk s p k \<noteq> 0 \<longrightarrow> fblk t p k = fblk s p k) \<and>
     (\<forall>a. off \<le> a \<and> a < off + left \<longrightarrow> fblk t p (a div BSIZE) \<noteq> 0)"

lemma written_step:
  assumes one: "\<And>a. a < MAXFILE * BSIZE \<Longrightarrow> fbyte w p a = (if off \<le> a \<and> a < off + m then data (src + (a - off)) else fbyte s p a)"
    and blk: "\<And>k. k < MAXFILE \<Longrightarrow> fblk w p k = (if k = off div BSIZE then b else fblk s p k)" "fblk s p (off div BSIZE) \<noteq> 0 \<Longrightarrow> b = fblk s p (off div BSIZE)" "b \<noteq> 0"
    and m: "m = chunk left off" "off + left \<le> MAXFILE * BSIZE"
    and rest: "written w p (off + m) (left - m) data (src + m) t"
  shows "written s p off left data src t"
  unfolding written_def
proof (intro conjI allI impI)
  have ml: "m \<le> left" using m(1) chunk_le by simp
  fix a assume a: "a < MAXFILE * BSIZE"
  have "fbyte t p a = (if off + m \<le> a \<and> a < off + m + (left - m) then data (src + m + (a - (off + m))) else fbyte w p a)"
    using rest a by (simp add: written_def)
  then show "fbyte t p a = (if off \<le> a \<and> a < off + left then data (src + (a - off)) else fbyte s p a)"
    using one [OF a] ml by (cases "off + m \<le> a") auto
next
  fix k assume k: "k < MAXFILE" "fblk s p k \<noteq> 0"
  then have "fblk w p k = fblk s p k" using blk by (cases "k = off div BSIZE") simp_all
  then show "fblk t p k = fblk s p k" using rest k by (simp add: written_def)
next
  fix a assume a: "off \<le> a \<and> a < off + left"
  then have k: "a div BSIZE < MAXFILE" using m(2) by (simp add: less_mult_imp_div_less)
  show "fblk t p (a div BSIZE) \<noteq> 0"
  proof (cases "off + m \<le> a")
    case False
    then have "a - off < chunk left off" "off + (a - off) = a" using a m(1) by linarith+
    then have "a div BSIZE = off div BSIZE" using chunk_same by metis
    then show ?thesis using blk(1) [OF k] blk(3) rest k by (simp add: written_def)
  qed (use rest a m chunk_le in \<open>auto simp: written_def\<close>)
qed

lemma writei_chunk:
  fixes s :: "'a fs_state_scheme"
  assumes tx: "in_tx (Suc (Suc n)) B s" and lay: "layout_ok s" and B: "bmapstart (sb s) \<in> B" and ls: "lock_set s = {}"
    and ok: "file_ok s p" and bn: "off div BSIZE < MAXFILE" and room: "need s p (off div BSIZE) \<le> nfree s"
    and left: "0 < left" and ci: "ci src (chunk left off) = copy_in data src (chunk left off)"
  defines "m \<equiv> chunk left off"
  shows "\<exists>b C t. writei_loop ci p src off left s = writei_loop ci p (src + m) (off + m) (left - m) t \<and>
    B \<subseteq> C \<and> in_tx n C t \<and> file_step p s t \<and>
    (\<forall>a < MAXFILE * BSIZE. fbyte t p a = (if off \<le> a \<and> a < off + m then data (src + (a - off)) else fbyte s p a)) \<and>
    (\<forall>k<MAXFILE. fblk t p k = (if k = off div BSIZE then b else fblk s p k)) \<and> b \<noteq> 0 \<and>
    (fblk s p (off div BSIZE) \<noteq> 0 \<longrightarrow> b = fblk s p (off div BSIZE)) \<and> nfree s \<le> nfree t + need s p (off div BSIZE)"
proof -
  let ?bn = "off div BSIZE"
  obtain b C u where u: "bmap p ?bn s = Inr (b, u)" "b \<noteq> 0" "insert b B \<subseteq> C" "in_tx n C u" "file_step p s u"
    "\<forall>k<MAXFILE. fblk u p k = (if k = ?bn then b else fblk s p k)" "\<forall>k<MAXFILE. fdata u p k = fdata s p k"
    "nfree s \<le> nfree u + need s p ?bn"
    using bmap_spec [OF tx lay B ls ok bn room] by blast
  note D = file_stepD [OF u(5)]
  have b: "fblk u p ?bn = b" using u(6) bn by simp
  have ob: "owned u b" using file_okD(3) [OF D(5) bn] b u(2) by simp
  have lt: "b < DISK1_START_BLOCK" "data_block u b" using ob by (simp_all add: owned_def data_block_def)
  have "unheld u b" "card (lock_set u) \<le> 1" using D(3) by (simp_all add: unheld_def)
  from tx_read [OF u(4) lt(1) this] obtain i v where v: "bread ROOTDEV b u = Inr (i, v)" "taken u b i v" "in_tx n C v"
    "bdata (bufs v i) = view u b" by blast
  let ?d = "blit (off mod BSIZE) (map data [src..<src + m]) (view u b)"
  obtain x w where w: "log_write i (set_bdata i ?d v) = Inr x" "brelse i x = Inr w" "in_tx n C w"
    "view w = (view u)(b := ?d)" "tx_frame u w"
    using tx_update [OF v(3,2) lt(2), of ?d] u(3) by blast
  have nz: "fblk u p ?bn \<noteq> 0" using b u(2) by simp
  note O = own_write [OF w(5) _ bn nz D(4) D(5) D(3), unfolded b, OF w(4)]
  have eq: "writei_loop ci p src off left s = writei_loop ci p (src + m) (off + m) (left - m) w"
    using left u(1) v(1,4) w(1,2) file_okD(1) [OF D(5)] ci
    by (simp add: writei_loop.simps [of ci p src off left s] copy_in_def m_def Let_def)
  have "fbyte w p a = (if off \<le> a \<and> a < off + m then data (src + (a - off)) else fbyte s p a)" if a: "a < MAXFILE * BSIZE" for a
  proof -
    have k: "a div BSIZE < MAXFILE" using a by (simp add: less_mult_imp_div_less)
    have "fdata w p (a div BSIZE) = (if a div BSIZE = ?bn then blit (off mod BSIZE) (map data [src..<src + m]) (fdata u p ?bn)
        else fdata u p (a div BSIZE))"
      using O(3) [OF k] b u(2) by (simp add: fdata_def)
    from fbyte_blit [OF this [unfolded m_def]] show ?thesis using u(7) k by (simp add: m_def fbyte_def)
  qed
  moreover have "fblk s p ?bn \<noteq> 0 \<longrightarrow> b = fblk s p ?bn"
    using bmap_mapped [OF in_txD(1) [OF tx] ls ok bn] u(1) by auto
  moreover have "B \<subseteq> C" "file_step p s w" using u(3) file_step_trans [OF u(5) O(1)] by simp_all
  moreover have "\<forall>k<MAXFILE. fblk w p k = (if k = ?bn then b else fblk s p k)" "nfree s \<le> nfree w + need s p ?bn"
    using u(6,8) O(2,4) by simp_all
  ultimately show ?thesis using eq u(2) w(3) by blast
qed

lemma writei_loop_spec:
  fixes s :: "'a fs_state_scheme"
  assumes "in_tx (2 * nblk off left + n) B s" and "layout_ok s" and "bmapstart (sb s) \<in> B" and "lock_set s = {}"
    and "file_ok s p" and "off + left \<le> MAXFILE * BSIZE" and "2 * card (hole_set s p off left) \<le> nfree s"
    and "copies_in ci data src left"
  shows "\<exists>C t. writei_loop ci p src off left s = Inr (off + left, t) \<and> B \<subseteq> C \<and> in_tx n C t \<and> file_step p s t \<and>
    written s p off left data src t \<and> nfree s \<le> nfree t + 2 * card (hole_set s p off left)"
  using assms
proof (induction left arbitrary: src off s B rule: less_induct)
  case (less left)
  show ?case
  proof (cases "left = 0")
    case True
    then show ?thesis
      using less.prems(1) file_step_refl [OF less.prems(2,5,4)]
      by (auto simp: writei_loop.simps [of ci p src off 0] nblk_def written_def)
  next
    case False
    let ?m = "chunk left off" and ?bn = "off div BSIZE"
    have pos: "0 < left" using False by simp
    note N = nblk_step [OF pos, of off] and M = chunk_pos [OF pos, of off] chunk_le [of left off]
    have bn: "?bn < MAXFILE" by (rule nblk_max [OF less.prems(6)]) (simp add: N(1))
    have tx: "in_tx (Suc (Suc (2 * nblk (off + ?m) (left - ?m) + n))) B s" using less.prems(1) N(1) by simp
    have hs: "finite (hole_set s p off left)" by (simp add: hole_set_def)
    have inb: "fblk s p ?bn = 0 \<Longrightarrow> ?bn \<in> hole_set s p off left" by (simp add: hole_set_def N(1))
    have nd: "need s p ?bn \<le> nfree s"
    proof (cases "fblk s p ?bn = 0")
      case True
      then have "1 \<le> card (hole_set s p off left)" using inb hs card_gt_0_iff [of "hole_set s p off left"] by auto
      then show ?thesis using less.prems(7) by (simp add: need_def)
    qed (simp add: need_def)
    have "ci src ?m = copy_in data src ?m" using less.prems(8) M(2) by (simp add: copies_in_def)
    from writei_chunk [where data = data and ci = ci and src = src, OF tx less.prems(2-5) bn nd pos this] obtain b C t where
      t: "writei_loop ci p src off left s = writei_loop ci p (src + ?m) (off + ?m) (left - ?m) t" "B \<subseteq> C"
      "in_tx (2 * nblk (off + ?m) (left - ?m) + n) C t" "file_step p s t"
      "\<forall>a < MAXFILE * BSIZE. fbyte t p a = (if off \<le> a \<and> a < off + ?m then data (src + (a - off)) else fbyte s p a)"
      "\<forall>k<MAXFILE. fblk t p k = (if k = ?bn then b else fblk s p k)" "b \<noteq> 0"
      "fblk s p ?bn \<noteq> 0 \<longrightarrow> b = fblk s p ?bn" "nfree s \<le> nfree t + need s p ?bn" by blast
    note D = file_stepD [OF t(4)]
    have lt: "left - ?m < left" using M(1) pos by simp
    have end1: "off + ?m + (left - ?m) = off + left" using M(2) by simp
    have sub: "hole_set t p (off + ?m) (left - ?m) \<subseteq> hole_set s p off left - {?bn}"
    proof
      fix k assume k: "k \<in> hole_set t p (off + ?m) (left - ?m)"
      then have "0 < left - ?m" by (auto simp: hole_set_def nblk_def split: if_splits)
      note q = N(2) [OF this]
      have kb: "k \<noteq> ?bn" "?bn \<le> k" "k < ?bn + nblk off left" using k q N(1) by (simp_all add: hole_set_def)
      moreover have "k < MAXFILE" by (rule nblk_max [OF less.prems(6) kb(3)])
      ultimately show "k \<in> hole_set s p off left - {?bn}" using k t(6) by (simp add: hole_set_def)
    qed
    have fr: "2 * card (hole_set t p (off + ?m) (left - ?m)) \<le> nfree t \<and>
        nfree s + 2 * card (hole_set t p (off + ?m) (left - ?m)) \<le> nfree t + 2 * card (hole_set s p off left)"
    proof (cases "fblk s p ?bn = 0")
      case True
      have "card (hole_set t p (off + ?m) (left - ?m)) \<le> card (hole_set s p off left) - 1"
        using card_mono [OF _ sub] inb [OF True] hs by simp
      moreover have "need s p ?bn \<le> 2" by (simp add: need_def)
      moreover have "0 < card (hole_set s p off left)" using inb [OF True] hs card_gt_0_iff by auto
      ultimately show ?thesis using t(9) less.prems(7) by linarith
    next
      case False
      have "card (hole_set t p (off + ?m) (left - ?m)) \<le> card (hole_set s p off left)"
        using card_mono [OF hs, of "hole_set t p (off + ?m) (left - ?m)"] sub by blast
      then show ?thesis using t(9) less.prems(7) False by (simp add: need_def)
    qed
    have cp: "copies_in ci data (src + ?m) (left - ?m)" using less.prems(8) M(2) by (auto simp: copies_in_def)
    have bm: "bmapstart (sb t) \<in> C" using D(2) t(2) less.prems(3) by auto
    have max: "off + ?m + (left - ?m) \<le> MAXFILE * BSIZE" using less.prems(6) end1 by simp
    from less.IH [OF lt t(3) D(4) bm D(3) D(5) max conjunct1 [OF fr] cp] obtain E w where
      w: "writei_loop ci p (src + ?m) (off + ?m) (left - ?m) t = Inr (off + left, w)" "C \<subseteq> E" "in_tx n E w" "file_step p t w"
      "written t p (off + ?m) (left - ?m) data (src + ?m) w"
      "nfree t \<le> nfree w + 2 * card (hole_set t p (off + ?m) (left - ?m))" unfolding end1 by blast
    have "written s p off left data src w"
      by (rule written_step [OF _ _ _ t(7) refl less.prems(6) w(5)]) (use t(5,6,8) in auto)
    moreover have "nfree s \<le> nfree w + 2 * card (hole_set s p off left)" using fr w(6) by linarith
    ultimately show ?thesis using t(1,2) w(1-3) file_step_trans [OF t(4) w(4)] by auto
  qed
qed

text \<open>The block of inode \<open>p\<close> holds no file data.\<close>

definition iblk :: "'a fs_state_scheme \<Rightarrow> nat \<Rightarrow> nat" where
  "iblk s p = IBLOCK (inum (icache s p)) s"

definition inode_ok :: "'a fs_state_scheme \<Rightarrow> nat \<Rightarrow> bool" where
  "inode_ok s p \<longleftrightarrow> data_block s (iblk s p) \<and> iblk s p \<noteq> bmapstart (sb s) \<and> \<not> free_block s (iblk s p) \<and> iblk s p \<notin> fset s p"

text \<open>The copy of the inode on disk is up to date.\<close>

definition synced :: "'a fs_state_scheme \<Rightarrow> nat \<Rightarrow> bool" where
  "synced s p \<longleftrightarrow> load_dinode (dip_off (inum (icache s p))) (view s (iblk s p)) (icache s p) = icache s p"

text \<open>Changing anything but the addresses of an inode leaves the file alone.\<close>

lemma upd_meta:
  fixes s :: "'a fs_state_scheme" and p :: nat
  assumes "\<And>ip. iaddrs (g ip) = iaddrs ip" and "\<And>ip. idev (g ip) = idev ip" and "\<And>ip. inum (g ip) = inum ip"
  defines "u \<equiv> upd_inode p g s"
  shows "ind u q = ind s q" "fblk u q k = fblk s q k" "fdata u q k = fdata s q k" "fset u q = fset s q"
    "file_ok u q = file_ok s q" "fbyte u q a = fbyte s q a" "iblk u q = iblk s q" "inode_ok u q = inode_ok s q"
proof -
  have ic: "iaddrs (icache u q) = iaddrs (icache s q)" "idev (icache u q) = idev (icache s q)" "inum (icache u q) = inum (icache s q)"
    using assms(1-3) by (simp_all add: u_def)
  show i: "ind u q = ind s q" by (simp add: ind_def ic)
  have f: "fblk u q k = fblk s q k" for k by (simp add: fblk_def ic i) (simp add: u_def)
  show "fblk u q k = fblk s q k" by (rule f)
  show d: "fdata u q k = fdata s q k" for k by (simp add: fdata_def f) (simp add: u_def)
  show t: "fset u q = fset s q" by (simp add: fset_def i f)
  have "owned u b = owned s b" for b by (simp add: owned_def u_def)
  then show "file_ok u q = file_ok s q" by (simp add: file_ok_def i f ic)
  show "fbyte u q a = fbyte s q a" by (simp add: fbyte_def d)
  show ib: "iblk u q = iblk s q" by (simp add: iblk_def ic) (simp add: u_def)
  show "inode_ok u q = inode_ok s q" by (simp add: inode_ok_def ib t) (simp add: u_def)
qed

lemmas upd_isize [simp] = upd_meta [of "isize_update x" for x, simplified]
lemmas upd_ilocked [simp] = upd_meta [of "ilocked_update x" for x, simplified]

text \<open>Writing the inode back: the file stays as it is, and the disk copy is current.\<close>

lemma iupdate_file:
  fixes s :: "'a fs_state_scheme"
  assumes tx: "in_tx n B s" and lay: "layout_ok s" and ok: "file_ok s p" and io: "inode_ok s p" and b: "iblk s p \<in> B"
    and ls: "lock_set s = {}"
  shows "\<exists>t. iupdate p s = Inr t \<and> in_tx n B t \<and> tx_frame s t \<and> layout_ok t \<and> file_ok t p \<and> inode_ok t p \<and> synced t p \<and>
    (\<forall>k. fblk t p k = fblk s p k) \<and> (\<forall>k<MAXFILE. fdata t p k = fdata s p k) \<and> (\<forall>c. free_block t c = free_block s c) \<and>
    view t = (view s)(iblk s p := store_dinode (dip_off (inum (icache s p))) (icache s p) (view s (iblk s p)))"
proof -
  have u: "unheld s (IBLOCK (inum (icache s p)) s)" "card (lock_set s) \<le> 1" using ls by (simp_all add: unheld_def)
  have db: "data_block s (IBLOCK (inum (icache s p)) s)" "IBLOCK (inum (icache s p)) s \<in> B"
    using io b by (simp_all add: inode_ok_def iblk_def)
  from iupdate_spec [OF tx file_okD(1) [OF ok] db u] obtain t where t: "iupdate p s = Inr t" "in_tx n B t" "tx_frame s t"
    "view t = (view s)(iblk s p := store_dinode (dip_off (inum (icache s p))) (icache s p) (view s (iblk s p)))"
    by (auto simp: iblk_def)
  have same: "view t c = view s c" if "c \<in> fset s p \<or> c = bmapstart (sb s)" for c
    using that io t(4) by (auto simp: inode_ok_def)
  note F = foreign_change [OF t(3) same lay ok] and f = tx_frame_fs [OF t(3)]
  have ib: "iblk t p = iblk s p" by (simp add: iblk_def IBLOCK_def f)
  have "synced t p" by (simp add: synced_def ib f t(4) load_store_dinode)
  moreover have "inode_ok t p" using io by (simp add: inode_ok_def ib f F)
  ultimately show ?thesis using t F by blast
qed

lemma file_step_inode_ok:
  assumes "file_step p s t" and "inode_ok s p"
  shows "inode_ok t p" and "iblk t p = iblk s p"
proof -
  note D = file_stepD [OF assms(1)]
  show ib: "iblk t p = iblk s p" by (simp add: iblk_def D)
  show "inode_ok t p" using assms(2) D(2,10) D(15) [of "iblk s p"] D(17) [of "iblk s p"] by (auto simp: inode_ok_def ib)
qed

text \<open>What a write to file \<open>p\<close> leaves alone.\<close>

definition write_frame :: "nat \<Rightarrow> 'a fs_state_scheme \<Rightarrow> 'a fs_state_scheme \<Rightarrow> bool" where
  "write_frame p s t \<longleftrightarrow> disk t = disk s \<and> sb t = sb s \<and> log_start t = log_start s \<and> log_size t = log_size s \<and>
     outstanding t = outstanding s \<and> committing t = committing s \<and> fs_state.more t = fs_state.more s \<and> lock_set t = {} \<and>
     (\<exists>f z. icache t = (icache s)(p := (icache s p)\<lparr>iaddrs := f, isize := z\<rparr>)) \<and>
     (\<forall>c \<in> fset t p. c \<in> fset s p \<or> free_block s c) \<and>
     (\<forall>c. c \<noteq> bmapstart (sb s) \<and> c \<noteq> iblk s p \<and> c \<notin> fset t p \<longrightarrow> view t c = view s c)"

lemma writei_spec:
  fixes s :: "'a fs_state_scheme"
  assumes tx: "in_tx (2 * nblk (unat off) (unat n) + k) B s" and lay: "layout_ok s" and ls: "lock_set s = {}"
    and B: "bmapstart (sb s) \<in> B" "iblk s p \<in> B" and ok: "file_ok s p" and io: "inode_ok s p"
    and off: "off \<le> isize (icache s p)" and n: "0 < n" and max: "unat off + unat n \<le> MAXFILE * BSIZE"
    and room: "2 * card (hole_set s p (unat off) (unat n)) \<le> nfree s" and ci: "copies_in ci data src (unat n)"
  shows "\<exists>C t. writei ci p src off n s = Inr (sint n, t) \<and> B \<subseteq> C \<and> in_tx k C t \<and> layout_ok t \<and> write_frame p s t \<and>
    file_ok t p \<and> inode_ok t p \<and> synced t p \<and> written s p (unat off) (unat n) data src t \<and>
    unat (isize (icache t p)) = max (unat (isize (icache s p))) (unat off + unat n) \<and>
    nfree s \<le> nfree t + 2 * card (hole_set s p (unat off) (unat n))"
proof -
  have lim: "MAXFILE * BSIZE < 2 ^ 31" by (simp add: MAXFILE_def NDIRECT_def NINDIRECT_def BSIZE_def)
  then have nw: "unat off + unat n < 2 ^ 32" using max by simp
  have sm: "unat (off + n) = unat off + unat n" "\<not> off + n < off" using plus_wraps [of off n] nw by simp_all
  obtain C t where t: "writei_loop ci p src (unat off) (unat n) s = Inr (unat off + unat n, t)" "B \<subseteq> C" "in_tx k C t"
    "file_step p s t" "written s p (unat off) (unat n) data src t"
    "nfree s \<le> nfree t + 2 * card (hole_set s p (unat off) (unat n))"
    using writei_loop_spec [OF tx lay B(1) ls ok max room ci] by blast
  note D = file_stepD [OF t(4)] and I = file_step_inode_ok [OF t(4) io]
  let ?z = "if unat off + unat n > unat (isize (icache t p)) then of_nat (unat off + unat n) else isize (icache t p)"
  let ?u = "if unat off + unat n > unat (isize (icache t p))
    then upd_inode p (\<lambda>ip. ip\<lparr>isize := of_nat (unat off + unat n)\<rparr>) t else t"
  have "?u = upd_inode p (\<lambda>ip. ip\<lparr>isize := ?z\<rparr>) t" by (simp add: upd_inode_def)
  then obtain u where u: "u = ?u" "u = upd_inode p (\<lambda>ip. ip\<lparr>isize := ?z\<rparr>) t" by blast
  have iu: "inode_ok u p" using I(1) by (simp add: u(2) inode_ok_def)
  have "in_tx k C u" "layout_ok u" "file_ok u p" "iblk u p \<in> C" "lock_set u = {}"
    using t(2,3) D(3,4,5) I(2) B(2) by (auto simp: u(2))
  from iupdate_file [OF this(1-3) iu this(4,5)] obtain v where v: "iupdate p u = Inr v" "in_tx k C v" "tx_frame u v" "layout_ok v"
    "file_ok v p" "inode_ok v p" "synced v p" "\<forall>k. fblk v p k = fblk t p k" "\<forall>k<MAXFILE. fdata v p k = fdata t p k"
    "\<forall>c. c \<noteq> iblk t p \<longrightarrow> view v c = view t c" "\<forall>c. free_block v c = free_block t c"
    by (auto simp: u(2))
  note f = tx_frame_fs [OF v(3)] and E = tx_frameD [OF v(3)]
  have ret: "writei ci p src off n s = Inr (sint n, v)"
    using leD [OF off] sm max n t(1) v(1) u(1) by (simp add: writei_def)
  have "fbyte v p a = fbyte t p a" if "a < MAXFILE * BSIZE" for a
    using v(9) that by (simp add: fbyte_def less_mult_imp_div_less)
  then have wr: "written s p (unat off) (unat n) data src v" using t(5) v(8) by (simp add: written_def)
  obtain g where g: "icache t = (icache s)(p := (icache s p)\<lparr>iaddrs := g\<rparr>)" using t(4) by (auto simp: file_step_def)
  have ic: "icache v = (icache s)(p := (icache s p)\<lparr>iaddrs := g, isize := ?z\<rparr>)" by (simp add: f u(2) g)
  have "unat (of_nat (unat off + unat n) :: u32) = unat off + unat n" using sm(1) by simp
  then have "unat (isize (icache v p)) = max (unat (isize (icache s p))) (unat off + unat n)" by (simp add: ic D(9))
  moreover have "write_frame p s v"
    unfolding write_frame_def
  proof (intro conjI)
    have fs: "fset v p = fset t p" using v(8) by (simp add: fset_def ind_def f u(2))
    show "\<exists>f z. icache v = (icache s)(p := (icache s p)\<lparr>iaddrs := f, isize := z\<rparr>)" using ic by blast
    show "\<forall>c \<in> fset v p. c \<in> fset s p \<or> free_block s c" using D(17) by (simp add: fs)
    show "\<forall>c. c \<noteq> bmapstart (sb s) \<and> c \<noteq> iblk s p \<and> c \<notin> fset v p \<longrightarrow> view v c = view s c"
      using v(10) D(16) I(2) by (simp add: fs)
    show "committing v = committing s" "lock_set v = {}"
      using v(3) t(4) by (simp_all add: tx_frame_def tx_step_def file_step_def u(2))
  qed (use E f D in \<open>simp_all add: u(2)\<close>)
  moreover have "nfree v = nfree t" using v(11) by (simp add: nfree_def)
  ultimately show ?thesis using ret t(2,6) v(2,4-7) wr by auto
qed

end
