(* ===== verification/FileOps.thy ===== *)
theory FileOps
  imports FileTable FileIO
begin

text \<open>
  What reading and writing a file amount to, from the file table down to the two disks: reading
  back what was written, and the durability of one transaction of \<open>filewrite\<close>.
\<close>

section \<open>Changing the system state above the file system\<close>

lemma view_more:
  fixes s t :: "'a bcache_scheme"
  assumes "bufs t = bufs s" and "lru t = lru s" and "disk t = disk s"
    and "force_read_error_pbn t = force_read_error_pbn s" and "force_disk_fail_id t = force_disk_fail_id s"
  shows "view t = view s" "lock_set t = lock_set s" "bc_ok t pc = bc_ok s pc" "quiet t = quiet s"
proof -
  show "view t = view s" "lock_set t = lock_set s" "bc_ok t pc = bc_ok s pc" by (rule bc_cong; simp add: assms)+
  show "quiet t = quiet s" by (simp add: quiet_def assms)
qed

lemma log_ok_cong:
  fixes s t :: "'a log_state_scheme"
  assumes "bufs t = bufs s" and "lru t = lru s" and "disk t = disk s"
    and "force_read_error_pbn t = force_read_error_pbn s" and "force_disk_fail_id t = force_disk_fail_id s"
    and "log_dev t = log_dev s" and "lh_n t = lh_n s" and "lh_block t = lh_block s"
    and "log_start t = log_start s" and "log_size t = log_size s"
  shows "log_ok t = log_ok s" and "homes t = homes s"
proof -
  show h: "homes t = homes s" using assms by (simp add: homes_def)
  have "home_pins t = home_pins s" by (rule home_pins_cong [OF h])
  moreover have "log_area t = log_area s" using assms by (simp add: log_area_def)
  ultimately show "log_ok t = log_ok s" using assms h view_more [OF assms(1-5)] by (simp add: log_ok_def)
qed

lemma log_ok_outstanding [simp]:
  fixes s :: "'a log_state_scheme"
  shows "log_ok (s\<lparr>outstanding := k\<rparr>) = log_ok s" and "homes (s\<lparr>outstanding := k\<rparr>) = homes s"
  by (rule log_ok_cong; simp)+

text \<open>The file layer does not see the file table.\<close>

definition same_fs :: "'a fs_state_scheme \<Rightarrow> 'a fs_state_scheme \<Rightarrow> bool" where
  "same_fs s t \<longleftrightarrow> bufs t = bufs s \<and> lru t = lru s \<and> disk t = disk s \<and> force_read_error_pbn t = force_read_error_pbn s \<and>
     force_disk_fail_id t = force_disk_fail_id s \<and> log_dev t = log_dev s \<and> lh_n t = lh_n s \<and> lh_block t = lh_block s \<and>
     log_start t = log_start s \<and> log_size t = log_size s \<and> sb t = sb s \<and> icache t = icache s"

lemma same_fsD:
  fixes s t :: "'a fs_state_scheme"
  assumes "same_fs s t"
  shows "view t = view s" "lock_set t = lock_set s" "log_ok t = log_ok s" "homes t = homes s" "disk t = disk s"
    "sb t = sb s" "icache t = icache s" "data_block t b = data_block s b" "free_block t b = free_block s b"
    "layout_ok t = layout_ok s" "fblk t p k = fblk s p k" "fset t p = fset s p" "file_ok t p = file_ok s p"
    "fbyte t p a = fbyte s p a" "iblk t p = iblk s p" "inode_ok t p = inode_ok s p" "hole_set t p off n = hole_set s p off n"
    "nfree t = nfree s"
proof -
  note a = assms [unfolded same_fs_def]
  show v: "view t = view s" "lock_set t = lock_set s" using a by (simp_all add: view_more [of t s])
  show "log_ok t = log_ok s" "homes t = homes s" using a by (simp_all add: log_ok_cong [of t s])
  show g: "disk t = disk s" "sb t = sb s" "icache t = icache s" using a by simp_all
  have "log_area t = log_area s" using a by (simp add: log_area_def)
  then show d: "data_block t b = data_block s b" for b by (simp add: data_block_def)
  have bb: "BBLOCK c t = BBLOCK c s" for c by (simp add: BBLOCK_def g)
  show f: "free_block t b = free_block s b" for b by (simp add: free_block_def g bb v)
  show "layout_ok t = layout_ok s" by (simp add: layout_ok_def g d f bb)
  have i: "ind t p = ind s p" by (simp add: ind_def g)
  show k: "fblk t p k = fblk s p k" for k by (simp add: fblk_def g i v)
  show ts: "fset t p = fset s p" by (simp add: fset_def i k)
  have "owned t b = owned s b" for b by (simp add: owned_def d f g)
  then show "file_ok t p = file_ok s p" by (simp add: file_ok_def i k g)
  show "fbyte t p a = fbyte s p a" by (simp add: fbyte_def fdata_def k v)
  show ib: "iblk t p = iblk s p" by (simp add: iblk_def IBLOCK_def g)
  show "inode_ok t p = inode_ok s p" by (simp add: inode_ok_def ib d f g ts)
  show "hole_set t p off n = hole_set s p off n" "nfree t = nfree s" by (simp_all add: hole_set_def k nfree_def f)
qed

section \<open>Durability of a write\<close>

text \<open>No operation is running, nothing is logged, and the disks agree.\<close>

definition idle :: "'a log_state_scheme \<Rightarrow> bool" where
  "idle s \<longleftrightarrow> log_ok s \<and> lock_set s = {} \<and> outstanding s = 0 \<and> \<not> committing s \<and> lh_n s = 0 \<and>
     (\<forall>b<DISK1_START_BLOCK. disk s (b + DISK1_START_BLOCK) = disk s b)"

text \<open>Byte \<open>a\<close> of file \<open>p\<close> and the inode of \<open>p\<close>, as stored on disk \<open>d\<close> (0 or 1).\<close>

definition stored_byte :: "'a fs_state_scheme \<Rightarrow> nat \<Rightarrow> nat \<Rightarrow> nat \<Rightarrow> u8" where
  "stored_byte s d p a = disk s (fblk s p (a div BSIZE) + d * DISK1_START_BLOCK) (a mod BSIZE)"

definition stored_inode :: "'a fs_state_scheme \<Rightarrow> nat \<Rightarrow> nat \<Rightarrow> inode" where
  "stored_inode s d p = load_dinode (dip_off (inum (icache s p))) (disk s (iblk s p + d * DISK1_START_BLOCK)) (icache s p)"

lemma nblk_small: "n \<le> 3 * BSIZE \<Longrightarrow> nblk off n \<le> 4"
proof -
  assume n: "n \<le> 3 * BSIZE"
  show ?thesis
  proof (cases "n = 0")
    case False
    have "off + n - 1 < (off div BSIZE + 4) * BSIZE"
    proof -
      have "off < (off div BSIZE + 1) * BSIZE" using dividend_less_div_times [of BSIZE off] by simp
      then show ?thesis using n by (simp add: algebra_simps)
    qed
    then have "(off + n - 1) div BSIZE < off div BSIZE + 4" by (rule less_mult_imp_div_less)
    then show ?thesis using False by (simp add: nblk_def)
  qed (simp add: nblk_def)
qed

lemma idle_stored:
  fixes w :: "'a fs_state_scheme"
  assumes i: "idle w" and ok: "file_ok w p" and d: "d < 2"
  shows "a < MAXFILE * BSIZE \<Longrightarrow> fblk w p (a div BSIZE) \<noteq> 0 \<Longrightarrow> stored_byte w d p a = fbyte w p a"
    and "inode_ok w p \<Longrightarrow> synced w p \<Longrightarrow> stored_inode w d p = icache w p"
proof -
  note I = i [unfolded idle_def]
  have "homes w = {}" "unheld w b" for b using I by (simp_all add: homes_def unheld_def)
  then have v: "view w b = disk w b" for b using I view_unheld by blast
  have disk: "disk w (b + d * DISK1_START_BLOCK) = view w b" if "b < DISK1_START_BLOCK" for b
  proof -
    have "d = 0 \<or> d = 1" using d by linarith
    then show ?thesis using I that v by auto
  qed
  show "stored_byte w d p a = fbyte w p a" if "a < MAXFILE * BSIZE" "fblk w p (a div BSIZE) \<noteq> 0"
    using disk file_okD(3) [OF ok _ that(2)] that
    by (simp add: stored_byte_def fbyte_def fdata_def owned_def data_block_def less_mult_imp_div_less)
  show "inode_ok w p \<Longrightarrow> synced w p \<Longrightarrow> stored_inode w d p = icache w p"
    using disk by (simp add: stored_inode_def synced_def inode_ok_def data_block_def)
qed

text \<open>The state \<open>filewrite\<close> starts a transaction in: a regular file, open for writing, whose inode is
  referenced, read in and unlocked.\<close>

definition ready :: "'a sys_state_scheme \<Rightarrow> nat \<Rightarrow> bool" where
  "ready s f \<longleftrightarrow> (let p = fip (ftable s f) in idle s \<and> 11 < log_size s \<and> layout_ok s \<and> p \<noteq> 0 \<and> 0 < iref (icache s p) \<and>
     \<not> ilocked (icache s p) \<and> ivalid (icache s p) \<and> file_ok s p \<and> inode_ok s p \<and> foff (ftable s f) \<le> isize (icache s p))"

lemma filewrite_begin:
  fixes s :: "'a sys_state_scheme"
  assumes r: "ready s f"
  defines "p \<equiv> fip (ftable s f)"
  defines "s2 \<equiv> upd_inode p (\<lambda>ip. ip\<lparr>ilocked := True\<rparr>) (s\<lparr>outstanding := 1\<rparr>)"
  shows "rbind (begin_op s) (ilock p) = Inr s2" and "in_tx 8 {bmapstart (sb s), iblk s p} s2"
    and "same_fs s (s\<lparr>outstanding := 1\<rparr>)"
proof -
  have i: "idle s" "11 < log_size s" "p \<noteq> 0" "0 < iref (icache s p)" "\<not> ilocked (icache s p)" "ivalid (icache s p)"
    using r by (simp_all add: ready_def p_def Let_def)
  note d = i(1) [unfolded idle_def]
  show sf: "same_fs s (s\<lparr>outstanding := 1\<rparr>)" by (simp add: same_fs_def)
  show "rbind (begin_op s) (ilock p) = Inr s2"
    using d i by (simp add: begin_op_def ilock_def s2_def Let_def MAXOPBLOCKS_def LOGSIZE_def)
  have "homes s = {}" using d by (simp add: homes_def)
  then have "in_log 8 {bmapstart (sb s), iblk s p} s"
    using d i(2) card_insert_le_m1 [of 2 "{iblk s p}" "bmapstart (sb s)"] by (simp add: in_log_def)
  then show "in_tx 8 {bmapstart (sb s), iblk s p} s2" by (simp add: s2_def in_tx_def in_log_def)
qed

lemma committed_state:
  fixes s w :: "'a fs_state_scheme"
  assumes v: "\<forall>b. data_block s b \<longrightarrow> view w b = view s b" and ic: "icache w = icache s" "sb w = sb s"
    and lg: "log_start w = log_start s" "log_size w = log_size s" and lay: "layout_ok s" and ok: "file_ok s p"
  shows "layout_ok w" and "file_ok w p" and "inode_ok s p \<Longrightarrow> inode_ok w p" and "nfree w = nfree s"
    and "fblk w p k = fblk s p k" and "a < MAXFILE * BSIZE \<Longrightarrow> fbyte w p a = fbyte s p a"
    and "inode_ok s p \<Longrightarrow> synced w p = synced s p"
proof -
  have db: "data_block w b = data_block s b" for b by (simp add: data_block_def log_area_def lg)
  have bb: "BBLOCK b w = BBLOCK b s" for b by (simp add: BBLOCK_def ic)
  have fr: "free_block w b = free_block s b" for b
  proof (cases "b < sb_size (sb s)")
    case True
    then have "data_block s (BBLOCK b s)" using lay by (simp add: layout_ok_def)
    then show ?thesis using v by (simp add: free_block_def ic bb)
  qed (simp add: free_block_def ic)
  show "layout_ok w" using lay by (simp add: layout_ok_def db bb fr ic)
  have i: "ind w p = ind s p" by (simp add: ind_def ic)
  have "view w (ind s p) = view s (ind s p)" if "ind s p \<noteq> 0"
    using v file_okD(2) [OF ok that] by (simp add: owned_def)
  then have f: "fblk w p k = fblk s p k" for k by (simp add: fblk_def i ic)
  have ow: "owned w b = owned s b" for b by (simp add: owned_def db fr ic)
  show "file_ok w p" using ok by (simp add: file_ok_def i f ic ow)
  have ib: "iblk w p = iblk s p" by (simp add: iblk_def IBLOCK_def ic)
  show "inode_ok s p \<Longrightarrow> inode_ok w p" by (simp add: inode_ok_def ib ic db fr fset_def i f)
  show "inode_ok s p \<Longrightarrow> synced w p = synced s p" using v by (simp add: synced_def ib ic inode_ok_def)
  show "nfree w = nfree s" by (simp add: nfree_def fr)
  show "fblk w p k = fblk s p k" by (rule f)
  show "fbyte w p a = fbyte s p a" if "a < MAXFILE * BSIZE"
    using v file_okD(3) [OF ok] that by (auto simp: fbyte_def fdata_def f owned_def less_mult_imp_div_less)
qed

text \<open>The size of a write and the offset after it, as machine words.\<close>

lemma write_words:
  fixes off :: u32
  assumes n: "0 < n" "n \<le> WRITE_MAX" and max: "unat off + nat n \<le> MAXFILE * BSIZE"
  shows "unat (of_int n :: u32) = nat n" "sint (of_int n :: u32) = n" "0 < (of_int n :: u32)"
    "unat (off + of_int n) = unat off + nat n" "nblk (unat off) (nat n) \<le> 4"
proof -
  have lim: "n \<le> 3 * int BSIZE" "int BSIZE = 1024" using n(2) by (simp_all add: WRITE_MAX_def MAXOPBLOCKS_def BSIZE_def)
  then have n32: "n < 2 ^ 31" by simp
  have "uint (of_int n :: u32) = n" using n(1) n32 by (simp add: unsigned_of_int take_bit_int_eq_self)
  then show u: "unat (of_int n :: u32) = nat n" by (simp flip: nat_uint_eq)
  show "sint (of_int n :: u32) = n" using n(1) n32 by (simp add: signed_of_int signed_take_bit_int_eq_self)
  show "0 < (of_int n :: u32)" using u n(1) by (simp add: word_greater_zero_iff) (metis nat_0_iff not_le u unat_0)
  have "MAXFILE * BSIZE < 2 ^ 32" by (simp add: MAXFILE_def NDIRECT_def NINDIRECT_def BSIZE_def)
  then show "unat (off + of_int n) = unat off + nat n"
    using max u plus_wraps [of off "of_int n"] by simp
  show "nblk (unat off) (nat n) \<le> 4" by (rule nblk_small) (use lim in linarith)
qed

lemma sys_more:
  fixes s t :: "'a sys_state_scheme"
  assumes "fs_state.more t = fs_state.more s"
  shows "ftable t = ftable s"
  using assms by (cases s, cases t, simp)

lemma ftable_upd_inode [simp]: "ftable (upd_inode p g s) = ftable s"
  by (simp add: upd_inode_def)

lemma filewrite_part_spec:
  fixes s :: "'a sys_state_scheme" and f :: nat
  defines "p \<equiv> fip (ftable s f)" and "off \<equiv> unat (foff (ftable s f))"
  assumes r: "ready s f" and n: "0 < n" "n \<le> WRITE_MAX" and max: "off + nat n \<le> MAXFILE * BSIZE"
    and room: "2 * card (hole_set s p off (nat n)) \<le> nfree s" and ci: "copies_in ci data addr (nat n)"
  shows "\<exists>t. filewrite_part ci f addr n s = Inr (n, t) \<and> ready t f \<and> unat (foff (ftable t f)) = off + nat n \<and> fip (ftable t f) = p \<and>
    unat (isize (icache t p)) = max (unat (isize (icache s p))) (off + nat n) \<and> synced t p \<and>
    written s p off (nat n) data addr t \<and> nfree s \<le> nfree t + 2 * card (hole_set s p off (nat n))"
proof -
  have rd: "idle s" "11 < log_size s" "layout_ok s" "p \<noteq> 0" "0 < iref (icache s p)" "file_ok s p" "inode_ok s p"
    "foff (ftable s f) \<le> isize (icache s p)" "ivalid (icache s p)"
    using r by (simp_all add: ready_def p_def Let_def)
  define s1 where "s1 = s\<lparr>outstanding := 1\<rparr>"
  define s2 where "s2 = upd_inode p (\<lambda>ip. ip\<lparr>ilocked := True\<rparr>) s1"
  note b = filewrite_begin [OF r, folded p_def, folded s1_def, folded s2_def]
  note S1 = same_fsD [OF b(3)]
  note W = write_words [OF n max [unfolded off_def]]
  obtain sx where sx: "begin_op s = Inr sx" "ilock p sx = Inr s2" using b(1) by auto
  have tx: "in_tx (2 * nblk off (unat (of_int n :: u32)) + 0) {bmapstart (sb s), iblk s p} s2"
    by (rule in_tx_mono [OF b(2)]) (use W(1,5) in \<open>simp_all add: off_def\<close>)
  have pre: "layout_ok s2" "lock_set s2 = {}" "file_ok s2 p" "inode_ok s2 p" "iblk s2 p = iblk s p" "sb s2 = sb s"
    "isize (icache s2 p) = isize (icache s p)" "nfree s2 = nfree s" "hole_set s2 p off m = hole_set s p off m" for m
    using rd S1 by (simp_all add: s2_def idle_def nfree_def hole_set_def)
  have ex: "\<exists>C t. writei ci p addr (foff (ftable s f)) (of_int n) s2 = Inr (n, t) \<and> in_tx 0 C t \<and> layout_ok t \<and> write_frame p s2 t \<and>
    file_ok t p \<and> inode_ok t p \<and> synced t p \<and> written s2 p off (nat n) data addr t \<and>
    unat (isize (icache t p)) = max (unat (isize (icache s p))) (off + nat n) \<and>
    nfree s \<le> nfree t + 2 * card (hole_set s p off (nat n))"
    using writei_spec [OF tx [unfolded off_def] pre(1,2) _ _ pre(3,4), of ci data addr] pre(5-9) rd(8) W(1-3) max room ci
    by (auto simp: off_def)
  then obtain C t where t: "writei ci p addr (foff (ftable s f)) (of_int n) s2 = Inr (n, t)" "in_tx 0 C t" "layout_ok t"
    "write_frame p s2 t" "file_ok t p" "inode_ok t p" "synced t p" "written s2 p off (nat n) data addr t"
    "unat (isize (icache t p)) = max (unat (isize (icache s p))) (off + nat n)"
    "nfree s \<le> nfree t + 2 * card (hole_set s p off (nat n))" by blast
  have ft: "ftable t = ftable s"
    using t(4) by (intro sys_more) (simp add: write_frame_def s2_def s1_def)
  obtain g z where ic: "icache t = (icache s2)(p := (icache s2 p)\<lparr>iaddrs := g, isize := z\<rparr>)"
    using t(4) by (auto simp: write_frame_def)
  define s4 where "s4 = upd_file f (\<lambda>x. x\<lparr>foff := foff x + of_int n\<rparr>) t"
  define s5 where "s5 = upd_inode p (\<lambda>ip. ip\<lparr>ilocked := False\<rparr>) s4"
  have "same_fs t s4" by (simp add: same_fs_def s4_def upd_file_def)
  note S4 = same_fsD [OF this]
  have un: "iunlock p s4 = Inr s5"
    using rd(4,5) S1(7) by (simp add: iunlock_def s5_def S4 ic s2_def)
  have ft2: "ftable s2 = ftable s" by (simp add: s2_def s1_def)
  have pw: "filewrite_part ci f addr n s = rbind (end_op s5) (\<lambda>s6. Inr (n, s6))"
    using sx t(1) un n(1) by (simp add: filewrite_part_def Let_def p_def [symmetric] ft2 s4_def)
  have o5: "log_ok s5" "lock_set s5 = {}" "outstanding s5 = 1" "\<not> committing s5" "disk s5 = disk s" "log_size s5 = log_size s"
    "layout_ok s5" "file_ok s5 p" "inode_ok s5 p"
    using t(2-6) rd(1) in_txD(3) [OF t(2)] S4
    by (simp_all add: s5_def write_frame_def s2_def s1_def idle_def) (simp_all add: s4_def upd_file_def)
  have "\<forall>b<DISK1_START_BLOCK. disk s5 (b + DISK1_START_BLOCK) = disk s5 b" using rd(1) by (simp add: idle_def o5(5))
  from end_op_spec [OF o5(1-4) this] obtain w where w: "end_op s5 = Inr w" "log_ok w" "lh_n w = 0" "outstanding w = 0"
    "\<not> committing w" "lock_set w = {}" "\<forall>b. data_block s5 b \<longrightarrow> disk w b = view s5 b \<and> view w b = view s5 b"
    "\<forall>b<DISK1_START_BLOCK. disk w (b + DISK1_START_BLOCK) = disk w b" "log_start w = log_start s5"
    "log_size w = log_size s5" "log_state.more w = log_state.more s5" by blast
  note M = fs_more [OF w(11)]
  have fw: "ftable w f = (ftable s f)\<lparr>foff := foff (ftable s f) + of_int n\<rparr>"
    using sys_more [OF M(3)] by (simp add: s5_def s4_def upd_file_def ft)
  have iw: "icache w p = (icache t p)\<lparr>ilocked := False\<rparr>" by (simp add: M s5_def S4)
  have v7: "\<forall>b. data_block s5 b \<longrightarrow> view w b = view s5 b" using w(7) by blast
  note CS = committed_state [OF v7 M(2,1) w(9,10) o5(7,8)]
  have sz: "unat (isize (icache w p)) = max (unat (isize (icache s p))) (off + nat n)" by (simp add: iw t(9))
  have "ready w f"
    using rd w CS o5(6,9) ic W(4) S1(7) fw iw sz by (simp add: ready_def Let_def idle_def p_def [symmetric] s2_def off_def word_le_nat_alt)
  moreover have s5: "fbyte s5 p a = fbyte t p a" "fblk s5 p k = fblk t p k" "nfree s5 = nfree t" for a k
    by (simp_all add: s5_def S4 nfree_def)
  moreover have "synced s5 p" using t(7) by (simp add: s5_def synced_def S4 load_dinode_locked)
  moreover have "written s p off (nat n) data addr w"
  proof -
    have "fbyte s2 p a = fbyte s p a" "fblk s2 p k = fblk s p k" for a k by (simp_all add: s2_def S1)
    then show ?thesis using t(8) CS(5,6) s5 by (simp add: written_def)
  qed
  moreover have "synced w p" "nfree s \<le> nfree w + 2 * card (hole_set s p off (nat n))" using CS(4,7) o5(9) s5 t(10) calculation by simp_all
  ultimately show ?thesis using pw w(1) fw W(4) sz by (auto simp: off_def p_def)
qed

section \<open>All transactions of a write\<close>

lemma nblk_range: "0 < m \<Longrightarrow> k < off div BSIZE + nblk off m \<longleftrightarrow> k \<le> (off + m - 1) div BSIZE"
proof -
  assume m: "0 < m"
  then have "off div BSIZE \<le> (off + m - 1) div BSIZE" by (intro div_le_mono) linarith
  then show ?thesis using m by (simp add: nblk_def) linarith
qed

lemma in_write_range:
  assumes "off div BSIZE \<le> k" and "k < off div BSIZE + nblk off m"
  shows "\<exists>a. off \<le> a \<and> a < off + m \<and> a div BSIZE = k"
proof (cases "m = 0")
  case False
  then have k: "k \<le> (off + m - 1) div BSIZE" using assms(2) nblk_range [of m] by simp
  show ?thesis
  proof (cases "k = off div BSIZE")
    case True
    then show ?thesis using False by (intro exI [of _ off]) simp
  next
    case neq: False
    then have "off div BSIZE < k" using assms(1) by simp
    then have "off < k * BSIZE" by (simp add: div_less_iff_less_mult)
    moreover have "k * BSIZE \<le> off + m - 1" using k by (simp add: less_eq_div_iff_mult_less_eq)
    ultimately show ?thesis using False by (intro exI [of _ "k * BSIZE"]) simp
  qed
qed (use assms in \<open>simp add: nblk_def\<close>)

lemma written_trans:
  assumes a: "written s p off m data src t" and b: "written t p (off + m) l data (src + m) w"
    and max: "off + m + l \<le> MAXFILE * BSIZE"
  shows "written s p off (m + l) data src w"
  unfolding written_def
proof (intro conjI allI impI)
  fix x assume x: "x < MAXFILE * BSIZE"
  show "fbyte w p x = (if off \<le> x \<and> x < off + (m + l) then data (src + (x - off)) else fbyte s p x)"
    using a b x by (cases "off + m \<le> x") (auto simp: written_def)
next
  fix x assume x: "off \<le> x \<and> x < off + (m + l)"
  then have "x div BSIZE < MAXFILE" using max by (simp add: less_mult_imp_div_less)
  then show "fblk w p (x div BSIZE) \<noteq> 0" using a b x by (cases "off + m \<le> x") (auto simp: written_def)
qed (use a b in \<open>auto simp: written_def\<close>)

lemma hole_mono: "hole_set s p off m \<subseteq> hole_set s p off (m + l)"
proof (cases "m = 0")
  case False
  have "(off + m - 1) div BSIZE \<le> (off + (m + l) - 1) div BSIZE" by (rule div_le_mono) simp
  then have "nblk off m \<le> nblk off (m + l)" using False by (simp add: nblk_def diff_le_mono)
  then show ?thesis by (auto simp: hole_set_def)
qed (auto simp: hole_set_def nblk_def)

lemma finite_hole_set [simp]: "finite (hole_set s p off n)"
  by (simp add: hole_set_def)

lemma hole_split:
  assumes a: "written s p off m data src t" and max: "off + m + l \<le> MAXFILE * BSIZE"
  shows "card (hole_set t p (off + m) l) + card (hole_set s p off m) \<le> card (hole_set s p off (m + l))"
proof -
  have sub2: "hole_set t p (off + m) l \<subseteq> hole_set s p off (m + l) - hole_set s p off m"
  proof
    fix k assume k: "k \<in> hole_set t p (off + m) l"
    then have l: "0 < l" by (auto simp: hole_set_def nblk_def split: if_splits)
    have r: "(off + m) div BSIZE \<le> k" "k \<le> (off + m + l - 1) div BSIZE" "fblk t p k = 0"
      using k nblk_range [OF l, of k "off + m"] by (simp_all add: hole_set_def)
    have kM: "k < MAXFILE" using r(2) max l by (meson Suc_diff_1 add_pos_pos le_less_trans less_mult_imp_div_less less_le_trans diff_less zero_less_one trans_less_add2)
    have "fblk s p k = 0" using a r(3) kM by (auto simp: written_def)
    moreover have "off div BSIZE \<le> k" using r(1) div_le_mono [of off "off + m" BSIZE] by simp
    moreover have "k < off div BSIZE + nblk off (m + l)" using r(2) l nblk_range [of "m + l" k off] by (simp add: add.assoc)
    moreover have "\<not> k < off div BSIZE + nblk off m"
    proof
      assume "k < off div BSIZE + nblk off m"
      then obtain x where "off \<le> x" "x < off + m" "x div BSIZE = k" using in_write_range calculation(2) by blast
      then show False using a r(3) by (auto simp: written_def)
    qed
    ultimately show "k \<in> hole_set s p off (m + l) - hole_set s p off m" by (simp add: hole_set_def)
  qed
  have "card (hole_set t p (off + m) l) \<le> card (hole_set s p off (m + l) - hole_set s p off m)"
    by (rule card_mono [OF _ sub2]) simp
  also have "\<dots> = card (hole_set s p off (m + l)) - card (hole_set s p off m)"
    by (rule card_Diff_subset [OF finite_hole_set hole_mono])
  finally show ?thesis using card_mono [OF finite_hole_set hole_mono, of s p off m l] by simp
qed

lemma filewrite_loop_spec:
  fixes s :: "'a sys_state_scheme" and f :: nat
  assumes "ready s f" and "fip (ftable s f) = p" and "unat (foff (ftable s f)) = off" and "0 \<le> i" and "i \<le> n"
    and "off + nat (n - i) \<le> MAXFILE * BSIZE" and "2 * card (hole_set s p off (nat (n - i))) \<le> nfree s"
    and "copies_in ci data (addr + nat i) (nat (n - i))" and "synced s p"
  shows "\<exists>t. filewrite_loop ci f addr n i s = Inr (n, t) \<and> ready t f \<and> fip (ftable t f) = p \<and>
    unat (foff (ftable t f)) = off + nat (n - i) \<and> synced t p \<and> written s p off (nat (n - i)) data (addr + nat i) t \<and>
    unat (isize (icache t p)) = max (unat (isize (icache s p))) (off + nat (n - i))"
  using assms
proof (induction "nat (n - i)" arbitrary: i off s rule: less_induct)
  case less
  show ?case
  proof (cases "i < n")
    case False
    moreover have "off \<le> unat (isize (icache s p))"
      using less.prems(1-3) by (simp add: ready_def Let_def word_le_nat_alt)
    ultimately show ?thesis
      using less.prems by (intro exI [of _ s]) (auto simp: filewrite_loop.simps [of ci f addr n n s] written_def)
  next
    case True
    define n1 where "n1 = min (n - i) WRITE_MAX"
    have n1: "0 < n1" "n1 \<le> WRITE_MAX" "n1 \<le> n - i" using True WRITE_MAX_pos by (simp_all add: n1_def)
    define l where "l = nat (n - (i + n1))"
    have nl: "nat (n - i) = nat n1 + l" "nat (i + n1) = nat i + nat n1" using n1 less.prems(4) by (simp_all add: l_def)
    have off: "foff (ftable s f) = foff (ftable s f)" "off + nat n1 \<le> MAXFILE * BSIZE" using less.prems(6) nl by simp_all
    have c1: "copies_in ci data (addr + nat i) (nat n1)" "copies_in ci data (addr + nat (i + n1)) l"
      using less.prems(8) nl by (auto simp: copies_in_def)
    have c2: "2 * card (hole_set s p off (nat n1)) \<le> nfree s"
      using card_mono [OF finite_hole_set hole_mono, of s p off "nat n1" l] less.prems(7) nl(1) by simp
    from filewrite_part_spec [OF less.prems(1) n1(1,2), of ci data "addr + nat i"] c1(1) c2 off(2) less.prems(2,3)
    obtain t where t: "filewrite_part ci f (addr + nat i) n1 s = Inr (n1, t)" "ready t f" "unat (foff (ftable t f)) = off + nat n1"
      "fip (ftable t f) = p" "unat (isize (icache t p)) = max (unat (isize (icache s p))) (off + nat n1)" "synced t p"
      "written s p off (nat n1) data (addr + nat i) t" "nfree s \<le> nfree t + 2 * card (hole_set s p off (nat n1))" by auto
    have max: "off + nat n1 + l \<le> MAXFILE * BSIZE" using less.prems(6) nl by simp
    have "2 * card (hole_set t p (off + nat n1) l) \<le> nfree t"
      using hole_split [OF t(7) max] less.prems(7) t(8) nl by simp
    then obtain w where w: "filewrite_loop ci f addr n (i + n1) t = Inr (n, w)" "ready w f" "fip (ftable w f) = p"
      "unat (foff (ftable w f)) = off + nat n1 + l" "synced w p" "written t p (off + nat n1) l data (addr + nat (i + n1)) w"
      "unat (isize (icache w p)) = max (unat (isize (icache t p))) (off + nat n1 + l)"
      using less.hyps [OF _ t(2,4,3), of "i + n1"] n1 less.prems(4,5) max c1(2) t(6) l_def by auto
    have "written s p off (nat (n - i)) data (addr + nat i) w"
      unfolding nl(1) by (rule written_trans [OF t(7) _ max]) (use w(6) nl(2) in \<open>simp add: add.assoc\<close>)
    moreover have "filewrite_loop ci f addr n i s = filewrite_loop ci f addr n (i + n1) t"
      using True t(1) n1(1) by (simp add: filewrite_loop.simps [of ci f addr n i s] n1_def [symmetric])
    moreover have "unat (isize (icache w p)) = max (unat (isize (icache s p))) (off + nat (n - i))"
      unfolding w(7) t(5) nl(1) by linarith
    ultimately show ?thesis using w(2-5) nl w(1) by (simp add: add.assoc)
  qed
qed

text \<open>C2: A write of any length to a regular file, in a system where nothing else runs, returns the
  number of bytes asked for, and when it does the bytes are on both disks at the file's offset, the
  inode on both disks is the one in memory, and every other byte of the file is stored unchanged.
  The transactions \<open>filewrite\<close> splits it into never overflow the log.\<close>

theorem filewrite_durable:
  fixes s :: "'a sys_state_scheme" and f :: nat
  defines "p \<equiv> fip (ftable s f)" and "off \<equiv> unat (foff (ftable s f))"
  assumes r: "ready s f" "synced s p" and f: "fwritable (ftable s f)" "ftyp (ftable s f) = FD_INODE"
    and n: "0 \<le> n" and max: "off + nat n \<le> MAXFILE * BSIZE"
    and room: "2 * card (hole_set s p off (nat n)) \<le> nfree s" and ci: "copies_in ci data addr (nat n)"
  shows "\<exists>t. filewrite ci dev f addr n s mem = Inr (Ret n, t, mem) \<and> ready t f \<and>
    unat (foff (ftable t f)) = off + nat n \<and>
    unat (isize (icache t p)) = max (unat (isize (icache s p))) (off + nat n) \<and>
    (\<forall>d<2. stored_inode t d p = icache t p \<and> (\<forall>i<nat n. stored_byte t d p (off + i) = data (addr + i)) \<and>
      (\<forall>a<MAXFILE * BSIZE. fblk s p (a div BSIZE) \<noteq> 0 \<and> (a < off \<or> off + nat n \<le> a) \<longrightarrow>
        stored_byte t d p a = stored_byte s d p a))"
proof -
  obtain t where t: "filewrite_loop ci f addr n 0 s = Inr (n, t)" "ready t f" "fip (ftable t f) = p"
    "unat (foff (ftable t f)) = off + nat n" "synced t p" "written s p off (nat n) data addr t"
    "unat (isize (icache t p)) = max (unat (isize (icache s p))) (off + nat n)"
    using filewrite_loop_spec [OF r(1) refl refl order_refl n, of ci data addr] max room ci r(2)
    by (auto simp: p_def off_def)
  have ft: "idle t" "file_ok t p" "inode_ok t p" using t(2,3) by (simp_all add: ready_def Let_def)
  have fs: "idle s" "file_ok s p" using r(1) by (simp_all add: ready_def p_def Let_def)
  have eq: "filewrite ci dev f addr n s mem = Inr (Ret n, t, mem)" using f t(1) by (simp add: filewrite_def Let_def)
  have "stored_byte t d p (off + i) = data (addr + i)" if "d < 2" "i < nat n" for d i
    using idle_stored(1) [OF ft(1,2) that(1), of "off + i"] t(6) that(2) max by (simp add: written_def)
  moreover have "stored_byte t d p a = stored_byte s d p a"
    if "d < 2" "a < MAXFILE * BSIZE" "fblk s p (a div BSIZE) \<noteq> 0" "a < off \<or> off + nat n \<le> a" for d a
  proof -
    have "fblk t p (a div BSIZE) \<noteq> 0" "fbyte t p a = fbyte s p a"
      using t(6) that(2,3,4) by (auto simp: written_def less_mult_imp_div_less)
    then show ?thesis using idle_stored(1) [OF ft(1,2) that(1,2)] idle_stored(1) [OF fs that(1-3)] by simp
  qed
  moreover have "stored_inode t d p = icache t p" if "d < 2" for d by (rule idle_stored(2) [OF ft(1,2) that ft(3) t(5)])
  ultimately show ?thesis using eq t(2,4,7) by auto
qed

section \<open>A small file system\<close>

text \<open>A freshly booted system for the witnesses: the free map is block 45, blocks 0 to 63 are in use,
  inode 5 is an empty file with all permissions, cached as entry 3 and open for reading and
  writing as file 2, descriptor 0. Both disks are the same.\<close>

definition demo_inode :: inode where
  "demo_inode = zero_inode\<lparr>idev := ROOTDEV, inum := 5, iref := 1, ivalid := True, itype := T_FILE, inlink := 1, imode := M_ALL\<rparr>"

definition demo_disk :: "nat \<Rightarrow> block" where
  "demo_disk b =
     (if b mod DISK1_START_BLOCK = 45 then \<lambda>k. if k < 8 then 255 else 0
      else if b mod DISK1_START_BLOCK = 32 then store_dinode (dip_off 5) demo_inode (\<lambda>_. 0)
      else (\<lambda>_. 0))"

definition demo_sb :: superblock where
  "demo_sb = \<lparr>magic = FSMAGIC, sb_size = 2000, nblocks = 1954, ninodes = 200, nlog = 30, logstart = 2, inodestart = 32,
     bmapstart = 45\<rparr>"

definition demo_file :: open_file where
  "demo_file = \<lparr>ftyp = FD_INODE, fref = 1, freadable = True, fwritable = True, fpipe = 0, fip = 3, foff = 0, fmajor = 0\<rparr>"

definition demo_sys :: sys_state where
  "demo_sys = \<lparr>bufs = (\<lambda>_. zero_buf), lru = rev [0..<NBUF], disk = demo_disk,
     force_read_error_pbn = -1, force_disk_fail_id = -1, history = [], log_start = 2, log_size = 30,
     outstanding = 0, committing = False, log_dev = ROOTDEV, lh_n = 0, lh_block = (\<lambda>_. 0),
     sb = demo_sb, icache = (\<lambda>_. zero_inode)(3 := demo_inode), cwd = 3, pathmem = (\<lambda>_. 0),
     ftable = (\<lambda>_. demo_file\<lparr>ftyp := FD_NONE, fref := 0\<rparr>)(2 := demo_file), pipes = (\<lambda>_. pipe_init (\<lambda>_. 0)), pages = [4096],
     ofile = (\<lambda>_. 0)(0 := 2), killed = False\<rparr>"

lemma boot_idle:
  fixes s :: "'a log_state_scheme"
  assumes s: "s = (boot_with d m)\<lparr>outstanding := 0\<rparr>" and h: "hdr_n (d 2) = 0"
    and mirror: "\<forall>b<DISK1_START_BLOCK. d (b + DISK1_START_BLOCK) = d b"
  shows "idle s" and "view s = d"
proof -
  have "log_ok s" using boot_log_ok [where d = d and m = m, OF h] by (simp add: s)
  moreover have "lock_set s = {}" using boot_cold [of d m] by (simp add: s cold_def)
  ultimately show "idle s" using mirror by (simp add: idle_def) (simp add: s boot_with_def)
  show "view s = d" using boot_view [of d m] by (simp add: s)
qed

lemma demo_boot: "demo_sys = (boot_with demo_disk (log_state.more demo_sys))\<lparr>outstanding := 0\<rparr>"
  by (simp add: demo_sys_def boot_with_def)

lemma demo_idle: "idle demo_sys" "view demo_sys = demo_disk"
proof -
  have "hdr_n (demo_disk 2) = 0"
    by (simp add: hdr_n_def get32_def demo_disk_def DISK1_START_BLOCK_def FSSIZE_def)
  moreover have "\<forall>b<DISK1_START_BLOCK. demo_disk (b + DISK1_START_BLOCK) = demo_disk b" by (auto simp: demo_disk_def)
  ultimately show "idle demo_sys" "view demo_sys = demo_disk" using boot_idle [OF demo_boot] by blast+
qed

lemma demo_map: "in_use_bit (demo_disk 45) b \<longleftrightarrow> b < 64"
proof -
  have "bit (255 :: u8) n \<longleftrightarrow> n < 8" for n
  proof -
    have "(255 :: u8) = -1" by simp
    then show ?thesis by (simp only: bit_minus_1_iff possible_bit_word) simp
  qed
  from this [of "b mod 8"] have "in_use_bit (demo_disk 45) b \<longleftrightarrow> b div 8 < 8"
    by (simp add: in_use_bit_iff demo_disk_def DISK1_START_BLOCK_def FSSIZE_def)
  then show ?thesis by (simp add: div_less_iff_less_mult)
qed

lemma demo_free: "free_block demo_sys b \<longleftrightarrow> 64 \<le> b \<and> b < 2000"
proof (cases "b < 2000")
  case True
  then have "BBLOCK b demo_sys = 45" "b mod BPB = b"
    by (simp_all add: BBLOCK_def demo_sys_def demo_sb_def BPB_def BSIZE_def)
  then show ?thesis
    using demo_map [of b] True by (simp add: free_block_def demo_idle(2) not_less) (simp add: demo_sys_def demo_sb_def)
qed (simp add: free_block_def demo_sys_def demo_sb_def)

lemma demo_layout: "layout_ok demo_sys"
proof -
  have g: "sb_size (sb demo_sys) = 2000" "log_area demo_sys = {2..<32}"
    by (simp_all add: demo_sys_def demo_sb_def log_area_def)
  have m: "BBLOCK b demo_sys = 45" if "b < 2000" for b
    using that by (simp add: BBLOCK_def demo_sys_def demo_sb_def BPB_def BSIZE_def)
  show ?thesis by (auto simp: layout_ok_def g m demo_free data_block_def DISK1_START_BLOCK_def FSSIZE_def)
qed

lemma demo_inode_empty: "icache demo_sys 3 = demo_inode" "fblk demo_sys 3 k = 0" "ind demo_sys 3 = 0" "fset demo_sys 3 = {}"
proof -
  show i: "icache demo_sys 3 = demo_inode" by (simp add: demo_sys_def)
  show d: "ind demo_sys 3 = 0" by (simp add: ind_def i demo_inode_def zero_inode_def)
  show f: "fblk demo_sys 3 k = 0" for k by (simp add: fblk_def d i) (simp add: demo_inode_def zero_inode_def)
  show "fset demo_sys 3 = {}" by (auto simp: fset_def d f)
qed

lemma demo_inode_ok: "file_ok demo_sys 3" "inode_ok demo_sys 3" "synced demo_sys 3"
proof -
  note e = demo_inode_empty
  have ib: "iblk demo_sys 3 = 32"
    by (simp add: iblk_def IBLOCK_def e(1)) (simp add: demo_inode_def demo_sys_def demo_sb_def IPB_def BSIZE_def SIZEOF_DINODE_def)
  show "file_ok demo_sys 3" by (simp add: file_ok_def e) (simp add: demo_inode_def)
  show "inode_ok demo_sys 3"
    by (simp add: inode_ok_def ib e demo_free data_block_def log_area_def)
      (simp add: demo_sys_def demo_sb_def DISK1_START_BLOCK_def FSSIZE_def)
  have "demo_disk 32 = store_dinode (dip_off 5) demo_inode (\<lambda>_. 0)"
    by (simp add: demo_disk_def DISK1_START_BLOCK_def FSSIZE_def)
  then have "load_dinode (dip_off 5) (view demo_sys (iblk demo_sys 3)) demo_inode =
      demo_inode\<lparr>iaddrs := (\<lambda>i. if i < NDIRECT + 1 then iaddrs demo_inode i else iaddrs demo_inode i)\<rparr>"
    by (simp add: ib demo_idle(2) load_store_dinode)
  then show "synced demo_sys 3" by (simp add: synced_def e(1)) (simp add: demo_inode_def)
qed

lemma demo_ready: "ready demo_sys 2"
proof -
  have f: "ftable demo_sys 2 = demo_file" "log_size demo_sys = 30" by (simp_all add: demo_sys_def)
  show ?thesis
    using demo_idle(1) demo_layout demo_inode_ok
    by (simp add: ready_def f demo_inode_empty(1)) (simp add: demo_file_def demo_inode_empty(1) demo_inode_def zero_inode_def)
qed

lemma demo_nfree: "1936 \<le> nfree demo_sys"
proof -
  have "{b. free_block demo_sys b} = {64..<2000}" by (auto simp: demo_free)
  then show ?thesis by (simp add: nfree_def)
qed

text \<open>Any short write at the start of the file fits.\<close>

lemma demo_room: "n \<le> 3 * BSIZE \<Longrightarrow> 2 * card (hole_set demo_sys p 0 n) \<le> nfree demo_sys"
proof -
  assume "n \<le> 3 * BSIZE"
  then have "nblk 0 n \<le> 4" by (rule nblk_small)
  then have "hole_set demo_sys p 0 n \<subseteq> {..<4}" by (auto simp: hole_set_def)
  then have "card (hole_set demo_sys p 0 n) \<le> 4" using card_mono [of "{..<4 :: nat}"] by fastforce
  then show ?thesis using demo_nfree by simp
qed

theorem filewrite_durable_witness:
  "\<exists>t. filewrite (copy_in of_nat) (\<lambda>_ _ _ _. None) 2 10 5 demo_sys () = Inr (Ret 5, t, ()) \<and>
    (\<forall>d<2. \<forall>i<5. stored_byte t d 3 i = of_nat (10 + i)) \<and> unat (isize (icache t 3)) = 5"
proof -
  have f: "fip (ftable demo_sys 2) = 3" "unat (foff (ftable demo_sys 2)) = 0" "fwritable (ftable demo_sys 2)"
    "ftyp (ftable demo_sys 2) = FD_INODE" by (simp_all add: demo_sys_def demo_file_def)
  have z: "unat (isize (icache demo_sys 3)) = 0" by (simp add: demo_inode_empty demo_inode_def zero_inode_def)
  have "2 * card (hole_set demo_sys 3 0 (nat 5)) \<le> nfree demo_sys" by (rule demo_room) (simp add: BSIZE_def)
  moreover have "copies_in (copy_in of_nat) of_nat 10 (nat 5)" by (simp add: copies_in_def)
  moreover have "0 + nat 5 \<le> MAXFILE * BSIZE" by (simp add: MAXFILE_def NDIRECT_def NINDIRECT_def BSIZE_def)
  ultimately show ?thesis
    using filewrite_durable [OF demo_ready, of 5 "copy_in of_nat" of_nat 10 "\<lambda>_ _ _ _. None" "()", unfolded f(1,2) z] demo_inode_ok(3) f(3,4)
    by auto
qed

section \<open>Reading back what was written\<close>

text \<open>C3: What \<open>writei\<close> wrote, \<open>readi\<close> of the same range returns, wherever the range lies and however
  many blocks it spans, and the file still has no hole below its size.\<close>

theorem write_then_read:
  fixes s :: "'a fs_state_scheme" and co :: "'m copyout"
  assumes tx: "in_tx (2 * nblk (unat off) (unat n)) {bmapstart (sb s), iblk s p} s" and lay: "layout_ok s" and ls: "lock_set s = {}"
    and ok: "file_ok s p" "inode_ok s p" and m: "mapped s p (unat (isize (icache s p)))"
    and off: "off \<le> isize (icache s p)" and n: "0 < n" and max: "unat off + unat n \<le> MAXFILE * BSIZE"
    and room: "2 * card (hole_set s p (unat off) (unat n)) \<le> nfree s" and ci: "copies_in ci data src (unat n)" and co: "copier co"
  shows "\<exists>t. writei ci p src off n s = Inr (sint n, t) \<and> mapped t p (unat (isize (icache t p))) \<and>
    (\<exists>r u. readi co p dst off n t mem = Inr (r, u, fst (co dst (map data [src..<src + unat n]) mem)) \<and>
      (snd (co dst (map data [src..<src + unat n]) mem) \<longleftrightarrow> r = unat n))"
proof -
  obtain C t where t: "writei ci p src off n s = Inr (sint n, t)" "in_tx 0 C t" "layout_ok t" "write_frame p s t" "file_ok t p"
    "written s p (unat off) (unat n) data src t"
    "unat (isize (icache t p)) = max (unat (isize (icache s p))) (unat off + unat n)"
    using writei_spec [where k = 0, unfolded add_0_right, OF tx lay ls _ _ ok off n max room ci] by auto
  let ?sz = "unat (isize (icache t p))"
  have mt: "mapped t p ?sz"
    unfolding mapped_def
  proof (intro allI impI)
    fix a assume a: "a < ?sz"
    consider "a < unat (isize (icache s p))" | "unat off \<le> a" "a < unat off + unat n"
      using a off unfolding t(7) word_le_nat_alt by linarith
    then show "a div BSIZE < MAXFILE \<and> fblk t p (a div BSIZE) \<noteq> 0"
    proof cases
      case 1
      then show ?thesis using m t(6) by (simp add: mapped_def written_def)
    next
      case 2
      then show ?thesis using max t(6) by (simp add: written_def less_mult_imp_div_less)
    qed
  qed
  have "MAXFILE * BSIZE < 2 ^ 32" by (simp add: MAXFILE_def NDIRECT_def NINDIRECT_def BSIZE_def)
  then have av: "avail (isize (icache t p)) off n = unat n"
    using max t(7) off by (simp add: avail_def word_le_nat_alt)
  have "map (fbyte t p) [unat off..<unat off + unat n] = map data [src..<src + unat n]"
    by (rule nth_equalityI) (use t(6) max in \<open>auto simp: written_def\<close>)
  moreover have "lock_set t = {}" using t(4) by (simp add: write_frame_def)
  ultimately show ?thesis
    using t(1) mt readi_contents [OF co in_txD(1) [OF t(2)] t(3) _ t(5) mt, of dst off n mem] by (auto simp: av)
qed

theorem write_then_read_witness:
  "\<exists>(s :: sys_state) t r u. writei (copy_in of_nat) 3 10 0 5 s = Inr (5, t) \<and>
    readi copy_out 3 100 0 5 t (\<lambda>_. 0) = Inr (r, u, fst (copy_out 100 [10, 11, 12, 13, 14] (\<lambda>_. 0))) \<and> r = 5"
proof -
  define s where "s = upd_inode 3 (\<lambda>ip. ip\<lparr>ilocked := True\<rparr>) (demo_sys\<lparr>outstanding := 1\<rparr>)"
  have fip: "fip (ftable demo_sys 2) = 3" by (simp add: demo_sys_def demo_file_def)
  note b = filewrite_begin [OF demo_ready, unfolded fip, folded s_def]
  note S = same_fsD [OF b(3)]
  have pre: "sb s = sb demo_sys" "iblk s 3 = iblk demo_sys 3" "layout_ok s" "file_ok s 3" "inode_ok s 3" "isize (icache s 3) = 0"
    "lock_set s = {}" "2 * card (hole_set s 3 0 5) \<le> nfree s"
    using S demo_layout demo_inode_ok demo_idle(1) demo_room [of 5 3]
    by (simp_all add: s_def idle_def demo_inode_empty hole_set_def nfree_def BSIZE_def) (simp add: demo_inode_def zero_inode_def)
  have tx: "in_tx (2 * nblk (unat (0 :: u32)) (unat (5 :: u32))) {bmapstart (sb s), iblk s 3} s"
    using in_tx_mono [OF b(2), of 2] by (simp add: pre nblk_def BSIZE_def)
  have "mapped s 3 (unat (isize (icache s 3)))" by (simp add: pre mapped_def)
  note wr = write_then_read [OF tx pre(3,7,4,5) this, of "copy_in of_nat" of_nat 10 copy_out 100 "\<lambda>_. 0"]
  have "\<exists>t. writei (copy_in of_nat) 3 10 0 5 s = Inr (sint (5 :: u32), t) \<and> mapped t 3 (unat (isize (icache t 3))) \<and>
    (\<exists>r u. readi copy_out 3 100 0 5 t (\<lambda>_. 0) =
      Inr (r, u, fst (copy_out 100 (map of_nat [10..<10 + unat (5 :: u32)]) (\<lambda>_. 0))) \<and>
      (snd (copy_out 100 (map of_nat [10..<10 + unat (5 :: u32)]) (\<lambda>_. 0)) \<longleftrightarrow> r = unat (5 :: u32)))"
    by (rule wr) (use pre(6,8) kernel_copy.copier_axioms in \<open>simp_all add: copies_in_def MAXFILE_def NDIRECT_def NINDIRECT_def BSIZE_def\<close>)
  moreover have "map of_nat [10..<10 + unat (5 :: u32)] = [10, 11, 12, 13, 14 :: u8]" by (simp add: upt_rec)
  moreover have "snd (copy_out 100 xs m)" for xs m by (simp add: copy_out_def)
  ultimately show ?thesis by auto
qed

end
