(* ===== verification/InodeLife.thy ===== *)
theory InodeLife
  imports FileOps
begin

text \<open>
  The life of an inode (mp4/kernel/fs.c): the cache entry \<open>iget\<close> finds or takes, the release of
  all blocks by \<open>itrunc\<close>, and the allocation and release of single blocks.
\<close>

section \<open>Giving blocks back\<close>

text \<open>Blocks \<open>D\<close> are given back, and only the addresses of inode \<open>p\<close> may change besides.\<close>

definition gave_back :: "nat \<Rightarrow> nat set \<Rightarrow> 'a fs_state_scheme \<Rightarrow> 'a fs_state_scheme \<Rightarrow> bool" where
  "gave_back p D s t \<longleftrightarrow> disk t = disk s \<and> sb t = sb s \<and> log_start t = log_start s \<and> log_size t = log_size s \<and>
     outstanding t = outstanding s \<and> committing t = committing s \<and> fs_state.more t = fs_state.more s \<and>
     homes s \<subseteq> homes t \<and> lock_set t = lock_set s \<and> (\<forall>i \<in> lock_set s. bufs t i = bufs s i) \<and> layout_ok t \<and>
     (\<forall>c. free_block t c \<longleftrightarrow> free_block s c \<or> c \<in> D) \<and> (\<forall>c. c \<noteq> bmapstart (sb s) \<longrightarrow> view t c = view s c) \<and>
     (\<exists>f. icache t = (icache s)(p := (icache s p)\<lparr>iaddrs := f\<rparr>))"

lemma gave_backD:
  assumes "gave_back p D s t"
  shows "sb t = sb s" "lock_set t = lock_set s" "layout_ok t" "free_block t c \<longleftrightarrow> free_block s c \<or> c \<in> D"
    "c \<noteq> bmapstart (sb s) \<Longrightarrow> view t c = view s c" "data_block t c = data_block s c" "i \<in> lock_set s \<Longrightarrow> bufs t i = bufs s i"
    "idev (icache t q) = idev (icache s q)" "inum (icache t q) = inum (icache s q)" "iblk t q = iblk s q"
    "owned s c \<Longrightarrow> c \<notin> D \<Longrightarrow> owned t c" "disk t = disk s" "q \<noteq> p \<Longrightarrow> icache t q = icache s q"
proof -
  obtain f where ic: "icache t = (icache s)(p := (icache s p)\<lparr>iaddrs := f\<rparr>)" using assms by (auto simp: gave_back_def)
  show "idev (icache t q) = idev (icache s q)" "inum (icache t q) = inum (icache s q)" "q \<noteq> p \<Longrightarrow> icache t q = icache s q"
    by (simp_all add: ic)
  then show "iblk t q = iblk s q" using assms by (simp add: iblk_def IBLOCK_def gave_back_def)
  show d: "data_block t c = data_block s c" for c using assms by (simp add: data_block_def log_area_def gave_back_def)
  show "owned s c \<Longrightarrow> c \<notin> D \<Longrightarrow> owned t c" using assms by (simp add: owned_def d gave_back_def)
qed (use assms in \<open>auto simp: gave_back_def\<close>)

lemma gave_back_refl: "layout_ok s \<Longrightarrow> gave_back p {} s s"
  by (auto simp: gave_back_def intro!: exI [of _ "iaddrs (icache s p)"])

lemma gave_back_trans: "gave_back p D s t \<Longrightarrow> gave_back p E t u \<Longrightarrow> gave_back p (D \<union> E) s u"
  unfolding gave_back_def by (elim conjE exE, intro conjI) auto

lemma bfree_owned:
  assumes tx: "in_tx n B s" and lay: "layout_ok s" and b: "owned s b" and B: "bmapstart (sb s) \<in> B"
    and u: "unheld s (bmapstart (sb s))" and few: "card (lock_set s) \<le> 1"
  shows "\<exists>t. bfree ROOTDEV b s = Inr t \<and> in_tx n B t \<and> gave_back p {b} s t \<and> icache t = icache s"
proof -
  have lt: "b < sb_size (sb s)" and d: "b \<noteq> 0" "data_block s b" "\<not> free_block s b" "b \<noteq> bmapstart (sb s)"
    using b by (simp_all add: owned_def)
  note m = bmap_block [OF lay]
  obtain t where t: "bfree ROOTDEV b s = Inr t" "in_tx n B t" "tx_frame s t"
    "view t = (view s)(BBLOCK b s := clear_use (b mod BPB) (view s (BBLOCK b s)))"
    using bfree_spec [OF tx lay lt B u few] d(3) by auto
  have "BBLOCK c s \<noteq> b" if "c < sb_size (sb s)" for c using m [OF that] d(4) by simp
  note f = free_after_clear [OF lay t(3) lt d(1,2) this t(4)]
  note g = tx_frame_fs [OF t(3)] and D = tx_frameD [OF t(3)]
  have "view t c = view s c" if "c \<noteq> bmapstart (sb s)" for c using that m [OF lt] by (simp add: t(4))
  moreover have "\<exists>f. icache t = (icache s)(p := (icache s p)\<lparr>iaddrs := f\<rparr>)"
    using g(2) by (intro exI [of _ "iaddrs (icache s p)"]) simp
  ultimately have "gave_back p {b} s t"
    using f g D t(3) by (auto simp: gave_back_def tx_frame_def tx_step_def)
  then show ?thesis using t(1,2) g(2) by blast
qed

text \<open>The direct blocks.\<close>

lemma itrunc_direct_spec:
  assumes tx: "in_tx n B s" and lay: "layout_ok s" and ok: "file_ok s p" and B: "bmapstart (sb s) \<in> B" and ls: "lock_set s = {}"
    and i: "i \<le> NDIRECT"
  shows "\<exists>t. for_res (itrunc_direct p) [0..<i] s = Inr t \<and> in_tx n B t \<and> gave_back p ((fblk s p ` {..<i}) - {0}) s t \<and>
    iaddrs (icache t p) = (\<lambda>k. if k < i then 0 else iaddrs (icache s p) k)"
  using i
proof (induction i)
  case 0
  then show ?case using tx gave_back_refl [OF lay] by simp
next
  case (Suc i)
  then obtain t where t: "for_res (itrunc_direct p) [0..<i] s = Inr t" "in_tx n B t"
    "gave_back p ((fblk s p ` {..<i}) - {0}) s t" "iaddrs (icache t p) = (\<lambda>k. if k < i then 0 else iaddrs (icache s p) k)" by auto
  note G = gave_backD [OF t(3)]
  have k: "i < NDIRECT" "i < MAXFILE" "fblk s p i = unat (iaddrs (icache s p) i)"
    using Suc.prems by (simp_all add: fblk_def MAXFILE_def)
  have im: "fblk s p ` {..<Suc i} = insert (fblk s p i) (fblk s p ` {..<i})" by (simp add: lessThan_Suc)
  show ?case
  proof (cases "iaddrs (icache s p) i = 0")
    case True
    then have "itrunc_direct p i t = Inr t" using t(4) by (simp add: itrunc_direct_def)
    moreover have "(\<lambda>k. if k < i then 0 else iaddrs (icache s p) k) = (\<lambda>k. if k < Suc i then 0 else iaddrs (icache s p) k)"
      using True by (simp add: fun_eq_iff less_Suc_eq)
    moreover have "fblk s p ` {..<Suc i} - {0} = fblk s p ` {..<i} - {0}" using True k(3) by (simp add: im)
    ultimately show ?thesis using t by (simp add: for_res_append)
  next
    case False
    then have nz: "fblk s p i \<noteq> 0" using k(3) by (simp add: unsigned_eq_0_iff)
    have "fblk s p i \<notin> fblk s p ` {..<i} - {0}"
    proof
      assume "fblk s p i \<in> fblk s p ` {..<i} - {0}"
      then obtain l where "l < i" "fblk s p i = fblk s p l" by blast
      then show False using file_okD(5) [OF ok k(2), of l] nz k(2) by simp
    qed
    then have ow: "owned t (fblk s p i)" using G(11) file_okD(3) [OF ok k(2) nz] by blast
    have "unheld t (bmapstart (sb t))" "card (lock_set t) \<le> 1" using G(2) ls by (simp_all add: unheld_def)
    then obtain u where u: "bfree ROOTDEV (fblk s p i) t = Inr u" "in_tx n B u" "gave_back p {fblk s p i} t u" "icache u = icache t"
      using bfree_owned [OF t(2) G(3) ow] B G(1) by metis
    let ?v = "upd_inode p (\<lambda>ip. ip\<lparr>iaddrs := (iaddrs ip)(i := 0)\<rparr>) u"
    have "gave_back p {} u ?v" using gave_backD(3) [OF u(3)] by (auto simp: gave_back_def)
    from gave_back_trans [OF gave_back_trans [OF t(3) u(3)] this]
    have "gave_back p (fblk s p ` {..<Suc i} - {0}) s ?v" using nz by (simp add: im insert_Diff_if Un_commute)
    moreover have "itrunc_direct p i t = Inr ?v"
      using False t(4) u(1) k(3) G(8) file_okD(1) [OF ok] by (simp add: itrunc_direct_def)
    moreover have "iaddrs (icache ?v p) = (\<lambda>k. if k < Suc i then 0 else iaddrs (icache s p) k)"
      using t(4) by (simp add: u(4) fun_eq_iff less_Suc_eq)
    ultimately show ?thesis using t(1) u(2) by (simp add: for_res_append)
  qed
qed

text \<open>The blocks of the indirect block, which stays held in buffer \<open>bp\<close>.\<close>

lemma itrunc_indirect_spec:
  fixes s :: "'a fs_state_scheme" and bp :: nat
  defines "e \<equiv> \<lambda>j. unat (get32 (bdata (bufs s bp)) (j * 4))"
  assumes tx: "in_tx n B s" and lay: "layout_ok s" and B: "bmapstart (sb s) \<in> B" and ls: "lock_set s = {bp}"
    and m: "blockno (bufs s bp) \<noteq> bmapstart (sb s)" and dev: "idev (icache s p) = ROOTDEV"
    and ow: "\<And>j. j < NINDIRECT \<Longrightarrow> e j \<noteq> 0 \<Longrightarrow> owned s (e j)"
    and inj: "\<And>j l. j < NINDIRECT \<Longrightarrow> l < NINDIRECT \<Longrightarrow> e j = e l \<Longrightarrow> e j \<noteq> 0 \<Longrightarrow> j = l"
    and i: "i \<le> NINDIRECT"
  shows "\<exists>t. for_res (itrunc_indirect p bp) [0..<i] s = Inr t \<and> in_tx n B t \<and> gave_back p ((e ` {..<i}) - {0}) s t \<and>
    icache t = icache s"
  using i
proof (induction i)
  case 0
  then show ?case using tx gave_back_refl [OF lay] by simp
next
  case (Suc i)
  then obtain t where t: "for_res (itrunc_indirect p bp) [0..<i] s = Inr t" "in_tx n B t"
    "gave_back p ((e ` {..<i}) - {0}) s t" "icache t = icache s" by auto
  note G = gave_backD [OF t(3)]
  have im: "e ` {..<Suc i} = insert (e i) (e ` {..<i})" by (simp add: lessThan_Suc)
  have bp: "bufs t bp = bufs s bp" using G(7) ls by simp
  show ?case
  proof (cases "get32 (bdata (bufs s bp)) (i * 4) = 0")
    case True
    then have "e i = 0" by (simp add: e_def)
    then have "e ` {..<Suc i} - {0} = e ` {..<i} - {0}" by (simp add: im)
    moreover have "itrunc_indirect p bp i t = Inr t" using True by (simp add: itrunc_indirect_def bp)
    ultimately show ?thesis using t by (simp add: for_res_append)
  next
    case False
    then have nz: "e i \<noteq> 0" by (simp add: e_def unsigned_eq_0_iff)
    have k: "i < NINDIRECT" using Suc.prems by simp
    have "e i \<notin> e ` {..<i} - {0}"
    proof
      assume "e i \<in> e ` {..<i} - {0}"
      then obtain l where "l < i" "e i = e l" by blast
      then show False using inj [OF k, of l] nz k by simp
    qed
    then have ow: "owned t (e i)" using G(11) ow [OF k nz] by blast
    have "unheld t (bmapstart (sb t))" "card (lock_set t) \<le> 1" using G(1,2) ls m bp by (simp_all add: unheld_def)
    then obtain u where u: "bfree ROOTDEV (e i) t = Inr u" "in_tx n B u" "gave_back p {e i} t u" "icache u = icache t"
      using bfree_owned [OF t(2) G(3) ow] B G(1) by metis
    have "itrunc_indirect p bp i t = Inr u"
      using False u(1) dev by (simp add: itrunc_indirect_def bp t(4) e_def)
    moreover have "gave_back p (e ` {..<Suc i} - {0}) s u"
      using gave_back_trans [OF t(3) u(3)] nz by (simp add: im insert_Diff_if Un_commute)
    ultimately show ?thesis using t(1,4) u(2,4) by (simp add: for_res_append)
  qed
qed

lemma taken_gave_back:
  assumes g: "taken s b i t" and lay: "layout_ok s" and ls: "lock_set s = {}"
  shows "layout_ok t" and "free_block t c = free_block s c" and "owned t c = owned s c"
proof -
  note f = taken_fs [OF g] and v = takenD(5) [OF g]
  show fr: "free_block t c = free_block s c" for c by (simp add: free_block_def f v)
  show "layout_ok t" using lay by (simp add: layout_ok_def f fr)
  show "owned t c = owned s c" by (simp add: owned_def f fr)
qed

text \<open>Releasing buffer \<open>i\<close>, the only one held.\<close>

lemma release_gave_back:
  assumes tx: "in_tx n B s" and h: "held s i b" and ls: "lock_set s = {i}" and lay: "layout_ok s"
    and clean: "b \<in> homes s \<or> view s b = disk s b"
  shows "\<exists>t. brelse i s = Inr t \<and> in_tx n B t \<and> lock_set t = {} \<and> layout_ok t \<and> view t = view s \<and> tx_step {} s t \<and>
    (\<forall>c. free_block t c = free_block s c) \<and> (\<forall>c. owned t c = owned s c)"
proof -
  obtain t where t: "brelse i s = Inr t" "in_tx n B t" "view t = view s" "tx_step {} s t"
    using hold_release [OF tx h clean] ls by auto
  note f = tx_step_fs [OF t(4)]
  have fr: "free_block t c = free_block s c" for c by (simp add: free_block_def f t(3))
  have "layout_ok t" using lay by (simp add: layout_ok_def f fr)
  moreover have "owned t c = owned s c" for c by (simp add: owned_def f fr)
  ultimately show ?thesis using t fr tx_stepD(2) [OF t(4)] by blast
qed

lemma gave_back_held:
  assumes g: "taken s b i t" and l: "gave_back p D t u" and r: "tx_step {} u v" "view v = view u" "layout_ok v"
    "\<forall>c. free_block v c = free_block u c" and ls: "lock_set s = {}" and lay: "layout_ok s"
  shows "gave_back p D s v"
proof -
  note f = taken_fs [OF g] and T = takenD [OF g] and E = tx_stepD [OF takenD(4) [OF g]] and F = tx_step_fs [OF r(1)] and R = tx_stepD [OF r(1)]
  obtain h where h: "icache u = (icache t)(p := (icache t p)\<lparr>iaddrs := h\<rparr>)" using l by (auto simp: gave_back_def)
  have "committing v = committing s" using T(4) l r(1) by (simp add: tx_step_def gave_back_def)
  moreover have "\<exists>f. icache v = (icache s)(p := (icache s p)\<lparr>iaddrs := f\<rparr>)" using h F(2) f(2) by auto
  moreover have "homes s \<subseteq> homes v" using T(7) l R(7) by (auto simp: gave_back_def)
  moreover have "\<forall>c. free_block v c \<longleftrightarrow> free_block s c \<or> c \<in> D"
    using l r(4) taken_gave_back(2) [OF g lay ls] by (simp add: gave_back_def)
  ultimately show ?thesis using l r(2,3) E F R f T ls by (simp add: gave_back_def)
qed

lemma itrunc_tail_spec:
  fixes s :: "'a fs_state_scheme"
  assumes tx: "in_tx n B s" and lay: "layout_ok s" and B: "bmapstart (sb s) \<in> B" and ls: "lock_set s = {}" and dev: "idev (icache s p) = ROOTDEV"
    and nz: "ind s p \<noteq> 0" and oi: "owned s (ind s p)"
    and ow: "\<And>k. NDIRECT \<le> k \<Longrightarrow> k < MAXFILE \<Longrightarrow> fblk s p k \<noteq> 0 \<Longrightarrow> owned s (fblk s p k) \<and> fblk s p k \<noteq> ind s p"
    and inj: "\<And>k l. NDIRECT \<le> k \<Longrightarrow> k < MAXFILE \<Longrightarrow> NDIRECT \<le> l \<Longrightarrow> l < MAXFILE \<Longrightarrow> fblk s p k = fblk s p l \<Longrightarrow> fblk s p k \<noteq> 0 \<Longrightarrow> k = l"
  shows "\<exists>bp t1 t2 t3 t4. bread ROOTDEV (ind s p) s = Inr (bp, t1) \<and> for_res (itrunc_indirect p bp) [0..<NINDIRECT] t1 = Inr t2 \<and>
    brelse bp t2 = Inr t3 \<and> bfree ROOTDEV (ind s p) t3 = Inr t4 \<and> icache t3 = icache s \<and> icache t4 = icache s \<and> in_tx n B t4 \<and>
    gave_back p (insert (ind s p) ((fblk s p ` {NDIRECT..<MAXFILE}) - {0})) s t4"
proof -
  have lt: "ind s p < DISK1_START_BLOCK" "ind s p \<noteq> bmapstart (sb s)" using oi by (simp_all add: owned_def data_block_def)
  have "unheld s (ind s p)" "card (lock_set s) \<le> 1" using ls by (simp_all add: unheld_def)
  from tx_read [OF tx lt(1) this] obtain bp t1 where r: "bread ROOTDEV (ind s p) s = Inr (bp, t1)" "taken s (ind s p) bp t1"
    "in_tx n B t1" "bdata (bufs t1 bp) = view s (ind s p)" by blast
  note T = takenD [OF r(2)] and f = taken_fs [OF r(2)] and K = taken_gave_back [OF r(2) lay ls]
  let ?e = "\<lambda>j. unat (get32 (bdata (bufs t1 bp)) (j * 4))"
  have e: "?e j = fblk s p (NDIRECT + j)" for j using nz by (simp add: fblk_def r(4))
  have lt1: "lock_set t1 = {bp}" using T(3) ls by simp
  have bm: "blockno (bufs t1 bp) \<noteq> bmapstart (sb t1)" "bmapstart (sb t1) \<in> B" "idev (icache t1 p) = ROOTDEV"
    using lt(2) heldD(5) [OF T(1)] B dev by (simp_all add: f)
  have jM: "NDIRECT \<le> NDIRECT + j" "NDIRECT + j < MAXFILE" if "j < NINDIRECT" for j using that by (simp_all add: MAXFILE_def)
  have "owned t1 (?e j)" if "j < NINDIRECT" "?e j \<noteq> 0" for j using ow [OF jM [OF that(1)]] that e by (simp add: K(3))
  moreover have "j = l" if "j < NINDIRECT" "l < NINDIRECT" "?e j = ?e l" "?e j \<noteq> 0" for j l
    using inj [OF jM [OF that(1)] jM [OF that(2)]] that(3,4) by (simp add: e)
  ultimately obtain t2 where t2: "for_res (itrunc_indirect p bp) [0..<NINDIRECT] t1 = Inr t2" "in_tx n B t2"
    "gave_back p ((?e ` {..<NINDIRECT}) - {0}) t1 t2" "icache t2 = icache t1"
    using itrunc_indirect_spec [OF r(3) K(1) bm(2) lt1 bm(1,3)] by blast
  note G = gave_backD [OF t2(3)]
  have im: "?e ` {..<NINDIRECT} = fblk s p ` {NDIRECT..<MAXFILE}"
  proof -
    have "{NDIRECT..<MAXFILE} = (\<lambda>j. NDIRECT + j) ` {..<NINDIRECT}"
      using image_add_atLeastLessThan [of NDIRECT 0 NINDIRECT] by (simp add: MAXFILE_def lessThan_atLeast0 add.commute)
    then show ?thesis by (simp add: e image_image)
  qed
  have h2: "held t2 bp (ind s p)" using T(1) G(7) [of bp] lt1 by (simp add: held_def)
  have "homes s \<subseteq> homes t2" using T(7) t2(3) by (simp add: gave_back_def)
  then have clean: "ind s p \<in> homes t2 \<or> view t2 (ind s p) = disk t2 (ind s p)"
    using T(5,6) G(5) [of "ind s p"] G(12) lt(2) f(1) tx_stepD(1) [OF T(4)] by auto
  have l2: "lock_set t2 = {bp}" using G(2) lt1 by simp
  from release_gave_back [OF t2(2) h2 l2 G(3) clean] obtain t3 where t3: "brelse bp t2 = Inr t3" "in_tx n B t3" "lock_set t3 = {}"
    "layout_ok t3" "view t3 = view t2" "tx_step {} t2 t3" "\<forall>c. free_block t3 c = free_block t2 c" "\<forall>c. owned t3 c = owned t2 c" by blast
  have g3: "gave_back p ((fblk s p ` {NDIRECT..<MAXFILE}) - {0}) s t3"
    using gave_back_held [OF r(2) t2(3) t3(6,5,4,7) ls lay] by (simp add: im)
  have "ind s p \<notin> fblk s p ` {NDIRECT..<MAXFILE} - {0}" using ow by fastforce
  then have o3: "owned t3 (ind s p)" using gave_backD(11) [OF g3 oi] by blast
  have "bmapstart (sb t3) \<in> B" "unheld t3 (bmapstart (sb t3))" "card (lock_set t3) \<le> 1"
    using gave_backD(1) [OF g3] B t3(3) by (simp_all add: unheld_def)
  then obtain t4 where t4: "bfree ROOTDEV (ind s p) t3 = Inr t4" "in_tx n B t4" "gave_back p {ind s p} t3 t4" "icache t4 = icache t3"
    using bfree_owned [OF t3(2,4) o3] by blast
  have "icache t3 = icache s" using tx_step_fs(2) [OF t3(6)] t2(4) f(2) by simp
  then show ?thesis using r(1) t2(1) t3(1) t4(1,2,4) gave_back_trans [OF g3 t4(3)] by auto
qed

text \<open>Both parts together.\<close>

lemma itrunc_blocks_spec:
  fixes s :: "'a fs_state_scheme"
  assumes tx: "in_tx n B s" and lay: "layout_ok s" and ok: "file_ok s p" and B: "bmapstart (sb s) \<in> B" and ls: "lock_set s = {}"
  shows "\<exists>t. itrunc_blocks p s = Inr t \<and> in_tx n B t \<and> gave_back p (fset s p) s t \<and> (\<forall>k\<le>NDIRECT. iaddrs (icache t p) k = 0)"
proof -
  note F = file_okD [OF ok]
  obtain t where t: "for_res (itrunc_direct p) [0..<NDIRECT] s = Inr t" "in_tx n B t" "gave_back p ((fblk s p ` {..<NDIRECT}) - {0}) s t"
    "iaddrs (icache t p) = (\<lambda>k. if k < NDIRECT then 0 else iaddrs (icache s p) k)"
    using itrunc_direct_spec [OF tx lay ok B ls order_refl] by blast
  note G = gave_backD [OF t(3)]
  have it: "ind t p = ind s p" "iaddrs (icache t p) NDIRECT = 0 \<longleftrightarrow> ind s p = 0" by (simp_all add: ind_def t(4) unsigned_eq_0_iff)
  have ND: "NDIRECT < MAXFILE" by (simp add: MAXFILE_def NDIRECT_def NINDIRECT_def BSIZE_def)
  have all: "{..<MAXFILE} = {..<NDIRECT} \<union> {NDIRECT..<MAXFILE}" using ND by auto
  show ?thesis
  proof (cases "ind s p = 0")
    case True
    then have "fset s p = fblk s p ` {..<NDIRECT} - {0}" unfolding fset_def all by (auto simp: fblk_def)
    then show ?thesis using t True it by (auto simp: itrunc_blocks_def le_less)
  next
    case False
    have oi: "owned s (ind s p)" by (rule F(2) [OF False])
    have "ind s p \<notin> fblk s p ` {..<NDIRECT} - {0}"
    proof
      assume "ind s p \<in> fblk s p ` {..<NDIRECT} - {0}"
      then obtain k where "k < NDIRECT" "ind s p = fblk s p k" by blast
      then show False using F(4) [of k] False ND by simp
    qed
    then have o2: "owned t (ind t p)" using G(11) [OF oi] by (simp add: it)
    have vi: "view t (ind s p) = view s (ind s p)" using G(5) oi by (simp add: owned_def)
    have fb: "fblk t p k = fblk s p k" if "NDIRECT \<le> k" for k using that by (simp add: fblk_def it vi)
    have ow: "owned t (fblk t p k) \<and> fblk t p k \<noteq> ind t p" if k: "NDIRECT \<le> k" "k < MAXFILE" "fblk t p k \<noteq> 0" for k
    proof -
      have nz: "fblk s p k \<noteq> 0" using k fb by simp
      have "fblk s p k \<notin> fblk s p ` {..<NDIRECT} - {0}"
      proof
        assume "fblk s p k \<in> fblk s p ` {..<NDIRECT} - {0}"
        then obtain l where "l < NDIRECT" "fblk s p k = fblk s p l" by blast
        then show False using F(5) [OF k(2), of l] nz k(1) ND by simp
      qed
      then show ?thesis using G(11) F(3) [OF k(2) nz] F(4) [OF k(2) nz] fb [OF k(1)] it by simp
    qed
    have inj: "k = l" if "NDIRECT \<le> k" "k < MAXFILE" "NDIRECT \<le> l" "l < MAXFILE" "fblk t p k = fblk t p l" "fblk t p k \<noteq> 0" for k l
      using F(5) [OF that(2,4)] that fb by simp
    have pre: "bmapstart (sb t) \<in> B" "lock_set t = {}" "idev (icache t p) = ROOTDEV" "ind t p \<noteq> 0"
      using G(1,2,8) B ls F(1) False it by simp_all
    obtain bp t1 t2 t3 t4 where u: "bread ROOTDEV (ind t p) t = Inr (bp, t1)" "for_res (itrunc_indirect p bp) [0..<NINDIRECT] t1 = Inr t2"
      "brelse bp t2 = Inr t3" "bfree ROOTDEV (ind t p) t3 = Inr t4" "icache t3 = icache t" "icache t4 = icache t" "in_tx n B t4"
      "gave_back p (insert (ind t p) ((fblk t p ` {NDIRECT..<MAXFILE}) - {0})) t t4"
      using itrunc_tail_spec [OF t(2) G(3) pre(1-4) o2 ow inj] by blast
    let ?u = "upd_inode p (\<lambda>ip. ip\<lparr>iaddrs := (iaddrs ip)(NDIRECT := 0)\<rparr>) t4"
    have "gave_back p {} t4 ?u" using gave_backD(3) [OF u(8)] by (auto simp: gave_back_def)
    from gave_back_trans [OF gave_back_trans [OF t(3) u(8)] this]
    have "gave_back p (fblk s p ` {..<NDIRECT} - {0} \<union> insert (ind t p) (fblk t p ` {NDIRECT..<MAXFILE} - {0}) \<union> {}) s ?u" .
    moreover have "fblk s p ` {..<NDIRECT} - {0} \<union> insert (ind t p) (fblk t p ` {NDIRECT..<MAXFILE} - {0}) \<union> {} = fset s p"
    proof -
      have "fblk t p ` {NDIRECT..<MAXFILE} = fblk s p ` {NDIRECT..<MAXFILE}" by (rule image_cong) (simp_all add: fb)
      then show ?thesis unfolding fset_def all image_Un using False it by auto
    qed
    moreover have "itrunc_blocks p s = Inr ?u"
      using t(1) u(1-6) pre(3) False it by (simp add: itrunc_blocks_def ind_def)
    moreover have "iaddrs (icache ?u p) k = 0" if "k \<le> NDIRECT" for k using that t(4) u(6) by simp
    ultimately show ?thesis using u(7) by auto
  qed
qed

text \<open>\<open>itrunc\<close>: the file's blocks become free, nothing else does, and the file is empty, in memory and
  on disk.\<close>

lemma itrunc_spec:
  fixes s :: "'a fs_state_scheme"
  assumes tx: "in_tx n B s" and lay: "layout_ok s" and ok: "file_ok s p" and io: "inode_ok s p"
    and B: "bmapstart (sb s) \<in> B" "iblk s p \<in> B" and ls: "lock_set s = {}"
  shows "\<exists>t. itrunc p s = Inr t \<and> in_tx n B t \<and> layout_ok t \<and> lock_set t = {} \<and> synced t p \<and> file_ok t p \<and> inode_ok t p \<and>
    (\<forall>c. free_block t c \<longleftrightarrow> free_block s c \<or> c \<in> fset s p) \<and> isize (icache t p) = 0 \<and> (\<forall>k. fblk t p k = 0) \<and> iblk t p = iblk s p \<and> sb t = sb s \<and>
    (\<exists>f. icache t p = (icache s p)\<lparr>iaddrs := f, isize := 0\<rparr>) \<and>
    (\<forall>q. q \<noteq> p \<longrightarrow> icache t q = icache s q) \<and> (\<forall>c. c \<noteq> bmapstart (sb s) \<and> c \<noteq> iblk s p \<longrightarrow> view t c = view s c)"
proof -
  obtain t where t: "itrunc_blocks p s = Inr t" "in_tx n B t" "gave_back p (fset s p) s t" "\<forall>k\<le>NDIRECT. iaddrs (icache t p) k = 0"
    using itrunc_blocks_spec [OF tx lay ok B(1) ls] by blast
  note G = gave_backD [OF t(3)]
  let ?u = "upd_inode p (\<lambda>ip. ip\<lparr>isize := 0\<rparr>) t"
  have eq: "itrunc p s = iupdate p ?u"
    using t(1) by (simp add: itrunc_def)
  have z: "ind ?u p = 0" "fblk ?u p k = 0" for k
  proof -
    have i: "ind t p = 0" using t(4) by (simp add: ind_def)
    then show "ind ?u p = 0" by simp
    show "fblk ?u p k = 0" using t(4) i by (simp add: fblk_def)
  qed
  have fu: "file_ok ?u p" "fset ?u p = {}" using G(8) file_okD(1) [OF ok] z by (auto simp: file_ok_def fset_def)
  have "iblk s p \<notin> fset s p" using io by (simp add: inode_ok_def)
  then have iu: "inode_ok ?u p" using io G(1,4,6,10) fu(2) by (simp add: inode_ok_def)
  have "in_tx n B ?u" "layout_ok ?u" "iblk ?u p \<in> B" "lock_set ?u = {}" using t(2) G(2,3,10) B ls by simp_all
  from iupdate_file [OF this(1,2) fu(1) iu this(3,4)] obtain v where v: "iupdate p ?u = Inr v" "in_tx n B v" "tx_frame ?u v" "layout_ok v"
    "synced v p" "file_ok v p" "inode_ok v p" "\<forall>k. fblk v p k = fblk ?u p k" "\<forall>c. free_block v c = free_block ?u c" "\<forall>c. c \<noteq> iblk ?u p \<longrightarrow> view v c = view ?u c"
    by auto
  note f = tx_frame_fs [OF v(3)]
  obtain h where h: "icache t p = (icache s p)\<lparr>iaddrs := h\<rparr>" using t(3) by (auto simp: gave_back_def)
  show ?thesis
  proof (intro exI [of _ v] conjI)
    show "itrunc p s = Inr v" using eq v(1) by simp
    show "\<forall>c. c \<noteq> bmapstart (sb s) \<and> c \<noteq> iblk s p \<longrightarrow> view v c = view s c" using v(10) G(5,10) by simp
    show "\<forall>k. fblk v p k = 0" using v(8) z by simp
    show "\<forall>c. free_block v c \<longleftrightarrow> free_block s c \<or> c \<in> fset s p" using v(9) G(4) by simp
    show "\<exists>f. icache v p = (icache s p)\<lparr>iaddrs := f, isize := 0\<rparr>" using h by (auto simp: f)
    show "iblk v p = iblk s p" using G(10) by (simp add: iblk_def IBLOCK_def f G)
    show "lock_set v = {}" using tx_frameD(2) [OF v(3)] G(2) ls by simp
  qed (use v G f in simp_all)
qed

section \<open>Allocating and freeing a block\<close>

text \<open>C5: \<open>balloc\<close> returns a block that was free, zeroed; \<open>bfree\<close> of it restores the free map, and a
  second \<open>bfree\<close> is caught. When nothing is free, \<open>balloc\<close> panics.\<close>

theorem balloc_bfree:
  fixes s :: "'a fs_state_scheme"
  assumes tx: "in_tx (Suc n) B s" and lay: "layout_ok s" and B: "bmapstart (sb s) \<in> B" and ls: "lock_set s = {}"
  shows "if \<exists>b. free_block s b
    then \<exists>b t u. balloc ROOTDEV s = Inr (b, t) \<and> free_block s b \<and> \<not> free_block t b \<and> view t b = (\<lambda>_. 0) \<and>
      (\<forall>c. owned s c \<longrightarrow> view t c = view s c) \<and> bfree ROOTDEV b t = Inr u \<and> (\<forall>c. free_block u c = free_block s c) \<and>
      bfree ROOTDEV b u = Inl (Panic ''freeing free block'')
    else balloc ROOTDEV s = Inl (Panic ''balloc: out of blocks'')"
proof (cases "\<exists>b. free_block s b")
  case True
  have uh: "unheld t b" if "lock_set t = {}" for t :: "'a fs_state_scheme" and b using that by (simp add: unheld_def)
  obtain b t where t: "balloc ROOTDEV s = Inr (b, t)" "took b s t" "in_tx n (insert b B) t"
    using balloc_took [OF tx lay B uh [OF ls] uh [OF ls] _ True] ls by auto
  note T = tookD [OF t(2) lay]
  have lt: "layout_ok t" "lock_set t = {}" "bmapstart (sb t) \<in> insert b B"
    using t(2) T(7) B ls tx_frameD(2) by (auto simp: took_def tx_frame_def tx_step_def)
  have few: "card (lock_set t) \<le> 1" using lt(2) by simp
  obtain u where u: "bfree ROOTDEV b t = Inr u" "in_tx n (insert b B) u" "gave_back 0 {b} t u"
    using bfree_owned [OF t(3) lt(1) T(1) lt(3) uh [OF lt(2)] few] by blast
  note G = gave_backD [OF u(3)]
  have fb: "free_block s b" "\<not> free_block t b" "free_block u c = free_block s c" for c
    using t(2) G(4) by (auto simp: took_def)
  have lu: "lock_set u = {}" "b < sb_size (sb u)" "bmapstart (sb u) \<in> insert b B"
    using G(1,2) lt fb(1) T(7) by (simp_all add: free_block_def)
  have "bfree ROOTDEV b u = Inl (Panic ''freeing free block'')"
    using bfree_spec [OF u(2) G(3) lu(2,3) uh [OF lu(1)]] lu(1) fb(1,3) by simp
  moreover have "view t c = view s c" if "owned s c" for c
    using T(5) [of c] T(3) that by (auto simp: owned_def)
  ultimately show ?thesis using True t(1) T(6) fb u(1) by auto
next
  case False
  have uh: "unheld s b" for b using ls by (simp add: unheld_def)
  from balloc_spec [OF tx lay B uh uh] ls False show ?thesis by auto
qed

text \<open>The demonstration system inside a transaction.\<close>

definition demo_tx :: sys_state where
  "demo_tx = upd_inode 3 (\<lambda>ip. ip\<lparr>ilocked := True\<rparr>) (demo_sys\<lparr>outstanding := 1\<rparr>)"

lemma demo_tx_ok:
  shows "in_tx 8 {45, iblk demo_tx 3} demo_tx" and "layout_ok demo_tx" and "lock_set demo_tx = {}"
    and "free_block demo_tx b = free_block demo_sys b" and "bmapstart (sb demo_tx) = 45" and "file_ok demo_tx 3" and "inode_ok demo_tx 3"
    and "fset demo_tx 3 = {}"
proof -
  have fip: "fip (ftable demo_sys 2) = 3" "bmapstart (sb demo_sys) = 45" by (simp_all add: demo_sys_def demo_file_def demo_sb_def)
  note b = filewrite_begin [OF demo_ready, unfolded fip, folded demo_tx_def]
  note S = same_fsD [OF b(3)]
  show "layout_ok demo_tx" "lock_set demo_tx = {}" "free_block demo_tx b = free_block demo_sys b"
    "bmapstart (sb demo_tx) = 45" "file_ok demo_tx 3" "inode_ok demo_tx 3" "fset demo_tx 3 = {}"
    using S demo_layout demo_inode_ok demo_idle(1) demo_inode_empty fip by (simp_all add: demo_tx_def idle_def)
  have "iblk demo_tx 3 = iblk demo_sys 3" using S by (simp add: demo_tx_def)
  then show "in_tx 8 {45, iblk demo_tx 3} demo_tx" using b(2) by simp
qed

theorem balloc_bfree_witness:
  "\<exists>b t u. balloc ROOTDEV demo_tx = Inr (b, t) \<and> 64 \<le> b \<and> b < 2000 \<and> view t b = (\<lambda>_. 0) \<and> bfree ROOTDEV b t = Inr u \<and>
    bfree ROOTDEV b u = Inl (Panic ''freeing free block'')"
proof -
  have "in_tx (Suc 7) {45, iblk demo_tx 3} demo_tx" using demo_tx_ok(1) by simp
  note bb = balloc_bfree [OF this demo_tx_ok(2) _ demo_tx_ok(3)]
  have "\<exists>b. free_block demo_tx b" by (intro exI [of _ 64]) (simp add: demo_tx_ok(4) demo_free)
  then show ?thesis using bb by (auto simp: demo_tx_ok(4,5) demo_free)
qed

section \<open>The inode cache\<close>

text \<open>No inode is cached twice.\<close>

definition icache_unique :: "'a fs_state_scheme \<Rightarrow> bool" where
  "icache_unique s \<longleftrightarrow> (\<forall>i<NINODE. \<forall>j<NINODE. 0 < iref (icache s (Suc i)) \<and> 0 < iref (icache s (Suc j)) \<and>
     idev (icache s (Suc i)) = idev (icache s (Suc j)) \<and> inum (icache s (Suc i)) = inum (icache s (Suc j)) \<longrightarrow> i = j)"

definition cached_inode :: "'a fs_state_scheme \<Rightarrow> nat \<Rightarrow> nat \<Rightarrow> nat \<Rightarrow> bool" where
  "cached_inode s dev n i \<longleftrightarrow> i < NINODE \<and> 0 < iref (icache s (Suc i)) \<and> idev (icache s (Suc i)) = dev \<and> inum (icache s (Suc i)) = n"

text \<open>C6: \<open>iget\<close> never caches an inode twice: it returns the entry of the inode with one more reference,
  or takes an unreferenced entry and makes it the entry of the inode, to be read from disk; all other
  entries stay. It panics exactly when the inode is not cached and every entry is referenced.\<close>

theorem iget_unique:
  fixes s :: "'a fs_state_scheme"
  assumes u: "icache_unique s" and nn: "\<forall>i<NINODE. 0 \<le> iref (icache s (Suc i))"
  shows "if (\<forall>i. \<not> cached_inode s dev n i) \<and> (\<forall>i<NINODE. 0 < iref (icache s (Suc i)))
    then iget dev n s = Inl (Panic ''iget: no inodes'')
    else \<exists>i t. iget dev n s = Inr (Suc i, t) \<and> cached_inode t dev n i \<and> icache_unique t \<and>
      (\<forall>j. j \<noteq> Suc i \<longrightarrow> icache t j = icache s j) \<and>
      (if cached_inode s dev n i then iref (icache t (Suc i)) = iref (icache s (Suc i)) + 1 \<and> ivalid (icache t (Suc i)) = ivalid (icache s (Suc i))
       else (\<forall>j. \<not> cached_inode s dev n j) \<and> iref (icache s (Suc i)) = 0 \<and> iref (icache t (Suc i)) = 1 \<and> \<not> ivalid (icache t (Suc i)))"
proof (cases "\<exists>i. cached_inode s dev n i")
  case True
  let ?P = "\<lambda>i. iref (icache s (Suc i)) > 0 \<and> idev (icache s (Suc i)) = dev \<and> inum (icache s (Suc i)) = n"
  obtain i where i: "List.find ?P [0..<NINODE] = Some i"
    using True by (cases "List.find ?P [0..<NINODE]") (auto simp: find_upt_None cached_inode_def)
  then have c: "cached_inode s dev n i" by (auto simp: find_upt_Some cached_inode_def)
  let ?t = "upd_inode (Suc i) (\<lambda>ip. ip\<lparr>iref := iref ip + 1\<rparr>) s"
  have eq: "iget dev n s = Inr (Suc i, ?t)" by (simp add: iget_def i)
  have "icache_unique ?t"
    unfolding icache_unique_def
  proof (intro allI impI)
    fix j k assume j: "j < NINODE" and k: "k < NINODE"
      and a: "0 < iref (icache ?t (Suc j)) \<and> 0 < iref (icache ?t (Suc k)) \<and>
        idev (icache ?t (Suc j)) = idev (icache ?t (Suc k)) \<and> inum (icache ?t (Suc j)) = inum (icache ?t (Suc k))"
    have "0 < iref (icache s (Suc l))" "idev (icache s (Suc l)) = idev (icache ?t (Suc l))" "inum (icache s (Suc l)) = inum (icache ?t (Suc l))"
      if "0 < iref (icache ?t (Suc l))" for l
      using that c by (cases "l = i", simp_all add: cached_inode_def)
    from this [of j] this [of k] show "j = k" using a by (intro u [unfolded icache_unique_def, rule_format, OF j k]) simp
  qed
  then have "icache_unique ?t \<and> cached_inode ?t dev n i" using c by (simp add: cached_inode_def)
  moreover have ex: "\<not> ((\<forall>i. \<not> cached_inode s dev n i) \<and> (\<forall>i<NINODE. 0 < iref (icache s (Suc i))))" using True by blast
  ultimately show ?thesis
    unfolding if_not_P [OF ex] by (intro exI [of _ i] exI [of _ ?t]) (simp add: eq c)
next
  case False
  let ?P = "\<lambda>i. iref (icache s (Suc i)) > 0 \<and> idev (icache s (Suc i)) = dev \<and> inum (icache s (Suc i)) = n"
  have none: "List.find ?P [0..<NINODE] = None" using False by (auto simp: find_upt_None cached_inode_def)
  show ?thesis
  proof (cases "List.find (\<lambda>i. iref (icache s (Suc i)) = 0) [0..<NINODE]")
    case None
    then have "\<forall>i<NINODE. 0 < iref (icache s (Suc i))" using nn by (fastforce simp: find_upt_None)
    moreover have "iget dev n s = Inl (Panic ''iget: no inodes'')" by (simp add: iget_def none None)
    ultimately show ?thesis using False by simp
  next
    case (Some i)
    then have i: "i < NINODE" "iref (icache s (Suc i)) = 0" by (auto simp: find_upt_Some)
    let ?t = "upd_inode (Suc i) (\<lambda>ip. ip\<lparr>idev := dev, inum := n, iref := 1, ivalid := False\<rparr>) s"
    have eq: "iget dev n s = Inr (Suc i, ?t)" by (simp add: iget_def none Some)
    have "icache_unique ?t"
      unfolding icache_unique_def
    proof (intro allI impI)
      fix j k assume j: "j < NINODE" and k: "k < NINODE"
        and a: "0 < iref (icache ?t (Suc j)) \<and> 0 < iref (icache ?t (Suc k)) \<and>
          idev (icache ?t (Suc j)) = idev (icache ?t (Suc k)) \<and> inum (icache ?t (Suc j)) = inum (icache ?t (Suc k))"
      have no: "\<not> (l \<noteq> i \<and> l < NINODE \<and> 0 < iref (icache s (Suc l)) \<and> idev (icache s (Suc l)) = dev \<and> inum (icache s (Suc l)) = n)" for l
        using False by (auto simp: cached_inode_def)
      show "j = k"
      proof (cases "j = i \<or> k = i")
        case True
        then show ?thesis using a j k no [of j] no [of k] by (auto split: if_splits)
      next
        case False
        then have "icache ?t (Suc j) = icache s (Suc j)" "icache ?t (Suc k) = icache s (Suc k)" by simp_all
        then show ?thesis using a by (intro u [unfolded icache_unique_def, rule_format, OF j k]) simp
      qed
    qed
    then have "icache_unique ?t \<and> cached_inode ?t dev n i" using i(1) by (simp add: cached_inode_def)
    moreover have ex: "\<not> ((\<forall>i. \<not> cached_inode s dev n i) \<and> (\<forall>i<NINODE. 0 < iref (icache s (Suc i))))" using i by auto
    moreover have "\<not> cached_inode s dev n j" for j using False by blast
    ultimately show ?thesis
      unfolding if_not_P [OF ex] by (intro exI [of _ i] exI [of _ ?t]) (simp add: eq i)
  qed
qed

theorem iget_unique_witness:
  "(\<exists>t. iget ROOTDEV 5 demo_sys = Inr (3, t) \<and> iref (icache t 3) = 2) \<and>
   (\<exists>i t. iget ROOTDEV 7 demo_sys = Inr (Suc i, t) \<and> iref (icache t (Suc i)) = 1 \<and> \<not> ivalid (icache t (Suc i)))"
proof -
  have ic: "icache demo_sys = (\<lambda>_. zero_inode)(3 := demo_inode)" by (simp add: demo_sys_def)
  have r: "iref (icache demo_sys p) = (if p = 3 then 1 else 0)" "inum (icache demo_sys 3) = 5" for p
    by (simp_all add: ic demo_inode_def zero_inode_def)
  have u: "icache_unique demo_sys" "\<forall>i<NINODE. 0 \<le> iref (icache demo_sys (Suc i))" by (simp_all add: icache_unique_def r)
  have c: "cached_inode demo_sys ROOTDEV n i \<longleftrightarrow> i = 2 \<and> n = 5" for n i
    by (cases "i = 2") (auto simp: cached_inode_def r NINODE_def, simp add: ic demo_inode_def)
  have nf: "\<not> (\<forall>i<NINODE. 0 < iref (icache demo_sys (Suc i)))" by (auto simp: r NINODE_def intro!: exI [of _ 0])
  have "\<exists>t. iget ROOTDEV 5 demo_sys = Inr (3, t) \<and> iref (icache t 3) = 2"
    using iget_unique [OF u, of ROOTDEV 5] nf by (auto simp: c r numeral_3_eq_3 split: if_splits)
  moreover have "\<exists>i t. iget ROOTDEV 7 demo_sys = Inr (Suc i, t) \<and> iref (icache t (Suc i)) = 1 \<and> \<not> ivalid (icache t (Suc i))"
    using iget_unique [OF u, of ROOTDEV 7] nf by (auto simp: c)
  ultimately show ?thesis by blast
qed

section \<open>Dropping the last reference\<close>

lemmas upd_itype [simp] = upd_meta [of "itype_update x" for x, simplified]

lemma get16_load: "get16 d off = itype (load_dinode off d ip)"
  by (simp add: load_dinode_def)

text \<open>C4: When the last reference to an inode without links is dropped, all blocks of the file become
  free and no others, the inode is free on disk (type 0, so \<open>ialloc\<close> can hand it out again) and its
  cache entry is free. With other references or links left, only the count goes down.\<close>

theorem iput_last_frees:
  fixes s :: "'a fs_state_scheme"
  assumes tx: "in_tx n B s" and lay: "layout_ok s" and ok: "file_ok s p" and io: "inode_ok s p"
    and B: "bmapstart (sb s) \<in> B" "iblk s p \<in> B" and ls: "lock_set s = {}" and nl: "\<not> ilocked (icache s p)"
  shows "\<exists>t. iput p s = Inr t \<and>
    (if iref (icache s p) = 1 \<and> ivalid (icache s p) \<and> inlink (icache s p) = 0
     then (\<forall>c. free_block t c \<longleftrightarrow> free_block s c \<or> c \<in> fset s p) \<and>
       get16 (view t (iblk s p)) (dip_off (inum (icache s p))) = 0 \<and> iref (icache t p) = 0 \<and> \<not> ivalid (icache t p) \<and>
       \<not> ilocked (icache t p) \<and> (\<forall>q. q \<noteq> p \<longrightarrow> icache t q = icache s q) \<and>
       (\<forall>c. c \<noteq> bmapstart (sb s) \<and> c \<noteq> iblk s p \<longrightarrow> view t c = view s c)
     else t = upd_inode p (\<lambda>ip. ip\<lparr>iref := iref ip - 1\<rparr>) s)"
proof (cases "iref (icache s p) = 1 \<and> ivalid (icache s p) \<and> inlink (icache s p) = 0")
  case False
  then show ?thesis unfolding if_not_P [OF False] by (simp only: iput_def if_not_P [OF False]) simp
next
  case True
  let ?s = "upd_inode p (\<lambda>ip. ip\<lparr>ilocked := True\<rparr>) s"
  have "in_tx n B ?s" "layout_ok ?s" "file_ok ?s p" "inode_ok ?s p" "bmapstart (sb ?s) \<in> B" "iblk ?s p \<in> B" "lock_set ?s = {}"
    using assms by simp_all
  from itrunc_spec [OF this] obtain t f where t: "itrunc p ?s = Inr t" "in_tx n B t" "layout_ok t" "lock_set t = {}" "file_ok t p" "inode_ok t p"
    "\<forall>c. free_block t c \<longleftrightarrow> free_block s c \<or> c \<in> fset s p" "iblk t p = iblk s p" "sb t = sb s"
    "icache t p = (icache s p)\<lparr>ilocked := True, iaddrs := f, isize := 0\<rparr>" "\<forall>q. q \<noteq> p \<longrightarrow> icache t q = icache s q"
    "\<forall>c. c \<noteq> bmapstart (sb s) \<and> c \<noteq> iblk s p \<longrightarrow> view t c = view s c" by auto
  let ?u = "upd_inode p (\<lambda>ip. ip\<lparr>itype := 0\<rparr>) t"
  have "in_tx n B ?u" "layout_ok ?u" "file_ok ?u p" "inode_ok ?u p" "iblk ?u p \<in> B" "lock_set ?u = {}"
    using t B by simp_all
  from iupdate_file [OF this] obtain v where v: "iupdate p ?u = Inr v" "tx_frame ?u v" "synced v p"
    "\<forall>c. free_block v c = free_block t c" "\<forall>c. c \<noteq> iblk t p \<longrightarrow> view v c = view t c" by auto
  note g = tx_frame_fs [OF v(2)]
  have iv: "icache v p = (icache t p)\<lparr>itype := 0\<rparr>" "iblk v p = iblk s p" by (simp_all add: g iblk_def IBLOCK_def) (simp add: t iblk_def IBLOCK_def)
  have z: "get16 (view v (iblk s p)) (dip_off (inum (icache s p))) = 0"
    using v(3) iv t(10) get16_load [of "view v (iblk s p)" _ "icache v p"] by (simp add: synced_def)
  let ?w = "upd_inode p (\<lambda>ip. ip\<lparr>ivalid := False, ilocked := False\<rparr>) v"
  let ?x = "upd_inode p (\<lambda>ip. ip\<lparr>iref := iref ip - 1\<rparr>) ?w"
  have eq: "iput p s = Inr ?x" using True nl t(1) v(1) by (simp add: iput_def)
  have "\<forall>q. q \<noteq> p \<longrightarrow> icache ?x q = icache s q" using t(11) by (simp add: g)
  moreover have "iref (icache ?x p) = 0" using True by (simp add: iv t(10))
  moreover have "\<forall>c. c \<noteq> bmapstart (sb s) \<and> c \<noteq> iblk s p \<longrightarrow> view ?x c = view s c" using v(5) t(8,12) by simp
  ultimately show ?thesis using True eq z v(4) t(7) by simp
qed

theorem iput_last_frees_witness:
  "\<exists>s t. s = upd_inode 3 (\<lambda>ip. ip\<lparr>inlink := 0, ilocked := False\<rparr>) demo_tx \<and> iput 3 s = Inr t \<and>
    get16 (view t (iblk s 3)) (dip_off 5) = 0 \<and> iref (icache t 3) = 0"
proof -
  let ?s = "upd_inode 3 (\<lambda>ip. ip\<lparr>inlink := 0, ilocked := False\<rparr>) demo_tx"
  have m: "file_ok ?s 3 = file_ok demo_tx 3" "inode_ok ?s 3 = inode_ok demo_tx 3" "iblk ?s 3 = iblk demo_tx 3"
    by (simp_all add: upd_meta)
  have ic: "icache demo_tx 3 = demo_inode\<lparr>ilocked := True\<rparr>" by (simp add: demo_tx_def demo_sys_def)
  have "in_tx 8 {45, iblk demo_tx 3} ?s" "layout_ok ?s" "file_ok ?s 3" "inode_ok ?s 3" "bmapstart (sb ?s) \<in> {45, iblk demo_tx 3}"
    "iblk ?s 3 \<in> {45, iblk demo_tx 3}" "lock_set ?s = {}" "\<not> ilocked (icache ?s 3)"
    using demo_tx_ok m by simp_all
  note ip = iput_last_frees [OF this]
  have "iref (icache ?s 3) = 1" "ivalid (icache ?s 3)" "inlink (icache ?s 3) = 0" "inum (icache ?s 3) = 5"
    by (simp_all add: ic demo_inode_def)
  with ip show ?thesis by (simp only: simp_thms if_True) blast
qed

end
