(* ===== verification/DirOps.thy ===== *)
theory DirOps
  imports InodeLife
begin

text \<open>
  Directories (mp4/kernel/fs.c) as maps from names to inode numbers: \<open>dirlookup\<close> looks a name up and
  \<open>dirlink\<close> adds one.
\<close>

section \<open>Names\<close>

text \<open>The name a field of \<open>DIRSIZ\<close> bytes stands for: up to the first NUL, if there is one.\<close>

definition dname :: "u8 list \<Rightarrow> u8 list" where
  "dname xs = take DIRSIZ (takeWhile (\<lambda>c. c \<noteq> 0) xs)"

lemma field_takeWhile: "field m s n = takeWhile (\<lambda>c. c \<noteq> 0) (map m [s..<s + n])"
proof (induction n arbitrary: s)
  case (Suc n)
  have "[s..<s + Suc n] = s # [s + 1..<s + 1 + n]" by (simp add: upt_rec)
  then show ?case using Suc.IH [of "s + 1"] by simp
qed simp

lemma field_list:
  assumes "\<And>i. i < n \<Longrightarrow> m (s + i) = (if i < length xs then xs ! i else 0)"
  shows "field m s n = take n (takeWhile (\<lambda>c. c \<noteq> 0) xs)"
  using assms
proof (induction xs arbitrary: s n)
  case Nil
  then show ?case using Nil [of 0] by (cases n) auto
next
  case (Cons x xs)
  show ?case
  proof (cases n)
    case (Suc k)
    have "m s = x" using Cons.prems [of 0] Suc by simp
    moreover have "m (s + 1 + i) = (if i < length xs then xs ! i else 0)" if "i < k" for i
      using Cons.prems [of "Suc i"] Suc that by simp
    from Cons.IH [OF this] have "field m (s + 1) k = take k (takeWhile (\<lambda>c. c \<noteq> 0) xs)" by simp
    ultimately show ?thesis using Suc by simp
  qed simp
qed

lemma namecmp_dname:
  assumes "length s \<le> 64"
  shows "namecmp s t = 0 \<longleftrightarrow> dname s = dname t"
proof -
  let ?m = "place 64 t (place 0 s (\<lambda>_. 0))"
  have "field ?m 0 DIRSIZ = dname s"
    unfolding dname_def by (rule field_list) (use assms in \<open>auto simp: place_def DIRSIZ_def\<close>)
  moreover have "field ?m 64 DIRSIZ = dname t"
    unfolding dname_def by (rule field_list) (simp add: place_def)
  ultimately show ?thesis by (simp add: namecmp_def strncmp_field)
qed

text \<open>An entry holds the name and the number it was made from.\<close>

lemma make_dirent_fields:
  assumes "0 < n" and "n < 2 ^ 16"
  shows "unat (de_inum (make_dirent name n)) = n" and "dname (de_name (make_dirent name n)) = dname name"
proof -
  have "unat (of_nat n :: u16) = n" using assms(2) by (simp add: unsigned_of_nat take_bit_nat_eq_self)
  then show "unat (de_inum (make_dirent name n)) = n" by (simp add: de_inum_def make_dirent_def le16.get_put)
  let ?m = "place 64 name (\<lambda>_. 0)"
  have fr: "put16 0 v d (Suc (Suc i)) = d (Suc (Suc i))" for v d i by (rule le16.put_frame) simp
  have "dname (de_name (make_dirent name n)) = field (make_dirent name n) 2 DIRSIZ"
    by (simp add: dname_def de_name_def field_takeWhile length_takeWhile_le [THEN order_trans])
  also have "\<dots> = field (strncpy ?m 2 64 (int DIRSIZ)) 2 DIRSIZ"
    by (rule field_cong) (simp add: make_dirent_def fr)
  also have "\<dots> = field ?m 64 DIRSIZ" by (rule strncpy_field) (simp add: DIRSIZ_def)
  also have "\<dots> = dname name" unfolding dname_def by (rule field_list) (simp add: place_def)
  finally show "dname (de_name (make_dirent name n)) = dname name" .
qed

section \<open>The contents of a directory\<close>

definition dent :: "'a fs_state_scheme \<Rightarrow> nat \<Rightarrow> nat \<Rightarrow> cmem" where
  "dent s p k = (\<lambda>a. if a < SIZEOF_DIRENT then fbyte s p (k * SIZEOF_DIRENT + a) else 0)"

definition nents :: "'a fs_state_scheme \<Rightarrow> nat \<Rightarrow> nat" where
  "nents s p = unat (isize (icache s p)) div SIZEOF_DIRENT"

definition live :: "'a fs_state_scheme \<Rightarrow> nat \<Rightarrow> u8 list \<Rightarrow> nat \<Rightarrow> bool" where
  "live s p name k \<longleftrightarrow> de_inum (dent s p k) \<noteq> 0 \<and> dname (de_name (dent s p k)) = dname name"

text \<open>The inode number the directory gives for a name.\<close>

definition dir_map :: "'a fs_state_scheme \<Rightarrow> nat \<Rightarrow> u8 list \<Rightarrow> nat option" where
  "dir_map s p name = map_option (\<lambda>k. unat (de_inum (dent s p k))) (List.find (live s p name) [0..<nents s p])"

definition dir_ok :: "'a fs_state_scheme \<Rightarrow> nat \<Rightarrow> bool" where
  "dir_ok s p \<longleftrightarrow> file_ok s p \<and> mapped s p (unat (isize (icache s p))) \<and> itype (icache s p) = T_DIR \<and>
     SIZEOF_DIRENT dvd unat (isize (icache s p))"

lemma dir_offs_ents: "SIZEOF_DIRENT dvd sz \<Longrightarrow> dir_offs sz = map (\<lambda>k. k * SIZEOF_DIRENT) [0..<sz div SIZEOF_DIRENT]"
  by (auto simp: dir_offs_def SIZEOF_DIRENT_def)

lemma dir_ok_bound: "dir_ok s p \<Longrightarrow> unat (isize (icache s p)) \<le> MAXFILE * BSIZE"
proof (rule ccontr)
  assume d: "dir_ok s p" and "\<not> unat (isize (icache s p)) \<le> MAXFILE * BSIZE"
  then have "MAXFILE * BSIZE div BSIZE < MAXFILE" unfolding dir_ok_def mapped_def by (metis not_le)
  then show False by simp
qed

text \<open>Reads do not change a directory.\<close>

lemma dir_frame:
  fixes s t :: "'a fs_state_scheme"
  assumes fr: "tx_frame s t" and v: "view t = view s" and lay: "layout_ok s" and ls: "lock_set s = {}" and ok: "dir_ok s p"
  shows "dir_ok t p" "layout_ok t" "lock_set t = {}" "dent t p k = dent s p k" "nents t p = nents s p" "icache t = icache s"
    "dir_map t p = dir_map s p" "live t p = live s p" "sb t = sb s"
proof -
  have f: "file_ok s p" using ok by (simp add: dir_ok_def)
  note F = frame_file_step [OF fr v lay f ls] and T = tx_frame_fs [OF fr]
  show "icache t = icache s" "sb t = sb s" by (rule T)+
  show "layout_ok t" "lock_set t = {}" by (rule file_stepD [OF F(1)])+
  show "dir_ok t p" using ok file_stepD(5) [OF F(1)] by (simp add: dir_ok_def mapped_def F(2) T)
  show d: "dent t p k = dent s p k" for k by (simp add: dent_def fbyte_def F(3) fun_eq_iff)
  show n: "nents t p = nents s p" by (simp add: nents_def T)
  show l: "live t p = live s p" by (simp add: live_def d fun_eq_iff)
  show "dir_map t p = dir_map s p" by (simp add: dir_map_def l n d fun_eq_iff)
qed

lemma read_dirent_spec:
  fixes s :: "'a fs_state_scheme"
  assumes lg: "in_log b B s" and lay: "layout_ok s" and ls: "lock_set s = {}" and ok: "dir_ok s p" and k: "k < nents s p"
  shows "\<exists>t. read_dirent p (k * SIZEOF_DIRENT) s = Inr (SIZEOF_DIRENT, t, dent s p k) \<and> in_log b B t \<and> view t = view s \<and>
    tx_frame s t"
proof -
  let ?sz = "isize (icache s p)" and ?o = "k * SIZEOF_DIRENT"
  have f: "file_ok s p" "mapped s p (unat ?sz)" using ok by (simp_all add: dir_ok_def)
  have le: "?o + SIZEOF_DIRENT \<le> unat ?sz"
  proof -
    have "Suc k \<le> unat ?sz div SIZEOF_DIRENT" using k by (simp add: nents_def)
    then have "Suc k * SIZEOF_DIRENT \<le> unat ?sz div SIZEOF_DIRENT * SIZEOF_DIRENT" by (rule mult_le_mono1)
    also have "\<dots> \<le> unat ?sz" by (rule div_times_less_eq_dividend)
    finally show ?thesis by simp
  qed
  have "unat ?sz < 2 ^ 32" using unsigned_less [of ?sz] by simp
  then have o: "unat (of_nat ?o :: u32) = ?o" using le by (simp add: unsigned_of_nat take_bit_nat_eq_self del: of_nat_mult)
  have n: "unat (of_nat SIZEOF_DIRENT :: u32) = SIZEOF_DIRENT" by (simp add: SIZEOF_DIRENT_def)
  have av: "avail ?sz (of_nat ?o) (of_nat SIZEOF_DIRENT) = SIZEOF_DIRENT"
    unfolding avail_def o n using le \<open>unat ?sz < 2 ^ 32\<close> by simp
  have mem: "fst (copy_out 0 (map (fbyte s p) [?o..<?o + SIZEOF_DIRENT]) (\<lambda>_. 0)) = dent s p k"
    by (auto simp: copy_out_def dent_def fun_eq_iff)
  have ok1: "snd (copy_out 0 xs m)" for xs m by (simp add: copy_out_def)
  show ?thesis
    using readi_contents [OF kernel_copy.copier_axioms lg lay ls f, of 0 "of_nat ?o" "of_nat SIZEOF_DIRENT" "\<lambda>_. 0", unfolded av o mem]
    by (auto simp: read_dirent_def ok1 simp del: of_nat_mult)
qed

section \<open>Looking a name up\<close>

lemma dirlookup_scan_spec:
  fixes s :: "'a fs_state_scheme"
  assumes "in_log b B s" and "layout_ok s" and "lock_set s = {}" and "dir_ok s p" and "length name \<le> 64"
    and "\<forall>k \<in> set ks. k < nents s p"
  shows "\<exists>t. in_log b B t \<and> view t = view s \<and> tx_frame s t \<and>
    dirlookup_scan p name (map (\<lambda>k. k * SIZEOF_DIRENT) ks) s =
      (case List.find (live s p name) ks of
         None \<Rightarrow> Inr (0, 0, t)
       | Some k \<Rightarrow> rbind (iget ROOTDEV (unat (de_inum (dent s p k))) t) (\<lambda>(ip, u). Inr (ip, k * SIZEOF_DIRENT, u)))"
  using assms
proof (induction ks arbitrary: s)
  case (Cons k ks)
  have k: "k < nents s p" using Cons.prems(6) by simp
  obtain t where t: "read_dirent p (k * SIZEOF_DIRENT) s = Inr (SIZEOF_DIRENT, t, dent s p k)" "in_log b B t" "view t = view s"
    "tx_frame s t" using read_dirent_spec [OF Cons.prems(1-4) k] by blast
  note D = dir_frame [OF t(4,3) Cons.prems(2-4)]
  have dev: "idev (icache t p) = ROOTDEV" using D(1) by (simp add: dir_ok_def file_ok_def)
  have lv: "live s p name k \<longleftrightarrow> de_inum (dent s p k) \<noteq> 0 \<and> namecmp name (de_name (dent s p k)) = 0"
    unfolding live_def namecmp_dname [OF Cons.prems(5)] by (simp only: eq_commute [of "dname name"])
  show ?case
  proof (cases "live s p name k")
    case True
    then have "dirlookup_scan p name (map (\<lambda>k. k * SIZEOF_DIRENT) (k # ks)) s =
        rbind (iget ROOTDEV (unat (de_inum (dent s p k))) t) (\<lambda>(ip, u). Inr (ip, k * SIZEOF_DIRENT, u))"
      using t(1) lv dev by simp
    then show ?thesis using True t(2-4) by (intro exI [of _ t]) simp
  next
    case False
    have "\<forall>k \<in> set ks. k < nents t p" using Cons.prems(6) D(5) by simp
    from Cons.IH [OF t(2) D(2,3,1) Cons.prems(5) this] obtain u where u: "in_log b B u" "view u = view t" "tx_frame t u"
      "dirlookup_scan p name (map (\<lambda>k. k * SIZEOF_DIRENT) ks) t =
        (case List.find (live s p name) ks of None \<Rightarrow> Inr (0, 0, u)
         | Some k \<Rightarrow> rbind (iget ROOTDEV (unat (de_inum (dent s p k))) u) (\<lambda>(ip, u). Inr (ip, k * SIZEOF_DIRENT, u)))"
      unfolding D(4,8) by blast
    have "dirlookup_scan p name (map (\<lambda>k. k * SIZEOF_DIRENT) (k # ks)) s =
        dirlookup_scan p name (map (\<lambda>k. k * SIZEOF_DIRENT) ks) t"
      using t(1) False lv by auto
    then show ?thesis using u t(3) tx_frame_trans [OF t(4) u(3)] False by (intro exI [of _ u]) simp
  qed
next
  case Nil
  then show ?case by (intro exI [of _ s]) simp
qed

lemma dirlookup_spec:
  fixes s :: "'a fs_state_scheme"
  assumes "in_log b B s" and "layout_ok s" and "lock_set s = {}" and "dir_ok s p" and "length name \<le> 64"
  shows "\<exists>t. in_log b B t \<and> view t = view s \<and> tx_frame s t \<and>
    dirlookup p name s =
      (case List.find (live s p name) [0..<nents s p] of
         None \<Rightarrow> Inr (0, 0, t)
       | Some k \<Rightarrow> rbind (iget ROOTDEV (unat (de_inum (dent s p k))) t) (\<lambda>(ip, u). Inr (ip, k * SIZEOF_DIRENT, u)))"
proof -
  have d: "itype (icache s p) = T_DIR" "dir_offs (unat (isize (icache s p))) = map (\<lambda>k. k * SIZEOF_DIRENT) [0..<nents s p]"
    using assms(4) by (simp_all add: dir_ok_def dir_offs_ents nents_def)
  show ?thesis using dirlookup_scan_spec [OF assms, of "[0..<nents s p]"] by (simp add: dirlookup_def d)
qed

section \<open>Adding a name\<close>

lemma in_tx_frame: "in_tx n B s \<Longrightarrow> in_log n B t \<Longrightarrow> tx_frame s t \<Longrightarrow> in_tx n B t"
  using tx_frameD(6) [of s t] by (simp add: in_tx_def)

lemma dirlink_slot_spec:
  fixes s :: "'a fs_state_scheme"
  assumes "in_log b B s" and "layout_ok s" and "lock_set s = {}" and "dir_ok s p" and "\<forall>k \<in> set ks. k < nents s p"
  shows "\<exists>t. in_log b B t \<and> view t = view s \<and> tx_frame s t \<and>
    dirlink_slot p e (map (\<lambda>k. k * SIZEOF_DIRENT) ks) s =
      Inr (case List.find (\<lambda>k. de_inum (dent s p k) = 0) ks of None \<Rightarrow> e | Some k \<Rightarrow> k * SIZEOF_DIRENT, t)"
  using assms
proof (induction ks arbitrary: s)
  case (Cons k ks)
  have k: "k < nents s p" using Cons.prems(5) by simp
  obtain t where t: "read_dirent p (k * SIZEOF_DIRENT) s = Inr (SIZEOF_DIRENT, t, dent s p k)" "in_log b B t" "view t = view s"
    "tx_frame s t" using read_dirent_spec [OF Cons.prems(1-4) k] by blast
  note D = dir_frame [OF t(4,3) Cons.prems(2-4)]
  show ?case
  proof (cases "de_inum (dent s p k) = 0")
    case True
    then show ?thesis using t by (intro exI [of _ t]) simp
  next
    case False
    have "\<forall>k \<in> set ks. k < nents t p" using Cons.prems(5) D(5) by simp
    from Cons.IH [OF t(2) D(2,3,1) this] obtain u where u: "in_log b B u" "view u = view t" "tx_frame t u"
      "dirlink_slot p e (map (\<lambda>k. k * SIZEOF_DIRENT) ks) t =
        Inr (case List.find (\<lambda>k. de_inum (dent s p k) = 0) ks of None \<Rightarrow> e | Some k \<Rightarrow> k * SIZEOF_DIRENT, u)"
      unfolding D(4) by blast
    have "dirlink_slot p e (map (\<lambda>k. k * SIZEOF_DIRENT) (k # ks)) s = dirlink_slot p e (map (\<lambda>k. k * SIZEOF_DIRENT) ks) t"
      using t(1) False by simp
    then show ?thesis using u t(3) tx_frame_trans [OF t(4) u(3)] False by (intro exI [of _ u]) simp
  qed
next
  case Nil
  then show ?case by (intro exI [of _ s]) simp
qed

text \<open>The place of a new entry: the first empty one, or the end.\<close>

definition free_slot :: "'a fs_state_scheme \<Rightarrow> nat \<Rightarrow> nat" where
  "free_slot s p =
     (case List.find (\<lambda>k. de_inum (dent s p k) = 0) [0..<nents s p] of None \<Rightarrow> nents s p | Some k \<Rightarrow> k)"

lemma free_slot: "free_slot s p \<le> nents s p" "free_slot s p < nents s p \<Longrightarrow> de_inum (dent s p (free_slot s p)) = 0"
proof -
  have "free_slot s p \<le> nents s p \<and> (free_slot s p < nents s p \<longrightarrow> de_inum (dent s p (free_slot s p)) = 0)"
  proof (cases "List.find (\<lambda>k. de_inum (dent s p k) = 0) [0..<nents s p]")
    case (Some k)
    then show ?thesis using find_SomeD [OF Some] by (simp add: free_slot_def)
  qed (simp add: free_slot_def)
  then show "free_slot s p \<le> nents s p" "free_slot s p < nents s p \<Longrightarrow> de_inum (dent s p (free_slot s p)) = 0" by blast+
qed

lemma entry_nblk: "nblk (k * SIZEOF_DIRENT) SIZEOF_DIRENT = 1"
proof -
  have "k * 16 div (64 * 16) = k div 64" by (rule div_mult_mult2) simp
  moreover have "(k * 16 + 15) div (16 * 64) = (k * 16 + 15) div 16 div 64" by (rule div_mult2_eq)
  moreover have "(k * 16 + 15) div 16 = k" by simp
  ultimately have "k * 16 div 1024 = k div 64" "(k * 16 + 15) div 1024 = k div 64" by simp_all
  then show ?thesis by (simp add: nblk_def SIZEOF_DIRENT_def BSIZE_def)
qed

lemma dirent_cong:
  assumes "\<And>a. a < SIZEOF_DIRENT \<Longrightarrow> d a = e a"
  shows "de_inum d = de_inum e" and "de_name d = de_name e"
proof -
  show "de_inum d = de_inum e"
    unfolding de_inum_def by (rule le16.get_local) (use assms in \<open>simp add: SIZEOF_DIRENT_def\<close>)
  show "de_name d = de_name e" using assms by (simp add: de_name_def SIZEOF_DIRENT_def DIRSIZ_def)
qed

text \<open>The directory after writing entry \<open>j\<close>.\<close>

lemma find_upt_grow:
  assumes "n \<le> m" and "\<And>k. k < m \<Longrightarrow> P' k \<longleftrightarrow> k < n \<and> P k"
  shows "List.find P' [0..<m] = List.find P [0..<n]"
proof (cases "List.find P [0..<n]")
  case None
  then have "\<forall>k<n. \<not> P k" by (simp only: find_upt_None)
  then have "List.find P' [0..<m] = None" unfolding find_upt_None using assms(2) by blast
  then show ?thesis using None by simp
next
  case (Some k)
  then have "List.find P' [0..<m] = Some k" using assms by (auto simp: find_upt_Some)
  then show ?thesis using Some by simp
qed

lemma new_entry:
  fixes s t :: "'a fs_state_scheme"
  assumes ok: "dir_ok s p" and wr: "written s p (j * SIZEOF_DIRENT) SIZEOF_DIRENT (make_dirent name n) 0 t"
    and j: "j \<le> nents s p" "j * SIZEOF_DIRENT + SIZEOF_DIRENT \<le> MAXFILE * BSIZE"
    and sz: "unat (isize (icache t p)) = max (unat (isize (icache s p))) (j * SIZEOF_DIRENT + SIZEOF_DIRENT)"
    and ft: "file_ok t p" "itype (icache t p) = T_DIR"
  shows "dir_ok t p" and "nents t p = max (nents s p) (Suc j)"
    and "k < nents t p \<Longrightarrow> de_inum (dent t p k) = de_inum (if k = j then make_dirent name n else dent s p k)"
    and "k < nents t p \<Longrightarrow> de_name (dent t p k) = de_name (if k = j then make_dirent name n else dent s p k)"
proof -
  let ?sz = "unat (isize (icache s p))"
  have dv: "?sz = nents s p * SIZEOF_DIRENT" using ok by (auto simp: dir_ok_def nents_def)
  have st: "unat (isize (icache t p)) = max (nents s p) (Suc j) * SIZEOF_DIRENT"
    unfolding sz dv nat_mult_max_left by simp
  show n: "nents t p = max (nents s p) (Suc j)" unfolding nents_def [of t] st by (simp add: SIZEOF_DIRENT_def)
  have "mapped t p (unat (isize (icache t p)))"
    unfolding mapped_def
  proof (intro allI impI)
    fix a assume a: "a < unat (isize (icache t p))"
    consider "a < ?sz" | "j * SIZEOF_DIRENT \<le> a" "a < j * SIZEOF_DIRENT + SIZEOF_DIRENT"
      using a sz dv mult_le_mono1 [OF j(1), of SIZEOF_DIRENT] by linarith
    then show "a div BSIZE < MAXFILE \<and> fblk t p (a div BSIZE) \<noteq> 0"
    proof cases
      case 1
      then show ?thesis using ok wr by (simp add: dir_ok_def mapped_def written_def)
    next
      case 2
      then show ?thesis using wr j(2) by (simp add: written_def less_mult_imp_div_less)
    qed
  qed
  moreover have "SIZEOF_DIRENT dvd unat (isize (icache t p))" unfolding st by (rule dvd_triv_right)
  ultimately show "dir_ok t p" using ft by (simp add: dir_ok_def)
  assume k: "k < nents t p"
  have b: "dent t p k a = (if k = j then make_dirent name n else dent s p k) a" if a: "a < SIZEOF_DIRENT" for a
  proof -
    have "Suc k * SIZEOF_DIRENT \<le> max (nents s p) (Suc j) * SIZEOF_DIRENT" using k n by (intro mult_le_mono1) simp
    also have "\<dots> \<le> MAXFILE * BSIZE"
      using j(2) dir_ok_bound [OF ok] dv by (cases "nents s p \<le> Suc j") (simp_all add: max_def)
    finally have lt: "k * SIZEOF_DIRENT + a < MAXFILE * BSIZE" using a by simp
    have "k * SIZEOF_DIRENT + a < j * SIZEOF_DIRENT \<or> j * SIZEOF_DIRENT + SIZEOF_DIRENT \<le> k * SIZEOF_DIRENT + a" if "k \<noteq> j"
    proof -
      have "k + 1 \<le> j \<or> j + 1 \<le> k" using that by linarith
      then have "(k + 1) * SIZEOF_DIRENT \<le> j * SIZEOF_DIRENT \<or> (j + 1) * SIZEOF_DIRENT \<le> k * SIZEOF_DIRENT"
        using mult_le_mono1 by blast
      then show ?thesis using a by auto
    qed
    then show ?thesis using wr lt a by (auto simp: written_def dent_def)
  qed
  show "de_inum (dent t p k) = de_inum (if k = j then make_dirent name n else dent s p k)"
    "de_name (dent t p k) = de_name (if k = j then make_dirent name n else dent s p k)"
    by (rule dirent_cong [OF b]; assumption)+
qed

lemma dir_map_new:
  fixes s t :: "'a fs_state_scheme"
  assumes ok: "dir_ok s p" and wr: "written s p (free_slot s p * SIZEOF_DIRENT) SIZEOF_DIRENT (make_dirent name n) 0 t"
    and j: "free_slot s p * SIZEOF_DIRENT + SIZEOF_DIRENT \<le> MAXFILE * BSIZE"
    and sz: "unat (isize (icache t p)) = max (unat (isize (icache s p))) (free_slot s p * SIZEOF_DIRENT + SIZEOF_DIRENT)"
    and ft: "file_ok t p" "itype (icache t p) = T_DIR" and n: "0 < n" "n < 2 ^ 16" and absent: "dir_map s p name = None"
  shows "dir_map t p nm = (if dname nm = dname name then Some n else dir_map s p nm)"
proof -
  note F = free_slot [of s p]
  note E = new_entry [OF ok wr F(1) j sz ft] and M = make_dirent_fields [OF n, of name]
  let ?j = "free_slot s p"
  have none: "\<not> live s p name k" if "k < nents s p" for k
    using absent that by (simp add: dir_map_def find_upt_None)
  have jn: "?j < nents t p" using E(2) by simp
  have nz: "de_inum (make_dirent name n) \<noteq> 0"
  proof
    assume "de_inum (make_dirent name n) = 0"
    then show False using M(1) n(1) by simp
  qed
  have lj: "live t p nm ?j \<longleftrightarrow> dname nm = dname name"
    using E(3,4) [OF jn] M(2) nz by (auto simp: live_def)
  have lk: "live t p nm k \<longleftrightarrow> k < nents s p \<and> live s p nm k" if "k < nents t p" "k \<noteq> ?j" for k
    using E(2-4) that F(1) by (auto simp: live_def)
  show ?thesis
  proof (cases "dname nm = dname name")
    case True
    have "live s p nm k \<longleftrightarrow> live s p name k" for k by (simp add: live_def True)
    then have "\<not> live t p nm k" if "k < ?j" for k using lk [of k] that jn none by auto
    then have "List.find (live t p nm) [0..<nents t p] = Some ?j" using lj True jn by (simp add: find_upt_Some)
    then show ?thesis using True E(3) [OF jn] M(1) by (simp add: dir_map_def)
  next
    case False
    have "live t p nm k \<longleftrightarrow> k < nents s p \<and> live s p nm k" if "k < nents t p" for k
      using lk [OF that] lj False F(2) by (cases "k = ?j") (auto simp: live_def)
    then have eq: "List.find (live t p nm) [0..<nents t p] = List.find (live s p nm) [0..<nents s p]"
      using E(2) by (intro find_upt_grow) auto
    show ?thesis
    proof (cases "List.find (live s p nm) [0..<nents s p]")
      case (Some k)
      then have "k < nents s p" "live s p nm k" by (simp_all add: find_upt_Some)
      then have "k \<noteq> ?j" "k < nents t p" using F(2) E(2) by (auto simp: live_def)
      then show ?thesis using E(3) [of k] eq Some False by (simp add: dir_map_def)
    qed (simp add: dir_map_def eq False)
  qed
qed

lemma write_frame_after_read:
  assumes fr: "tx_frame s u" "view u = view s" and st: "file_step p s u" and w: "write_frame p u t"
  shows "write_frame p s t"
proof -
  note f = tx_frame_fs [OF fr(1)] and D = file_stepD [OF st]
  have fs: "fset u p = fset s p" "free_block u c = free_block s c" for c
    by (simp_all add: fset_def ind_def fblk_def f fr(2) free_block_def)
  have ib: "iblk u p = iblk s p" by (simp add: iblk_def IBLOCK_def f)
  show ?thesis
    using w tx_frameD [OF fr(1)] fr st unfolding write_frame_def file_step_def
    by (simp add: fs ib f)
qed

text \<open>What \<open>dirlink\<close> does before it writes the entry.\<close>

lemma dirlink_reads:
  fixes s :: "'a fs_state_scheme"
  assumes tx: "in_tx b B s" and lay: "layout_ok s" and ls: "lock_set s = {}" and ok: "dir_ok s p" and name: "length name \<le> 64"
    and absent: "dir_map s p name = None"
  shows "\<exists>u. in_tx b B u \<and> view u = view s \<and> tx_frame s u \<and>
    dirlink p name n s =
      rbind (writei (copy_in (make_dirent name n)) p 0 (of_nat (free_slot s p * SIZEOF_DIRENT)) (of_nat SIZEOF_DIRENT) u)
        (\<lambda>(r, t). if r \<noteq> int SIZEOF_DIRENT then Inl (Panic ''dirlink'') else Inr (0, t))"
proof -
  have none: "List.find (live s p name) [0..<nents s p] = None" using absent by (simp add: dir_map_def)
  obtain t where t: "in_log b B t" "view t = view s" "tx_frame s t" "dirlookup p name s = Inr (0, 0, t)"
    using dirlookup_spec [OF in_txD(1) [OF tx] lay ls ok name] none by auto
  note D = dir_frame [OF t(3,2) lay ls ok]
  have offs: "dir_offs (unat (isize (icache t p))) = map (\<lambda>k. k * SIZEOF_DIRENT) [0..<nents t p]"
    using D(1) by (simp add: dir_ok_def dir_offs_ents nents_def)
  obtain u where u: "in_log b B u" "view u = view t" "tx_frame t u"
    "dirlink_slot p (nents t p * SIZEOF_DIRENT) (map (\<lambda>k. k * SIZEOF_DIRENT) [0..<nents t p]) t =
      Inr (free_slot s p * SIZEOF_DIRENT, u)"
    using dirlink_slot_spec [OF t(1) D(2,3,1), of "[0..<nents t p]" "nents t p * SIZEOF_DIRENT"]
    unfolding D(4,5) free_slot_def by (auto split: option.splits)
  have fr: "tx_frame s u" by (rule tx_frame_trans [OF t(3) u(3)])
  show ?thesis
    by (intro exI [of _ u] conjI in_tx_frame [OF tx u(1) fr] fr) (use t(2,4) u(2,4) in \<open>simp_all add: dirlink_def Let_def offs\<close>)
qed

text \<open>An entry as a file range, in machine words.\<close>

lemma entry_words:
  assumes "k * SIZEOF_DIRENT + SIZEOF_DIRENT \<le> MAXFILE * BSIZE"
  shows "unat (of_nat (k * SIZEOF_DIRENT) :: u32) = k * SIZEOF_DIRENT" "unat (of_nat SIZEOF_DIRENT :: u32) = SIZEOF_DIRENT"
    "0 < (of_nat SIZEOF_DIRENT :: u32)" "sint (of_nat SIZEOF_DIRENT :: u32) = int SIZEOF_DIRENT"
proof -
  have "MAXFILE * BSIZE < 2 ^ 32" by (simp add: MAXFILE_def NDIRECT_def NINDIRECT_def BSIZE_def)
  then show "unat (of_nat (k * SIZEOF_DIRENT) :: u32) = k * SIZEOF_DIRENT"
    using assms by (simp add: unsigned_of_nat take_bit_nat_eq_self del: of_nat_mult)
qed (simp_all add: SIZEOF_DIRENT_def)

lemma write_entry:
  fixes u :: "'a fs_state_scheme"
  assumes tx: "in_tx (Suc (Suc b)) B u" and lay: "layout_ok u" and ls: "lock_set u = {}" and B: "bmapstart (sb u) \<in> B" "iblk u p \<in> B"
    and ok: "dir_ok u p" "inode_ok u p" and k: "k \<le> nents u p" "k * SIZEOF_DIRENT + SIZEOF_DIRENT \<le> MAXFILE * BSIZE"
    and room: "2 \<le> nfree u"
  shows "\<exists>C w. writei (copy_in data) p 0 (of_nat (k * SIZEOF_DIRENT)) (of_nat SIZEOF_DIRENT) u = Inr (int SIZEOF_DIRENT, w) \<and>
    B \<subseteq> C \<and> in_tx b C w \<and> layout_ok w \<and> write_frame p u w \<and> file_ok w p \<and> inode_ok w p \<and> synced w p \<and>
    written u p (k * SIZEOF_DIRENT) SIZEOF_DIRENT data 0 w \<and>
    unat (isize (icache w p)) = max (unat (isize (icache u p))) (k * SIZEOF_DIRENT + SIZEOF_DIRENT) \<and> itype (icache w p) = T_DIR"
proof -
  let ?off = "k * SIZEOF_DIRENT"
  note W = entry_words [OF k(2)]
  have "hole_set u p ?off SIZEOF_DIRENT \<subseteq> {?off div BSIZE}" unfolding hole_set_def entry_nblk by auto
  then have "card (hole_set u p ?off SIZEOF_DIRENT) \<le> 1" using card_mono [of "{?off div BSIZE}"] by fastforce
  then have hs: "2 * card (hole_set u p (unat (of_nat ?off :: u32)) (unat (of_nat SIZEOF_DIRENT :: u32))) \<le> nfree u"
    unfolding W using room by linarith
  have tu: "in_tx (2 * nblk (unat (of_nat ?off :: u32)) (unat (of_nat SIZEOF_DIRENT :: u32)) + b) B u"
    unfolding W entry_nblk using tx by simp
  have dv: "unat (isize (icache u p)) = nents u p * SIZEOF_DIRENT" using ok(1) by (auto simp: dir_ok_def nents_def)
  have wo: "of_nat ?off \<le> isize (icache u p)" unfolding word_le_nat_alt W dv by (rule mult_le_mono1 [OF k(1)])
  have mx: "unat (of_nat ?off :: u32) + unat (of_nat SIZEOF_DIRENT :: u32) \<le> MAXFILE * BSIZE" unfolding W by (rule k(2))
  have fo: "file_ok u p" using ok(1) by (simp add: dir_ok_def)
  have cp: "copies_in (copy_in data) data 0 (unat (of_nat SIZEOF_DIRENT :: u32))" by (simp add: copies_in_def)
  obtain C w where w: "writei (copy_in data) p 0 (of_nat ?off) (of_nat SIZEOF_DIRENT) u = Inr (int SIZEOF_DIRENT, w)"
    "B \<subseteq> C" "in_tx b C w" "layout_ok w" "write_frame p u w" "file_ok w p" "inode_ok w p" "synced w p"
    "written u p ?off SIZEOF_DIRENT data 0 w" "unat (isize (icache w p)) = max (unat (isize (icache u p))) (?off + SIZEOF_DIRENT)"
    using writei_spec [OF tu lay ls B fo ok(2) wo W(3) mx hs cp] unfolding W by blast
  moreover have "itype (icache w p) = T_DIR" using w(5) ok(1) by (auto simp: write_frame_def dir_ok_def)
  ultimately show ?thesis by blast
qed

lemma dirlink_spec:
  fixes s :: "'a fs_state_scheme"
  assumes tx: "in_tx (Suc (Suc b)) B s" and lay: "layout_ok s" and ls: "lock_set s = {}" and B: "bmapstart (sb s) \<in> B" "iblk s p \<in> B"
    and ok: "dir_ok s p" "inode_ok s p" and name: "length name \<le> 64" and n: "0 < n" "n < 2 ^ 16"
    and absent: "dir_map s p name = None" and fit: "unat (isize (icache s p)) + SIZEOF_DIRENT \<le> MAXFILE * BSIZE" and room: "2 \<le> nfree s"
  shows "\<exists>C t. dirlink p name n s = Inr (0, t) \<and> B \<subseteq> C \<and> in_tx b C t \<and> layout_ok t \<and> lock_set t = {} \<and> dir_ok t p \<and>
    inode_ok t p \<and> synced t p \<and> write_frame p s t \<and>
    (\<forall>nm. dir_map t p nm = (if dname nm = dname name then Some n else dir_map s p nm))"
proof -
  obtain u where u: "in_tx (Suc (Suc b)) B u" "view u = view s" "tx_frame s u" "dirlink p name n s =
      rbind (writei (copy_in (make_dirent name n)) p 0 (of_nat (free_slot s p * SIZEOF_DIRENT)) (of_nat SIZEOF_DIRENT) u)
        (\<lambda>(r, t). if r \<noteq> int SIZEOF_DIRENT then Inl (Panic ''dirlink'') else Inr (0, t))"
    using dirlink_reads [OF tx lay ls ok(1) name absent] by blast
  note E = dir_frame [OF u(3,2) lay ls ok(1)]
  have f: "file_ok s p" using ok(1) by (simp add: dir_ok_def)
  note G = frame_file_step [OF u(3,2) lay f ls]
  note io = file_step_inode_ok [OF G(1) ok(2)]
  have fs: "free_slot u p = free_slot s p" unfolding free_slot_def E(4,5) by (rule refl)
  have "unat (isize (icache s p)) = nents s p * SIZEOF_DIRENT" using ok(1) by (auto simp: dir_ok_def nents_def)
  then have max: "free_slot u p * SIZEOF_DIRENT + SIZEOF_DIRENT \<le> MAXFILE * BSIZE"
    using fit mult_le_mono1 [OF free_slot(1) [of s p], of SIZEOF_DIRENT] unfolding fs by linarith
  have "2 \<le> nfree u" using G(4) room by (simp add: nfree_def)
  moreover have "bmapstart (sb u) \<in> B" "iblk u p \<in> B" using B io(2) E(9) by simp_all
  ultimately obtain C w where w: "writei (copy_in (make_dirent name n)) p 0 (of_nat (free_slot u p * SIZEOF_DIRENT)) (of_nat SIZEOF_DIRENT) u =
      Inr (int SIZEOF_DIRENT, w)" "B \<subseteq> C" "in_tx b C w" "layout_ok w" "write_frame p u w" "file_ok w p" "inode_ok w p" "synced w p"
    "written u p (free_slot u p * SIZEOF_DIRENT) SIZEOF_DIRENT (make_dirent name n) 0 w"
    "unat (isize (icache w p)) = max (unat (isize (icache u p))) (free_slot u p * SIZEOF_DIRENT + SIZEOF_DIRENT)" "itype (icache w p) = T_DIR"
    using write_entry [OF u(1) E(2,3) _ _ E(1) io(1) free_slot(1) max, of "make_dirent name n"] by blast
  have au: "dir_map u p name = None" using absent by (simp add: E(7))
  have "dir_map w p nm = (if dname nm = dname name then Some n else dir_map s p nm)" for nm
    using dir_map_new [OF E(1) w(9) max w(10,6,11) n au] by (simp add: E(7))
  moreover have "dir_ok w p" by (rule new_entry(1) [OF E(1) w(9) free_slot(1) max w(10,6,11)])
  moreover have "write_frame p s w" by (rule write_frame_after_read [OF u(3,2) G(1) w(5)])
  moreover have "lock_set w = {}" using w(5) by (simp add: write_frame_def)
  moreover have "dirlink p name n s = Inr (0, w)" using u(4) w(1) by (simp add: fs)
  ultimately show ?thesis using w(2-4,7,8) by blast
qed

section \<open>Directories are maps\<close>

text \<open>C8: \<open>dirlookup\<close> is lookup in the map from names to inode numbers that the entries of the directory stand
  for: it changes nothing on disk and returns 0 for a name that is not there, and the inode of the first
  entry with that name (up to 14 bytes count), with the offset of that entry, otherwise.\<close>

theorem dirlookup_refines_map:
  fixes s :: "'a fs_state_scheme"
  assumes "in_log b B s" and "layout_ok s" and "lock_set s = {}" and "dir_ok s p" and "length name \<le> 64"
  shows "\<exists>t. view t = view s \<and> tx_frame s t \<and>
    (case dir_map s p name of
       None \<Rightarrow> dirlookup p name s = Inr (0, 0, t)
     | Some m \<Rightarrow> \<exists>k<nents s p. live s p name k \<and> m = unat (de_inum (dent s p k)) \<and>
         dirlookup p name s = rbind (iget ROOTDEV m t) (\<lambda>(ip, u). Inr (ip, k * SIZEOF_DIRENT, u)))"
proof -
  obtain t where t: "view t = view s" "tx_frame s t" "dirlookup p name s =
      (case List.find (live s p name) [0..<nents s p] of
         None \<Rightarrow> Inr (0, 0, t)
       | Some k \<Rightarrow> rbind (iget ROOTDEV (unat (de_inum (dent s p k))) t) (\<lambda>(ip, u). Inr (ip, k * SIZEOF_DIRENT, u)))"
    using dirlookup_spec [OF assms] by blast
  show ?thesis
  proof (cases "List.find (live s p name) [0..<nents s p]")
    case None
    then show ?thesis using t by (intro exI [of _ t]) (simp add: dir_map_def)
  next
    case (Some k)
    then have "k < nents s p" "live s p name k" by (simp_all add: find_upt_Some)
    then show ?thesis using t Some by (intro exI [of _ t]) (auto simp: dir_map_def)
  qed
qed

text \<open>C7: \<open>dirlink\<close> of a name that is not there updates that map at exactly this name, keeps the directory and the
  inode well-formed and current, and touches no block but the directory's own, the free map and the inode's.\<close>

theorem dirlink_refines_update:
  fixes s :: "'a fs_state_scheme"
  assumes tx: "in_tx (Suc (Suc b)) B s" and lay: "layout_ok s" and ls: "lock_set s = {}" and B: "bmapstart (sb s) \<in> B" "iblk s p \<in> B"
    and ok: "dir_ok s p" "inode_ok s p" and name: "length name \<le> 64" and n: "0 < n" "n < 2 ^ 16"
    and absent: "dir_map s p name = None" and fit: "unat (isize (icache s p)) + SIZEOF_DIRENT \<le> MAXFILE * BSIZE" and room: "2 \<le> nfree s"
  shows "\<exists>t. dirlink p name n s = Inr (0, t) \<and> dir_ok t p \<and> inode_ok t p \<and> synced t p \<and> write_frame p s t \<and>
    (\<forall>nm. dir_map t p nm = (if dname nm = dname name then Some n else dir_map s p nm))"
  using dirlink_spec [OF assms] by blast

text \<open>The demonstration system with the empty file made an empty directory.\<close>

definition demo_dir :: sys_state where
  "demo_dir = upd_inode 3 (\<lambda>ip. ip\<lparr>itype := T_DIR\<rparr>) demo_tx"

lemma demo_dir_ok:
  shows "in_tx 8 {45, iblk demo_dir 3} demo_dir" "layout_ok demo_dir" "lock_set demo_dir = {}" "bmapstart (sb demo_dir) = 45"
    "dir_ok demo_dir 3" "inode_ok demo_dir 3" "isize (icache demo_dir 3) = 0" "2 \<le> nfree demo_dir" "dir_map demo_dir 3 nm = None"
proof -
  have m: "file_ok demo_dir 3 = file_ok demo_tx 3" "inode_ok demo_dir 3 = inode_ok demo_tx 3" "iblk demo_dir 3 = iblk demo_tx 3"
    by (simp_all add: demo_dir_def upd_meta)
  have ic: "icache demo_tx 3 = demo_inode\<lparr>ilocked := True\<rparr>" by (simp add: demo_tx_def demo_sys_def)
  show sz: "isize (icache demo_dir 3) = 0" by (simp add: demo_dir_def ic) (simp add: demo_inode_def zero_inode_def)
  have "itype (icache demo_dir 3) = T_DIR" by (simp add: demo_dir_def)
  then show "dir_ok demo_dir 3" using demo_tx_ok(6) m by (simp add: dir_ok_def sz mapped_def)
  show "in_tx 8 {45, iblk demo_dir 3} demo_dir" "layout_ok demo_dir" "lock_set demo_dir = {}" "bmapstart (sb demo_dir) = 45"
    using demo_tx_ok m by (simp_all add: demo_dir_def)
  show "inode_ok demo_dir 3" using demo_tx_ok m by simp
  have "free_block demo_dir b = free_block demo_sys b" for b by (simp add: demo_dir_def demo_tx_ok)
  then show "2 \<le> nfree demo_dir" using demo_nfree by (simp add: nfree_def)
  show "dir_map demo_dir 3 nm = None" by (simp add: dir_map_def nents_def sz)
qed

theorem dirlink_refines_update_witness:
  "\<exists>t. dirlink 3 [97, 98] 7 demo_dir = Inr (0, t) \<and> dir_map t 3 [97, 98] = Some 7 \<and> dir_map t 3 [97] = None"
proof -
  have "in_tx (Suc (Suc 6)) {45, iblk demo_dir 3} demo_dir" using demo_dir_ok(1) by simp
  then show ?thesis
    using dirlink_refines_update [OF _ demo_dir_ok(2,3) _ _ demo_dir_ok(5,6), of 6 "{45, iblk demo_dir 3}" "[97, 98]" 7] demo_dir_ok(4,7,8,9)
    by (auto simp: dname_def DIRSIZ_def SIZEOF_DIRENT_def MAXFILE_def NDIRECT_def NINDIRECT_def BSIZE_def)
qed

theorem dirlookup_refines_map_witness:
  "\<exists>s t u off. dirlink 3 [97, 98] 7 demo_dir = Inr (0, s) \<and>
    dirlookup 3 [97, 98] s = rbind (iget ROOTDEV 7 t) (\<lambda>(ip, u). Inr (ip, off, u)) \<and> dirlookup 3 [97] s = Inr (0, 0, u)"
proof -
  have tx: "in_tx (Suc (Suc 6)) {45, iblk demo_dir 3} demo_dir" using demo_dir_ok(1) by simp
  obtain C s where s: "dirlink 3 [97, 98] 7 demo_dir = Inr (0, s)" "in_tx 6 C s" "layout_ok s" "lock_set s = {}" "dir_ok s 3"
    "\<forall>nm. dir_map s 3 nm = (if dname nm = dname [97, 98] then Some 7 else None)"
    using dirlink_spec [OF tx demo_dir_ok(2,3) _ _ demo_dir_ok(5,6), of "[97, 98]" 7] demo_dir_ok(4,7,8,9)
    by (auto simp: SIZEOF_DIRENT_def MAXFILE_def NDIRECT_def NINDIRECT_def BSIZE_def)
  note L = dirlookup_refines_map [OF in_txD(1) [OF s(2)] s(3-5)]
  have m: "dir_map s 3 [97, 98] = Some 7" "dir_map s 3 [97] = None" using s(6) by (simp_all add: dname_def DIRSIZ_def)
  obtain t k where "k < nents s 3" "dirlookup 3 [97, 98] s = rbind (iget ROOTDEV 7 t) (\<lambda>(ip, u). Inr (ip, k * SIZEOF_DIRENT, u))"
    using L [of "[97, 98]"] m(1) by auto
  moreover obtain u where "dirlookup 3 [97] s = Inr (0, 0, u)" using L [of "[97]"] m(2) by auto
  ultimately show ?thesis using s(1) by blast
qed

end
