(* ===== verification/Vm.thy ===== *)
theory Vm
  imports Sysfile
begin

text \<open>
  Physical pages and page tables (mp4/kernel/kalloc.c, mp4/kernel/vm.c). Physical memory is a map
  from addresses to bytes, a page-table entry the 64-bit field at its address; the free list is the
  list of the pages on it. Virtual addresses and sizes are 64-bit words, physical addresses natural
  numbers. \<open>kend\<close> stands for the linker symbol \<open>end\<close>.
\<close>

unbundle bit_operations_syntax

section \<open>Entries in memory\<close>

definition get64 :: "cmem \<Rightarrow> nat \<Rightarrow> u64" where
  "get64 d off = ucast (get32 d off) OR push_bit 32 (ucast (get32 d (off + 4)))"

definition put64 :: "nat \<Rightarrow> u64 \<Rightarrow> cmem \<Rightarrow> cmem" where
  "put64 off v d = put32 (off + 4) (ucast (drop_bit 32 v)) (put32 off (ucast v) d)"

interpretation le64: le_field get64 put64 8
proof
  fix off v d
  have "get32 (put64 off v d) off = ucast v" "get32 (put64 off v d) (off + 4) = ucast (drop_bit 32 v)"
    by (simp_all add: put64_def le32.get_put le32.get_put_other)
  then show "get64 (put64 off v d) off = v"
    by (auto simp: get64_def bit_simps intro!: bit_word_eqI)
next
  fix off and d d' :: cmem
  assume e: "\<And>k. k < 8 \<Longrightarrow> d' (off + k) = d (off + k)"
  have "get32 d' off = get32 d off" by (rule le32.get_local) (use e in simp)
  moreover have "get32 d' (off + 4) = get32 d (off + 4)"
  proof (rule le32.get_local)
    fix k :: nat assume "k < 4"
    then show "d' (off + 4 + k) = d (off + 4 + k)" using e [of "4 + k"] by (simp add: add.assoc)
  qed
  ultimately show "get64 d' off = get64 d off" by (simp add: get64_def)
next
  fix a off :: nat and v d assume "a < off \<or> off + 8 \<le> a"
  then show "put64 off v d a = d a" by (auto simp: put64_def le32.put_frame)
qed

definition PAGE :: nat where "PAGE = 4096"
definition MEMTOP :: nat where "MEMTOP = 0x80000000 + 128 * 1024 * 1024"
definition PTE_V :: u64 where "PTE_V = 1"
definition PTE_R :: u64 where "PTE_R = 2"
definition PTE_W :: u64 where "PTE_W = 4"
definition PTE_X :: u64 where "PTE_X = 8"
definition PTE_U :: u64 where "PTE_U = 16"
definition MAXVA :: u64 where "MAXVA = push_bit 38 1"
definition TRAMPOLINE :: u64 where "TRAMPOLINE = MAXVA - 4096"

definition PA2PTE :: "nat \<Rightarrow> u64" where "PA2PTE pa = push_bit 10 (drop_bit 12 (of_nat pa))"
definition PTE2PA :: "u64 \<Rightarrow> nat" where "PTE2PA pte = unat (push_bit 12 (drop_bit 10 pte))"
definition PTE_FLAGS :: "u64 \<Rightarrow> u64" where "PTE_FLAGS pte = pte AND 0x3FF"
definition PX :: "nat \<Rightarrow> u64 \<Rightarrow> nat" where "PX level va = unat (drop_bit (12 + 9 * level) va AND 0x1FF)"

definition round_up :: "u64 \<Rightarrow> u64" where "round_up sz = (sz + 4096 - 1) AND NOT 4095"
definition round_down :: "u64 \<Rightarrow> u64" where "round_down a = a AND NOT 4095"

text \<open>Page numbers and offsets of addresses, and what an entry keeps.\<close>

lemma mask_4095: "(4095 :: u64) = mask 12" by (simp add: mask_eq_exp_minus_1)

lemma mask_1FF: "(0x1FF :: u64) = mask 9" by (simp add: mask_eq_exp_minus_1)

lemma unat_push: "unat (push_bit n (w :: u64)) = unat w * 2 ^ n mod 2 ^ 64"
  by (simp only: unsigned_push_bit_eq take_bit_eq_mod) (simp add: push_bit_eq_mult)

lemma unat_drop: "unat (drop_bit n (w :: u64)) = unat w div 2 ^ n"
  by (simp only: unat_drop_bit_eq) (simp only: drop_bit_eq_div)

lemma round_down_eq: "round_down va = push_bit 12 (drop_bit 12 va)"
  unfolding round_down_def mask_4095 by (rule bit_word_eqI) (auto simp: bit_simps)

lemma unat_round_down: "unat (round_down va) = unat va div 4096 * 4096"
proof -
  have "unat va < 2 ^ 64" using unsigned_less [of va] by simp
  then have "unat va div 4096 * 4096 < 2 ^ 64" using div_times_less_eq_dividend [of "unat va" 4096] by linarith
  then show ?thesis unfolding round_down_eq by (simp only: unat_push unat_drop) simp
qed

lemma unat_page_offset: "unat (va - round_down va) = unat va mod 4096"
proof -
  have "unat (round_down va) \<le> unat va" by (simp add: unat_round_down div_times_less_eq_dividend)
  then have "unat (va - round_down va) = unat va - unat (round_down va)"
    by (simp add: unat_sub word_le_nat_alt)
  then show ?thesis by (simp add: unat_round_down minus_div_mult_eq_mod)
qed

lemma PX_eq: "PX level va = unat va div 2 ^ (12 + 9 * level) mod 512"
  unfolding PX_def mask_1FF take_bit_eq_mask [symmetric]
  by (simp only: unsigned_take_bit_eq unat_drop) (simp add: take_bit_eq_mod)

lemma PTE2PA_entry:
  assumes "pa mod PAGE = 0" "pa < 2 ^ 56" "f < 1024"
  shows "PTE2PA (PA2PTE pa OR f) = pa"
proof -
  have "unat (drop_bit 10 f) = 0" using assms(3) by (simp only: unat_drop) (simp add: word_less_nat_alt)
  then have f: "drop_bit 10 f = 0" by (simp only: unsigned_eq_0_iff)
  obtain k where k: "pa = 4096 * k" "k < 2 ^ 44" using assms(1,2) by (auto elim!: dvdE simp: mod_eq_0_iff_dvd PAGE_def)
  have "unat (of_nat pa :: u64) = pa" using k by (simp only: unsigned_of_nat take_bit_eq_mod) simp
  then have "unat (push_bit 12 (drop_bit 10 (push_bit 10 (drop_bit 12 (of_nat pa :: u64))))) = pa"
    using k by (simp only: unat_push unat_drop) simp
  then show ?thesis unfolding PTE2PA_def PA2PTE_def by (simp only: f drop_bit_or push_bit_or) simp
qed

section \<open>Pages\<close>

record vm_state = sys_state +
  pmem :: cmem

definition fill :: "nat \<Rightarrow> u8 \<Rightarrow> cmem \<Rightarrow> cmem" where
  "fill pa c m = memset m pa (ucast c) PAGE"

definition set_pmem :: "(cmem \<Rightarrow> cmem) \<Rightarrow> 'a vm_state_scheme \<Rightarrow> 'a vm_state_scheme" where
  "set_pmem f s = s\<lparr>pmem := f (pmem s)\<rparr>"

definition kfree_mp4 :: "nat \<Rightarrow> nat \<Rightarrow> 'a vm_state_scheme \<Rightarrow> 'a vm_state_scheme res" where
  "kfree_mp4 kend pa s =
     (if pa mod PAGE \<noteq> 0 \<or> pa < kend \<or> MEMTOP \<le> pa then Inl (Panic ''kfree'')
      else Inr (page_free pa (set_pmem (fill pa 1) s)))"

definition kalloc_mp4 :: "'a vm_state_scheme \<Rightarrow> nat \<times> 'a vm_state_scheme" where
  "kalloc_mp4 s = (case page_alloc s of (r, s1) \<Rightarrow> (r, if r \<noteq> 0 then set_pmem (fill r 5) s1 else s1))"

section \<open>Walking a page table\<close>

text \<open>One level: the next page-table page, \<open>None\<close> when \<open>walk\<close> returns 0.\<close>

definition walk_level :: "bool \<Rightarrow> nat \<Rightarrow> u64 \<Rightarrow> nat \<Rightarrow> 'a vm_state_scheme \<Rightarrow> nat option \<times> 'a vm_state_scheme" where
  "walk_level alloc level va pagetable s =
     (let a = pagetable + 8 * PX level va;
          pte = get64 (pmem s) a
      in if pte AND PTE_V \<noteq> 0 then (Some (PTE2PA pte), s)
         else if \<not> alloc then (None, s)
         else case kalloc_mp4 s of (pt1, s1) \<Rightarrow>
           if pt1 = 0 then (None, s1)
           else (Some pt1, set_pmem (put64 a (PA2PTE pt1 OR PTE_V)) (set_pmem (fill pt1 0) s1)))"

text \<open>The result is the address of the entry, 0 for the null pointer.\<close>

definition walk :: "nat \<Rightarrow> u64 \<Rightarrow> bool \<Rightarrow> 'a vm_state_scheme \<Rightarrow> (nat \<times> 'a vm_state_scheme) res" where
  "walk pagetable va alloc s =
     (if MAXVA \<le> va then Inl (Panic ''walk'')
      else case walk_level alloc 2 va pagetable s of
        (None, s1) \<Rightarrow> Inr (0, s1)
      | (Some pt1, s1) \<Rightarrow>
          (case walk_level alloc 1 va pt1 s1 of
             (None, s2) \<Rightarrow> Inr (0, s2)
           | (Some pt0, s2) \<Rightarrow> Inr (pt0 + 8 * PX 0 va, s2)))"

definition walkaddr :: "nat \<Rightarrow> u64 \<Rightarrow> 'a vm_state_scheme \<Rightarrow> nat" where
  "walkaddr pagetable va s =
     (if MAXVA \<le> va then 0
      else case walk pagetable va False s of
        Inl e \<Rightarrow> 0
      | Inr (a, s1) \<Rightarrow>
          if a = 0 then 0
          else let pte = get64 (pmem s) a in
            if pte AND PTE_V = 0 then 0 else if pte AND PTE_U = 0 then 0 else PTE2PA pte)"

section \<open>Mapping\<close>

text \<open>\<open>n\<close> is the number of pages from \<open>a\<close> to \<open>last\<close> after the first: both are page-aligned, and \<open>a\<close> moves by
  one page until it is \<open>last\<close>.\<close>

definition map_page :: "nat \<Rightarrow> u64 \<Rightarrow> nat \<Rightarrow> u64 \<Rightarrow> 'a vm_state_scheme \<Rightarrow> (int \<times> 'a vm_state_scheme) res" where
  "map_page pagetable a pa perm s =
     rbind (walk pagetable a True s) (\<lambda>(p, s1).
     if p = 0 then Inr (-1, s1)
     else if get64 (pmem s1) p AND PTE_V \<noteq> 0 then Inl (Panic ''remap'')
     else Inr (0, set_pmem (put64 p (PA2PTE pa OR perm OR PTE_V)) s1))"

primrec mappages_loop :: "nat \<Rightarrow> nat \<Rightarrow> u64 \<Rightarrow> nat \<Rightarrow> u64 \<Rightarrow> 'a vm_state_scheme \<Rightarrow> (int \<times> 'a vm_state_scheme) res" where
  "mappages_loop 0 pagetable a pa perm s = map_page pagetable a pa perm s"
| "mappages_loop (Suc n) pagetable a pa perm s =
     rbind (map_page pagetable a pa perm s) (\<lambda>(r, s1).
     if r \<noteq> 0 then Inr (r, s1) else mappages_loop n pagetable (a + 4096) (pa + PAGE) perm s1)"

definition mappages :: "nat \<Rightarrow> u64 \<Rightarrow> u64 \<Rightarrow> nat \<Rightarrow> u64 \<Rightarrow> 'a vm_state_scheme \<Rightarrow> (int \<times> 'a vm_state_scheme) res" where
  "mappages pagetable va size1 pa perm s =
     (let a = round_down va; last = round_down (va + size1 - 1)
      in mappages_loop (unat (last - a) div PAGE) pagetable a pa perm s)"

definition kvmmap :: "nat \<Rightarrow> u64 \<Rightarrow> nat \<Rightarrow> u64 \<Rightarrow> u64 \<Rightarrow> 'a vm_state_scheme \<Rightarrow> 'a vm_state_scheme res" where
  "kvmmap kernel_pagetable va pa sz perm s =
     rbind (mappages kernel_pagetable va sz pa perm s) (\<lambda>(r, s1). if r \<noteq> 0 then Inl (Panic ''kvmmap'') else Inr s1)"

definition kvmpa :: "nat \<Rightarrow> u64 \<Rightarrow> 'a vm_state_scheme \<Rightarrow> nat res" where
  "kvmpa kernel_pagetable va s =
     rbind (walk kernel_pagetable va False s) (\<lambda>(p, s1).
     if p = 0 then Inl (Panic ''kvmpa'')
     else if get64 (pmem s1) p AND PTE_V = 0 then Inl (Panic ''kvmpa'')
     else Inr (PTE2PA (get64 (pmem s1) p) + unat (va mod 4096)))"

text \<open>The kernel's own table; \<open>etext\<close> and \<open>tramp\<close> are the addresses of the linker symbols.\<close>

definition kvminit :: "nat \<Rightarrow> nat \<Rightarrow> 'a vm_state_scheme \<Rightarrow> (nat \<times> 'a vm_state_scheme) res" where
  "kvminit etext tramp s =
     (case kalloc_mp4 s of (kpt, s1) \<Rightarrow>
        let same = (\<lambda>pa sz perm. kvmmap kpt (of_nat pa) pa (of_nat sz) perm) in
        rbind (same 0x10000000 PAGE (PTE_R OR PTE_W) (set_pmem (fill kpt 0) s1)) (\<lambda>s2.
        rbind (same 0x10001000 PAGE (PTE_R OR PTE_W) s2) (\<lambda>s3.
        rbind (same 0x2000000 0x10000 (PTE_R OR PTE_W) s3) (\<lambda>s4.
        rbind (same 0x0c000000 0x400000 (PTE_R OR PTE_W) s4) (\<lambda>s5.
        rbind (same 0x80000000 (etext - 0x80000000) (PTE_R OR PTE_X) s5) (\<lambda>s6.
        rbind (same etext (MEMTOP - etext) (PTE_R OR PTE_W) s6) (\<lambda>s7.
        rbind (kvmmap kpt TRAMPOLINE tramp 4096 (PTE_R OR PTE_X) s7) (\<lambda>s8. Inr (kpt, s8)))))))))"

text \<open>One page of \<open>uvmunmap\<close>.\<close>

definition unmap_page :: "nat \<Rightarrow> nat \<Rightarrow> u64 \<Rightarrow> bool \<Rightarrow> 'a vm_state_scheme \<Rightarrow> 'a vm_state_scheme res" where
  "unmap_page kend pagetable a do_free s =
     rbind (walk pagetable a False s) (\<lambda>(p, s1).
     if p = 0 then Inl (Panic ''uvmunmap: walk'')
     else
       let pte = get64 (pmem s1) p in
       if pte AND PTE_V = 0 then Inl (Panic ''uvmunmap: not mapped'')
       else if PTE_FLAGS pte = PTE_V then Inl (Panic ''uvmunmap: not a leaf'')
       else rbind (if do_free then kfree_mp4 kend (PTE2PA pte) s1 else Inr s1) (\<lambda>s2. Inr (set_pmem (put64 p 0) s2)))"

text \<open>The number of iterations of \<open>for (a = start; a < stop; a += PGSIZE)\<close>: \<open>a\<close> cannot wrap around in a loop that walks a
  page table, since \<open>walk\<close> panics from \<open>MAXVA\<close> on.\<close>

definition pages_between :: "u64 \<Rightarrow> u64 \<Rightarrow> nat" where
  "pages_between start stop = (unat stop - unat start + 4095) div PAGE"

primrec unmap_loop :: "nat \<Rightarrow> nat \<Rightarrow> nat \<Rightarrow> u64 \<Rightarrow> bool \<Rightarrow> 'a vm_state_scheme \<Rightarrow> 'a vm_state_scheme res" where
  "unmap_loop kend 0 pagetable a do_free s = Inr s"
| "unmap_loop kend (Suc n) pagetable a do_free s =
     rbind (unmap_page kend pagetable a do_free s) (unmap_loop kend n pagetable (a + 4096) do_free)"

definition uvmunmap :: "nat \<Rightarrow> nat \<Rightarrow> u64 \<Rightarrow> u64 \<Rightarrow> bool \<Rightarrow> 'a vm_state_scheme \<Rightarrow> 'a vm_state_scheme res" where
  "uvmunmap kend pagetable va npages do_free s =
     (if va mod 4096 \<noteq> 0 then Inl (Panic ''uvmunmap: not aligned'')
      else unmap_loop kend (pages_between va (va + npages * 4096)) pagetable va do_free s)"

section \<open>Address spaces\<close>

definition uvmcreate :: "'a vm_state_scheme \<Rightarrow> nat \<times> 'a vm_state_scheme" where
  "uvmcreate s = (case kalloc_mp4 s of (pt, s1) \<Rightarrow> (pt, if pt = 0 then s1 else set_pmem (fill pt 0) s1))"

text \<open>\<open>memmove\<close> of bytes from elsewhere in the kernel to physical address \<open>pa\<close>.\<close>

definition store_bytes :: "nat \<Rightarrow> u8 list \<Rightarrow> cmem \<Rightarrow> cmem" where
  "store_bytes pa bs m = fst (copy_out pa bs m)"

text \<open>As in the source the page is used without looking whether there was one.\<close>

definition uvminit :: "nat \<Rightarrow> u8 list \<Rightarrow> 'a vm_state_scheme \<Rightarrow> 'a vm_state_scheme res" where
  "uvminit pagetable src s =
     (if PAGE \<le> length src then Inl (Panic ''inituvm: more than a page'')
      else case kalloc_mp4 s of (mem, s1) \<Rightarrow>
        rbind (mappages pagetable 0 4096 mem (PTE_W OR PTE_R OR PTE_X OR PTE_U) (set_pmem (fill mem 0) s1)) (\<lambda>(_, s2).
        Inr (set_pmem (store_bytes mem src) s2)))"

definition uvmdealloc :: "nat \<Rightarrow> nat \<Rightarrow> u64 \<Rightarrow> u64 \<Rightarrow> 'a vm_state_scheme \<Rightarrow> (u64 \<times> 'a vm_state_scheme) res" where
  "uvmdealloc kend pagetable oldsz newsz s =
     (if oldsz \<le> newsz then Inr (oldsz, s)
      else if round_up newsz < round_up oldsz then
        let npages = (ucast ((round_up oldsz - round_up newsz) div 4096) :: u32)
        in rbind (uvmunmap kend pagetable (round_up newsz) (scast npages) True s) (\<lambda>s1. Inr (newsz, s1))
      else Inr (newsz, s))"

text \<open>\<open>n\<close> pages from \<open>a\<close> on; 0 when memory ran out, with what was allocated given back.\<close>

primrec uvmalloc_loop :: "nat \<Rightarrow> nat \<Rightarrow> nat \<Rightarrow> u64 \<Rightarrow> u64 \<Rightarrow> u64 \<Rightarrow> 'a vm_state_scheme \<Rightarrow> (u64 \<times> 'a vm_state_scheme) res" where
  "uvmalloc_loop kend 0 pagetable a oldsz newsz s = Inr (newsz, s)"
| "uvmalloc_loop kend (Suc n) pagetable a oldsz newsz s =
     (case kalloc_mp4 s of (mem, s1) \<Rightarrow>
        if mem = 0 then rbind (uvmdealloc kend pagetable a oldsz s1) (\<lambda>(_, s2). Inr (0, s2))
        else
          rbind (mappages pagetable a 4096 mem (PTE_W OR PTE_X OR PTE_R OR PTE_U) (set_pmem (fill mem 0) s1)) (\<lambda>(r, s2).
          if r \<noteq> 0 then
            rbind (kfree_mp4 kend mem s2) (\<lambda>s3. rbind (uvmdealloc kend pagetable a oldsz s3) (\<lambda>(_, s4). Inr (0, s4)))
          else uvmalloc_loop kend n pagetable (a + 4096) oldsz newsz s2))"

definition uvmalloc :: "nat \<Rightarrow> nat \<Rightarrow> u64 \<Rightarrow> u64 \<Rightarrow> 'a vm_state_scheme \<Rightarrow> (u64 \<times> 'a vm_state_scheme) res" where
  "uvmalloc kend pagetable oldsz newsz s =
     (if newsz < oldsz then Inr (oldsz, s)
      else uvmalloc_loop kend (pages_between (round_up oldsz) newsz) pagetable (round_up oldsz) (round_up oldsz) newsz s)"

text \<open>\<open>freewalk\<close> from entry \<open>i\<close> on; on a cyclic table it would never end.\<close>

partial_function (option) freewalk_from :: "nat \<Rightarrow> nat \<Rightarrow> nat \<Rightarrow> 'a vm_state_scheme \<Rightarrow> 'a vm_state_scheme res option" where
  [code]: "freewalk_from kend pagetable i s =
     (if i < 512 then
        let pte = get64 (pmem s) (pagetable + 8 * i) in
        if pte AND PTE_V \<noteq> 0 \<and> pte AND (PTE_R OR PTE_W OR PTE_X) = 0 then
          obind (freewalk_from kend (PTE2PA pte) 0 s) (\<lambda>s1.
          freewalk_from kend pagetable (i + 1) (set_pmem (put64 (pagetable + 8 * i) 0) s1))
        else if pte AND PTE_V \<noteq> 0 then Some (Inl (Panic ''freewalk: leaf''))
        else freewalk_from kend pagetable (i + 1) s
      else Some (kfree_mp4 kend pagetable s))"

definition freewalk :: "nat \<Rightarrow> nat \<Rightarrow> 'a vm_state_scheme \<Rightarrow> 'a vm_state_scheme res option" where
  "freewalk kend pagetable s = freewalk_from kend pagetable 0 s"

definition uvmfree :: "nat \<Rightarrow> nat \<Rightarrow> u64 \<Rightarrow> 'a vm_state_scheme \<Rightarrow> 'a vm_state_scheme res option" where
  "uvmfree kend pagetable sz s =
     obind (Some (if 0 < sz then uvmunmap kend pagetable 0 (round_up sz div 4096) True s else Inr s)) (freewalk kend pagetable)"

text \<open>The result is 0, or -1 after what was copied has been freed.\<close>

primrec uvmcopy_loop :: "nat \<Rightarrow> nat \<Rightarrow> nat \<Rightarrow> nat \<Rightarrow> u64 \<Rightarrow> 'a vm_state_scheme \<Rightarrow> (int \<times> 'a vm_state_scheme) res" where
  "uvmcopy_loop kend 0 old new i s = Inr (0, s)"
| "uvmcopy_loop kend (Suc n) old new i s =
     rbind (walk old i False s) (\<lambda>(p, s1).
     if p = 0 then Inl (Panic ''uvmcopy: pte should exist'')
     else
       let pte = get64 (pmem s1) p;
           err = (\<lambda>s. rbind (uvmunmap kend new 0 (i div 4096) True s) (\<lambda>s1. Inr (-1, s1)))
       in if pte AND PTE_V = 0 then Inl (Panic ''uvmcopy: page not present'')
          else case kalloc_mp4 s1 of (mem, s2) \<Rightarrow>
            if mem = 0 then err s2
            else
              let s3 = set_pmem (\<lambda>m. memmove m mem (PTE2PA pte) PAGE) s2 in
              rbind (mappages new i 4096 mem (PTE_FLAGS pte) s3) (\<lambda>(r, s4).
              if r \<noteq> 0 then rbind (kfree_mp4 kend mem s4) err
              else uvmcopy_loop kend n old new (i + 4096) s4))"

definition uvmcopy :: "nat \<Rightarrow> nat \<Rightarrow> nat \<Rightarrow> u64 \<Rightarrow> 'a vm_state_scheme \<Rightarrow> (int \<times> 'a vm_state_scheme) res" where
  "uvmcopy kend old new sz s = uvmcopy_loop kend (pages_between 0 sz) old new 0 s"

definition uvmclear :: "nat \<Rightarrow> u64 \<Rightarrow> 'a vm_state_scheme \<Rightarrow> 'a vm_state_scheme res" where
  "uvmclear pagetable va s =
     rbind (walk pagetable va False s) (\<lambda>(p, s1).
     if p = 0 then Inl (Panic ''uvmclear'')
     else Inr (set_pmem (put64 p (get64 (pmem s1) p AND NOT PTE_U)) s1))"

section \<open>Copying between user and kernel\<close>

text \<open>The part of \<open>len\<close> bytes at \<open>va\<close> that lies in the page of \<open>va\<close>.\<close>

definition in_page :: "u64 \<Rightarrow> nat \<Rightarrow> nat" where
  "in_page va len = min len (PAGE - unat (va - round_down va))"

lemma in_page_pos: "0 < len \<Longrightarrow> 0 < in_page va len"
  by (simp add: in_page_def PAGE_def unat_page_offset)

function copyout :: "nat \<Rightarrow> u64 \<Rightarrow> u8 list \<Rightarrow> 'a vm_state_scheme \<Rightarrow> int \<times> 'a vm_state_scheme" where
  "copyout pagetable dstva src s =
     (if src = [] then (0, s)
      else
        let va0 = round_down dstva; pa0 = walkaddr pagetable va0 s; n = in_page dstva (length src)
        in if pa0 = 0 then (-1, s)
           else copyout pagetable (va0 + 4096) (drop n src) (set_pmem (store_bytes (pa0 + unat (dstva - va0)) (take n src)) s))"
  by pat_completeness auto
termination
  by (relation "measure (\<lambda>(pagetable, dstva, src, s). length src)") (auto simp: in_page_pos)

declare copyout.simps [simp del]

text \<open>The results are the bytes that reached the destination and whether all were copied.\<close>

function copyin :: "nat \<Rightarrow> u64 \<Rightarrow> nat \<Rightarrow> 'a vm_state_scheme \<Rightarrow> u8 list \<times> bool" where
  "copyin pagetable srcva len s =
     (if len = 0 then ([], True)
      else
        let va0 = round_down srcva; pa0 = walkaddr pagetable va0 s; n = in_page srcva len
        in if pa0 = 0 then ([], False)
           else
             let a = pa0 + unat (srcva - va0); (bs, ok) = copyin pagetable (va0 + 4096) (len - n) s
             in (map (pmem s) [a..<a + n] @ bs, ok))"
  by pat_completeness auto
termination
  by (relation "measure (\<lambda>(pagetable, srcva, len, s). len)") (auto simp: in_page_pos)

declare copyin.simps [simp del]

function copyinstr :: "nat \<Rightarrow> u64 \<Rightarrow> nat \<Rightarrow> 'a vm_state_scheme \<Rightarrow> u8 list \<times> bool" where
  "copyinstr pagetable srcva max1 s =
     (if max1 = 0 then ([], False)
      else
        let va0 = round_down srcva; pa0 = walkaddr pagetable va0 s; n = in_page srcva max1
        in if pa0 = 0 then ([], False)
           else
             let a = pa0 + unat (srcva - va0); bs = map (pmem s) [a..<a + n]
             in if 0 \<in> set bs then (takeWhile (\<lambda>c. c \<noteq> 0) bs @ [0], True)
                else case copyinstr pagetable (va0 + 4096) (max1 - n) s of (cs, ok) \<Rightarrow> (bs @ cs, ok))"
  by pat_completeness auto
termination
  by (relation "measure (\<lambda>(pagetable, srcva, max1, s). max1)") (auto simp: in_page_pos)

declare copyinstr.simps [simp del]

end
