(* ===== verification/VmTable.thy ===== *)
theory VmTable
  imports Vm FileOps
begin

text \<open>
  A page table as the partial function it denotes: \<open>tbl\<close> finds the table pages by the indices that lead to them, the
  last one first, \<open>mapping\<close> the valid leaf entry of a page number. \<open>table_ok\<close> says that the table is a tree of page-table
  pages none of which is free; \<open>walk\<close>, \<open>mappages\<close> and \<open>uvmunmap\<close> preserve it and act on \<open>mapping\<close> as on a map.
\<close>

unbundle bit_operations_syntax

section \<open>Entries of table pages\<close>

definition next_table :: "cmem \<Rightarrow> nat \<Rightarrow> nat option" where
  "next_table m a = (if get64 m a AND PTE_V \<noteq> 0 then Some (PTE2PA (get64 m a)) else None)"

primrec tbl :: "cmem \<Rightarrow> nat \<Rightarrow> nat list \<Rightarrow> nat option" where
  "tbl m root [] = Some root"
| "tbl m root (i # p) = (case tbl m root p of None \<Rightarrow> None | Some x \<Rightarrow> next_table m (x + 8 * i))"

definition valid_entry :: "cmem \<Rightarrow> nat \<Rightarrow> u64 option" where
  "valid_entry m a = (if get64 m a AND PTE_V \<noteq> 0 then Some (get64 m a) else None)"

definition path :: "nat list \<Rightarrow> bool" where
  "path p \<longleftrightarrow> length p \<le> 2 \<and> (\<forall>i \<in> set p. i < 512)"

text \<open>The indices that lead to the table page of page number \<open>n\<close>, and its entry.\<close>

definition vpath :: "nat \<Rightarrow> nat list" where
  "vpath n = [n div 512 mod 512, n div 512 div 512 mod 512]"

definition VPN :: nat where "VPN = 512 * 512 * 256"

definition mapping :: "cmem \<Rightarrow> nat \<Rightarrow> nat \<Rightarrow> u64 option" where
  "mapping m root n = (if n < VPN then case tbl m root (vpath n) of None \<Rightarrow> None | Some x \<Rightarrow> valid_entry m (x + 8 * (n mod 512)) else None)"

definition page_ok :: "nat \<Rightarrow> bool" where
  "page_ok x \<longleftrightarrow> x mod PAGE = 0 \<and> x \<noteq> 0 \<and> x < 2 ^ 56"

definition table_ok :: "cmem \<Rightarrow> nat \<Rightarrow> nat list \<Rightarrow> bool" where
  "table_ok m root F \<longleftrightarrow> distinct F \<and> (\<forall>r \<in> set F. page_ok r) \<and>
     (\<forall>p x. path p \<longrightarrow> tbl m root p = Some x \<longrightarrow> page_ok x \<and> x \<notin> set F) \<and>
     (\<forall>p q x. path p \<longrightarrow> path q \<longrightarrow> tbl m root p = Some x \<longrightarrow> tbl m root q = Some x \<longrightarrow> p = q)"

text \<open>Entries that lead to table pages have no permission bits, and the upper half of the root, above \<open>MAXVA\<close>, is empty. \<open>freewalk\<close>
  relies on it.\<close>

definition inner_entry :: "u64 \<Rightarrow> bool" where
  "inner_entry e \<longleftrightarrow> e AND (PTE_R OR PTE_W OR PTE_X) = 0"

definition inner_ok :: "cmem \<Rightarrow> nat \<Rightarrow> bool" where
  "inner_ok m root \<longleftrightarrow>
     (\<forall>i p x. path (i # p) \<longrightarrow> tbl m root p = Some x \<longrightarrow> get64 m (x + 8 * i) AND PTE_V \<noteq> 0 \<longrightarrow>
        inner_entry (get64 m (x + 8 * i)) \<and> (p = [] \<longrightarrow> i < 256))"

lemma table_okD:
  assumes "table_ok m root F" "path p" "tbl m root p = Some x"
  shows "page_ok x" "x \<notin> set F" and "path q \<Longrightarrow> tbl m root q = Some x \<Longrightarrow> q = p"
  using assms unfolding table_ok_def by blast+

lemma path_simps [simp]: "path []" "path (i # p) \<longleftrightarrow> i < 512 \<and> path p \<and> length p \<le> 1" "path (vpath n)"
  by (auto simp: path_def vpath_def)

lemma entries_apart:
  assumes "page_ok x" "page_ok y" "i < 512" "j < 512" "x \<noteq> y \<or> i \<noteq> j"
  shows "x + 8 * i + 8 \<le> y + 8 * j \<or> y + 8 * j + 8 \<le> x + 8 * i"
proof -
  obtain a b where ab: "x = 4096 * a" "y = 4096 * b" using assms(1,2) by (auto simp: page_ok_def PAGE_def elim!: dvdE)
  have "512 * a + i \<noteq> 512 * b + j"
  proof
    assume e: "512 * a + i = 512 * b + j"
    have "(512 * a + i) div 512 = a" "(512 * b + j) div 512 = b" using assms(3,4) by simp_all
    then have "a = b" using e by simp
    then show False using e assms(5) ab by simp
  qed
  then show ?thesis using ab by linarith
qed

lemma get64_put_entry:
  assumes "page_ok x" "page_ok y" "i < 512" "j < 512"
  shows "get64 (put64 (x + 8 * i) e m) (y + 8 * j) = (if y = x \<and> j = i then e else get64 m (y + 8 * j))"
  using entries_apart [OF assms] by (auto simp: le64.get_put intro!: le64.get_put_other)

lemma fill_eq: "fill r c m a = (if r \<le> a \<and> a < r + PAGE then c else m a)"
proof -
  have "ucast (ucast c :: u32) = c" by (rule bit_word_eqI) (auto simp: bit_simps)
  then show ?thesis by (simp add: fill_def memset_eq)
qed

lemma fill_fill [simp]: "fill r c (fill r d m) = fill r c m"
  by (rule ext) (simp add: fill_eq)

lemma get64_fill:
  assumes "page_ok r" "page_ok y" "j < 512"
  shows "get64 (fill r 0 m) (y + 8 * j) = (if y = r then 0 else get64 m (y + 8 * j))"
proof (cases "y = r")
  case True
  have "get64 (fill r 0 m) (r + 8 * j) = get64 (\<lambda>_. 0) (r + 8 * j)"
    by (rule le64.get_local) (use assms(3) in \<open>simp add: fill_eq PAGE_def\<close>)
  then show ?thesis using True by (simp add: get64_def get32_def)
next
  case False
  obtain a b where "r = 4096 * a" "y = 4096 * b" using assms(1,2) by (auto simp: page_ok_def PAGE_def elim!: dvdE)
  moreover have "a \<noteq> b" using False calculation by simp
  ultimately have "\<not> (r \<le> y + 8 * j + k \<and> y + 8 * j + k < r + 4096)" if "k < 8" for k
    using that assms(3) by linarith
  then have "get64 (fill r 0 m) (y + 8 * j) = get64 m (y + 8 * j)"
    by (intro le64.get_local) (auto simp: fill_eq PAGE_def)
  then show ?thesis using False by simp
qed

section \<open>Changing an entry\<close>

text \<open>A fresh table page linked at an empty entry of a table page.\<close>

lemma tbl_link:
  assumes ok: "table_ok m root (r # F)" and p: "path (i # p)" and x: "tbl m root p = Some x" and none: "next_table m (x + 8 * i) = None"
    and e: "e AND PTE_V \<noteq> 0" "PTE2PA e = r"
  defines "m' \<equiv> put64 (x + 8 * i) e (fill r 0 m)"
  shows "path q \<Longrightarrow> tbl m' root q = (if q = i # p then Some r else tbl m root q)"
proof (induction q)
  case (Cons j q)
  have r: "page_ok r" using ok by (simp add: table_ok_def)
  have pp: "path p" "i < 512" using p by simp_all
  note X = table_okD [OF ok pp(1) x]
  have j: "j < 512" "path q" "length q \<le> 1" using Cons.prems by simp_all
  have IH: "tbl m' root q = (if q = i # p then Some r else tbl m root q)" by (rule Cons.IH [OF j(2)])
  show ?case
  proof (cases "q = i # p")
    case True
    have "x \<noteq> r" using X by auto
    then have "get64 m' (r + 8 * j) = 0"
      unfolding m'_def using get64_put_entry [OF X(1) r pp(2) j(1)] get64_fill [OF r r j(1)] by simp
    then show ?thesis using True IH x none by (auto simp: next_table_def)
  next
    case False
    show ?thesis
    proof (cases "tbl m root q")
      case None
      then have "j # q \<noteq> i # p" using x by auto
      then show ?thesis using None IH False by simp
    next
      case (Some y)
      note Y = table_okD [OF ok j(2) Some]
      have "y \<noteq> r" using Y by auto
      then have g: "get64 m' (y + 8 * j) = (if y = x \<and> j = i then e else get64 m (y + 8 * j))"
        unfolding m'_def using get64_put_entry [OF X(1) Y(1) pp(2) j(1)] get64_fill [OF r Y(1) j(1)] by simp
      have "y = x \<longleftrightarrow> q = p" using X(3) [OF j(2)] Some x by auto
      then have g: "get64 m' (y + 8 * j) = (if q = p \<and> j = i then e else get64 m (y + 8 * j))" using g by simp
      have n: "next_table m' (y + 8 * j) = (if q = p \<and> j = i then Some r else next_table m (y + 8 * j))"
        unfolding next_table_def g using e by simp
      show ?thesis using IH False Some by (simp add: n)
    qed
  qed
qed simp

lemma mapping_link:
  assumes ok: "table_ok m root (r # F)" and p: "path (i # p)" and x: "tbl m root p = Some x" and none: "next_table m (x + 8 * i) = None"
    and e: "e AND PTE_V \<noteq> 0" "PTE2PA e = r"
  defines "m' \<equiv> put64 (x + 8 * i) e (fill r 0 m)"
  shows "table_ok m' root F" and "mapping m' root n = mapping m root n"
    and "inner_ok m root \<Longrightarrow> inner_entry e \<Longrightarrow> (p = [] \<Longrightarrow> i < 256) \<Longrightarrow> inner_ok m' root"
proof -
  have t: "path q \<Longrightarrow> tbl m' root q = (if q = i # p then Some r else tbl m root q)" for q
    unfolding m'_def by (rule tbl_link [OF ok p x none e])
  have r: "page_ok r" "r \<notin> set F" using ok by (simp_all add: table_ok_def)
  have pp: "path p" "i < 512" using p by simp_all
  note X = table_okD [OF ok pp(1) x]
  have new: "tbl m root (i # p) = None" using x none by simp
  show "table_ok m' root F"
    unfolding table_ok_def
  proof (intro conjI allI impI)
    show "distinct F" using ok by (simp add: table_ok_def)
    show "\<forall>r \<in> set F. page_ok r" using ok by (simp add: table_ok_def)
  next
    fix q y assume q: "path q" "tbl m' root q = Some y"
    have "y = r \<or> tbl m root q = Some y" using q(2) t [OF q(1)] by (cases "q = i # p") simp_all
    then have "page_ok y \<and> y \<notin> set F" using r table_okD(1,2) [OF ok q(1)] by auto
    then show "page_ok y" "y \<notin> set F" by simp_all
  next
    fix q q' y assume q: "path q" "path q'" "tbl m' root q = Some y" "tbl m' root q' = Some y"
    have nr: "tbl m root u = Some z \<Longrightarrow> path u \<Longrightarrow> z \<noteq> r" for u z using table_okD(2) [OF ok, of u z] by auto
    show "q = q'"
    proof (cases "q = i # p \<or> q' = i # p")
      case True
      then have "y = r" using q t by auto
      then show ?thesis using q t nr by (metis)
    next
      case False
      then show ?thesis using q t table_okD(3) [OF ok q(2) _ q(1)] by simp
    qed
  qed
  show "mapping m' root n = mapping m root n"
  proof (cases "tbl m root (vpath n)")
    case None
    have z: "get64 m' (r + 8 * (n mod 512)) = 0"
      unfolding m'_def using get64_put_entry [OF X(1) r(1) pp(2), of "n mod 512"] get64_fill [OF r(1) r(1), of "n mod 512"] X(2) by auto
    then show ?thesis using None t [of "vpath n"] by (auto simp: mapping_def valid_entry_def)
  next
    case (Some y)
    then have ne: "vpath n \<noteq> i # p" using new by auto
    note Y = table_okD [OF ok path_simps(3) Some]
    have "length (vpath n) \<noteq> length p" using p by (simp add: vpath_def)
    then have "vpath n \<noteq> p" by metis
    then have xy: "y \<noteq> x" using X(3) [OF path_simps(3)] Some by metis
    have yr: "y \<noteq> r" using Y(2) by auto
    then have "get64 m' (y + 8 * (n mod 512)) = get64 m (y + 8 * (n mod 512))"
      unfolding m'_def using get64_put_entry [OF X(1) Y(1) pp(2), of "n mod 512"] get64_fill [OF r(1) Y(1), of "n mod 512"] xy yr by simp
    then show ?thesis using Some ne t [of "vpath n"] by (simp add: mapping_def valid_entry_def)
  qed
  assume inner: "inner_ok m root" "inner_entry e" "p = [] \<Longrightarrow> i < 256"
  show "inner_ok m' root"
    unfolding inner_ok_def
  proof (intro allI impI)
    fix j q y assume q: "path (j # q)" "tbl m' root q = Some y" "get64 m' (y + 8 * j) AND PTE_V \<noteq> 0"
    have qp: "path q" "j < 512" using q(1) by simp_all
    have put: "get64 m' (z + 8 * j) = (if z = x \<and> j = i then e else get64 (fill r 0 m) (z + 8 * j))" if "page_ok z" for z
      unfolding m'_def by (rule get64_put_entry [OF X(1) that pp(2) qp(2)])
    show "inner_entry (get64 m' (y + 8 * j)) \<and> (q = [] \<longrightarrow> j < 256)"
    proof (cases "q = i # p")
      case True
      then have "y = r" using q(2) t [OF qp(1)] by simp
      moreover have "r \<noteq> x" using X(2) by auto
      ultimately have "get64 m' (y + 8 * j) = 0" using put [OF r(1)] get64_fill [OF r(1) r(1) qp(2)] by simp
      then show ?thesis using q(3) by simp
    next
      case False
      then have y: "tbl m root q = Some y" using q(2) t [OF qp(1)] by simp
      note Y = table_okD [OF ok qp(1) y]
      have "y \<noteq> r" using Y(2) by auto
      then have g: "get64 m' (y + 8 * j) = (if y = x \<and> j = i then e else get64 m (y + 8 * j))"
        using put [OF Y(1)] get64_fill [OF r(1) Y(1) qp(2)] by simp
      show ?thesis
      proof (cases "y = x \<and> j = i")
        case True
        then have "q = p" using Y(3) [OF pp(1)] x by simp
        then show ?thesis using inner(2,3) g True by simp
      next
        case False
        then have g': "get64 m' (y + 8 * j) = get64 m (y + 8 * j)" unfolding g by (rule if_not_P)
        show ?thesis using inner(1) [unfolded inner_ok_def, rule_format, OF q(1) y] q(3) unfolding g' by simp
      qed
    qed
  qed
qed

text \<open>A leaf entry changed.\<close>

lemma vpath_inj:
  assumes "vpath n = vpath u" "n mod 512 = u mod 512" "n < VPN" "u < VPN"
  shows "n = u"
proof -
  have s: "n div 512 div 512 mod 512 = n div 512 div 512" if "n < VPN" for n
    using that by (simp add: VPN_def less_mult_imp_div_less div_mult2_eq [symmetric])
  have "n div 512 div 512 = u div 512 div 512" using assms s [of n] s [of u] by (simp add: vpath_def)
  moreover have "n div 512 mod 512 = u div 512 mod 512" using assms(1) by (simp add: vpath_def)
  ultimately have "n div 512 = u div 512" by (metis div_mult_mod_eq)
  then show ?thesis using assms(2) by (metis div_mult_mod_eq)
qed

lemma mapping_put:
  fixes e :: u64
  assumes ok: "table_ok m root F" and x: "tbl m root (vpath n) = Some x" and n: "n < VPN"
  defines "m' \<equiv> put64 (x + 8 * (n mod 512)) e m"
  shows "path q \<Longrightarrow> tbl m' root q = tbl m root q" and "table_ok m' root F"
    and "mapping m' root = (mapping m root)(n := if e AND PTE_V \<noteq> 0 then Some e else None)"
    and "inner_ok m root \<Longrightarrow> inner_ok m' root"
proof -
  note X = table_okD [OF ok path_simps(3) x]
  have t: "path q \<Longrightarrow> tbl m' root q = tbl m root q" for q
  proof (induction q)
    case (Cons j q)
    then have j: "j < 512" "path q" "length q \<le> 1" by simp_all
    have IH: "tbl m' root q = tbl m root q" by (rule Cons.IH [OF j(2)])
    show ?case
    proof (cases "tbl m root q")
      case (Some y)
      note Y = table_okD [OF ok j(2) Some]
      have "length (vpath n) \<noteq> length q" using j by (simp add: vpath_def)
      then have "y \<noteq> x" using Y(3) [OF path_simps(3)] x by metis
      then have "get64 m' (y + 8 * j) = get64 m (y + 8 * j)"
        unfolding m'_def using get64_put_entry [OF X(1) Y(1) _ j(1), of "n mod 512"] by simp
      then show ?thesis using IH by (simp add: Some next_table_def)
    qed (use IH in simp)
  qed simp
  show "path q \<Longrightarrow> tbl m' root q = tbl m root q" by (rule t)
  show "table_ok m' root F"
    using ok t unfolding table_ok_def by metis
  show "mapping m' root = (mapping m root)(n := if e AND PTE_V \<noteq> 0 then Some e else None)"
  proof
    fix u
    show "mapping m' root u = ((mapping m root)(n := if e AND PTE_V \<noteq> 0 then Some e else None)) u"
    proof (cases "u < VPN \<and> tbl m root (vpath u) \<noteq> None")
      case True
      then obtain y where y: "tbl m root (vpath u) = Some y" by auto
      note Y = table_okD [OF ok path_simps(3) y]
      have e: "y = x \<and> u mod 512 = n mod 512 \<longleftrightarrow> u = n"
        using X(3) [OF path_simps(3), of u] vpath_inj [of u n] True n x y by auto
      have "get64 m' (y + 8 * (u mod 512)) = (if y = x \<and> u mod 512 = n mod 512 then e else get64 m (y + 8 * (u mod 512)))"
        unfolding m'_def by (rule get64_put_entry [OF X(1) Y(1)]) simp_all
      then have g: "get64 m' (y + 8 * (u mod 512)) = (if u = n then e else get64 m (y + 8 * (u mod 512)))" unfolding e .
      have "valid_entry m' (y + 8 * (u mod 512)) =
        (if u = n then if e AND PTE_V \<noteq> 0 then Some e else None else valid_entry m (y + 8 * (u mod 512)))"
        unfolding valid_entry_def g by simp
      then show ?thesis using True y t [of "vpath u"] by (simp add: mapping_def)
    qed (use n x t [of "vpath u"] in \<open>auto simp: mapping_def\<close>)
  qed
  show "inner_ok m' root" if inner: "inner_ok m root"
    unfolding inner_ok_def
  proof (intro allI impI)
    fix j q y assume q: "path (j # q)" "tbl m' root q = Some y" "get64 m' (y + 8 * j) AND PTE_V \<noteq> 0"
    have qp: "path q" "j < 512" "length q \<le> 1" using q(1) by simp_all
    have y: "tbl m root q = Some y" using q(2) t [OF qp(1)] by simp
    note Y = table_okD [OF ok qp(1) y]
    have "length (vpath n) \<noteq> length q" using qp(3) by (simp add: vpath_def)
    then have "y \<noteq> x" using Y(3) [OF path_simps(3)] x by metis
    then have "get64 m' (y + 8 * j) = get64 m (y + 8 * j)"
      unfolding m'_def using get64_put_entry [OF X(1) Y(1) _ qp(2), of "n mod 512"] by simp
    then show "inner_entry (get64 m' (y + 8 * j)) \<and> (q = [] \<longrightarrow> j < 256)" using inner [unfolded inner_ok_def, rule_format, OF q(1) y] q(3) by simp
  qed
qed

section \<open>Walking\<close>

definition vpn :: "u64 \<Rightarrow> nat" where "vpn va = unat va div PAGE"

lemma vpn_path: "vpath (vpn va) = [PX 1 va, PX 2 va]" "vpn va mod 512 = PX 0 va"
  by (simp_all add: vpath_def vpn_def PX_eq PAGE_def div_mult2_eq [symmetric])

lemma MAXVA_vpn: "va < MAXVA \<longleftrightarrow> vpn va < VPN"
  by (simp add: MAXVA_def vpn_def VPN_def PAGE_def word_less_nat_alt div_less_iff_less_mult)

lemma walk_level_find:
  "walk_level False level va x s = (next_table (pmem s) (x + 8 * PX level va), s)"
  by (simp add: walk_level_def next_table_def)

text \<open>Looking up finds the entry of the page number.\<close>

lemma walk_find:
  assumes "va < MAXVA"
  shows "walk root va False s =
    Inr (case tbl (pmem s) root (vpath (vpn va)) of None \<Rightarrow> 0 | Some x \<Rightarrow> x + 8 * (vpn va mod 512), s)"
  using assms by (auto simp: walk_def walk_level_find vpn_path split: option.split)

text \<open>What a walk that may allocate changes: bytes of table pages and of pages that were free, but no mapping.\<close>

definition tables :: "cmem \<Rightarrow> nat \<Rightarrow> nat set" where
  "tables m root = {x. \<exists>p. path p \<and> tbl m root p = Some x}"

definition in_pages :: "nat set \<Rightarrow> nat \<Rightarrow> bool" where
  "in_pages X a \<longleftrightarrow> (\<exists>x \<in> X. x \<le> a \<and> a < x + PAGE)"

definition same_else :: "nat set \<Rightarrow> 'a vm_state_scheme \<Rightarrow> 'a vm_state_scheme \<Rightarrow> bool" where
  "same_else X s t \<longleftrightarrow> t = s\<lparr>pages := pages t, pmem := pmem t\<rparr> \<and> (\<forall>a. \<not> in_pages X a \<longrightarrow> pmem t a = pmem s a)"

definition grown :: "nat \<Rightarrow> 'a vm_state_scheme \<Rightarrow> 'a vm_state_scheme \<Rightarrow> bool" where
  "grown root s t \<longleftrightarrow> table_ok (pmem t) root (pages t) \<and>
     (\<forall>q x. path q \<longrightarrow> tbl (pmem s) root q = Some x \<longrightarrow> tbl (pmem t) root q = Some x) \<and>
     (\<exists>ps. pages s = ps @ pages t) \<and>
     tables (pmem t) root \<subseteq> tables (pmem s) root \<union> set (pages s) \<and>
     set (pages s) \<subseteq> tables (pmem t) root \<union> set (pages t) \<and> (inner_ok (pmem s) root \<longrightarrow> inner_ok (pmem t) root) \<and>
     same_else (tables (pmem s) root \<union> set (pages s)) s t"

lemma in_pages_mono: "in_pages X a \<Longrightarrow> X \<subseteq> Y \<Longrightarrow> in_pages Y a"
  by (auto simp: in_pages_def)

lemma same_else_trans:
  assumes "same_else X s t" "same_else Y t u" "Y \<subseteq> X"
  shows "same_else X s u"
proof -
  have t: "t = s\<lparr>pages := pages t, pmem := pmem t\<rparr>" and u: "u = t\<lparr>pages := pages u, pmem := pmem u\<rparr>"
    using assms(1,2) by (simp_all add: same_else_def)
  have "t\<lparr>pages := p, pmem := m\<rparr> = s\<lparr>pages := p, pmem := m\<rparr>" for p m by (subst t) simp
  then have "u = s\<lparr>pages := pages u, pmem := pmem u\<rparr>" using u by (rule trans [rotated])
  moreover have "pmem u a = pmem s a" if "\<not> in_pages X a" for a
  proof -
    have "\<not> in_pages Y a" using that in_pages_mono [OF _ assms(3)] by blast
    then show ?thesis using that assms(1,2) by (simp add: same_else_def)
  qed
  ultimately show ?thesis by (simp only: same_else_def) blast
qed

lemma grown_refl: "table_ok (pmem s) root (pages s) \<Longrightarrow> grown root s s"
  by (simp add: grown_def same_else_def)

lemma grown_trans:
  assumes "grown root s t" "grown root t u"
  shows "grown root s u"
proof -
  have "set (pages t) \<subseteq> set (pages s)" using assms(1) unfolding grown_def by auto
  then have sub: "tables (pmem t) root \<union> set (pages t) \<subseteq> tables (pmem s) root \<union> set (pages s)"
    using assms(1) unfolding grown_def by auto
  have "same_else (tables (pmem s) root \<union> set (pages s)) s u"
    using same_else_trans [OF _ _ sub] assms unfolding grown_def by blast
  moreover have "\<exists>ps. pages s = ps @ pages u" using assms unfolding grown_def by force
  moreover have "set (pages s) \<subseteq> tables (pmem u) root \<union> set (pages u)"
    using assms unfolding grown_def tables_def by blast
  ultimately show ?thesis using assms sub unfolding grown_def by blast
qed

lemma entry_valid: "(x OR PTE_V) AND PTE_V \<noteq> 0"
proof -
  have "(x OR PTE_V) AND PTE_V = PTE_V" by (rule bit_word_eqI) (auto simp: bit_simps)
  then show ?thesis by (simp add: PTE_V_def)
qed

lemma inner_new: "inner_entry (PA2PTE a OR PTE_V)"
proof -
  have m: "(14 :: u64) = mask 10 AND 14" by (simp add: mask_eq_exp_minus_1)
  have t: "take_bit 10 (PA2PTE a OR PTE_V) = PTE_V" by (rule bit_word_eqI) (auto simp: PA2PTE_def PTE_V_def bit_simps)
  have "(PA2PTE a OR PTE_V) AND 14 = take_bit 10 (PA2PTE a OR PTE_V) AND 14"
    by (subst m) (simp only: take_bit_eq_mask and.assoc)
  also have "\<dots> = 0" unfolding t by (simp add: PTE_V_def)
  finally show ?thesis by (simp add: inner_entry_def PTE_R_def PTE_W_def PTE_X_def)
qed

lemma walk_level_alloc:
  assumes ok: "table_ok (pmem s) root (pages s)" and p: "path (PX level va # p)" and x: "tbl (pmem s) root p = Some x"
    and w: "walk_level True level va x s = (r, t)" and half: "p = [] \<Longrightarrow> PX level va < 256"
  shows "grown root s t" and "mapping (pmem t) root = mapping (pmem s) root"
    and "r = Some y \<Longrightarrow> tbl (pmem t) root (PX level va # p) = Some y"
    and "r = None \<Longrightarrow> pages t = []" and "length (pages s) \<le> Suc (length (pages t))"
proof -
  let ?i = "PX level va" let ?m = "pmem s"
  have pp: "path p" "?i < 512" using p by simp_all
  have X: "page_ok x" "x \<notin> set (pages s)" by (rule table_okD [OF ok pp(1) x])+
  have all: "grown root s t \<and> mapping (pmem t) root = mapping (pmem s) root \<and>
    (\<forall>y. r = Some y \<longrightarrow> tbl (pmem t) root (?i # p) = Some y) \<and> (r = None \<longrightarrow> pages t = []) \<and> length (pages s) \<le> Suc (length (pages t))"
  proof (cases "next_table ?m (x + 8 * ?i)")
    case (Some y)
    then have "r = Some y" "t = s" using w by (auto simp: walk_level_def next_table_def split: if_splits)
    then show ?thesis using grown_refl [OF ok] Some x by simp
  next
    case None
    then have v: "get64 ?m (x + 8 * ?i) AND PTE_V = 0" by (simp add: next_table_def split: if_splits)
    show ?thesis
    proof (cases "pages s")
      case Nil
      then have "r = None" "t = s" using w v by (simp_all add: walk_level_def kalloc_mp4_def page_alloc_def)
      then show ?thesis using grown_refl [OF ok] Nil by simp
    next
      case (Cons a F)
      have a: "page_ok a" "a \<noteq> 0" using ok Cons by (auto simp: table_ok_def page_ok_def)
      let ?m' = "put64 (x + 8 * ?i) (PA2PTE a OR PTE_V) (fill a 0 ?m)"
      have rt: "r = Some a" "t = s\<lparr>pages := F, pmem := ?m'\<rparr>"
        using w v a Cons by (simp_all add: walk_level_def kalloc_mp4_def page_alloc_def set_pmem_def)
      have e: "PTE2PA (PA2PTE a OR PTE_V) = a"
        using a(1) by (intro PTE2PA_entry) (simp_all add: page_ok_def PTE_V_def)
      have ok': "table_ok ?m root (a # F)" using ok Cons by simp
      note L = tbl_link [OF ok' p x None entry_valid e] and M = mapping_link [OF ok' p x None entry_valid e]
      have new: "tbl ?m root (?i # p) = None" using None x by simp
      have "tables ?m' root \<subseteq> tables ?m root \<union> set (pages s)"
        using Cons by (auto simp: tables_def L split: if_splits)
      moreover have "?m' b = ?m b" if "\<not> in_pages (tables ?m root \<union> set (pages s)) b" for b
      proof -
        have "x \<in> tables ?m root" using pp(1) x by (auto simp: tables_def)
        then have "b < x \<or> x + 4096 \<le> b" "b < a \<or> a + 4096 \<le> b"
          using that Cons by (auto simp: in_pages_def PAGE_def not_le not_less)
        then show ?thesis using pp(2) le64.put_frame [of b "x + 8 * ?i"] by (auto simp: fill_eq PAGE_def)
      qed
      moreover have "\<forall>q y. path q \<longrightarrow> tbl ?m root q = Some y \<longrightarrow> tbl ?m' root q = Some y"
        using L new by auto
      moreover have "mapping ?m' root = mapping ?m root" by (rule ext) (rule M(2))
      moreover have "inner_entry (PA2PTE a OR PTE_V)"
        by (rule inner_new)
      then have "inner_ok ?m root \<longrightarrow> inner_ok ?m' root" using M(3) half by blast
      moreover have "tbl ?m' root (?i # p) = Some a" using L [OF p] by (simp only: if_True refl)
      then have "a \<in> tables ?m' root" unfolding tables_def using p by blast
      ultimately show ?thesis
        using M(1) L [OF p] Cons by (simp add: rt grown_def same_else_def)
    qed
  qed
  show "grown root s t" "mapping (pmem t) root = mapping (pmem s) root" "length (pages s) \<le> Suc (length (pages t))"
    "r = Some y \<Longrightarrow> tbl (pmem t) root (PX level va # p) = Some y" "r = None \<Longrightarrow> pages t = []"
    using all by simp_all
qed

lemma grown_ok: "grown root s t \<Longrightarrow> table_ok (pmem t) root (pages t)"
  by (simp add: grown_def)

lemma walk_alloc:
  assumes ok: "table_ok (pmem s) root (pages s)" and va: "va < MAXVA"
  shows "\<exists>a t. walk root va True s = Inr (a, t) \<and> grown root s t \<and> mapping (pmem t) root = mapping (pmem s) root \<and>
    (a = 0 \<longrightarrow> pages t = []) \<and> (a \<noteq> 0 \<longrightarrow> (\<exists>x. tbl (pmem t) root (vpath (vpn va)) = Some x \<and> a = x + 8 * (vpn va mod 512))) \<and>
    length (pages s) \<le> length (pages t) + 2"
proof -
  have i: "PX level va < 512" for level by (simp add: PX_eq)
  obtain r1 s1 where w1: "walk_level True 2 va root s = (r1, s1)" by fastforce
  have p1: "path (PX 2 va # [])" using i by simp
  have half: "PX 2 va < 256"
    using va by (simp add: PX_eq MAXVA_def word_less_nat_alt less_mult_imp_div_less)
  note L1 = walk_level_alloc [OF ok p1 _ w1 half]
  show ?thesis
  proof (cases r1)
    case None
    then show ?thesis using L1 w1 va by (auto simp: walk_def)
  next
    case (Some y)
    have ok1: "table_ok (pmem s1) root (pages s1)" using L1(1) by (simp add: grown_ok)
    obtain r2 s2 where w2: "walk_level True 1 va y s1 = (r2, s2)" by fastforce
    have p2: "path (PX 1 va # [PX 2 va])" using i by simp
    have y: "tbl (pmem s1) root [PX 2 va] = Some y" using L1(3) Some by simp
    note L2 = walk_level_alloc [OF ok1 p2 y w2, simplified]
    have g: "grown root s s2" using grown_trans L1(1) L2(1) by force
    have m: "mapping (pmem s2) root = mapping (pmem s) root" using L1(2) L2(2) by simp
    have len: "length (pages s) \<le> length (pages s2) + 2" using L1(5) L2(5) by simp
    show ?thesis
    proof (cases r2)
      case None
      then show ?thesis using L2(4) g m len w1 w2 Some va by (auto simp: walk_def)
    next
      case r2: (Some z)
      have z: "tbl (pmem s2) root (vpath (vpn va)) = Some z" using L2(3) [OF r2] by (simp add: vpn_path)
      have "z \<noteq> 0" using table_okD(1) [OF grown_ok [OF g] path_simps(3) z] by (simp add: page_ok_def)
      then show ?thesis using r2 z g m len w1 w2 Some va by (simp add: walk_def vpn_path)
    qed
  qed
qed

lemma grown_put:
  assumes g: "grown root s t" and x: "tbl (pmem t) root (vpath n) = Some x" and n: "n < VPN"
  shows "grown root s (set_pmem (put64 (x + 8 * (n mod 512)) e) t)"
proof -
  note M = mapping_put [OF grown_ok [OF g] x n, where e = e]
  let ?X = "tables (pmem s) root \<union> set (pages s)"
  let ?m = "put64 (x + 8 * (n mod 512)) e (pmem t)"
  have "x \<in> ?X" using x g path_simps(3) unfolding grown_def tables_def by blast
  then have "?m a = pmem t a" if "\<not> in_pages ?X a" for a
  proof -
    have "a < x \<or> x + 4096 \<le> a" using that \<open>x \<in> ?X\<close> unfolding in_pages_def PAGE_def by (meson not_less)
    moreover have "n mod 512 < 512" by simp
    ultimately show ?thesis by (intro le64.put_frame) linarith
  qed
  then have "same_else ?X t (set_pmem (put64 (x + 8 * (n mod 512)) e) t)"
    by (simp add: same_else_def set_pmem_def)
  then have "same_else ?X s (set_pmem (put64 (x + 8 * (n mod 512)) e) t)"
    using g same_else_trans [of ?X s t ?X] unfolding grown_def by blast
  moreover have "tables ?m root = tables (pmem t) root" by (auto simp: tables_def M(1))
  ultimately show ?thesis using g M(1,2,4) unfolding grown_def by (simp add: set_pmem_def)
qed

section \<open>Mapping pages\<close>

definition entry :: "nat \<Rightarrow> u64 \<Rightarrow> u64" where "entry pa perm = PA2PTE pa OR perm OR PTE_V"

lemma map_page_spec:
  assumes ok: "table_ok (pmem s) root (pages s)" and a: "a < MAXVA" and free: "mapping (pmem s) root (vpn a) = None"
  shows "\<exists>r t. map_page root a pa perm s = Inr (r, t) \<and> grown root s t \<and> length (pages s) \<le> length (pages t) + 2 \<and>
    (r = 0 \<and> mapping (pmem t) root = (mapping (pmem s) root)(vpn a \<mapsto> entry pa perm) \<or>
     r = -1 \<and> mapping (pmem t) root = mapping (pmem s) root \<and> pages t = [])"
proof -
  obtain p t where w: "walk root a True s = Inr (p, t)" "grown root s t" "mapping (pmem t) root = mapping (pmem s) root"
      "p = 0 \<longrightarrow> pages t = []" "p \<noteq> 0 \<longrightarrow> (\<exists>x. tbl (pmem t) root (vpath (vpn a)) = Some x \<and> p = x + 8 * (vpn a mod 512))"
      "length (pages s) \<le> length (pages t) + 2"
    using walk_alloc [OF ok a] by (elim exE conjE) (rule that)
  show ?thesis
  proof (cases "p = 0")
    case True
    then have "map_page root a pa perm s = Inr (-1, t)" using w(1) by (simp add: map_page_def)
    then show ?thesis using w(2,3,4,6) True by (intro exI [of _ "-1"] exI [of _ t]) simp
  next
    case False
    obtain x where x: "tbl (pmem t) root (vpath (vpn a)) = Some x" "p = x + 8 * (vpn a mod 512)" using w(5) False by blast
    have n: "vpn a < VPN" using a by (simp add: MAXVA_vpn)
    have "mapping (pmem t) root (vpn a) = None" using free w(3) by simp
    then have "valid_entry (pmem t) p = None" using x n by (simp add: mapping_def)
    then have "get64 (pmem t) p AND PTE_V = 0" by (simp add: valid_entry_def split: if_splits)
    then have eq: "map_page root a pa perm s = Inr (0, set_pmem (put64 p (entry pa perm)) t)"
      using False w(1) by (simp add: map_page_def entry_def)
    have v: "entry pa perm AND PTE_V \<noteq> 0" unfolding entry_def by (metis entry_valid or.assoc)
    have m: "mapping (put64 p (entry pa perm) (pmem t)) root = (mapping (pmem s) root)(vpn a \<mapsto> entry pa perm)"
      using mapping_put(3) [OF grown_ok [OF w(2)] x(1) n, of "entry pa perm"] v w(3) x(2) by simp
    have g: "grown root s (set_pmem (put64 p (entry pa perm)) t)" using grown_put [OF w(2) x(1) n] x(2) by simp
    show ?thesis
      by (rule exI [of _ 0], rule exI [of _ "set_pmem (put64 p (entry pa perm)) t"])
        (use eq m g w(6) in \<open>simp add: set_pmem_def\<close>)
  qed
qed

lemma walk_present:
  assumes x: "tbl (pmem s) root (vpath (vpn va)) = Some x" and va: "va < MAXVA"
  shows "walk root va alloc s = Inr (x + 8 * (vpn va mod 512), s)"
proof -
  have found: "walk_level alloc level va x s = (Some y, s)" if "next_table (pmem s) (x + 8 * PX level va) = Some y" for level x y
    using that by (auto simp: walk_level_def next_table_def split: if_splits)
  obtain y where y: "next_table (pmem s) (root + 8 * PX 2 va) = Some y" "next_table (pmem s) (y + 8 * PX 1 va) = Some x"
    using x by (auto simp: vpn_path split: option.splits)
  show ?thesis using va found [OF y(1)] found [OF y(2)] by (simp add: walk_def vpn_path not_le)
qed

lemma map_page_remap:
  assumes ok: "table_ok (pmem s) root (pages s)" and a: "a < MAXVA" and used: "mapping (pmem s) root (vpn a) \<noteq> None"
  shows "map_page root a pa perm s = Inl (Panic ''remap'')"
proof -
  obtain x where x: "tbl (pmem s) root (vpath (vpn a)) = Some x" and v: "valid_entry (pmem s) (x + 8 * (vpn a mod 512)) \<noteq> None"
    using used by (auto simp: mapping_def split: if_splits option.splits)
  have "x \<noteq> 0" using table_okD(1) [OF ok path_simps(3) x] by (simp add: page_ok_def)
  then show ?thesis using v by (simp add: map_page_def walk_present [OF x a] valid_entry_def split: if_splits)
qed

text \<open>\<open>k\<close> pages from page number \<open>v\<close> on mapped to consecutive physical pages.\<close>

definition map_range :: "(nat \<Rightarrow> u64 option) \<Rightarrow> nat \<Rightarrow> nat \<Rightarrow> nat \<Rightarrow> u64 \<Rightarrow> nat \<Rightarrow> u64 option" where
  "map_range f v k pa perm = (\<lambda>u. if v \<le> u \<and> u < v + k then Some (entry (pa + (u - v) * PAGE) perm) else f u)"

lemma map_range_0: "map_range f v 0 pa perm = f"
  by (rule ext) (auto simp: map_range_def)

lemma map_range_Suc: "map_range f v (Suc k) pa perm = map_range (f(v \<mapsto> entry pa perm)) (Suc v) k (pa + PAGE) perm"
  by (rule ext) (auto simp: map_range_def Suc_diff_le add.assoc dest!: le_neq_implies_less less_imp_Suc_add)

lemma vpn_next:
  assumes "vpn a < VPN" "unat a mod PAGE = 0"
  shows "vpn (a + 4096) = Suc (vpn a)" "unat (a + 4096) mod PAGE = 0"
proof -
  have "unat a < VPN * PAGE" using assms(1) by (simp add: vpn_def PAGE_def VPN_def div_less_iff_less_mult)
  then have "unat (a + 4096) = unat a + 4096" by (subst unat_add_lem [THEN iffD1]) (simp_all add: VPN_def PAGE_def)
  then show "vpn (a + 4096) = Suc (vpn a)" "unat (a + 4096) mod PAGE = 0" using assms(2) by (simp_all add: vpn_def PAGE_def)
qed

lemma mappages_loop_spec:
  assumes "table_ok (pmem s) root (pages s)" "unat a mod PAGE = 0" "vpn a + n < VPN"
    "\<And>u. vpn a \<le> u \<Longrightarrow> u \<le> vpn a + n \<Longrightarrow> mapping (pmem s) root u = None"
  shows "\<exists>r t k. mappages_loop n root a pa perm s = Inr (r, t) \<and> grown root s t \<and>
    mapping (pmem t) root = map_range (mapping (pmem s) root) (vpn a) k pa perm \<and>
    (r = 0 \<and> k = Suc n \<or> r = -1 \<and> k \<le> n \<and> pages t = []) \<and> length (pages s) \<le> length (pages t) + 2 * Suc n"
  using assms
proof (induction n arbitrary: s a pa)
  case 0
  have "a < MAXVA" "mapping (pmem s) root (vpn a) = None" using 0 by (simp_all add: MAXVA_vpn)
  from map_page_spec [OF 0(1) this, of pa perm] obtain r t where "map_page root a pa perm s = Inr (r, t) \<and> grown root s t \<and>
    length (pages s) \<le> length (pages t) + 2 \<and>
    (r = 0 \<and> mapping (pmem t) root = (mapping (pmem s) root)(vpn a \<mapsto> entry pa perm) \<or>
     r = -1 \<and> mapping (pmem t) root = mapping (pmem s) root \<and> pages t = [])" by blast
  then show ?case
    by (intro exI [of _ r] exI [of _ t] exI [of _ "if r = 0 then 1 else 0"]) (auto simp: map_range_Suc map_range_0)
next
  case (Suc n)
  have a: "a < MAXVA" "mapping (pmem s) root (vpn a) = None" using Suc.prems by (simp_all add: MAXVA_vpn)
  obtain r t where m: "map_page root a pa perm s = Inr (r, t)" "grown root s t" "length (pages s) \<le> length (pages t) + 2"
      "r = 0 \<and> mapping (pmem t) root = (mapping (pmem s) root)(vpn a \<mapsto> entry pa perm) \<or>
       r = -1 \<and> mapping (pmem t) root = mapping (pmem s) root \<and> pages t = []"
    using map_page_spec [OF Suc.prems(1) a] by blast
  show ?case
  proof (cases "r = 0")
    case False
    then have "r = -1" using m(4) by simp
    then have "mappages_loop (Suc n) root a pa perm s = Inr (-1, t)" using m(1) by simp
    then show ?thesis using m False map_range_0 by (intro exI [of _ "-1"] exI [of _ t] exI [of _ 0]) auto
  next
    case True
    have vn: "vpn a < VPN" using Suc.prems(3) by simp
    note N = vpn_next [OF vn Suc.prems(2)]
    have mt: "mapping (pmem t) root = (mapping (pmem s) root)(vpn a \<mapsto> entry pa perm)" using m(4) True by simp
    have free: "mapping (pmem t) root u = None" if "vpn (a + 4096) \<le> u" "u \<le> vpn (a + 4096) + n" for u
      using that Suc.prems(4) [of u] N(1) by (simp add: mt)
    have "vpn (a + 4096) + n < VPN" using Suc.prems(3) N(1) by simp
    from Suc.IH [OF grown_ok [OF m(2)] N(2) this free]
    obtain r' u k where u: "mappages_loop n root (a + 4096) (pa + PAGE) perm t = Inr (r', u)" "grown root t u"
        "mapping (pmem u) root = map_range (mapping (pmem t) root) (vpn (a + 4096)) k (pa + PAGE) perm"
        "r' = 0 \<and> k = Suc n \<or> r' = -1 \<and> k \<le> n \<and> pages u = []" "length (pages t) \<le> length (pages u) + 2 * Suc n"
      by blast
    have "mappages_loop (Suc n) root a pa perm s = Inr (r', u)" using m(1) True u(1) by simp
    moreover have "mapping (pmem u) root = map_range (mapping (pmem s) root) (vpn a) (Suc k) pa perm"
      by (simp add: u(3) mt N(1) map_range_Suc)
    ultimately show ?thesis using grown_trans [OF m(2) u(2)] u(4,5) m(3)
      by (intro exI [of _ r'] exI [of _ u] exI [of _ "Suc k"]) auto
  qed
qed

lemma vpn_round_down: "vpn (round_down va) = vpn va" "unat (round_down va) mod PAGE = 0" "unat (round_down va) = vpn va * PAGE"
  by (simp_all add: vpn_def unat_round_down PAGE_def)

lemma mappages_spec:
  assumes ok: "table_ok (pmem s) root (pages s)" and n: "vpn (va + size1 - 1) = vpn va + n" "vpn va + n < VPN"
    and free: "\<And>u. vpn va \<le> u \<Longrightarrow> u \<le> vpn va + n \<Longrightarrow> mapping (pmem s) root u = None"
  shows "\<exists>r t k. mappages root va size1 pa perm s = Inr (r, t) \<and> grown root s t \<and>
    mapping (pmem t) root = map_range (mapping (pmem s) root) (vpn va) k pa perm \<and>
    (r = 0 \<and> k = Suc n \<or> r = -1 \<and> k \<le> n \<and> pages t = []) \<and> length (pages s) \<le> length (pages t) + 2 * Suc n"
proof -
  let ?a = "round_down va" and ?last = "round_down (va + size1 - 1)"
  have "unat ?last = unat ?a + n * PAGE" using n(1) by (simp add: vpn_round_down algebra_simps)
  then have "unat (?last - ?a) = n * PAGE" by (simp add: unat_sub word_le_nat_alt)
  then have "unat (?last - ?a) div PAGE = n" by (simp add: PAGE_def)
  then have eq: "mappages root va size1 pa perm s = mappages_loop n root ?a pa perm s" by (simp add: mappages_def)
  have "\<exists>r t k. mappages_loop n root ?a pa perm s = Inr (r, t) \<and> grown root s t \<and>
    mapping (pmem t) root = map_range (mapping (pmem s) root) (vpn ?a) k pa perm \<and>
    (r = 0 \<and> k = Suc n \<or> r = -1 \<and> k \<le> n \<and> pages t = []) \<and> length (pages s) \<le> length (pages t) + 2 * Suc n"
    by (rule mappages_loop_spec [OF ok vpn_round_down(2)]) (use n(2) free in \<open>simp_all add: vpn_round_down(1)\<close>)
  then show ?thesis unfolding eq vpn_round_down(1) by blast
qed

text \<open>An empty table at 0x80001000, five free pages behind it.\<close>

definition demo_vm :: vm_state where
  "demo_vm = sys_state.extend (demo_sys\<lparr>pages := map (\<lambda>i. 0x80002000 + 4096 * i) [0..<5]\<rparr>) (vm_state.fields (\<lambda>_. 0))"

lemma demo_vm:
  "pages demo_vm = [0x80002000, 0x80003000, 0x80004000, 0x80005000, 0x80006000]" "pmem demo_vm = (\<lambda>_. 0)"
  by (simp_all add: demo_vm_def sys_state.defs vm_state.defs upt_rec)

lemma empty_mem:
  "tbl (\<lambda>_. 0) root p = Some x \<longleftrightarrow> p = [] \<and> x = root" "mapping (\<lambda>_. 0) root = Map.empty"
  by (cases p, auto simp: next_table_def get64_def get32_def split: option.split)
    (auto simp: fun_eq_iff mapping_def valid_entry_def get64_def get32_def split: option.split)

lemma empty_table: "page_ok root \<Longrightarrow> root \<notin> set F \<Longrightarrow> distinct F \<Longrightarrow> \<forall>r \<in> set F. page_ok r \<Longrightarrow> table_ok (\<lambda>_. 0) root F"
  unfolding table_ok_def empty_mem by blast

lemma demo_table: "table_ok (pmem demo_vm) 0x80001000 (pages demo_vm)"
  unfolding demo_vm(2) by (rule empty_table) (simp_all add: demo_vm(1) page_ok_def PAGE_def)

text \<open>C12: Within the address range, \<open>mappages\<close> on pages that are not mapped never panics; it changes the table as one update of
  the map from page numbers to entries, whatever tables it has to create on the way: on success all the pages are mapped to
  consecutive physical pages, and it fails only when memory has run out, with a prefix mapped. The table stays a tree of
  pages that are not free, and bytes outside it and outside the free pages are untouched.\<close>

theorem mappages_updates_mapping:
  assumes ok: "table_ok (pmem s) root (pages s)" and n: "vpn (va + size1 - 1) = vpn va + n" "vpn va + n < VPN"
    and free: "\<And>u. vpn va \<le> u \<Longrightarrow> u \<le> vpn va + n \<Longrightarrow> mapping (pmem s) root u = None"
  shows "\<exists>r t k. mappages root va size1 pa perm s = Inr (r, t) \<and> table_ok (pmem t) root (pages t) \<and>
    mapping (pmem t) root = map_range (mapping (pmem s) root) (vpn va) k pa perm \<and>
    (r = 0 \<and> k = Suc n \<or> r = -1 \<and> k \<le> n \<and> pages t = []) \<and>
    same_else (tables (pmem s) root \<union> set (pages s)) s t"
proof -
  have "\<exists>r t k. mappages root va size1 pa perm s = Inr (r, t) \<and> grown root s t \<and>
    mapping (pmem t) root = map_range (mapping (pmem s) root) (vpn va) k pa perm \<and> (r = 0 \<and> k = Suc n \<or> r = -1 \<and> k \<le> n \<and> pages t = []) \<and>
    length (pages s) \<le> length (pages t) + 2 * Suc n"
    by (rule mappages_spec [OF ok n]) (rule free)
  then show ?thesis unfolding grown_def by blast
qed

lemma mappages_updates_mapping_witness:
  "\<exists>r t k. mappages 0x80001000 0x5000 0x1800 0x87000000 (PTE_R OR PTE_W) demo_vm = Inr (r, t) \<and> table_ok (pmem t) 0x80001000 (pages t) \<and>
    mapping (pmem t) 0x80001000 = map_range (mapping (pmem demo_vm) 0x80001000) (vpn 0x5000) k 0x87000000 (PTE_R OR PTE_W) \<and>
    (r = 0 \<and> k = Suc 1 \<or> r = -1 \<and> k \<le> 1 \<and> pages t = []) \<and>
    same_else (tables (pmem demo_vm) 0x80001000 \<union> set (pages demo_vm)) demo_vm t"
  by (rule mappages_updates_mapping [OF demo_table]) (simp_all add: vpn_def VPN_def PAGE_def demo_vm(2) empty_mem)

end
