(* ===== verification/VmSpace.thy ===== *)
theory VmSpace
  imports VmTable
begin

text \<open>
  The memory of a process as a partial function from user addresses to bytes, \<open>umem\<close>. \<open>space_ok\<close> says that the pages
  mapped by a page table are distinct, no table pages and not free. \<open>uvmalloc\<close>, \<open>uvmdealloc\<close>, \<open>uvmcopy\<close>, \<open>copyout\<close>, \<open>copyin\<close> of
  mp4/kernel/vm.c preserve it and act on \<open>umem\<close> as their comments say.
\<close>

unbundle bit_operations_syntax

section \<open>Address spaces\<close>

definition leaves :: "cmem \<Rightarrow> nat \<Rightarrow> nat set" where
  "leaves m root = {PTE2PA e | n e. mapping m root n = Some e}"

definition space_ok :: "cmem \<Rightarrow> nat \<Rightarrow> nat list \<Rightarrow> bool" where
  "space_ok m root F \<longleftrightarrow> table_ok m root F \<and>
     (\<forall>n e. mapping m root n = Some e \<longrightarrow>
        page_ok (PTE2PA e) \<and> PTE_FLAGS e \<noteq> PTE_V \<and> PTE2PA e \<notin> tables m root \<and> PTE2PA e \<notin> set F) \<and>
     (\<forall>n u e f. mapping m root n = Some e \<longrightarrow> mapping m root u = Some f \<longrightarrow> PTE2PA e = PTE2PA f \<longrightarrow> n = u)"

lemma space_okD:
  assumes "space_ok m root F"
  shows "table_ok m root F" and "mapping m root n = Some e \<Longrightarrow> page_ok (PTE2PA e)"
    and "mapping m root n = Some e \<Longrightarrow> PTE_FLAGS e \<noteq> PTE_V" and "mapping m root n = Some e \<Longrightarrow> PTE2PA e \<notin> tables m root"
    and "mapping m root n = Some e \<Longrightarrow> PTE2PA e \<notin> set F"
    and "mapping m root n = Some e \<Longrightarrow> mapping m root u = Some f \<Longrightarrow> PTE2PA e = PTE2PA f \<Longrightarrow> n = u"
  using assms unfolding space_ok_def by blast+

lemma in_pages_apart:
  assumes "page_ok x" "\<forall>y \<in> Y. page_ok y" "x \<notin> Y" "k < PAGE"
  shows "\<not> in_pages Y (x + k)"
proof
  assume "in_pages Y (x + k)"
  then obtain y where y: "y \<in> Y" "y \<le> x + k" "x + k < y + PAGE" by (auto simp: in_pages_def)
  obtain a b where ab: "x = PAGE * a" "y = PAGE * b" using assms(1,2) y(1) by (auto simp: page_ok_def elim!: dvdE)
  have "a \<noteq> b" using y(1) assms(3) ab by auto
  then show False using y assms(4) ab unfolding PAGE_def by linarith
qed

lemma tables_ok: "table_ok m root F \<Longrightarrow> x \<in> tables m root \<Longrightarrow> page_ok x \<and> x \<notin> set F"
  by (auto simp: tables_def dest: table_okD)

text \<open>Bytes that are in no table page do not matter to the table.\<close>

lemma table_frame:
  assumes ok: "table_ok m root F" and same: "\<And>a. in_pages (tables m root) a \<Longrightarrow> m' a = m a"
  shows "path q \<Longrightarrow> tbl m' root q = tbl m root q" and "mapping m' root = mapping m root"
    and "tables m' root = tables m root" and "leaves m' root = leaves m root"
proof -
  have g: "get64 m' (x + 8 * i) = get64 m (x + 8 * i)" if "x \<in> tables m root" "i < 512" for x i
  proof (rule le64.get_local)
    fix k :: nat assume "k < 8"
    then show "m' (x + 8 * i + k) = m (x + 8 * i + k)"
      using that by (intro same) (auto simp: in_pages_def PAGE_def intro!: bexI [of _ x])
  qed
  have t: "path q \<Longrightarrow> tbl m' root q = tbl m root q" for q
  proof (induction q)
    case (Cons i q)
    then have q: "path q" "i < 512" "tbl m' root q = tbl m root q" by simp_all
    show ?case
    proof (cases "tbl m root q")
      case (Some x)
      then have "x \<in> tables m root" using q(1) by (auto simp: tables_def)
      then show ?thesis using q Some g [OF _ q(2)] by (simp add: next_table_def)
    qed (use q in simp)
  qed simp
  show "path q \<Longrightarrow> tbl m' root q = tbl m root q" by (rule t)
  show m: "mapping m' root = mapping m root"
  proof
    fix n show "mapping m' root n = mapping m root n"
    proof (cases "tbl m root (vpath n)")
      case (Some x)
      then have "x \<in> tables m root" using path_simps(3) unfolding tables_def by blast
      then show ?thesis using Some t [OF path_simps(3), of n] g [of x "n mod 512"] by (simp add: mapping_def valid_entry_def)
    qed (use t [OF path_simps(3), of n] in \<open>simp add: mapping_def\<close>)
  qed
  show "tables m' root = tables m root" using t by (auto simp: tables_def)
  show "leaves m' root = leaves m root" by (simp add: leaves_def m)
qed

lemma table_ok_frame:
  assumes "table_ok m root F" "\<And>a. in_pages (tables m root) a \<Longrightarrow> m' a = m a"
    and "distinct G" "\<And>r. r \<in> set G \<Longrightarrow> page_ok r \<and> r \<notin> tables m root"
  shows "table_ok m' root G"
proof -
  have t: "tbl m' root p = tbl m root p" if "path p" for p by (rule table_frame(1) [OF assms(1) _ that]) (rule assms(2))
  have "page_ok x \<and> x \<notin> set G" if "path p" "tbl m' root p = Some x" for p x
    using that assms(1,4) t [OF that(1)] by (auto simp: tables_def dest: table_okD)
  moreover have "p = q" if "path p" "path q" "tbl m' root p = Some x" "tbl m' root q = Some x" for p q x
    using that t table_okD(3) [OF assms(1) that(2) _ that(1)] by simp
  ultimately show ?thesis using assms(3,4) unfolding table_ok_def by blast
qed

lemma space_ok_frame:
  assumes ok: "space_ok m root F" and same: "\<And>a. in_pages (tables m root) a \<Longrightarrow> m' a = m a"
    and G: "distinct G" "\<And>r. r \<in> set G \<Longrightarrow> page_ok r \<and> r \<notin> tables m root \<and> r \<notin> leaves m root"
  shows "space_ok m' root G"
proof -
  have T: "mapping m' root = mapping m root" "tables m' root = tables m root"
    by (rule table_frame(2,3) [OF space_okD(1) [OF ok]], rule same, assumption)+
  have "table_ok m' root G" by (rule table_ok_frame [OF space_okD(1) [OF ok] _ G(1)]) (use same G(2) in blast)+
  moreover have "PTE2PA e \<notin> set G" if "mapping m root n = Some e" for n e
    using that G(2) by (auto simp: leaves_def)
  ultimately show ?thesis using ok unfolding space_ok_def T by blast
qed

definition umem :: "cmem \<Rightarrow> nat \<Rightarrow> nat \<Rightarrow> u8 option" where
  "umem m root a = (case mapping m root (a div PAGE) of None \<Rightarrow> None
     | Some e \<Rightarrow> if e AND PTE_U \<noteq> 0 then Some (m (PTE2PA e + a mod PAGE)) else None)"

text \<open>The page of an entry may go back to the page allocator.\<close>

definition freeable :: "nat \<Rightarrow> u64 \<Rightarrow> bool" where
  "freeable kend e \<longleftrightarrow> kend \<le> PTE2PA e \<and> PTE2PA e < MEMTOP"

section \<open>Unmapping\<close>

lemma tables_put:
  assumes "table_ok m root F" "tbl m root (vpath n) = Some x" "n < VPN"
  shows "tables (put64 (x + 8 * (n mod 512)) e m) root = tables m root"
  using mapping_put(1) [OF assms] by (auto simp: tables_def)

lemma fill_else:
  assumes "x \<notin> Y" "page_ok x" "\<forall>y \<in> Y. page_ok y" "in_pages Y a"
  shows "fill x c m a = m a"
proof (rule ccontr)
  assume "fill x c m a \<noteq> m a"
  then have "x \<le> a" "a - x < PAGE" by (auto simp: fill_eq split: if_splits)
  then show False using in_pages_apart [OF assms(2,3,1), of "a - x"] assms(4) by simp
qed

lemma unmap_page_spec:
  assumes ok: "space_ok (pmem s) root (pages s)" and a: "a < MAXVA" and e: "mapping (pmem s) root (vpn a) = Some e"
    and fr: "fr \<Longrightarrow> freeable kend e"
  shows "\<exists>t. unmap_page kend root a fr s = Inr t \<and> space_ok (pmem t) root (pages t) \<and>
    mapping (pmem t) root = (mapping (pmem s) root)(vpn a := None) \<and> pages t = (if fr then [PTE2PA e] else []) @ pages s \<and>
    tables (pmem t) root = tables (pmem s) root \<and> same_else (tables (pmem s) root \<union> (if fr then {PTE2PA e} else {})) s t"
proof -
  let ?m = "pmem s" let ?pa = "PTE2PA e" let ?G = "(if fr then [?pa] else []) @ pages s"
  define m1 where "m1 = (if fr then fill ?pa 1 ?m else ?m)"
  define t where "t = (s\<lparr>pages := ?G\<rparr>)\<lparr>pmem := m1\<rparr>"
  note D = space_okD [OF ok]
  have n: "vpn a < VPN" using a by (simp add: MAXVA_vpn)
  obtain x where x: "tbl ?m root (vpath (vpn a)) = Some x" and ve: "valid_entry ?m (x + 8 * (vpn a mod 512)) = Some e"
    using e n by (auto simp: mapping_def split: option.splits)
  have xt: "x \<in> tables ?m root" using x path_simps(3) unfolding tables_def by blast
  have x0: "x \<noteq> 0" using table_okD(1) [OF D(1) path_simps(3) x] by (simp add: page_ok_def)
  let ?p = "x + 8 * (vpn a mod 512)"
  have g: "get64 ?m ?p = e" "e AND PTE_V \<noteq> 0" using ve by (auto simp: valid_entry_def split: if_splits)
  have pa: "page_ok ?pa" "PTE_FLAGS e \<noteq> PTE_V" "?pa \<notin> tables ?m root" "?pa \<notin> set (pages s)" using D(2-5) e by blast+
  have w: "walk root a False s = Inr (?p, s)" by (rule walk_present [OF x a])
  have eq: "unmap_page kend root a fr s = Inr (set_pmem (put64 ?p 0) t)"
    using w x0 g pa fr by (auto simp: unmap_page_def kfree_mp4_def freeable_def page_ok_def t_def m1_def set_pmem_def page_free_def not_le)
  have same: "m1 b = ?m b" if "in_pages (tables ?m root) b" for b
    unfolding m1_def using fill_else [OF pa(3,1) _ that] tables_ok [OF D(1)] by simp
  have T: "tbl m1 root (vpath (vpn a)) = Some x" "mapping m1 root = mapping ?m root" "tables m1 root = tables ?m root"
    using table_frame(1) [OF D(1) same path_simps(3)] table_frame(2,3) [OF D(1) same] x by simp_all
  have tok: "table_ok m1 root ?G"
  proof (rule table_ok_frame [OF D(1)])
    show "distinct ?G" using D(1) pa(4) by (simp add: table_ok_def)
    show "page_ok r \<and> r \<notin> tables ?m root" if "r \<in> set ?G" for r
      using that D(1) pa tables_ok [OF D(1), of r] by (auto simp: table_ok_def split: if_splits)
  qed (rule same)
  note P = mapping_put [OF tok T(1) n, where e = 0] and PT = tables_put [OF tok T(1) n, of 0]
  let ?m2 = "put64 ?p 0 m1"
  have mp: "mapping ?m2 root = (mapping ?m root)(vpn a := None)" using P(3) T(2) by simp
  have sub: "mapping ?m root u = Some f \<and> u \<noteq> vpn a" if "mapping ?m2 root u = Some f" for u f
    using that by (simp add: mp split: if_splits)
  have "space_ok ?m2 root ?G"
    unfolding space_ok_def
  proof (intro conjI allI impI)
    fix u f assume "mapping ?m2 root u = Some f"
    then have u: "mapping ?m root u = Some f" "u \<noteq> vpn a" using sub by simp_all
    show "page_ok (PTE2PA f)" "PTE_FLAGS f \<noteq> PTE_V" by (rule D(2,3) [OF u(1)])+
    show "PTE2PA f \<notin> tables ?m2 root" using D(4) [OF u(1)] by (simp add: PT T(3))
    show "PTE2PA f \<notin> set ?G" using D(5) [OF u(1)] D(6) [OF u(1) e] u(2) by auto
  next
    fix u v f h assume "mapping ?m2 root u = Some f" "mapping ?m2 root v = Some h" "PTE2PA f = PTE2PA h"
    then show "u = v" using sub D(6) [of u f v h] by blast
  qed (rule P(2))
  moreover have "same_else (tables ?m root \<union> (if fr then {?pa} else {})) s (set_pmem (put64 ?p 0) t)"
  proof -
    have "?m2 b = ?m b" if nb: "\<not> in_pages (tables ?m root \<union> (if fr then {?pa} else {})) b" for b
    proof -
      have "b < x \<or> x + 4096 \<le> b" using nb xt unfolding in_pages_def PAGE_def by (meson UnI1 not_less)
      moreover have "vpn a mod 512 < 512" by simp
      ultimately have "?m2 b = m1 b" by (intro le64.put_frame) linarith
      moreover have "m1 b = ?m b" using nb by (auto simp: m1_def fill_eq in_pages_def)
      ultimately show ?thesis by simp
    qed
    then show ?thesis by (simp add: same_else_def set_pmem_def t_def)
  qed
  ultimately show ?thesis using mp PT T(3)
    by (intro exI [of _ "set_pmem (put64 ?p 0) t"]) (simp only: eq set_pmem_def, simp add: t_def)
qed

text \<open>The physical pages of \<open>n\<close> page numbers from \<open>v\<close> on.\<close>

definition ppages :: "cmem \<Rightarrow> nat \<Rightarrow> nat \<Rightarrow> nat \<Rightarrow> nat list" where
  "ppages m root v n = map (\<lambda>u. PTE2PA (the (mapping m root u))) [v..<v + n]"

definition drop_range :: "(nat \<Rightarrow> u64 option) \<Rightarrow> nat \<Rightarrow> nat \<Rightarrow> nat \<Rightarrow> u64 option" where
  "drop_range f v n = (\<lambda>u. if v \<le> u \<and> u < v + n then None else f u)"

definition mapped_range :: "nat \<Rightarrow> bool \<Rightarrow> cmem \<Rightarrow> nat \<Rightarrow> nat \<Rightarrow> nat \<Rightarrow> bool" where
  "mapped_range kend fr m root v n \<longleftrightarrow>
     (\<forall>u. v \<le> u \<and> u < v + n \<longrightarrow> (\<exists>e. mapping m root u = Some e \<and> (fr \<longrightarrow> freeable kend e)))"

lemma ppages_Suc: "ppages m root v (Suc n) = PTE2PA (the (mapping m root v)) # ppages m root (Suc v) n"
  by (simp add: ppages_def upt_conv_Cons del: upt_Suc)

lemma ppages_cong: "(\<And>u. v \<le> u \<Longrightarrow> u < v + n \<Longrightarrow> mapping m root u = mapping m' root u) \<Longrightarrow> ppages m root v n = ppages m' root v n"
  by (simp add: ppages_def)

lemma drop_range_Suc: "drop_range f v (Suc n) = drop_range (f(v := None)) (Suc v) n"
  by (rule ext) (auto simp: drop_range_def)

lemma drop_range_0 [simp]: "drop_range f v 0 = f"
  by (rule ext) (auto simp: drop_range_def)

lemma unmap_loop_spec:
  assumes "space_ok (pmem s) root (pages s)" "unat a mod PAGE = 0" "vpn a + n \<le> VPN" "mapped_range kend fr (pmem s) root (vpn a) n"
  shows "\<exists>t. unmap_loop kend n root a fr s = Inr t \<and> space_ok (pmem t) root (pages t) \<and>
    mapping (pmem t) root = drop_range (mapping (pmem s) root) (vpn a) n \<and>
    pages t = (if fr then rev (ppages (pmem s) root (vpn a) n) else []) @ pages s \<and>
    tables (pmem t) root = tables (pmem s) root \<and>
    same_else (tables (pmem s) root \<union> (if fr then set (ppages (pmem s) root (vpn a) n) else {})) s t"
  using assms
proof (induction n arbitrary: s a)
  case 0
  then show ?case by (simp add: same_else_def ppages_def)
next
  case (Suc n)
  obtain e where e: "mapping (pmem s) root (vpn a) = Some e" "fr \<longrightarrow> freeable kend e"
    using Suc.prems(4) unfolding mapped_range_def by (metis add_Suc_right less_add_Suc1 order_refl)
  have vn: "vpn a < VPN" using Suc.prems(3) by simp
  note N = vpn_next [OF vn Suc.prems(2)]
  have "a < MAXVA" using vn by (simp add: MAXVA_vpn)
  from unmap_page_spec [OF Suc.prems(1) this e(1)] e(2)
  obtain t where t: "unmap_page kend root a fr s = Inr t" "space_ok (pmem t) root (pages t)"
      "mapping (pmem t) root = (mapping (pmem s) root)(vpn a := None)" "pages t = (if fr then [PTE2PA e] else []) @ pages s"
      "tables (pmem t) root = tables (pmem s) root" "same_else (tables (pmem s) root \<union> (if fr then {PTE2PA e} else {})) s t"
    by blast
  have mt: "mapping (pmem t) root u = mapping (pmem s) root u" if "Suc (vpn a) \<le> u" for u using that by (simp add: t(3))
  have "mapped_range kend fr (pmem t) root (vpn (a + 4096)) n"
    using Suc.prems(4) mt unfolding mapped_range_def N(1) by simp
  from Suc.IH [OF t(2) N(2) _ this] Suc.prems(3)
  obtain u where u: "unmap_loop kend n root (a + 4096) fr t = Inr u" "space_ok (pmem u) root (pages u)"
      "mapping (pmem u) root = drop_range (mapping (pmem t) root) (vpn (a + 4096)) n"
      "pages u = (if fr then rev (ppages (pmem t) root (vpn (a + 4096)) n) else []) @ pages t"
      "tables (pmem u) root = tables (pmem t) root"
      "same_else (tables (pmem t) root \<union> (if fr then set (ppages (pmem t) root (vpn (a + 4096)) n) else {})) t u"
    unfolding N(1) by auto
  have pp: "ppages (pmem t) root (vpn (a + 4096)) n = ppages (pmem s) root (Suc (vpn a)) n"
    unfolding N(1) by (rule ppages_cong) (rule mt)
  have ps: "ppages (pmem s) root (vpn a) (Suc n) = PTE2PA e # ppages (pmem s) root (Suc (vpn a)) n"
    by (simp add: ppages_Suc e(1))
  let ?X = "tables (pmem s) root \<union> (if fr then set (ppages (pmem s) root (vpn a) (Suc n)) else {})"
  have "same_else ?X s t" using t(6) in_pages_mono [of "tables (pmem s) root \<union> (if fr then {PTE2PA e} else {})" _ ?X]
    unfolding same_else_def ps by (auto split: if_splits)
  then have "same_else ?X s u" by (rule same_else_trans [OF _ u(6)]) (auto simp: pp ps t(5))
  moreover have "unmap_loop kend (Suc n) root a fr s = Inr u" using t(1) u(1) by simp
  moreover have "mapping (pmem u) root = drop_range (mapping (pmem s) root) (vpn a) (Suc n)"
    by (simp add: u(3) t(3) N(1) drop_range_Suc)
  moreover have "pages u = (if fr then rev (ppages (pmem s) root (vpn a) (Suc n)) else []) @ pages s"
    by (simp add: u(4) t(4) pp ps)
  ultimately show ?case using u(2,5) t(5) by (intro exI [of _ u]) simp
qed

section \<open>Shrinking a process\<close>

lemma unat_add_small: "unat a + unat b < 2 ^ 64 \<Longrightarrow> unat (a + b :: u64) = unat a + unat b"
  by (simp add: unat_word_ariths)

lemma int_to_u64:
  assumes "n < 2 ^ 31"
  shows "scast (ucast (of_nat n :: u64) :: u32) = (of_nat n :: u64)"
proof -
  have "take_bit 64 n = n" using assms by (intro take_bit_nat_eq_self) simp
  then have "ucast (of_nat n :: u64) = (of_nat n :: u32)" by (simp add: unsigned_of_nat)
  moreover have "signed_take_bit 31 (int n) = int n" using assms by (intro signed_take_bit_int_eq_self) simp_all
  ultimately show ?thesis by (simp add: signed_of_nat)
qed

definition npg :: "u64 \<Rightarrow> nat" where "npg sz = (unat sz + 4095) div PAGE"

lemma round_up_spec:
  assumes "sz \<le> MAXVA"
  shows "unat (round_up sz) = npg sz * PAGE" "vpn (round_up sz) = npg sz" "npg sz \<le> VPN"
proof -
  have le: "unat sz \<le> 2 ^ 38" using assms by (simp add: MAXVA_def word_le_nat_alt)
  have "round_up sz = round_down (sz + 4095)" by (simp add: round_up_def round_down_def add.commute)
  moreover have "unat (sz + 4095) = unat sz + 4095"
    using le by (subst unat_add_lem [THEN iffD1]) simp_all
  ultimately show "unat (round_up sz) = npg sz * PAGE" "vpn (round_up sz) = npg sz" 
    by (simp_all add: unat_round_down npg_def PAGE_def vpn_def)
  show "npg sz \<le> VPN" using le by (simp add: npg_def PAGE_def VPN_def)
qed

lemma uvmdealloc_spec:
  assumes ok: "space_ok (pmem s) root (pages s)" and sz: "newsz < oldsz" "oldsz \<le> MAXVA"
    and m: "mapped_range kend True (pmem s) root (npg newsz) (npg oldsz - npg newsz)"
  shows "\<exists>t. uvmdealloc kend root oldsz newsz s = Inr (newsz, t) \<and> space_ok (pmem t) root (pages t) \<and>
    mapping (pmem t) root = drop_range (mapping (pmem s) root) (npg newsz) (npg oldsz - npg newsz) \<and>
    pages t = rev (ppages (pmem s) root (npg newsz) (npg oldsz - npg newsz)) @ pages s \<and>
    tables (pmem t) root = tables (pmem s) root \<and>
    same_else (tables (pmem s) root \<union> set (ppages (pmem s) root (npg newsz) (npg oldsz - npg newsz))) s t"
proof -
  have nm: "newsz \<le> MAXVA" using sz by simp
  note O = round_up_spec [OF sz(2)] and N = round_up_spec [OF nm]
  have lt: "round_up newsz < round_up oldsz \<longleftrightarrow> npg newsz < npg oldsz"
    by (simp add: word_less_nat_alt O N PAGE_def)
  show ?thesis
  proof (cases "npg newsz < npg oldsz")
    case False
    then show ?thesis using lt sz ok by (intro exI [of _ s]) (simp add: uvmdealloc_def same_else_def ppages_def not_le [symmetric])
  next
    case True
    let ?a = "round_up newsz"
    obtain n where no: "npg oldsz = npg newsz + n" using True by (metis less_imp_add_positive)
    have n: "npg oldsz - npg newsz = n" by (simp add: no)
    have "unat (round_up oldsz - round_up newsz) = n * PAGE"
      by (subst unat_sub) (simp_all add: word_le_nat_alt O N no algebra_simps)
    then have "unat ((round_up oldsz - round_up newsz) div 4096) = n" by (simp add: unat_div PAGE_def)
    then have q: "(round_up oldsz - round_up newsz) div 4096 = of_nat n" by (metis of_nat_unat ucast_id)
    have nb: "n < 2 ^ 31" using O(3) by (simp add: VPN_def no)
    have np: "scast (ucast ((round_up oldsz - round_up newsz) div 4096) :: u32) = (of_nat n :: u64)"
      unfolding q by (rule int_to_u64 [OF nb])
    have un: "unat (of_nat n * 4096 :: u64) = n * PAGE" 
      using nb by (simp add: unat_mult_lem [THEN iffD1] unsigned_of_nat take_bit_eq_mod PAGE_def)
    have "unat (?a + of_nat n * 4096) = npg oldsz * PAGE"
    proof -
      have "unat ?a + unat (of_nat n * 4096 :: u64) = npg oldsz * PAGE"
        using True unfolding un N(1) no by (simp add: algebra_simps)
      moreover have "npg oldsz * PAGE < 2 ^ 64" using O(3) by (simp add: PAGE_def VPN_def)
      ultimately show ?thesis using unat_add_small [of ?a "of_nat n * 4096"] by (simp only:)
    qed
    then have pb: "pages_between ?a (?a + of_nat n * 4096) = n"
      by (simp add: pages_between_def N PAGE_def no)
    have al: "unat ?a mod PAGE = 0" using N(1) by simp
    then have "?a mod 4096 = 0" by (simp add: word_unat_eq_iff unat_mod PAGE_def)
    then have eq: "uvmdealloc kend root oldsz newsz s = rbind (unmap_loop kend n root ?a True s) (\<lambda>t. Inr (newsz, t))"
      using True lt sz by (simp add: uvmdealloc_def uvmunmap_def np pb not_le [symmetric] Let_def)
    have "vpn ?a + n \<le> VPN" "mapped_range kend True (pmem s) root (vpn ?a) n" using O(3) N(2) no m n by simp_all
    from unmap_loop_spec [OF ok al this] show ?thesis unfolding N(2) eq n by auto
  qed
qed

section \<open>A fresh page\<close>

lemma take_flags: "perm < 1024 \<Longrightarrow> take_bit 10 perm = (perm :: u64)"
proof (rule word_unat_eq_iff [THEN iffD2])
  assume "perm < 1024"
  then have "unat perm < 2 ^ 10" by (simp add: word_less_nat_alt)
  then show "unat (take_bit 10 perm) = unat perm" by (simp only: unsigned_take_bit_eq take_bit_nat_eq_self)
qed

lemma flags_bits: "(0x3FF :: u64) = mask 10"
  by (simp add: mask_eq_exp_minus_1)

lemma PTE2PA_new:
  assumes "page_ok pa" "perm < 1024"
  shows "PTE2PA (entry pa perm) = pa"
proof -
  have "take_bit 10 (perm OR PTE_V) = perm OR PTE_V" using take_flags [OF assms(2)] by (simp add: PTE_V_def)
  moreover have "unat (take_bit 10 (perm OR PTE_V)) < 2 ^ 10"
    by (simp only: unsigned_take_bit_eq take_bit_nat_less_exp)
  ultimately have "perm OR PTE_V < 1024" by (simp add: word_less_nat_alt)
  then show ?thesis using PTE2PA_entry [of pa "perm OR PTE_V"] assms(1) by (simp add: entry_def page_ok_def or.assoc)
qed

lemma flags_new:
  assumes "perm < 1024"
  shows "PTE_FLAGS (entry pa perm) = perm OR PTE_V"
proof -
  have "take_bit 10 (PA2PTE pa) = 0" by (rule bit_word_eqI) (auto simp: PA2PTE_def bit_simps)
  then have "take_bit 10 (entry pa perm) = perm OR PTE_V" using take_flags [OF assms] by (simp add: entry_def PTE_V_def)
  then show ?thesis by (simp add: PTE_FLAGS_def flags_bits take_bit_eq_mask)
qed

definition pool_ok :: "nat \<Rightarrow> nat list \<Rightarrow> bool" where
  "pool_ok kend F \<longleftrightarrow> (\<forall>r \<in> set F. kend \<le> r \<and> r < MEMTOP)"

lemma map_new:
  assumes ok: "space_ok (pmem s) root (r # F)" and s: "pages s = r # F" and t0: "t0 = s\<lparr>pages := F, pmem := m0\<rparr>"
    and m0: "\<And>b. \<not> in_pages {r} b \<Longrightarrow> m0 b = pmem s b"
    and a: "vpn a < VPN" "unat a mod PAGE = 0" "mapping (pmem s) root (vpn a) = None"
    and perm: "perm < 1024" "perm OR PTE_V \<noteq> PTE_V"
  shows "\<exists>res t. mappages root a 4096 r perm t0 = Inr (res, t) \<and> same_else (tables (pmem s) root \<union> set (pages s)) s t \<and>
    (\<forall>k < PAGE. pmem t (r + k) = m0 (r + k)) \<and> tables (pmem t) root \<subseteq> tables (pmem s) root \<union> set F \<and> set (pages t) \<subseteq> set F \<and> set F \<subseteq> tables (pmem t) root \<union> set (pages t) \<and>
    tables (pmem s) root \<subseteq> tables (pmem t) root \<and> length F \<le> length (pages t) + 2 \<and>
    (res = 0 \<and> space_ok (pmem t) root (pages t) \<and> mapping (pmem t) root = (mapping (pmem s) root)(vpn a \<mapsto> entry r perm) \<or>
     res = -1 \<and> space_ok (pmem t) root [r] \<and> mapping (pmem t) root = mapping (pmem s) root \<and> pages t = [])"
proof -
  note D = space_okD [OF ok]
  note O = D(1) [unfolded table_ok_def]
  have r: "page_ok r" "r \<notin> set F" "distinct F" "r \<notin> tables (pmem s) root" using O tables_ok [OF D(1), of r] by auto
  have same: "m0 b = pmem s b" if "in_pages (tables (pmem s) root) b" for b
  proof (rule m0, rule)
    assume "in_pages {r} b"
    then have "b = r + (b - r)" "b - r < PAGE" by (auto simp: in_pages_def)
    then show False using in_pages_apart [OF r(1) _ r(4), of "b - r"] that tables_ok [OF D(1)] by metis
  qed
  have T: "mapping m0 root = mapping (pmem s) root" "tables m0 root = tables (pmem s) root"
    using table_frame(2,3) [OF D(1), of m0] same by blast+
  have ok0: "table_ok (pmem t0) root (pages t0)"
  proof -
    have "table_ok m0 root F"
    proof (rule table_ok_frame [OF D(1) same r(3)])
      show "\<And>x. x \<in> set F \<Longrightarrow> page_ok x \<and> x \<notin> tables (pmem s) root" using O tables_ok [OF D(1)] by auto
    qed
    then show ?thesis by (simp add: t0)
  qed
  have un: "unat (a + 4095) = unat a + 4095"
  proof -
    have "unat a < VPN * PAGE" using a(1) by (simp add: vpn_def PAGE_def VPN_def div_less_iff_less_mult)
    then show ?thesis using unat_add_small [of a 4095] by (simp add: PAGE_def VPN_def)
  qed
  obtain q where q: "unat a = 4096 * q" using a(2) by (auto simp: PAGE_def elim!: dvdE)
  have "a + 4096 - 1 = a + 4095" by simp
  then have v: "vpn (a + 4096 - 1) = vpn a + 0" by (simp only: vpn_def un q PAGE_def) simp
  have "mapping (pmem t0) root u = None" if "vpn a \<le> u" "u \<le> vpn a + 0" for u
    using that a(3) by (simp add: t0 T)
  then have "\<exists>res t k. mappages root a 4096 r perm t0 = Inr (res, t) \<and> grown root t0 t \<and>
    mapping (pmem t) root = map_range (mapping (pmem t0) root) (vpn a) k r perm \<and>
    (res = 0 \<and> k = Suc 0 \<or> res = -1 \<and> k \<le> 0 \<and> pages t = []) \<and> length (pages t0) \<le> length (pages t) + 2 * Suc 0"
    using a(1) by (intro mappages_spec [OF ok0 v]) simp_all
  then obtain res t k where t: "mappages root a 4096 r perm t0 = Inr (res, t)" "grown root t0 t"
    "mapping (pmem t) root = map_range (mapping (pmem s) root) (vpn a) k r perm" "res = 0 \<and> k = Suc 0 \<or> res = -1 \<and> k = 0 \<and> pages t = []"
    "length F \<le> length (pages t) + 2"
    by (auto simp: t0 T)
  let ?T = "tables (pmem s) root"
  have p0: "pages t0 = F" "pmem t0 = m0" by (simp_all add: t0)
  have g: "table_ok (pmem t) root (pages t)" "tables (pmem t) root \<subseteq> ?T \<union> set F" "same_else (?T \<union> set F) t0 t"
    using t(2) unfolding grown_def p0 T(2) by blast+
  have sub: "set (pages t) \<subseteq> set F" using t(2) unfolding grown_def p0 by auto
  have sup: "set F \<subseteq> tables (pmem t) root \<union> set (pages t)" "?T \<subseteq> tables (pmem t) root"
  proof -
    show "set F \<subseteq> tables (pmem t) root \<union> set (pages t)" using t(2) unfolding grown_def p0 by blast
    have "tables m0 root \<subseteq> tables (pmem t) root" using t(2) unfolding grown_def p0 tables_def by blast
    then show "?T \<subseteq> tables (pmem t) root" by (simp only: T(2))
  qed
  have st: "same_else (?T \<union> set (pages s)) s t"
  proof (rule same_else_trans [OF _ g(3)])
    have "m0 b = pmem s b" if "\<not> in_pages (?T \<union> set (pages s)) b" for b
      using that by (intro m0) (auto simp: in_pages_def s)
    then show "same_else (?T \<union> set (pages s)) s t0" by (simp add: same_else_def t0)
  qed (auto simp: s)
  have kept: "pmem t (r + k) = m0 (r + k)" if "k < PAGE" for k
  proof -
    have "\<forall>y \<in> ?T \<union> set F. page_ok y" using O tables_ok [OF D(1)] by auto
    then have "\<not> in_pages (?T \<union> set F) (r + k)" by (rule in_pages_apart [OF r(1) _ _ that]) (use r in simp)
    then show ?thesis using g(3) by (simp add: same_else_def p0)
  qed
  have old: "page_ok (PTE2PA f)" "PTE_FLAGS f \<noteq> PTE_V" "PTE2PA f \<notin> tables (pmem t) root" "PTE2PA f \<notin> set (pages t)" "PTE2PA f \<noteq> r"
    if "mapping (pmem s) root u = Some f" for u f
    using D(2-5) [OF that] g(2) sub by auto
  have new: "PTE2PA (entry r perm) = r" "PTE_FLAGS (entry r perm) \<noteq> PTE_V" "r \<notin> tables (pmem t) root" "r \<notin> set (pages t)"
    using PTE2PA_new [OF r(1) perm(1)] flags_new [OF perm(1)] perm(2) g(2) sub r(2,4) by auto
  have fin: "res = 0 \<and> space_ok (pmem t) root (pages t) \<and> mapping (pmem t) root = (mapping (pmem s) root)(vpn a \<mapsto> entry r perm) \<or>
     res = -1 \<and> space_ok (pmem t) root [r] \<and> mapping (pmem t) root = mapping (pmem s) root \<and> pages t = []"
  proof (cases "res = 0")
    case True
    then have m: "mapping (pmem t) root = (mapping (pmem s) root)(vpn a \<mapsto> entry r perm)" using t(3,4) by (simp add: map_range_Suc map_range_0)
    have "space_ok (pmem t) root (pages t)"
      unfolding space_ok_def
    proof (intro conjI allI impI)
      fix u f assume "mapping (pmem t) root u = Some f"
      then have "u = vpn a \<and> f = entry r perm \<or> mapping (pmem s) root u = Some f" by (simp add: m split: if_splits)
      then show "page_ok (PTE2PA f)" "PTE_FLAGS f \<noteq> PTE_V" "PTE2PA f \<notin> tables (pmem t) root" "PTE2PA f \<notin> set (pages t)"
        using old [of u f] new r(1) by auto
    next
      fix u v f h assume "mapping (pmem t) root u = Some f" "mapping (pmem t) root v = Some h" "PTE2PA f = PTE2PA h"
      then show "u = v" using old(5) new(1) D(6) [of u f v h] by (auto simp: m split: if_splits)
    qed (rule g(1))
    then show ?thesis using True m by simp
  next
    case False
    then have m: "mapping (pmem t) root = mapping (pmem s) root" "res = -1" "pages t = []" using t(3,4) by (simp_all add: map_range_0)
    have "table_ok (pmem t) root [r]" by (rule table_ok_frame [OF g(1)]) (use r(1) new in auto)
    then have "space_ok (pmem t) root [r]"
      unfolding space_ok_def m(1) using old D(6) by simp
    then show ?thesis using m by simp
  qed
  show ?thesis
    by (intro exI [of _ res] exI [of _ t] conjI allI impI) (fact t(1) st kept g(2) sub sup t(5) fin)+
qed

section \<open>Growing a process\<close>

abbreviation RWXU :: u64 where "RWXU \<equiv> PTE_W OR PTE_X OR PTE_R OR PTE_U"

lemma RWXU: "RWXU < 1024" "RWXU OR PTE_V \<noteq> PTE_V"
  by (simp_all add: PTE_W_def PTE_X_def PTE_R_def PTE_U_def PTE_V_def)

text \<open>A user page filled with zeroes at page number \<open>u\<close>.\<close>

definition zero_page :: "nat \<Rightarrow> cmem \<Rightarrow> nat \<Rightarrow> nat \<Rightarrow> bool" where
  "zero_page kend m root u \<longleftrightarrow> (\<exists>p. page_ok p \<and> kend \<le> p \<and> p < MEMTOP \<and> mapping m root u = Some (entry p RWXU) \<and> (\<forall>k < PAGE. m (p + k) = 0))"

lemma npg_aligned: "unat a mod PAGE = 0 \<Longrightarrow> npg a = vpn a"
  by (auto simp: npg_def vpn_def PAGE_def elim!: dvdE)

lemma npg_mono: "x \<le> y \<Longrightarrow> npg x \<le> npg y"
  by (simp add: npg_def word_le_nat_alt div_le_mono)

text \<open>The way back of \<open>uvmalloc\<close>.\<close>

lemma dealloc_back:
  assumes ok: "space_ok (pmem s) root (pages s)" and pool: "pool_ok kend (pages s)" and a: "unat a mod PAGE = 0" "vpn a \<le> VPN" "npg oldsz \<le> vpn a"
    and m: "mapped_range kend True (pmem s) root (npg oldsz) (vpn a - npg oldsz)"
  shows "\<exists>x t. uvmdealloc kend root a oldsz s = Inr (x, t) \<and> space_ok (pmem t) root (pages t) \<and> pool_ok kend (pages t) \<and>
    mapping (pmem t) root = drop_range (mapping (pmem s) root) (npg oldsz) (vpn a - npg oldsz) \<and>
    tables (pmem t) root = tables (pmem s) root \<and> set (pages t) = set (pages s) \<union> set (ppages (pmem s) root (npg oldsz) (vpn a - npg oldsz)) \<and>
    same_else (tables (pmem s) root \<union> set (ppages (pmem s) root (npg oldsz) (vpn a - npg oldsz))) s t"
proof (cases "oldsz < a")
  case True
  have na: "npg a = vpn a" by (rule npg_aligned [OF a(1)])
  have "unat a = vpn a * PAGE" using a(1) by (auto simp: vpn_def PAGE_def)
  then have "unat a \<le> 2 ^ 38" using a(2) by (simp add: VPN_def PAGE_def)
  then have "a \<le> MAXVA" by (simp add: MAXVA_def word_le_nat_alt)
  from uvmdealloc_spec [OF ok True this, of kend] m obtain t where
    t: "uvmdealloc kend root a oldsz s = Inr (oldsz, t)" "space_ok (pmem t) root (pages t)"
      "mapping (pmem t) root = drop_range (mapping (pmem s) root) (npg oldsz) (vpn a - npg oldsz)"
      "pages t = rev (ppages (pmem s) root (npg oldsz) (vpn a - npg oldsz)) @ pages s" "tables (pmem t) root = tables (pmem s) root"
      "same_else (tables (pmem s) root \<union> set (ppages (pmem s) root (npg oldsz) (vpn a - npg oldsz))) s t"
    unfolding na by blast
  have "kend \<le> p \<and> p < MEMTOP" if p: "p \<in> set (ppages (pmem s) root (npg oldsz) (vpn a - npg oldsz))" for p
  proof -
    obtain u where "npg oldsz \<le> u" "u < vpn a" "p = PTE2PA (the (mapping (pmem s) root u))"
      using p a(3) by (auto simp: ppages_def)
    then show ?thesis using m a(3) unfolding mapped_range_def freeable_def by auto
  qed
  then have "pool_ok kend (pages t)" using pool by (auto simp: pool_ok_def t(4))
  moreover have "set (pages t) = set (pages s) \<union> set (ppages (pmem s) root (npg oldsz) (vpn a - npg oldsz))" by (auto simp: t(4))
  ultimately show ?thesis using t by blast
next
  case False
  then have "npg a \<le> npg oldsz" by (intro npg_mono) simp
  then have "vpn a - npg oldsz = 0" using npg_aligned [OF a(1)] by simp
  moreover have "a \<le> oldsz" using False by (simp add: not_less)
  then have "uvmdealloc kend root a oldsz s = Inr (a, s)" by (simp add: uvmdealloc_def)
  ultimately show ?thesis using ok pool by (simp add: same_else_def ppages_def)
qed

text \<open>What \<open>uvmalloc\<close> promises of \<open>n\<close> pages from page number \<open>v\<close> on, with \<open>d\<close> pages allocated before.\<close>

definition alloc_done :: "nat \<Rightarrow> nat \<Rightarrow> nat \<Rightarrow> nat \<Rightarrow> 'a vm_state_scheme \<Rightarrow> 'a vm_state_scheme \<Rightarrow> bool" where
  "alloc_done kend root v n s t \<longleftrightarrow> space_ok (pmem t) root (pages t) \<and> pool_ok kend (pages t) \<and>
     (\<forall>u. \<not> (v \<le> u \<and> u < v + n) \<longrightarrow> mapping (pmem t) root u = mapping (pmem s) root u) \<and>
     (\<forall>u. v \<le> u \<and> u < v + n \<longrightarrow> zero_page kend (pmem t) root u) \<and>
     same_else (tables (pmem s) root \<union> set (pages s)) s t"

definition alloc_undone :: "nat \<Rightarrow> nat \<Rightarrow> nat \<Rightarrow> nat \<Rightarrow> 'a vm_state_scheme \<Rightarrow> 'a vm_state_scheme \<Rightarrow> bool" where
  "alloc_undone kend root v d s t \<longleftrightarrow> space_ok (pmem t) root (pages t) \<and> pool_ok kend (pages t) \<and>
     mapping (pmem t) root = drop_range (mapping (pmem s) root) v d \<and>
     tables (pmem t) root \<union> set (pages t) = tables (pmem s) root \<union> set (pages s) \<union> set (ppages (pmem s) root v d) \<and>
     same_else (tables (pmem s) root \<union> set (pages s) \<union> set (ppages (pmem s) root v d)) s t"

text \<open>One more page.\<close>

lemma alloc_done_step:
  assumes d: "alloc_done kend root (Suc v) n t u" and m: "mapping (pmem t) root = (mapping (pmem s) root)(v \<mapsto> entry r RWXU)"
    and st: "same_else (tables (pmem s) root \<union> set (pages s)) s t" and z: "\<forall>k < PAGE. pmem t (r + k) = 0"
    and X: "tables (pmem t) root \<union> set (pages t) \<subseteq> tables (pmem s) root \<union> set (pages s)"
    and r: "page_ok r" "kend \<le> r" "r < MEMTOP" and nr: "r \<notin> tables (pmem t) root \<union> set (pages t)"
    and ok: "\<forall>y \<in> tables (pmem t) root \<union> set (pages t). page_ok y"
  shows "alloc_done kend root v (Suc n) s u"
proof -
  have tu: "same_else (tables (pmem t) root \<union> set (pages t)) t u" using d by (simp add: alloc_done_def)
  have mu: "mapping (pmem u) root w = mapping (pmem t) root w" if "\<not> (Suc v \<le> w \<and> w < Suc v + n)" for w
    using d that by (simp add: alloc_done_def)
  have "pmem u (r + k) = 0" if "k < PAGE" for k
    using z tu in_pages_apart [OF r(1) ok nr that] that by (simp add: same_else_def)
  then have zv: "zero_page kend (pmem u) root v" using r mu [of v] by (auto simp: zero_page_def m)
  have "zero_page kend (pmem u) root w" if "v \<le> w \<and> w < v + Suc n" for w
  proof (cases "w = v")
    case False
    then have "Suc v \<le> w \<and> w < Suc v + n" using that by auto
    then show ?thesis using d by (simp add: alloc_done_def)
  qed (use zv in simp)
  moreover have "mapping (pmem u) root w = mapping (pmem s) root w" if "\<not> (v \<le> w \<and> w < v + Suc n)" for w
    using that mu [of w] by (auto simp: m)
  ultimately show ?thesis using d same_else_trans [OF st tu X] unfolding alloc_done_def by blast
qed

lemma alloc_undone_step:
  assumes d: "alloc_undone kend root v (Suc d) t u" and m: "mapping (pmem t) root = (mapping (pmem s) root)(v + d \<mapsto> e)"
    and st: "same_else (tables (pmem s) root \<union> set (pages s)) s t"
    and X: "insert r (tables (pmem t) root \<union> set (pages t)) = tables (pmem s) root \<union> set (pages s)"
    and r: "PTE2PA e = r" and un: "mapping (pmem s) root (v + d) = None"
  shows "alloc_undone kend root v d s u"
proof -
  let ?X = "tables (pmem s) root \<union> set (pages s) \<union> set (ppages (pmem s) root v d)"
  have "drop_range (mapping (pmem t) root) v (Suc d) = drop_range (mapping (pmem s) root) v d"
    using un by (intro ext) (auto simp: drop_range_def m less_Suc_eq)
  moreover have "ppages (pmem t) root v (Suc d) = ppages (pmem s) root v d @ [r]"
    using r by (simp add: ppages_def m)
  moreover have "same_else ?X s t" using st in_pages_mono [of "tables (pmem s) root \<union> set (pages s)" _ ?X]
    by (auto simp: same_else_def)
  ultimately show ?thesis
    using d same_else_trans [of ?X s t "tables (pmem t) root \<union> set (pages t) \<union> set (ppages (pmem t) root v (Suc d))" u] X
    unfolding alloc_undone_def by auto
qed

text \<open>A fresh page that could not be mapped goes back.\<close>

lemma kfree_new:
  assumes ok: "space_ok (pmem t) root [r]" and r: "page_ok r" "kend \<le> r" "r < MEMTOP" and p: "pages t = []"
  defines "u \<equiv> t\<lparr>pages := [r], pmem := fill r 1 (pmem t)\<rparr>"
  shows "kfree_mp4 kend r t = Inr u" and "space_ok (pmem u) root (pages u)" and "mapping (pmem u) root = mapping (pmem t) root"
    and "tables (pmem u) root = tables (pmem t) root" and "pages u = [r]" and "same_else {r} t u"
proof -
  note E = space_okD [OF ok]
  have rt: "r \<notin> tables (pmem t) root" using tables_ok [OF E(1), of r] by auto
  have same: "fill r 1 (pmem t) b = pmem t b" if "in_pages (tables (pmem t) root) b" for b
    by (rule fill_else [OF rt r(1) _ that]) (use tables_ok [OF E(1)] in blast)
  show "mapping (pmem u) root = mapping (pmem t) root" "tables (pmem u) root = tables (pmem t) root"
    using table_frame(2,3) [OF E(1), of "fill r 1 (pmem t)"] same by (simp_all add: u_def)
  have "r \<notin> leaves (pmem t) root" using E(5) by (auto simp: leaves_def)
  then have "space_ok (fill r 1 (pmem t)) root [r]"
    using r(1) rt by (intro space_ok_frame [OF ok same]) auto
  then show "space_ok (pmem u) root (pages u)" by (simp add: u_def)
  show "kfree_mp4 kend r t = Inr u"
    using r p by (simp add: kfree_mp4_def page_ok_def u_def set_pmem_def page_free_def)
  show "pages u = [r]" "same_else {r} t u" by (auto simp: u_def same_else_def fill_eq in_pages_def)
qed

lemma uvmalloc_loop_spec:
  assumes "space_ok (pmem s) root (pages s)" "pool_ok kend (pages s)" "unat a mod PAGE = 0" "vpn a + n \<le> VPN" "npg oldsz \<le> vpn a"
    "\<And>u. vpn a \<le> u \<Longrightarrow> u < vpn a + n \<Longrightarrow> mapping (pmem s) root u = None"
    "mapped_range kend True (pmem s) root (npg oldsz) (vpn a - npg oldsz)"
  shows "\<exists>r t. uvmalloc_loop kend n root a oldsz newsz s = Inr (r, t) \<and>
    (r = newsz \<and> alloc_done kend root (vpn a) n s t \<or> r = 0 \<and> alloc_undone kend root (npg oldsz) (vpn a - npg oldsz) s t)"
  using assms
proof (induction n arbitrary: s a)
  case 0
  then have "alloc_done kend root (vpn a) 0 s s" unfolding alloc_done_def same_else_def by auto
  then show ?case by simp
next
  case (Suc n)
  let ?m = "pmem s" let ?v = "npg oldsz" let ?d = "vpn a - npg oldsz"
  note D = space_okD [OF Suc.prems(1)]
  show ?case
  proof (cases "pages s")
    case Nil
    have "vpn a \<le> VPN" using Suc.prems(4) by simp
    from dealloc_back [OF Suc.prems(1,2,3) this Suc.prems(5,7)] Nil obtain x t where
      t: "uvmdealloc kend root a oldsz s = Inr (x, t)" "alloc_undone kend root ?v ?d s t"
      unfolding alloc_undone_def by auto
    then show ?thesis using Nil by (simp add: kalloc_mp4_def page_alloc_def)
  next
    case (Cons r F)
    define t0 where "t0 = s\<lparr>pages := F, pmem := fill r 0 ?m\<rparr>"
    have r: "page_ok r" "kend \<le> r" "r < MEMTOP" "pool_ok kend F"
      using D(1) Suc.prems(2) by (auto simp: table_ok_def pool_ok_def Cons)
    have r0: "r \<noteq> 0" using r(1) by (simp add: page_ok_def)
    have k: "kalloc_mp4 s = (r, set_pmem (fill r 5) (s\<lparr>pages := F\<rparr>))" "set_pmem (fill r 0) (set_pmem (fill r 5) (s\<lparr>pages := F\<rparr>)) = t0"
      using r0 by (simp_all add: kalloc_mp4_def page_alloc_def Cons set_pmem_def t0_def)
    have unm: "mapping ?m root (vpn a) = None" using Suc.prems(6) by simp
    have vn: "vpn a < VPN" using Suc.prems(4) by simp
    have ok: "space_ok ?m root (r # F)" using Suc.prems(1) Cons by simp
    have "\<exists>res t. mappages root a 4096 r RWXU t0 = Inr (res, t) \<and> same_else (tables ?m root \<union> set (pages s)) s t \<and>
      (\<forall>k < PAGE. pmem t (r + k) = fill r 0 ?m (r + k)) \<and> tables (pmem t) root \<subseteq> tables ?m root \<union> set F \<and> set (pages t) \<subseteq> set F \<and>
      set F \<subseteq> tables (pmem t) root \<union> set (pages t) \<and> tables ?m root \<subseteq> tables (pmem t) root \<and> length F \<le> length (pages t) + 2 \<and>
      (res = 0 \<and> space_ok (pmem t) root (pages t) \<and> mapping (pmem t) root = (mapping ?m root)(vpn a \<mapsto> entry r RWXU) \<or>
       res = -1 \<and> space_ok (pmem t) root [r] \<and> mapping (pmem t) root = mapping ?m root \<and> pages t = [])"
      by (rule map_new [OF ok Cons t0_def _ vn Suc.prems(3) unm RWXU]) (auto simp: fill_eq in_pages_def)
    then obtain res t where t: "mappages root a 4096 r RWXU t0 = Inr (res, t)" "same_else (tables ?m root \<union> set (pages s)) s t"
      "\<forall>k < PAGE. pmem t (r + k) = 0" "tables (pmem t) root \<subseteq> tables ?m root \<union> set F" "set (pages t) \<subseteq> set F"
      "set F \<subseteq> tables (pmem t) root \<union> set (pages t)" "tables ?m root \<subseteq> tables (pmem t) root"
      "res = 0 \<and> space_ok (pmem t) root (pages t) \<and> mapping (pmem t) root = (mapping ?m root)(vpn a \<mapsto> entry r RWXU) \<or>
       res = -1 \<and> space_ok (pmem t) root [r] \<and> mapping (pmem t) root = mapping ?m root \<and> pages t = []"
      by (auto simp: fill_eq)
    note tc = t(6,7) note t6 = t(8)
    have all: "tables (pmem t) root \<union> set (pages t) = tables ?m root \<union> set F" using t(4,5) tc by blast
    have pool: "pool_ok kend (pages t)" using t(5) r(4) by (auto simp: pool_ok_def)
    show ?thesis
    proof (cases "res = 0")
      case True
      then have t6: "space_ok (pmem t) root (pages t)" "mapping (pmem t) root = (mapping ?m root)(vpn a \<mapsto> entry r RWXU)" using t6 by simp_all
      note N = vpn_next [OF vn Suc.prems(3)]
      have d: "vpn (a + 4096) - ?v = Suc ?d" "?v + ?d = vpn a" using Suc.prems(5) by (simp_all add: N(1))
      have fr: "freeable kend (entry r RWXU)" using PTE2PA_new [OF r(1) RWXU(1)] r(2,3) by (simp add: freeable_def)
      have mr: "mapped_range kend True (pmem t) root ?v (vpn (a + 4096) - ?v)"
        using Suc.prems(7) fr unfolding mapped_range_def d(1) t6(2) using d(2) by auto
      have d': "Suc (vpn a) - ?v = Suc ?d" using d(1) by (simp add: N(1))
      have un: "mapping (pmem t) root u = None" if "vpn (a + 4096) \<le> u" "u < vpn (a + 4096) + n" for u
        using that Suc.prems(6) [of u] by (simp add: t6(2) N(1))
      have "vpn (a + 4096) + n \<le> VPN" "?v \<le> vpn (a + 4096)" using Suc.prems(4,5) N(1) by simp_all
      from Suc.IH [OF t6(1) pool N(2) this un mr] obtain x u where
        u: "uvmalloc_loop kend n root (a + 4096) oldsz newsz t = Inr (x, u)"
          "x = newsz \<and> alloc_done kend root (Suc (vpn a)) n t u \<or> x = 0 \<and> alloc_undone kend root ?v (Suc ?d) t u"
        unfolding N(1) d' by blast
      have eq: "uvmalloc_loop kend (Suc n) root a oldsz newsz s = Inr (x, u)"
        using True t(1) u(1) r0 by (simp add: k)
      have X: "tables (pmem t) root \<union> set (pages t) \<subseteq> tables ?m root \<union> set (pages s)" using t(4,5) Cons by auto
      have "alloc_done kend root (vpn a) (Suc n) s u" if "alloc_done kend root (Suc (vpn a)) n t u"
      proof (rule alloc_done_step [OF that t6(2) t(2,3) X r(1-3)])
        have "r \<notin> set F" using D(1) Cons by (simp add: table_ok_def)
        then show "r \<notin> tables (pmem t) root \<union> set (pages t)" using t(4,5) tables_ok [OF D(1), of r] Cons by auto
        have "\<forall>y \<in> set (pages s). page_ok y" using D(1) by (simp add: table_ok_def)
        then show "\<forall>y \<in> tables (pmem t) root \<union> set (pages t). page_ok y" using X tables_ok [OF D(1)] by blast
      qed
      moreover have "alloc_undone kend root ?v ?d s u" if "alloc_undone kend root ?v (Suc ?d) t u"
        by (rule alloc_undone_step [OF that _ t(2) _ PTE2PA_new [OF r(1) RWXU(1)]]) (use t6(2) unm all Cons d(2) in simp_all)
      ultimately show ?thesis using eq u(2) by blast
    next
      case False
      then have t6: "res = -1" "space_ok (pmem t) root [r]" "mapping (pmem t) root = mapping ?m root" "pages t = []" using t6 by simp_all
      define t1 where "t1 = t\<lparr>pages := [r], pmem := fill r 1 (pmem t)\<rparr>"
      note B = kfree_new [OF t6(2) r(1-3) t6(4), folded t1_def]
      have T: "mapping (pmem t1) root = mapping ?m root" "tables (pmem t1) root = tables (pmem t) root" using B(3,4) t6(3) by simp_all
      have pool1: "pool_ok kend (pages t1)" using r by (simp add: pool_ok_def B(5))
      have pp: "ppages (pmem t1) root ?v ?d = ppages ?m root ?v ?d" by (rule ppages_cong) (simp add: T)
      have mr: "mapped_range kend True (pmem t1) root ?v ?d" using Suc.prems(7) unfolding mapped_range_def T(1) .
      have "vpn a \<le> VPN" using vn by simp
      from dealloc_back [OF B(2) pool1 Suc.prems(3) this Suc.prems(5) mr] obtain x u where
        u: "uvmdealloc kend root a oldsz t1 = Inr (x, u)" "space_ok (pmem u) root (pages u)" "pool_ok kend (pages u)"
          "mapping (pmem u) root = drop_range (mapping ?m root) ?v ?d"
          "same_else (tables (pmem t) root \<union> set (ppages ?m root ?v ?d)) t1 u"
          "tables (pmem u) root = tables (pmem t) root" "set (pages u) = insert r (set (ppages ?m root ?v ?d))"
        unfolding T pp B(5) by auto
      have eq: "uvmalloc_loop kend (Suc n) root a oldsz newsz s = Inr (0, u)"
        using False t(1) B(1) u(1) r0 by (simp add: k)
      let ?X = "tables ?m root \<union> set (pages s) \<union> set (ppages ?m root ?v ?d)"
      have "same_else ?X s t" using t(2) in_pages_mono [of "tables ?m root \<union> set (pages s)" _ ?X] by (auto simp: same_else_def)
      then have "same_else ?X s t1" by (rule same_else_trans [OF _ B(6)]) (simp add: Cons)
      then have "same_else ?X s u" by (rule same_else_trans [OF _ u(5)]) (use t(4) Cons in auto)
      then have "alloc_undone kend root ?v ?d s u" using u all t6(4) Cons by (auto simp: alloc_undone_def)
      then show ?thesis using eq by blast
    qed
  qed
qed

end
