(* ===== verification/VmCopy.thy ===== *)
theory VmCopy
  imports VmSpace
begin

text \<open>
  What the operations of mp4/kernel/vm.c do to the memory \<open>umem\<close> that a process sees: growing, copying to and
  from the kernel, copying an address space.
\<close>

unbundle bit_operations_syntax

section \<open>Growing\<close>

lemma umem_kept:
  assumes ok: "space_ok (pmem s) root (pages s)" and st: "same_else X s t" and X: "X \<subseteq> tables (pmem s) root \<union> set (pages s)"
    and m: "mapping (pmem t) root (b div PAGE) = mapping (pmem s) root (b div PAGE)"
  shows "umem (pmem t) root b = umem (pmem s) root b"
proof (cases "mapping (pmem s) root (b div PAGE)")
  case (Some e)
  note D = space_okD [OF ok]
  have "\<forall>y \<in> X. page_ok y" using X tables_ok [OF D(1)] D(1) by (auto simp: table_ok_def)
  moreover have "PTE2PA e \<notin> X" using X D(4,5) Some by blast
  ultimately have "pmem t (PTE2PA e + b mod PAGE) = pmem s (PTE2PA e + b mod PAGE)"
    using st in_pages_apart [OF D(2) [OF Some], of X "b mod PAGE"] by (simp add: same_else_def PAGE_def)
  then show ?thesis using m Some by (simp add: umem_def)
qed (use m in \<open>simp add: umem_def\<close>)

lemma user_bit: "e AND PTE_U \<noteq> 0 \<longleftrightarrow> bit e 4"
  using and_exp_eq_0_iff_not_bit [of e 4] by (simp add: PTE_U_def)

lemma div_range: "v * PAGE \<le> b \<and> b < w * PAGE \<longleftrightarrow> v \<le> b div PAGE \<and> b div PAGE < w"
  by (simp add: PAGE_def less_eq_div_iff_mult_less_eq div_less_iff_less_mult)

lemma pages_between_spec:
  assumes "unat a = v * PAGE" "v \<le> npg sz"
  shows "pages_between a sz = npg sz - v"
proof (cases "v * PAGE \<le> unat sz")
  case True
  then obtain d where d: "unat sz = v * PAGE + d" using le_Suc_ex by blast
  have "npg sz = v + (d + 4095) div PAGE" by (simp add: npg_def d PAGE_def add.assoc)
  then show ?thesis by (simp add: pages_between_def assms(1) d)
next
  case False
  then have "npg sz < Suc v" unfolding npg_def PAGE_def by (simp add: div_less_iff_less_mult)
  then show ?thesis using assms False by (simp add: pages_between_def PAGE_def)
qed

text \<open>C10: \<open>uvmalloc\<close> is all or nothing: within the address range it never panics; either it returns the new size and the
  memory of the process is extended by zeroes from the page after the old size to the last page of the new one, or it returns 0 and the process sees
  the memory it had; every page it took is then free again or a page of the process's page table. The page table stays well-formed and every free page one that \<open>kfree\<close> accepts.\<close>

theorem uvmalloc_all_or_nothing:
  assumes ok: "space_ok (pmem s) root (pages s)" "pool_ok kend (pages s)" and sz: "oldsz \<le> newsz" "newsz \<le> MAXVA"
    and free: "\<And>u. npg oldsz \<le> u \<Longrightarrow> u < npg newsz \<Longrightarrow> mapping (pmem s) root u = None"
  shows "\<exists>r t. uvmalloc kend root oldsz newsz s = Inr (r, t) \<and> space_ok (pmem t) root (pages t) \<and> pool_ok kend (pages t) \<and>
    (r = newsz \<and> umem (pmem t) root = (\<lambda>b. if npg oldsz * PAGE \<le> b \<and> b < npg newsz * PAGE then Some 0 else umem (pmem s) root b) \<or>
     r = 0 \<and> umem (pmem t) root = umem (pmem s) root \<and>
       tables (pmem t) root \<union> set (pages t) = tables (pmem s) root \<union> set (pages s))"
proof -
  let ?a = "round_up oldsz" let ?n = "npg newsz - npg oldsz"
  have om: "oldsz \<le> MAXVA" using sz by simp
  note O = round_up_spec [OF om] and N = round_up_spec [OF sz(2)]
  have le: "npg oldsz \<le> npg newsz" by (rule npg_mono [OF sz(1)])
  have al: "unat ?a mod PAGE = 0" by (simp add: O(1))
  have na: "npg ?a = npg oldsz" using npg_aligned [OF al] O(2) by simp
  have pb: "pages_between ?a newsz = ?n" by (rule pages_between_spec [OF O(1) le])
  have eq: "uvmalloc kend root oldsz newsz s = uvmalloc_loop kend ?n root ?a ?a newsz s"
    using sz(1) by (simp add: uvmalloc_def pb not_less [symmetric])
  have un: "mapping (pmem s) root u = None" if "vpn ?a \<le> u" "u < vpn ?a + ?n" for u
    using that free le by (simp add: O(2))
  have mr: "mapped_range kend True (pmem s) root (npg ?a) (vpn ?a - npg ?a)" by (auto simp: mapped_range_def O(2) na)
  have in1: "vpn ?a + ?n \<le> VPN" "npg ?a \<le> vpn ?a" using le N(3) by (simp_all add: O(2) na)
  have "\<exists>r t. uvmalloc_loop kend ?n root ?a ?a newsz s = Inr (r, t) \<and>
    (r = newsz \<and> alloc_done kend root (vpn ?a) ?n s t \<or> r = 0 \<and> alloc_undone kend root (npg ?a) (vpn ?a - npg ?a) s t)"
    by (rule uvmalloc_loop_spec [OF ok al in1 un mr])
  then obtain r t where
    t: "uvmalloc_loop kend ?n root ?a ?a newsz s = Inr (r, t)"
      "r = newsz \<and> alloc_done kend root (npg oldsz) ?n s t \<or> r = 0 \<and> alloc_undone kend root (npg oldsz) 0 s t"
    unfolding O(2) na by auto
  have gro: "umem (pmem t) root = (\<lambda>b. if npg oldsz * PAGE \<le> b \<and> b < npg newsz * PAGE then Some 0 else umem (pmem s) root b)"
    if d: "alloc_done kend root (npg oldsz) ?n s t"
  proof
    fix b
    have st: "same_else (tables (pmem s) root \<union> set (pages s)) s t" using d by (simp add: alloc_done_def)
    show "umem (pmem t) root b = (if npg oldsz * PAGE \<le> b \<and> b < npg newsz * PAGE then Some 0 else umem (pmem s) root b)"
    proof (cases "npg oldsz \<le> b div PAGE \<and> b div PAGE < npg newsz")
      case True
      then have "zero_page kend (pmem t) root (b div PAGE)" using d le by (simp add: alloc_done_def)
      then obtain p where p: "mapping (pmem t) root (b div PAGE) = Some (entry p RWXU)" "page_ok p" "\<forall>k < PAGE. pmem t (p + k) = 0"
        unfolding zero_page_def by blast
      have "entry p RWXU AND PTE_U \<noteq> 0" by (simp add: user_bit entry_def bit_or_iff) (simp add: PTE_U_def PTE_V_def PTE_W_def PTE_X_def PTE_R_def)
      then show ?thesis using p PTE2PA_new [OF p(2) RWXU(1)] True unfolding div_range by (simp add: umem_def PAGE_def)
    next
      case False
      then have "mapping (pmem t) root (b div PAGE) = mapping (pmem s) root (b div PAGE)" using d le by (auto simp: alloc_done_def)
      from umem_kept [OF ok(1) st order_refl this] show ?thesis using False unfolding div_range by auto
    qed
  qed
  have kept: "umem (pmem t) root = umem (pmem s) root" if d: "alloc_undone kend root (npg oldsz) 0 s t"
  proof
    fix b
    have st: "same_else (tables (pmem s) root \<union> set (pages s)) s t" using d by (simp add: alloc_undone_def ppages_def)
    show "umem (pmem t) root b = umem (pmem s) root b"
      by (rule umem_kept [OF ok(1) st order_refl]) (use d in \<open>simp add: alloc_undone_def\<close>)
  qed
  have given_back: "alloc_undone kend root (npg oldsz) 0 s t \<Longrightarrow> tables (pmem t) root \<union> set (pages t) = tables (pmem s) root \<union> set (pages s)"
    by (simp add: alloc_undone_def ppages_def)
  have "space_ok (pmem t) root (pages t) \<and> pool_ok kend (pages t)" using t(2) unfolding alloc_done_def alloc_undone_def by blast
  then show ?thesis unfolding eq using t gro kept given_back by blast
qed

text \<open>A page mapped at address 0 of the empty demonstration table.\<close>

lemma demo_mapped:
  "\<exists>s :: vm_state. space_ok (pmem s) 0x80001000 (pages s) \<and> pool_ok 0x80000000 (pages s) \<and> pages s \<noteq> [] \<and>
    mapping (pmem s) 0x80001000 = [0 \<mapsto> entry 0x80008000 RWXU] \<and>
    same_else (tables (pmem demo_vm) 0x80001000 \<union> set (pages demo_vm)) demo_vm s \<and> set (pages s) \<subseteq> set (pages demo_vm) \<and>
    tables (pmem s) 0x80001000 \<subseteq> insert 0x80001000 (set (pages demo_vm))"
proof -
  let ?root = "0x80001000 :: nat" let ?p = "0x80008000 :: nat"
  have v: "vpn (0 :: u64) = 0" by (simp add: vpn_def)
  have "(0 :: u64) < MAXVA" "mapping (pmem demo_vm) ?root (vpn 0) = None" by (simp_all add: MAXVA_def demo_vm(2) empty_mem)
  from map_page_spec [OF demo_table this, of ?p RWXU] obtain r t where
    t: "grown ?root demo_vm t" "length (pages demo_vm) \<le> length (pages t) + 2"
      "r = 0 \<and> mapping (pmem t) ?root = (mapping (pmem demo_vm) ?root)(vpn 0 \<mapsto> entry ?p RWXU) \<or>
       r = -1 \<and> mapping (pmem t) ?root = mapping (pmem demo_vm) ?root \<and> pages t = []" by blast
  have ne: "pages t \<noteq> []" using t(2) by (auto simp: demo_vm(1))
  then have m: "mapping (pmem t) ?root = [0 \<mapsto> entry ?p RWXU]" using t(3) by (simp add: demo_vm(2) empty_mem v)
  have T: "tables (pmem demo_vm) ?root = {?root}" by (auto simp: tables_def demo_vm(2) empty_mem)
  have g: "table_ok (pmem t) ?root (pages t)" "tables (pmem t) ?root \<subseteq> insert ?root (set (pages demo_vm))"
      "set (pages t) \<subseteq> set (pages demo_vm)"
      "same_else (tables (pmem demo_vm) ?root \<union> set (pages demo_vm)) demo_vm t"
    using t(1) unfolding grown_def T by auto
  have p: "page_ok ?p" "?p \<notin> insert ?root (set (pages demo_vm))" by (simp_all add: page_ok_def PAGE_def demo_vm(1))
  have e: "PTE2PA (entry ?p RWXU) = ?p" "PTE_FLAGS (entry ?p RWXU) \<noteq> PTE_V"
    using PTE2PA_new [OF p(1) RWXU(1)] flags_new [OF RWXU(1)] RWXU(2) by simp_all
  have "space_ok (pmem t) ?root (pages t)"
    unfolding space_ok_def m using g p e by (auto split: if_splits)
  moreover have "pool_ok 0x80000000 (pages t)" using g(3) by (auto simp: pool_ok_def demo_vm(1) MEMTOP_def)
  ultimately show ?thesis using m ne g by blast
qed

lemma uvmalloc_all_or_nothing_witness:
  "\<exists>s :: vm_state. \<exists>r t. uvmalloc 0x80000000 0x80001000 100 5000 s = Inr (r, t) \<and> space_ok (pmem t) 0x80001000 (pages t) \<and>
    (r = 5000 \<and> umem (pmem t) 0x80001000 = (\<lambda>b. if npg 100 * PAGE \<le> b \<and> b < npg 5000 * PAGE then Some 0 else umem (pmem s) 0x80001000 b) \<or>
     r = 0 \<and> umem (pmem t) 0x80001000 = umem (pmem s) 0x80001000 \<and>
       tables (pmem t) 0x80001000 \<union> set (pages t) = tables (pmem s) 0x80001000 \<union> set (pages s))"
proof -
  obtain s :: vm_state where s: "space_ok (pmem s) 0x80001000 (pages s)" "pool_ok 0x80000000 (pages s)"
      "mapping (pmem s) 0x80001000 = [0 \<mapsto> entry 0x80008000 RWXU]"
    using demo_mapped by blast
  have "mapping (pmem s) 0x80001000 u = None" if "npg 100 \<le> u" for u using that by (simp add: s(3) npg_def PAGE_def)
  with uvmalloc_all_or_nothing [OF s(1,2), of 100 5000] show ?thesis by (auto simp: MAXVA_def)
qed

section \<open>Copying between user and kernel\<close>

lemma walkaddr_spec:
  assumes ok: "table_ok (pmem s) root F"
  shows "walkaddr root va s = (if va < MAXVA then
    (case mapping (pmem s) root (vpn va) of None \<Rightarrow> 0 | Some e \<Rightarrow> if e AND PTE_U \<noteq> 0 then PTE2PA e else 0) else 0)"
proof (cases "va < MAXVA")
  case True
  then have n: "vpn va < VPN" by (simp add: MAXVA_vpn)
  show ?thesis
  proof (cases "tbl (pmem s) root (vpath (vpn va))")
    case None
    then show ?thesis using True n by (simp add: walkaddr_def walk_find mapping_def)
  next
    case (Some x)
    have "x \<noteq> 0" using table_okD(1) [OF ok path_simps(3) Some] by (simp add: page_ok_def)
    moreover have "walk root va False s = Inr (x + 8 * (vpn va mod 512), s)" by (rule walk_present [OF Some True])
    moreover have "(MAXVA \<le> va) = False" using True by simp
    ultimately show ?thesis using True by (simp add: walkaddr_def mapping_def valid_entry_def n Some)
  qed
next
  case False
  then have "walkaddr root va s = 0" by (simp add: walkaddr_def not_less)
  then show ?thesis using False by simp
qed

text \<open>One page: where its bytes are, \<open>None\<close> when the user may not see it.\<close>

definition upage :: "cmem \<Rightarrow> nat \<Rightarrow> nat \<Rightarrow> nat option" where
  "upage m root v = (case mapping m root v of None \<Rightarrow> None | Some e \<Rightarrow> if e AND PTE_U \<noteq> 0 then Some (PTE2PA e) else None)"

lemma umem_upage: "umem m root b = map_option (\<lambda>p. m (p + b mod PAGE)) (upage m root (b div PAGE))"
  by (simp add: umem_def upage_def split: option.split)

lemma walkaddr_upage:
  assumes ok: "space_ok (pmem s) root (pages s)"
  shows "walkaddr root (round_down va) s = (case upage (pmem s) root (vpn va) of None \<Rightarrow> 0 | Some p \<Rightarrow> p)"
    and "upage (pmem s) root v = Some p \<Longrightarrow> page_ok p \<and> v < VPN \<and> p \<in> leaves (pmem s) root"
proof -
  show "page_ok p \<and> v < VPN \<and> p \<in> leaves (pmem s) root" if u: "upage (pmem s) root v = Some p" for v p
  proof -
    obtain e where e: "mapping (pmem s) root v = Some e" "PTE2PA e = p" using u by (auto simp: upage_def split: option.splits if_splits)
    then have "v < VPN" unfolding mapping_def by (metis option.distinct(1))
    then show ?thesis using space_okD(2) [OF ok e(1)] e by (auto simp: leaves_def)
  qed
  show "walkaddr root (round_down va) s = (case upage (pmem s) root (vpn va) of None \<Rightarrow> 0 | Some p \<Rightarrow> p)"
  proof (cases "round_down va < MAXVA")
    case True
    then show ?thesis unfolding walkaddr_spec [OF space_okD(1) [OF ok]] vpn_round_down upage_def by (simp split: option.split)
  next
    case False
    then have "mapping (pmem s) root (vpn va) = None" by (simp add: MAXVA_vpn vpn_round_down mapping_def)
    then show ?thesis using False by (simp add: walkaddr_def upage_def not_less)
  qed
qed

lemma next_page:
  assumes "vpn va < VPN"
  shows "unat (round_down va + 4096) = (vpn va + 1) * PAGE"
proof -
  have "unat (round_down va) = vpn va * PAGE" by (rule vpn_round_down(3))
  then show ?thesis using assms unat_add_small [of "round_down va" 4096] by (simp add: VPN_def PAGE_def)
qed

text \<open>The bytes of the user's memory from \<open>b\<close> on, the first \<open>n\<close> of them.\<close>

definition ubytes :: "cmem \<Rightarrow> nat \<Rightarrow> nat \<Rightarrow> nat \<Rightarrow> u8 option list" where
  "ubytes m root b n = map (umem m root) [b..<b + n]"

lemma in_page_eq: "in_page va len = min len (PAGE - unat va mod PAGE)"
  by (simp add: in_page_def unat_page_offset PAGE_def)

lemma same_page:
  assumes "k < in_page va len"
  shows "(unat va + k) div PAGE = vpn va" "(unat va + k) mod PAGE = unat va mod PAGE + k"
proof -
  have k: "unat va mod PAGE + k < PAGE" using assms by (simp add: in_page_eq less_diff_conv add.commute)
  have e: "unat va + k = vpn va * PAGE + (unat va mod PAGE + k)" by (simp add: vpn_def)
  show "(unat va + k) div PAGE = vpn va" "(unat va + k) mod PAGE = unat va mod PAGE + k"
    using k unfolding e by (simp_all add: PAGE_def)
qed

text \<open>The next part starts where this one ended.\<close>

lemma part_end:
  assumes "in_page va len < len" "vpn va < VPN"
  shows "unat (round_down va + 4096) = unat va + in_page va len"
proof -
  have "in_page va len = PAGE - unat va mod PAGE" using assms(1) by (simp add: in_page_eq min_def split: if_splits)
  moreover have "unat va mod PAGE < PAGE" by (simp add: PAGE_def)
  moreover have "unat va = vpn va * PAGE + unat va mod PAGE" by (simp add: vpn_def)
  moreover have "unat (round_down va + 4096) = vpn va * PAGE + PAGE" using next_page [OF assms(2)] by simp
  ultimately show ?thesis by linarith
qed

text \<open>One part of a copy.\<close>

lemma part_bytes:
  assumes "upage m root (vpn va) = Some p" "n \<le> in_page va len"
  shows "ubytes m root (unat va) n = map (\<lambda>k. Some (m (p + unat va mod PAGE + k))) [0..<n]"
proof (rule nth_equalityI)
  fix k assume "k < length (ubytes m root (unat va) n)"
  then have k: "k < n" by (simp add: ubytes_def)
  then show "ubytes m root (unat va) n ! k = map (\<lambda>k. Some (m (p + unat va mod PAGE + k))) [0..<n] ! k"
    using same_page [of k va len] assms by (simp add: ubytes_def umem_upage add.assoc)
qed (simp add: ubytes_def)

lemma ubytes_add: "ubytes m root b (n + k) = ubytes m root b n @ ubytes m root (b + n) k"
proof -
  have "[b..<b + (n + k)] = [b..<b + n] @ [b + n..<b + n + k]" by (metis add.assoc le_add1 upt_add_eq_append)
  then show ?thesis by (simp add: ubytes_def)
qed

lemma copyin_spec:
  assumes ok: "space_ok (pmem s) root (pages s)"
  shows "copyin root va len s = (bs, full) \<Longrightarrow>
    length bs \<le> len \<and> map Some bs = ubytes (pmem s) root (unat va) (length bs) \<and>
    (full \<longleftrightarrow> length bs = len) \<and> (\<not> full \<longrightarrow> umem (pmem s) root (unat va + length bs) = None)"
proof (induction len arbitrary: va bs full rule: less_induct)
  case (less len)
  let ?n = "in_page va len" let ?m = "pmem s"
  show ?case
  proof (cases "len = 0")
    case True
    then show ?thesis using less.prems by (simp add: copyin.simps [of _ _ 0] ubytes_def)
  next
    case False
    note W = walkaddr_upage [OF ok]
    show ?thesis
    proof (cases "upage ?m root (vpn va)")
      case None
      then have "bs = []" "\<not> full" using less.prems False W(1) [of va] by (simp_all add: copyin.simps [of root va len] Let_def)
      then show ?thesis using None False by (simp add: ubytes_def umem_upage vpn_def)
    next
      case (Some p)
      then have p: "p \<noteq> 0" "vpn va < VPN" using W(2) [OF Some] by (simp_all add: page_ok_def)
      obtain cs fl where r: "copyin root (round_down va + 4096) (len - ?n) s = (cs, fl)" by fastforce
      define a where "a = p + unat va mod PAGE"
      have e: "bs = map ?m [a..<a + ?n] @ cs" "full = fl"
        using less.prems False p(1) r Some W(1) [of va] unfolding copyin.simps [of root va len] a_def
        by (simp_all add: Let_def unat_page_offset PAGE_def)
      have n: "0 < ?n" "?n \<le> len" using False in_page_pos [of len va] by (simp_all add: in_page_eq)
      have "map Some (map ?m [a..<a + ?n]) = ubytes ?m root (unat va) ?n"
        unfolding part_bytes [OF Some order_refl] a_def [symmetric]
        by (rule nth_equalityI) simp_all
      moreover have "len - ?n < len" using n by simp
      note IH = less.IH [OF this r]
      show ?thesis
      proof (cases "?n < len")
        case True
        show ?thesis using IH calculation n unfolding part_end [OF True p(2)] e
          by (simp add: ubytes_add add.assoc) linarith
      next
        case False
        then have "cs = []" "fl" "?n = len" using IH n by auto
        then show ?thesis using calculation e by simp
      qed
    qed
  qed
qed

definition overwrite :: "nat \<Rightarrow> u8 list \<Rightarrow> (nat \<Rightarrow> u8 option) \<Rightarrow> nat \<Rightarrow> u8 option" where
  "overwrite a bs f = (\<lambda>b. if a \<le> b \<and> b < a + length bs then Some (bs ! (b - a)) else f b)"

lemma overwrite_Nil [simp]: "overwrite a [] f = f"
  by (rule ext) (auto simp: overwrite_def)

lemma overwrite_append: "overwrite (a + length xs) ys (overwrite a xs f) = overwrite a (xs @ ys) f"
  by (rule ext) (auto simp: overwrite_def nth_append)

lemma store_bytes_eq: "store_bytes pa bs m a = (if pa \<le> a \<and> a < pa + length bs then bs ! (a - pa) else m a)"
  by (simp add: store_bytes_def copy_out_def)

lemma store_part:
  assumes ok: "space_ok (pmem s) root (pages s)" and p: "upage (pmem s) root (vpn va) = Some p" and n: "length bs \<le> in_page va len"
  defines "t \<equiv> set_pmem (store_bytes (p + unat va mod PAGE) bs) s"
  shows "space_ok (pmem t) root (pages t)" and "mapping (pmem t) root = mapping (pmem s) root" and "pages t = pages s"
    and "umem (pmem t) root = overwrite (unat va) bs (umem (pmem s) root)" and "same_else (leaves (pmem s) root) s t"
proof -
  let ?m = "pmem s" let ?o = "unat va mod PAGE"
  note D = space_okD [OF ok]
  have m: "pmem t = store_bytes (p + ?o) bs ?m" "pages t = pages s" by (simp_all add: t_def set_pmem_def)
  then show "pages t = pages s" by simp
  have in_p: "?o + length bs \<le> PAGE" using n by (simp add: in_page_eq PAGE_def min_def split: if_splits)
  obtain e where e: "mapping ?m root (vpn va) = Some e" "PTE2PA e = p" "e AND PTE_U \<noteq> 0"
    using p by (auto simp: upage_def split: option.splits if_splits)
  have pp: "page_ok p" "p \<notin> tables ?m root" "p \<in> leaves ?m root" using D(2,4) [OF e(1)] e by (auto simp: leaves_def)
  have far: "pmem t b = ?m b" if "\<And>k. k < PAGE \<Longrightarrow> b \<noteq> p + k" for b
  proof (rule ccontr)
    assume "pmem t b \<noteq> ?m b"
    then have "p + ?o \<le> b" "b < p + ?o + length bs" by (auto simp: m store_bytes_eq split: if_splits)
    then have "b - p < PAGE" "b = p + (b - p)" using in_p by linarith+
    then show False using that by blast
  qed
  have same: "pmem t b = ?m b" if "in_pages (tables ?m root) b" for b
    using that tables_ok [OF D(1)] by (intro far) (use in_pages_apart [OF pp(1) _ pp(2)] in blast)
  show mp: "mapping (pmem t) root = mapping ?m root"
    by (rule table_frame(2) [OF D(1)]) (rule same)
  show "space_ok (pmem t) root (pages t)"
    unfolding m(2)
  proof (rule space_ok_frame [OF ok same])
    show "distinct (pages s)" using D(1) by (simp add: table_ok_def)
    show "page_ok r \<and> r \<notin> tables ?m root \<and> r \<notin> leaves ?m root" if "r \<in> set (pages s)" for r
      using that D(1,5) tables_ok [OF D(1), of r] by (auto simp: table_ok_def leaves_def)
  qed
  show "same_else (leaves ?m root) s t"
    unfolding same_else_def
  proof (intro conjI allI impI)
    fix b assume "\<not> in_pages (leaves ?m root) b"
    then show "pmem t b = ?m b" using pp(3) by (intro far) (auto simp: in_pages_def)
  qed (simp add: t_def set_pmem_def)
  show "umem (pmem t) root = overwrite (unat va) bs (umem ?m root)"
  proof
    fix b
    show "umem (pmem t) root b = overwrite (unat va) bs (umem ?m root) b"
    proof (cases "b div PAGE = vpn va")
      case True
      have d: "b = vpn va * PAGE + b mod PAGE" "unat va = vpn va * PAGE + ?o" using True by (simp add: True [symmetric], simp add: vpn_def)
      then have "unat va \<le> b \<and> b < unat va + length bs \<longleftrightarrow> ?o \<le> b mod PAGE \<and> b mod PAGE < ?o + length bs"
        and "b - unat va = b mod PAGE - ?o" by linarith+
      moreover have "pmem t (p + b mod PAGE) =
        (if ?o \<le> b mod PAGE \<and> b mod PAGE < ?o + length bs then bs ! (b mod PAGE - ?o) else ?m (p + b mod PAGE))"
        by (simp add: m(1) store_bytes_eq)
      ultimately show ?thesis using True e by (simp add: umem_def mp overwrite_def)
    next
      case False
      have no: "\<not> (unat va \<le> b \<and> b < unat va + length bs)"
      proof
        assume "unat va \<le> b \<and> b < unat va + length bs"
        then have "b - unat va < in_page va len" "unat va + (b - unat va) = b" using n by linarith+
        then show False using same_page(1) [of "b - unat va" va len] False by simp
      qed
      have "umem (pmem t) root b = umem ?m root b"
      proof (cases "mapping ?m root (b div PAGE)")
        case (Some f)
        then have "PTE2PA f \<noteq> p" using D(6) [OF Some e(1)] e(2) False by metis
        then have "\<not> in_pages {p} (PTE2PA f + b mod PAGE)"
          by (intro in_pages_apart [OF D(2) [OF Some]]) (simp_all add: pp(1) PAGE_def)
        then have "pmem t (PTE2PA f + b mod PAGE) = ?m (PTE2PA f + b mod PAGE)" by (intro far) (auto simp: in_pages_def)
        then show ?thesis by (simp add: umem_def mp Some)
      qed (simp add: umem_def mp)
      then show ?thesis using no by (auto simp: overwrite_def)
    qed
  qed
qed

lemma copyout_spec:
  assumes "space_ok (pmem s) root (pages s)" "copyout root va src s = (r, t)"
  shows "\<exists>k. space_ok (pmem t) root (pages t) \<and> mapping (pmem t) root = mapping (pmem s) root \<and> pages t = pages s \<and>
    umem (pmem t) root = overwrite (unat va) (take k src) (umem (pmem s) root) \<and> same_else (leaves (pmem s) root) s t \<and>
    (r = 0 \<and> k = length src \<or> r = -1 \<and> k < length src \<and> umem (pmem s) root (unat va + k) = None)"
  using assms
proof (induction "length src" arbitrary: va src s r t rule: less_induct)
  case less
  let ?n = "in_page va (length src)" let ?m = "pmem s"
  show ?case
  proof (cases "src = []")
    case True
    then show ?thesis using less.prems by (simp add: copyout.simps [of _ _ "[]"] same_else_def)
  next
    case False
    note W = walkaddr_upage [OF less.prems(1)]
    show ?thesis
    proof (cases "upage ?m root (vpn va)")
      case None
      then have "r = -1" "t = s" using less.prems(2) False W(1) [of va] by (simp_all add: copyout.simps [of root va src] Let_def)
      then show ?thesis using None False less.prems(1)
        by (intro exI [of _ 0]) (simp add: same_else_def umem_upage vpn_def)
    next
      case (Some p)
      then have p: "p \<noteq> 0" "vpn va < VPN" using W(2) [OF Some] by (simp_all add: page_ok_def)
      define u where "u = set_pmem (store_bytes (p + unat va mod PAGE) (take ?n src)) s"
      have e: "copyout root (round_down va + 4096) (drop ?n src) u = (r, t)"
        using less.prems(2) False p(1) Some W(1) [of va] unfolding copyout.simps [of root va src] u_def
        by (simp add: Let_def unat_page_offset PAGE_def)
      have n: "0 < ?n" "?n \<le> length src" using False in_page_pos [of "length src" va] by (simp_all add: in_page_eq)
      have "length (take ?n src) \<le> in_page va (length src)" by simp
      note U = store_part [OF less.prems(1) Some this, folded u_def]
      have lt: "length (drop ?n src) < length src" using n by simp
      from less.hyps [OF lt U(1) e] obtain k where
        k: "space_ok (pmem t) root (pages t)" "mapping (pmem t) root = mapping (pmem u) root" "pages t = pages u"
          "umem (pmem t) root = overwrite (unat (round_down va + 4096)) (take k (drop ?n src)) (umem (pmem u) root)"
          "same_else (leaves (pmem u) root) u t"
          "r = 0 \<and> k = length (drop ?n src) \<or> r = -1 \<and> k < length (drop ?n src) \<and> umem (pmem u) root (unat (round_down va + 4096) + k) = None"
        by blast
      have lv: "leaves (pmem u) root = leaves ?m root" by (simp add: leaves_def U(2))
      have so: "same_else (leaves ?m root) s t" using same_else_trans [OF U(5) k(5)] by (simp add: lv)
      have "umem (pmem t) root = overwrite (unat va) (take (?n + k) src) (umem ?m root)"
      proof (cases "?n < length src")
        case True
        have "take (?n + k) src = take ?n src @ take k (drop ?n src)" by (rule take_add)
        moreover have "unat (round_down va + 4096) = unat va + length (take ?n src)" using part_end [OF True p(2)] n(2) by simp
        ultimately show ?thesis using k(4) U(4) overwrite_append [of "unat va" "take ?n src"] by simp
      next
        case False
        then show ?thesis using k(4) U(4) n(2) by simp
      qed
      moreover have "r = 0 \<and> ?n + k = length src \<or> r = -1 \<and> ?n + k < length src \<and> umem ?m root (unat va + (?n + k)) = None"
      proof (cases "r = 0")
        case True
        then show ?thesis using k(6) n(2) by auto
      next
        case False
        then have f: "r = -1" "k < length src - ?n" "umem (pmem u) root (unat (round_down va + 4096) + k) = None" using k(6) by auto
        then have "?n < length src" by simp
        then have "umem (pmem u) root (unat va + (?n + k)) = None" using f(3) part_end [OF _ p(2)] by (simp add: add.assoc)
        then have "umem ?m root (unat va + (?n + k)) = None" unfolding U(4) overwrite_def by (simp split: if_splits)
        then show ?thesis using f by simp
      qed
      ultimately show ?thesis using k(1,2,3) U(2,3) so by (intro exI [of _ "?n + k"]) simp
    qed
  qed
qed

text \<open>C11: On a well-formed address space \<open>copyout\<close> writes what \<open>copyin\<close> reads back: when it returns 0, exactly the bytes at the
  addresses of the destination have changed in the memory the process sees, across page boundaries, and \<open>copyin\<close> of the
  same range yields the source; when it returns -1 the process sees the part before an address that it may not access.\<close>

theorem copyout_copyin_round_trip:
  assumes ok: "space_ok (pmem s) root (pages s)" and c: "copyout root va src s = (r, t)"
  shows "space_ok (pmem t) root (pages t) \<and>
    (r = 0 \<and> umem (pmem t) root = overwrite (unat va) src (umem (pmem s) root) \<and> copyin root va (length src) t = (src, True) \<or>
     r = -1 \<and> (\<exists>k < length src. umem (pmem s) root (unat va + k) = None \<and>
       umem (pmem t) root = overwrite (unat va) (take k src) (umem (pmem s) root)))"
proof -
  obtain k where k: "space_ok (pmem t) root (pages t)" "umem (pmem t) root = overwrite (unat va) (take k src) (umem (pmem s) root)"
      "r = 0 \<and> k = length src \<or> r = -1 \<and> k < length src \<and> umem (pmem s) root (unat va + k) = None"
    using copyout_spec [OF ok c] by blast
  have "copyin root va (length src) t = (src, True)" if "k = length src"
  proof -
    obtain bs full where b: "copyin root va (length src) t = (bs, full)" by fastforce
    note S = copyin_spec [OF k(1) b]
    have u: "umem (pmem t) root (unat va + i) = Some (src ! i)" if "i < length src" for i
      using that k(2) \<open>k = length src\<close> by (simp add: overwrite_def)
    then have full: "full" "length bs = length src" using S by (cases "length bs = length src"; force)+
    have "bs ! i = src ! i" if "i < length src" for i
    proof -
      have "map Some bs ! i = ubytes (pmem t) root (unat va) (length src) ! i" using S full by simp
      then show ?thesis using that full u by (simp add: ubytes_def)
    qed
    then have "bs = src" using full(2) by (simp add: list_eq_iff_nth_eq)
    then show ?thesis using b full by simp
  qed
  then show ?thesis using k by auto
qed

lemma copyout_copyin_round_trip_witness:
  "\<exists>s t :: vm_state. copyout 0x80001000 10 [7, 8] s = (0, t) \<and> space_ok (pmem t) 0x80001000 (pages t) \<and> copyin 0x80001000 10 2 t = ([7, 8], True)"
proof -
  obtain s :: vm_state where s: "space_ok (pmem s) 0x80001000 (pages s)" "mapping (pmem s) 0x80001000 = [0 \<mapsto> entry 0x80008000 RWXU]"
    using demo_mapped by blast
  obtain r t where c: "copyout 0x80001000 10 [7, 8] s = (r, t)" by fastforce
  have "entry 0x80008000 RWXU AND PTE_U \<noteq> 0" by (simp add: user_bit entry_def bit_or_iff) (simp add: PTE_U_def PTE_V_def PTE_W_def PTE_X_def PTE_R_def)
  then have u: "umem (pmem s) 0x80001000 (10 + k) \<noteq> None" if "k < 2" for k using that by (simp add: umem_def s(2) PAGE_def)
  have l: "length [7, 8 :: u8] = 2" "unat (10 :: u64) = 10" by simp_all
  from copyout_copyin_round_trip [OF s(1) c, unfolded l] u have "r = 0" "space_ok (pmem t) 0x80001000 (pages t)"
      "copyin 0x80001000 10 2 t = ([7, 8], True)" by blast+
  then show ?thesis using c by blast
qed

end
