(* ===== verification/VmFork.thy ===== *)
theory VmFork
  imports VmCopy
begin

text \<open>Copying an address space (\<open>uvmcopy\<close> of mp4/kernel/vm.c).\<close>

unbundle bit_operations_syntax

section \<open>Two address spaces\<close>

definition foot :: "cmem \<Rightarrow> nat \<Rightarrow> nat set" where
  "foot m root = tables m root \<union> leaves m root"

text \<open>What happens outside the pages of an address space does not touch it.\<close>

definition kept :: "nat \<Rightarrow> 'a vm_state_scheme \<Rightarrow> 'a vm_state_scheme \<Rightarrow> bool" where
  "kept root s t \<longleftrightarrow> space_ok (pmem t) root (pages t) \<and> mapping (pmem t) root = mapping (pmem s) root \<and>
     tables (pmem t) root = tables (pmem s) root \<and> (\<forall>x \<in> foot (pmem s) root. \<forall>k < PAGE. pmem t (x + k) = pmem s (x + k))"

lemma kept_foot: "kept root s t \<Longrightarrow> foot (pmem t) root = foot (pmem s) root"
  by (simp add: kept_def foot_def leaves_def)

lemma kept_trans: "kept root s t \<Longrightarrow> kept root t u \<Longrightarrow> kept root s u"
  using kept_foot [of root s t] by (simp add: kept_def)

lemma kept_umem:
  assumes "kept root s t"
  shows "umem (pmem t) root = umem (pmem s) root"
proof
  fix b
  show "umem (pmem t) root b = umem (pmem s) root b"
  proof (cases "mapping (pmem s) root (b div PAGE)")
    case (Some e)
    then have "PTE2PA e \<in> foot (pmem s) root" by (auto simp: foot_def leaves_def)
    moreover have "b mod PAGE < PAGE" by (simp add: PAGE_def)
    ultimately show ?thesis using assms Some by (simp add: umem_def kept_def)
  qed (use assms in \<open>simp add: umem_def kept_def\<close>)
qed

lemma foot_ok: "space_ok m root F \<Longrightarrow> x \<in> foot m root \<Longrightarrow> page_ok x \<and> x \<notin> set F"
  using tables_ok [OF space_okD(1)] by (auto simp: foot_def leaves_def dest: space_okD)

lemma kept_else:
  assumes ok: "space_ok (pmem s) root (pages s)" and st: "same_else X s t" and X: "\<forall>x \<in> X. page_ok x" "X \<inter> foot (pmem s) root = {}"
    and p: "set (pages t) \<subseteq> X" "distinct (pages t)"
  shows "kept root s t"
proof -
  have far: "pmem t (x + k) = pmem s (x + k)" if "x \<in> foot (pmem s) root" "k < PAGE" for x k
    using st in_pages_apart [of x X k] foot_ok [OF ok that(1)] X that by (auto simp: same_else_def)
  have same: "pmem t b = pmem s b" if b: "in_pages (tables (pmem s) root) b" for b
  proof -
    obtain x where x: "x \<in> tables (pmem s) root" "x \<le> b" "b < x + PAGE" using b by (auto simp: in_pages_def)
    then show ?thesis using far [of x "b - x"] by (simp add: foot_def)
  qed
  have T: "mapping (pmem t) root = mapping (pmem s) root" "tables (pmem t) root = tables (pmem s) root"
    by (rule table_frame(2,3) [OF space_okD(1) [OF ok]], rule same, assumption)+
  have "space_ok (pmem t) root (pages t)"
    by (rule space_ok_frame [OF ok same p(2)]) (use X p(1) in \<open>auto simp: foot_def\<close>)
  then show ?thesis using T far by (simp add: kept_def)
qed

section \<open>Copying pages\<close>

text \<open>The child has, in a page taken from the free list \<open>F\<close>, the bytes and the flags of the parent's page.\<close>

definition copied_page :: "nat \<Rightarrow> nat list \<Rightarrow> cmem \<Rightarrow> nat \<Rightarrow> cmem \<Rightarrow> nat \<Rightarrow> nat \<Rightarrow> bool" where
  "copied_page kend F m old m' new u \<longleftrightarrow> (\<exists>e p. mapping m old u = Some e \<and> p \<in> set F \<and> page_ok p \<and> kend \<le> p \<and> p < MEMTOP \<and>
     mapping m' new u = Some (entry p (PTE_FLAGS e)) \<and> (\<forall>k < PAGE. m' (p + k) = m (PTE2PA e + k)))"

definition copy_done :: "nat \<Rightarrow> nat \<Rightarrow> nat \<Rightarrow> nat \<Rightarrow> nat \<Rightarrow> 'a vm_state_scheme \<Rightarrow> 'a vm_state_scheme \<Rightarrow> bool" where
  "copy_done kend old new v n s t \<longleftrightarrow> space_ok (pmem t) new (pages t) \<and> kept old s t \<and>
     (\<forall>u. \<not> (v \<le> u \<and> u < v + n) \<longrightarrow> mapping (pmem t) new u = mapping (pmem s) new u) \<and>
     (\<forall>u. v \<le> u \<and> u < v + n \<longrightarrow> copied_page kend (pages s) (pmem s) old (pmem t) new u) \<and>
     tables (pmem t) new \<union> set (pages t) \<union> set (ppages (pmem t) new v n) = tables (pmem s) new \<union> set (pages s) \<and>
     same_else (tables (pmem s) new \<union> set (pages s)) s t"

definition copy_undone :: "nat \<Rightarrow> nat \<Rightarrow> nat \<Rightarrow> 'a vm_state_scheme \<Rightarrow> 'a vm_state_scheme \<Rightarrow> bool" where
  "copy_undone old new v s t \<longleftrightarrow> space_ok (pmem t) new (pages t) \<and> kept old s t \<and>
     mapping (pmem t) new = drop_range (mapping (pmem s) new) 0 v \<and>
     tables (pmem t) new \<union> set (pages t) = tables (pmem s) new \<union> set (pages s) \<union> set (ppages (pmem s) new 0 v)"

lemma copy_back:
  assumes ok: "space_ok (pmem s) new (pages s)" "space_ok (pmem s) old (pages s)"
    and i: "unat i mod PAGE = 0" "vpn i \<le> VPN" and m: "mapped_range kend True (pmem s) new 0 (vpn i)"
    and sep: "(tables (pmem s) new \<union> set (ppages (pmem s) new 0 (vpn i))) \<inter> foot (pmem s) old = {}"
  shows "\<exists>t. uvmunmap kend new 0 (i div 4096) True s = Inr t \<and> copy_undone old new (vpn i) s t"
proof -
  have v: "vpn (0 :: u64) = 0" "unat (0 :: u64) mod PAGE = 0" by (simp_all add: vpn_def)
  obtain q where q: "unat i = 4096 * q" using i(1) by (auto simp: PAGE_def elim!: dvdE)
  have vq: "vpn i = q" by (simp add: vpn_def q PAGE_def)
  have "i div 4096 * 4096 = i"
    by (simp add: word_unat_eq_iff unat_word_ariths q unat_div) (use i(2) in \<open>simp add: vq VPN_def\<close>)
  then have pb: "pages_between 0 (0 + i div 4096 * 4096) = vpn i" by (simp add: pages_between_def q vq PAGE_def)
  have eq: "uvmunmap kend new 0 (i div 4096) True s = unmap_loop kend (vpn i) new 0 True s"
    unfolding uvmunmap_def pb by simp
  have "\<exists>t. unmap_loop kend (vpn i) new 0 True s = Inr t \<and> space_ok (pmem t) new (pages t) \<and>
    mapping (pmem t) new = drop_range (mapping (pmem s) new) (vpn 0) (vpn i) \<and>
    pages t = (if True then rev (ppages (pmem s) new (vpn 0) (vpn i)) else []) @ pages s \<and>
    tables (pmem t) new = tables (pmem s) new \<and>
    same_else (tables (pmem s) new \<union> (if True then set (ppages (pmem s) new (vpn 0) (vpn i)) else {})) s t"
    by (rule unmap_loop_spec [OF ok(1) v(2)]) (use m i(2) in \<open>simp_all add: v\<close>)
  then obtain t where t: "unmap_loop kend (vpn i) new 0 True s = Inr t" "space_ok (pmem t) new (pages t)"
      "mapping (pmem t) new = drop_range (mapping (pmem s) new) 0 (vpn i)"
      "pages t = rev (ppages (pmem s) new 0 (vpn i)) @ pages s" "tables (pmem t) new = tables (pmem s) new"
      "same_else (tables (pmem s) new \<union> set (ppages (pmem s) new 0 (vpn i))) s t"
    unfolding v(1) by auto
  let ?X = "tables (pmem s) new \<union> set (ppages (pmem s) new 0 (vpn i))"
  have "kept old s t"
  proof (rule kept_else [OF ok(2), of "?X \<union> set (pages s)"])
    show "same_else (?X \<union> set (pages s)) s t"
      using t(6) in_pages_mono [of ?X _ "?X \<union> set (pages s)"] by (auto simp: same_else_def)
    show "(?X \<union> set (pages s)) \<inter> foot (pmem s) old = {}" using sep foot_ok [OF ok(2)] by blast
    show "set (pages t) \<subseteq> ?X \<union> set (pages s)" by (auto simp: t(4))
    have d: "table_ok (pmem t) new (pages t)" by (rule space_okD(1) [OF t(2)])
    then show "distinct (pages t)" by (simp add: table_ok_def)
    have "page_ok x" if "x \<in> set (pages t)" for x using d that by (simp add: table_ok_def)
    then show "\<forall>x \<in> ?X \<union> set (pages s). page_ok x" using tables_ok [OF space_okD(1) [OF ok(1)]] by (auto simp: t(4))
  qed
  then show ?thesis using t by (auto simp: eq copy_undone_def)
qed

lemma PTE_FLAGS_bits: "PTE_FLAGS e = take_bit 10 e" "PTE_FLAGS e < 1024"
proof -
  show t: "PTE_FLAGS e = take_bit 10 e" by (simp add: PTE_FLAGS_def flags_bits take_bit_eq_mask)
  have "unat (take_bit 10 e) < 2 ^ 10" by (simp only: unsigned_take_bit_eq take_bit_nat_less_exp)
  then show "PTE_FLAGS e < 1024" by (simp add: t word_less_nat_alt)
qed

lemma PTE_FLAGS_valid: "e AND PTE_V \<noteq> 0 \<Longrightarrow> PTE_FLAGS e OR PTE_V = PTE_FLAGS e"
proof -
  assume "e AND PTE_V \<noteq> 0"
  then have "bit e 0" by (simp add: PTE_V_def and_one_eq odd_iff_mod_2_eq_one bit_0)
  then show ?thesis by (intro bit_word_eqI) (auto simp: PTE_FLAGS_bits PTE_V_def bit_simps)
qed

lemma mapping_valid: "mapping m root u = Some e \<Longrightarrow> e AND PTE_V \<noteq> 0"
  by (auto simp: mapping_def valid_entry_def split: if_splits option.splits)

text \<open>One page more.\<close>

lemma copy_done_step:
  assumes d: "copy_done kend old new (Suc v) n t u" and k: "kept old s t"
    and m: "mapping (pmem t) new = (mapping (pmem s) new)(v \<mapsto> entry r (PTE_FLAGS e))" and e: "mapping (pmem s) old v = Some e"
    and st: "same_else (tables (pmem s) new \<union> set (pages s)) s t" and z: "\<forall>k < PAGE. pmem t (r + k) = pmem s (PTE2PA e + k)"
    and Y: "insert r (tables (pmem t) new \<union> set (pages t)) = tables (pmem s) new \<union> set (pages s)" "r \<in> set (pages s)"
      "set (pages t) \<subseteq> set (pages s)"
    and r: "page_ok r" "kend \<le> r" "r < MEMTOP" and nr: "r \<notin> tables (pmem t) new \<union> set (pages t)"
    and ok: "\<forall>y \<in> tables (pmem t) new \<union> set (pages t). page_ok y"
  shows "copy_done kend old new v (Suc n) s u"
proof -
  have tu: "same_else (tables (pmem t) new \<union> set (pages t)) t u" using d by (simp add: copy_done_def)
  have X: "tables (pmem t) new \<union> set (pages t) \<subseteq> tables (pmem s) new \<union> set (pages s)" using Y by blast
  have mu: "mapping (pmem u) new w = mapping (pmem t) new w" if "\<not> (Suc v \<le> w \<and> w < Suc v + n)" for w
    using d that by (simp add: copy_done_def)
  have "pmem u (r + k) = pmem s (PTE2PA e + k)" if "k < PAGE" for k
    using z tu in_pages_apart [OF r(1) ok nr that] that by (simp add: same_else_def)
  then have zv: "copied_page kend (pages s) (pmem s) old (pmem u) new v" using r e Y(2) mu [of v] by (auto simp: copied_page_def m)
  have cp: "copied_page kend (pages s) (pmem s) old (pmem u) new w" if "v \<le> w \<and> w < v + Suc n" for w
  proof (cases "w = v")
    case False
    then have "Suc v \<le> w \<and> w < Suc v + n" using that by auto
    then have "copied_page kend (pages t) (pmem t) old (pmem u) new w" using d by (simp add: copy_done_def)
    then obtain f p where f: "mapping (pmem t) old w = Some f" "p \<in> set (pages t)" "page_ok p" "kend \<le> p" "p < MEMTOP"
        "mapping (pmem u) new w = Some (entry p (PTE_FLAGS f))" "\<forall>k < PAGE. pmem u (p + k) = pmem t (PTE2PA f + k)"
      unfolding copied_page_def by blast
    then have fs: "mapping (pmem s) old w = Some f" using k by (simp add: kept_def)
    then have "PTE2PA f \<in> foot (pmem s) old" by (auto simp: foot_def leaves_def)
    then have "\<forall>k < PAGE. pmem u (p + k) = pmem s (PTE2PA f + k)" using k f(7) by (simp add: kept_def)
    then show ?thesis using fs f(2-6) Y(3) unfolding copied_page_def by blast
  qed (use zv in simp)
  have "ppages (pmem u) new v (Suc n) = r # ppages (pmem u) new (Suc v) n"
    using mu [of v] by (simp add: ppages_Suc m PTE2PA_new [OF r(1) PTE_FLAGS_bits(2)])
  then have "tables (pmem u) new \<union> set (pages u) \<union> set (ppages (pmem u) new v (Suc n)) = tables (pmem s) new \<union> set (pages s)"
    using d Y(1) unfolding copy_done_def by auto
  moreover note cp
  moreover have "mapping (pmem u) new w = mapping (pmem s) new w" if "\<not> (v \<le> w \<and> w < v + Suc n)" for w
    using that mu [of w] by (auto simp: m)
  moreover have "kept old s u" using k d kept_trans unfolding copy_done_def by blast
  ultimately show ?thesis using d same_else_trans [OF st tu X] unfolding copy_done_def by blast
qed

lemma copy_undone_step:
  assumes d: "copy_undone old new (Suc v) t u" and k: "kept old s t"
    and m: "mapping (pmem t) new = (mapping (pmem s) new)(v \<mapsto> e)" and un: "mapping (pmem s) new v = None"
    and Y: "insert (PTE2PA e) (tables (pmem t) new \<union> set (pages t)) = tables (pmem s) new \<union> set (pages s)"
  shows "copy_undone old new v s u"
proof -
  have "drop_range (mapping (pmem t) new) 0 (Suc v) = drop_range (mapping (pmem s) new) 0 v"
    using un by (intro ext) (auto simp: drop_range_def m less_Suc_eq)
  moreover have "ppages (pmem t) new 0 (Suc v) = ppages (pmem s) new 0 v @ [PTE2PA e]" by (simp add: ppages_def m)
  ultimately show ?thesis using d kept_trans [OF k] Y unfolding copy_undone_def by auto
qed

lemma copy_undone_refl:
  assumes d: "copy_undone old new v t u" and k: "kept old s t" and m: "mapping (pmem t) new = mapping (pmem s) new"
    and Y: "tables (pmem t) new \<union> set (pages t) = tables (pmem s) new \<union> set (pages s)"
  shows "copy_undone old new v s u"
proof -
  have "ppages (pmem t) new 0 v = ppages (pmem s) new 0 v" by (rule ppages_cong) (simp add: m)
  then show ?thesis using d kept_trans [OF k] Y unfolding copy_undone_def m by simp
qed

lemma find_entry:
  assumes "space_ok (pmem s) root (pages s)" "mapping (pmem s) root (vpn a) = Some e" "a < MAXVA"
  shows "\<exists>p. walk root a False s = Inr (p, s) \<and> p \<noteq> 0 \<and> get64 (pmem s) p = e \<and> e AND PTE_V \<noteq> 0"
proof -
  obtain x where x: "tbl (pmem s) root (vpath (vpn a)) = Some x" "valid_entry (pmem s) (x + 8 * (vpn a mod 512)) = Some e"
    using assms(2) by (auto simp: mapping_def split: option.splits if_splits)
  have "x \<noteq> 0" using table_okD(1) [OF space_okD(1) [OF assms(1)] path_simps(3) x(1)] by (simp add: page_ok_def)
  moreover have "walk root a False s = Inr (x + 8 * (vpn a mod 512), s)" by (rule walk_present [OF x(1) assms(3)])
  ultimately show ?thesis using x(2) by (auto simp: valid_entry_def split: if_splits)
qed

definition copy_pre :: "nat \<Rightarrow> nat \<Rightarrow> nat \<Rightarrow> nat \<Rightarrow> nat \<Rightarrow> 'a vm_state_scheme \<Rightarrow> bool" where
  "copy_pre kend old new v n s \<longleftrightarrow> space_ok (pmem s) old (pages s) \<and> space_ok (pmem s) new (pages s) \<and> pool_ok kend (pages s) \<and>
     (\<forall>u. v \<le> u \<and> u < v + n \<longrightarrow> mapping (pmem s) old u \<noteq> None \<and> mapping (pmem s) new u = None) \<and>
     mapped_range kend True (pmem s) new 0 v \<and>
     (tables (pmem s) new \<union> set (ppages (pmem s) new 0 v)) \<inter> foot (pmem s) old = {}"

lemma uvmcopy_loop_spec:
  assumes "copy_pre kend old new (vpn i) n s" "unat i mod PAGE = 0" "vpn i + n \<le> VPN"
  shows "\<exists>r t. uvmcopy_loop kend n old new i s = Inr (r, t) \<and>
    (r = 0 \<and> copy_done kend old new (vpn i) n s t \<or> r = -1 \<and> copy_undone old new (vpn i) s t \<and> length (pages s) \<le> 3 * n)"
  using assms
proof (induction n arbitrary: s i)
  case 0
  have ok: "space_ok (pmem s) old (pages s)" "space_ok (pmem s) new (pages s)" using 0(1) by (simp_all add: copy_pre_def)
  then have "kept old s s" by (simp add: kept_def)
  then have "copy_done kend old new (vpn i) 0 s s" using ok unfolding copy_done_def same_else_def ppages_def by auto
  then show ?case by simp
next
  case (Suc n)
  let ?m = "pmem s" let ?v = "vpn i"
  have pre: "space_ok ?m old (pages s)" "space_ok ?m new (pages s)" "pool_ok kend (pages s)" "mapped_range kend True ?m new 0 ?v"
      "(tables ?m new \<union> set (ppages ?m new 0 ?v)) \<inter> foot ?m old = {}" "mapping ?m new ?v = None" "mapping ?m old ?v \<noteq> None"
    using Suc.prems(1) by (simp_all add: copy_pre_def)
  have vn: "?v < VPN" using Suc.prems(3) by simp
  have im: "i < MAXVA" using vn by (simp add: MAXVA_vpn)
  obtain e where e: "mapping ?m old ?v = Some e" using pre(7) by blast
  obtain p where p: "walk old i False s = Inr (p, s)" "p \<noteq> 0" "get64 ?m p = e" "e AND PTE_V \<noteq> 0"
    using find_entry [OF pre(1) e im] by blast
  show ?case
  proof (cases "pages s")
    case Nil
    from copy_back [OF pre(2,1) Suc.prems(2) _ pre(4,5)] vn obtain t where
      "uvmunmap kend new 0 (i div 4096) True s = Inr t" "copy_undone old new ?v s t" by auto
    then show ?thesis using Nil p by (simp add: kalloc_mp4_def page_alloc_def Let_def)
  next
    case (Cons r F)
    define m0 where "m0 = memmove (fill r 5 ?m) r (PTE2PA e) PAGE"
    define t0 where "t0 = s\<lparr>pages := F, pmem := m0\<rparr>"
    note D = space_okD [OF pre(2)] and E = space_okD [OF pre(1)]
    have r: "page_ok r" "kend \<le> r" "r < MEMTOP" "r \<notin> set F" "r \<notin> tables ?m new"
      using D(1) pre(3) tables_ok [OF D(1), of r] by (auto simp: table_ok_def pool_ok_def Cons)
    have r0: "r \<noteq> 0" using r(1) by (simp add: page_ok_def)
    have k: "kalloc_mp4 s = (r, set_pmem (fill r 5) (s\<lparr>pages := F\<rparr>))"
        "set_pmem (\<lambda>m. memmove m r (PTE2PA e) PAGE) (set_pmem (fill r 5) (s\<lparr>pages := F\<rparr>)) = t0"
      using r0 by (simp_all add: kalloc_mp4_def page_alloc_def Cons set_pmem_def t0_def m0_def)
    have ep: "PTE2PA e \<noteq> r" "page_ok (PTE2PA e)" using E(2,5) [OF e] Cons by auto
    have m0r: "m0 (r + k) = ?m (PTE2PA e + k)" if "k < PAGE" for k
    proof -
      have "\<not> in_pages {r} (PTE2PA e + k)" by (rule in_pages_apart) (use ep r(1) that in auto)
      then show ?thesis using that by (auto simp: m0_def memmove_eq fill_eq in_pages_def)
    qed
    have m0o: "m0 b = ?m b" if "\<not> in_pages {r} b" for b
      using that by (auto simp: m0_def memmove_eq fill_eq in_pages_def)
    have fl: "PTE_FLAGS e < 1024" "PTE_FLAGS e OR PTE_V \<noteq> PTE_V"
      using PTE_FLAGS_bits(2) PTE_FLAGS_valid [OF p(4)] E(3) [OF e] by simp_all
    have ok: "space_ok ?m new (r # F)" using pre(2) Cons by simp
    have "\<exists>res t. mappages new i 4096 r (PTE_FLAGS e) t0 = Inr (res, t) \<and> same_else (tables ?m new \<union> set (pages s)) s t \<and>
      (\<forall>k < PAGE. pmem t (r + k) = m0 (r + k)) \<and> tables (pmem t) new \<subseteq> tables ?m new \<union> set F \<and> set (pages t) \<subseteq> set F \<and>
      set F \<subseteq> tables (pmem t) new \<union> set (pages t) \<and> tables ?m new \<subseteq> tables (pmem t) new \<and> length F \<le> length (pages t) + 2 \<and>
      (res = 0 \<and> space_ok (pmem t) new (pages t) \<and> mapping (pmem t) new = (mapping ?m new)(?v \<mapsto> entry r (PTE_FLAGS e)) \<or>
       res = -1 \<and> space_ok (pmem t) new [r] \<and> mapping (pmem t) new = mapping ?m new \<and> pages t = [])"
      by (rule map_new [OF ok Cons t0_def m0o vn Suc.prems(2) pre(6) fl])
    then obtain res t where t: "mappages new i 4096 r (PTE_FLAGS e) t0 = Inr (res, t)" "same_else (tables ?m new \<union> set (pages s)) s t"
      "\<forall>k < PAGE. pmem t (r + k) = ?m (PTE2PA e + k)" "tables (pmem t) new \<subseteq> tables ?m new \<union> set F" "set (pages t) \<subseteq> set F"
      "set F \<subseteq> tables (pmem t) new \<union> set (pages t)" "tables ?m new \<subseteq> tables (pmem t) new" "length F \<le> length (pages t) + 2"
      "res = 0 \<and> space_ok (pmem t) new (pages t) \<and> mapping (pmem t) new = (mapping ?m new)(?v \<mapsto> entry r (PTE_FLAGS e)) \<or>
       res = -1 \<and> space_ok (pmem t) new [r] \<and> mapping (pmem t) new = mapping ?m new \<and> pages t = []"
      using m0r by auto
    note t6 = t(9)
    have all: "tables (pmem t) new \<union> set (pages t) = tables ?m new \<union> set F" using t(4-7) by blast
    let ?X = "tables ?m new \<union> set (pages s)"
    have Xok: "\<forall>x \<in> ?X. page_ok x" using tables_ok [OF D(1)] D(1) by (auto simp: table_ok_def)
    have Xf: "?X \<inter> foot ?m old = {}" using pre(5) foot_ok [OF pre(1)] by blast
    have pool: "pool_ok kend (pages t)" using t(5) pre(3) Cons by (auto simp: pool_ok_def)
    show ?thesis
    proof (cases "res = 0")
      case True
      then have t6: "space_ok (pmem t) new (pages t)" "mapping (pmem t) new = (mapping ?m new)(?v \<mapsto> entry r (PTE_FLAGS e))" using t6 by simp_all
      have kp: "kept old s t"
        by (rule kept_else [OF pre(1) t(2) Xok Xf]) (use t(5) Cons space_okD(1) [OF t6(1)] in \<open>auto simp: table_ok_def\<close>)
      note N = vpn_next [OF vn Suc.prems(2)]
      have fr: "freeable kend (entry r (PTE_FLAGS e))" using PTE2PA_new [OF r(1) fl(1)] r(2,3) by (simp add: freeable_def)
      have pp: "ppages (pmem t) new 0 (Suc ?v) = ppages ?m new 0 ?v @ [r]"
        using PTE2PA_new [OF r(1) fl(1)] by (simp add: ppages_def t6(2))
      have pre': "copy_pre kend old new (vpn (i + 4096)) n t"
        unfolding copy_pre_def N(1) kept_foot [OF kp] pp
      proof (intro conjI)
        show "space_ok (pmem t) old (pages t)" using kp by (simp add: kept_def)
        show "\<forall>u. Suc ?v \<le> u \<and> u < Suc ?v + n \<longrightarrow> mapping (pmem t) old u \<noteq> None \<and> mapping (pmem t) new u = None"
          using Suc.prems(1) kp by (auto simp: copy_pre_def kept_def t6(2))
        show "mapped_range kend True (pmem t) new 0 (Suc ?v)"
          using pre(4) fr unfolding mapped_range_def t6(2) by auto
        have "r \<notin> foot ?m old" using Xf Cons by auto
        then show "(tables (pmem t) new \<union> set (ppages ?m new 0 ?v @ [r])) \<inter> foot ?m old = {}"
          using pre(5) t(4) Xf Cons by auto
      qed (rule t6 pool)+
      have "vpn (i + 4096) + n \<le> VPN" using Suc.prems(3) N(1) by simp
      from Suc.IH [OF pre' N(2) this] obtain x u where
        u: "uvmcopy_loop kend n old new (i + 4096) t = Inr (x, u)"
          "x = 0 \<and> copy_done kend old new (Suc ?v) n t u \<or> x = -1 \<and> copy_undone old new (Suc ?v) t u \<and> length (pages t) \<le> 3 * n"
        unfolding N(1) by blast
      have eq: "uvmcopy_loop kend (Suc n) old new i s = Inr (x, u)"
        using True t(1) u(1) r0 p by (simp add: k Let_def)
      have X: "tables (pmem t) new \<union> set (pages t) \<subseteq> ?X" using t(4,5) Cons by auto
      have "copy_done kend old new ?v (Suc n) s u" if "copy_done kend old new (Suc ?v) n t u"
        by (rule copy_done_step [OF that kp t6(2) e t(2,3) _ _ _ r(1-3)]) (use t(4,5) r(4,5) X Xok all Cons in auto)
      moreover have "copy_undone old new ?v s u" if "copy_undone old new (Suc ?v) t u"
        by (rule copy_undone_step [OF that kp t6(2) pre(6)]) (use all Cons in \<open>simp add: PTE2PA_new [OF r(1) fl(1)]\<close>)
      moreover have "length (pages s) \<le> 3 * Suc n" if "length (pages t) \<le> 3 * n" using that t(8) Cons by simp
      ultimately show ?thesis using eq u(2) by blast
    next
      case False
      then have t6: "res = -1" "space_ok (pmem t) new [r]" "mapping (pmem t) new = mapping ?m new" "pages t = []" using t6 by simp_all
      define t1 where "t1 = t\<lparr>pages := [r], pmem := fill r 1 (pmem t)\<rparr>"
      note B = kfree_new [OF t6(2) r(1-3) t6(4), folded t1_def]
      have mt: "mapping (pmem t1) new = mapping ?m new" using B(3) t6(3) by simp
      have "same_else ?X s t1" by (rule same_else_trans [OF t(2) B(6)]) (simp add: Cons)
      then have kp: "kept old s t1" by (rule kept_else [OF pre(1) _ Xok Xf]) (simp_all add: B(5) Cons)
      have pp: "ppages (pmem t1) new 0 ?v = ppages ?m new 0 ?v" by (rule ppages_cong) (simp add: mt)
      have mr: "mapped_range kend True (pmem t1) new 0 ?v" using pre(4) unfolding mapped_range_def mt .
      have "space_ok (pmem t1) old (pages t1)" using kp by (simp add: kept_def)
      moreover have "(tables (pmem t1) new \<union> set (ppages (pmem t1) new 0 ?v)) \<inter> foot (pmem t1) old = {}"
        unfolding kept_foot [OF kp] pp B(4) using pre(5) t(4) Xf Cons by auto
      ultimately obtain u where u: "uvmunmap kend new 0 (i div 4096) True t1 = Inr u" "copy_undone old new ?v t1 u"
        using copy_back [OF B(2) _ Suc.prems(2) _ mr] vn by auto
      have "uvmcopy_loop kend (Suc n) old new i s = Inr (-1, u)"
        using False t(1) B(1) u(1) r0 p by (simp add: k Let_def)
      moreover have "copy_undone old new ?v s u"
        by (rule copy_undone_refl [OF u(2) kp mt]) (use all t6(4) Cons in \<open>simp add: B(4,5)\<close>)
      moreover have "length (pages s) \<le> 3 * Suc n" using t(8) t6(4) Cons by simp
      ultimately show ?thesis by blast
    qed
  qed
qed

text \<open>C9: \<open>uvmcopy\<close>, the core of \<open>fork\<close>: for a child page table that shares no table page with the parent it never panics and leaves the
  parent's mappings and memory as they were. Either every page of the parent below \<open>sz\<close> has a copy in the child, at the same address, with all
  the flags of the parent's entry and the same bytes, in a page that was free and so is a page of neither the parent nor the free list
  afterwards, the child's other mappings being kept; or, which needs a free list of at most three pages for each page to copy, it returns -1 and
  the child's mappings are what they were. In both cases no page is lost: the table pages, the new copies and the free pages are together the table
  pages and the free pages there were.\<close>

theorem uvmcopy_copies_memory:
  assumes ok: "space_ok (pmem s) old (pages s)" "space_ok (pmem s) new (pages s)" "pool_ok kend (pages s)"
    and sep: "tables (pmem s) new \<inter> foot (pmem s) old = {}" and sz: "sz \<le> MAXVA"
    and m: "\<And>u. u < npg sz \<Longrightarrow> mapping (pmem s) old u \<noteq> None" "\<And>u. u < npg sz \<Longrightarrow> mapping (pmem s) new u = None"
  shows "\<exists>r t. uvmcopy kend old new sz s = Inr (r, t) \<and> space_ok (pmem t) old (pages t) \<and> space_ok (pmem t) new (pages t) \<and>
    mapping (pmem t) old = mapping (pmem s) old \<and> umem (pmem t) old = umem (pmem s) old \<and>
    (r = 0 \<and> (\<forall>u < npg sz. copied_page kend (pages s) (pmem s) old (pmem t) new u) \<and>
       (\<forall>u. npg sz \<le> u \<longrightarrow> mapping (pmem t) new u = mapping (pmem s) new u) \<and>
       (tables (pmem t) new \<union> set (ppages (pmem t) new 0 (npg sz))) \<inter> (foot (pmem t) old \<union> set (pages t)) = {} \<and>
       tables (pmem t) new \<union> set (ppages (pmem t) new 0 (npg sz)) \<union> set (pages t) = tables (pmem s) new \<union> set (pages s) \<and>
       umem (pmem t) new = (\<lambda>b. if b < npg sz * PAGE then umem (pmem s) old b else umem (pmem s) new b) \<or>
     r = -1 \<and> length (pages s) \<le> 3 * npg sz \<and> mapping (pmem t) new = mapping (pmem s) new \<and>
       tables (pmem t) new \<union> set (pages t) = tables (pmem s) new \<union> set (pages s))"
proof -
  have v: "vpn (0 :: u64) = 0" "unat (0 :: u64) mod PAGE = 0" by (simp_all add: vpn_def)
  have pb: "pages_between 0 sz = npg sz" using pages_between_spec [of 0 0 sz] by simp
  have pre: "copy_pre kend old new (vpn 0) (npg sz) s"
    using ok sep m by (auto simp: copy_pre_def v mapped_range_def ppages_def)
  from uvmcopy_loop_spec [OF pre v(2)] round_up_spec(3) [OF sz] obtain r t where
    t: "uvmcopy kend old new sz s = Inr (r, t)" "r = 0 \<and> copy_done kend old new 0 (npg sz) s t \<or> r = -1 \<and> copy_undone old new 0 s t \<and> length (pages s) \<le> 3 * npg sz"
    unfolding uvmcopy_def pb v(1) by auto
  have k: "kept old s t" "space_ok (pmem t) new (pages t)" using t(2) unfolding copy_done_def copy_undone_def by blast+
  have cd: "umem (pmem t) new b = (if b < npg sz * PAGE then umem (pmem s) old b else umem (pmem s) new b)"
    if d: "copy_done kend old new 0 (npg sz) s t" for b
  proof (cases "b div PAGE < npg sz")
    case True
    then obtain e p where e: "mapping (pmem s) old (b div PAGE) = Some e" "page_ok p" "mapping (pmem t) new (b div PAGE) = Some (entry p (PTE_FLAGS e))"
        "\<forall>k < PAGE. pmem t (p + k) = pmem s (PTE2PA e + k)"
      using d unfolding copy_done_def copied_page_def by (metis add_0 le0)
    have "bit (entry p (PTE_FLAGS e)) 4 = bit e 4"
      by (simp add: entry_def PA2PTE_def PTE_FLAGS_bits bit_simps PTE_V_def)
    moreover have "PTE2PA (entry p (PTE_FLAGS e)) = p" by (rule PTE2PA_new [OF e(2) PTE_FLAGS_bits(2)])
    moreover have "b mod PAGE < PAGE" by (simp add: PAGE_def)
    ultimately have "umem (pmem t) new b = umem (pmem s) old b" using e by (simp add: umem_def user_bit)
    then show ?thesis using True div_range [of 0 b "npg sz"] by simp
  next
    case False
    have st: "same_else (tables (pmem s) new \<union> set (pages s)) s t" using d by (simp add: copy_done_def)
    have "umem (pmem t) new b = umem (pmem s) new b"
      by (rule umem_kept [OF ok(2) st order_refl]) (use d False in \<open>simp add: copy_done_def\<close>)
    then show ?thesis using False div_range [of 0 b "npg sz"] by simp
  qed
  have "(tables (pmem t) new \<union> set (ppages (pmem t) new 0 (npg sz))) \<inter> (foot (pmem t) old \<union> set (pages t)) = {}"
    if d: "copy_done kend old new 0 (npg sz) s t"
  proof -
    have "tables (pmem t) new \<union> set (ppages (pmem t) new 0 (npg sz)) \<subseteq> tables (pmem s) new \<union> set (pages s)"
      using d by (auto simp: copy_done_def)
    moreover have "(tables (pmem s) new \<union> set (pages s)) \<inter> foot (pmem s) old = {}" using sep foot_ok [OF ok(1)] by blast
    moreover have "x \<notin> set (pages t)" if x: "x \<in> set (ppages (pmem t) new 0 (npg sz))" for x
    proof -
      obtain u where u: "u < npg sz" "x = PTE2PA (the (mapping (pmem t) new u))" using x by (auto simp: ppages_def)
      then obtain e where "mapping (pmem t) new u = Some e" using d by (auto simp: copy_done_def copied_page_def)
      then show ?thesis using space_okD(5) [OF k(2)] u(2) by simp
    qed
    ultimately show ?thesis using tables_ok [OF space_okD(1) [OF k(2)]] unfolding kept_foot [OF k(1)] by blast
  qed
  note ap = this
  note old = k(2) kept_umem [OF k(1)] and ko = k(1) [unfolded kept_def]
  from t(2) show ?thesis
  proof (elim disjE conjE)
    assume r: "r = 0" and d: "copy_done kend old new 0 (npg sz) s t"
    have "\<forall>u < npg sz. copied_page kend (pages s) (pmem s) old (pmem t) new u"
        "\<forall>u. npg sz \<le> u \<longrightarrow> mapping (pmem t) new u = mapping (pmem s) new u"
        "tables (pmem t) new \<union> set (ppages (pmem t) new 0 (npg sz)) \<union> set (pages t) = tables (pmem s) new \<union> set (pages s)"
      using d by (auto simp: copy_done_def)
    moreover have "umem (pmem t) new = (\<lambda>b. if b < npg sz * PAGE then umem (pmem s) old b else umem (pmem s) new b)"
      using cd [OF d] by (rule ext)
    ultimately show ?thesis using t(1) r old ko ap [OF d] by blast
  next
    assume r: "r = -1" and d: "copy_undone old new 0 s t" and l: "length (pages s) \<le> 3 * npg sz"
    have "mapping (pmem t) new = mapping (pmem s) new" "tables (pmem t) new \<union> set (pages t) = tables (pmem s) new \<union> set (pages s)"
      using d by (simp_all add: copy_undone_def ppages_def)
    then show ?thesis using t(1) r old ko l by blast
  qed
qed

lemma uvmcopy_copies_memory_witness:
  "\<exists>s :: vm_state. \<exists>r t. uvmcopy 0x80000000 0x80001000 0x80009000 100 s = Inr (r, t) \<and> space_ok (pmem t) 0x80009000 (pages t) \<and>
    umem (pmem t) 0x80001000 = umem (pmem s) 0x80001000 \<and>
    (r = 0 \<and> (\<forall>u < npg 100. copied_page 0x80000000 (pages s) (pmem s) 0x80001000 (pmem t) 0x80009000 u) \<or>
     r = -1 \<and> length (pages s) \<le> 3 * npg 100 \<and> mapping (pmem t) 0x80009000 = mapping (pmem s) 0x80009000)"
proof -
  obtain s :: vm_state where s: "space_ok (pmem s) 0x80001000 (pages s)" "pool_ok 0x80000000 (pages s)"
      "mapping (pmem s) 0x80001000 = [0 \<mapsto> entry 0x80008000 RWXU]"
      "same_else (tables (pmem demo_vm) 0x80001000 \<union> set (pages demo_vm)) demo_vm s" "set (pages s) \<subseteq> set (pages demo_vm)"
      "tables (pmem s) 0x80001000 \<subseteq> insert 0x80001000 (set (pages demo_vm))"
    using demo_mapped by blast
  let ?m = "pmem s" let ?q = "0x80009000 :: nat"
  have T: "tables (pmem demo_vm) 0x80001000 = {0x80001000}" by (auto simp: tables_def demo_vm(2) empty_mem)
  have q: "table_ok (\<lambda>_. 0) ?q (pages s)"
    by (rule empty_table) (use s(5) space_okD(1) [OF s(1)] in \<open>auto simp: demo_vm(1) page_ok_def PAGE_def table_ok_def\<close>)
  have tq: "tables (\<lambda>_. 0) ?q = {?q}" by (auto simp: tables_def empty_mem)
  have z: "?m b = (\<lambda>_. 0) b" if "in_pages (tables (\<lambda>_. 0) ?q) b" for b
    using that s(4) unfolding T tq by (auto simp: same_else_def in_pages_def demo_vm PAGE_def)
  have Q: "mapping ?m ?q = Map.empty" "tables ?m ?q = {?q}"
    using table_frame(2,3) [OF q, of ?m] z tq empty_mem(2) by auto
  have "table_ok ?m ?q (pages s)"
  proof (rule table_ok_frame [OF q z])
    show "distinct (pages s)" using q by (simp add: table_ok_def)
    show "page_ok r \<and> r \<notin> tables (\<lambda>_. 0) ?q" if "r \<in> set (pages s)" for r
      using that q s(5) unfolding tq by (auto simp: table_ok_def demo_vm(1))
  qed
  then have okq: "space_ok ?m ?q (pages s)" by (simp add: space_ok_def Q)
  have "page_ok 0x80008000" by (simp add: page_ok_def PAGE_def)
  then have "leaves ?m 0x80001000 = {0x80008000}" using PTE2PA_new [OF _ RWXU(1)] by (auto simp: leaves_def s(3))
  then have "tables ?m ?q \<inter> foot ?m 0x80001000 = {}" using s(6) by (auto simp: foot_def Q demo_vm(1))
  note C = uvmcopy_copies_memory [OF s(1) okq s(2) this, of 100]
  have n: "u = 0" if "u < npg 100" for u using that by (simp add: npg_def PAGE_def)
  have "100 \<le> MAXVA" "\<And>u. u < npg 100 \<Longrightarrow> mapping ?m 0x80001000 u \<noteq> None" "\<And>u. u < npg 100 \<Longrightarrow> mapping ?m ?q u = None"
    by (auto simp: MAXVA_def s(3) Q dest: n)
  from C [OF this] show ?thesis by blast
qed

end
