(* ===== verification/Locks.thy ===== *)
theory Locks
  imports Prelude
begin

text \<open>
  Spin locks (mp4/kernel/spinlock.c). A CPU has a nesting depth of \<open>push_off\<close>, the interrupt flag saved at the outermost one, and
  its interrupt flag. The steps \<open>lstep\<close> interleave CPUs at the grain of the atomic instructions of \<open>acquire\<close> and \<open>release\<close>.
\<close>

section \<open>State\<close>

record spinlock =
  locked :: bool
  lcpu :: "nat option"

record cpu =
  noff :: int
  intena :: bool
  sie :: bool

record lock_state =
  spin :: "nat \<Rightarrow> spinlock"
  cpus :: "nat \<Rightarrow> cpu"

definition upd_cpu :: "nat \<Rightarrow> (cpu \<Rightarrow> cpu) \<Rightarrow> lock_state \<Rightarrow> lock_state" where
  "upd_cpu c f s = s\<lparr>cpus := (cpus s)(c := f (cpus s c))\<rparr>"

definition upd_spin :: "nat \<Rightarrow> (spinlock \<Rightarrow> spinlock) \<Rightarrow> lock_state \<Rightarrow> lock_state" where
  "upd_spin l f s = s\<lparr>spin := (spin s)(l := f (spin s l))\<rparr>"

section \<open>Operations of one CPU\<close>

definition initlock :: "nat \<Rightarrow> lock_state \<Rightarrow> lock_state" where
  "initlock l s = upd_spin l (\<lambda>_. \<lparr>locked = False, lcpu = None\<rparr>) s"

definition push_off :: "nat \<Rightarrow> lock_state \<Rightarrow> lock_state" where
  "push_off c s =
     (let old = sie (cpus s c); s1 = upd_cpu c (\<lambda>x. x\<lparr>sie := False\<rparr>) s;
          s2 = (if noff (cpus s1 c) = 0 then upd_cpu c (\<lambda>x. x\<lparr>intena := old\<rparr>) s1 else s1)
      in upd_cpu c (\<lambda>x. x\<lparr>noff := noff x + 1\<rparr>) s2)"

definition pop_off :: "nat \<Rightarrow> lock_state \<Rightarrow> lock_state res" where
  "pop_off c s =
     (if sie (cpus s c) then Inl (Panic ''pop_off - interruptible'')
      else if noff (cpus s c) < 1 then Inl (Panic ''pop_off'')
      else
        let s1 = upd_cpu c (\<lambda>x. x\<lparr>noff := noff x - 1\<rparr>) s
        in Inr (if noff (cpus s1 c) = 0 \<and> intena (cpus s1 c) then upd_cpu c (\<lambda>x. x\<lparr>sie := True\<rparr>) s1 else s1))"

definition holding :: "nat \<Rightarrow> nat \<Rightarrow> lock_state \<Rightarrow> bool" where
  "holding c l s \<longleftrightarrow> locked (spin s l) \<and> lcpu (spin s l) = Some c"

text \<open>The parts of \<open>acquire\<close> and \<open>release\<close> between their atomic instructions.\<close>

definition acquire_begin :: "nat \<Rightarrow> nat \<Rightarrow> lock_state \<Rightarrow> lock_state res" where
  "acquire_begin c l s = (let s1 = push_off c s in if holding c l s1 then Inl (Panic ''acquire'') else Inr s1)"

definition test_and_set :: "nat \<Rightarrow> lock_state \<Rightarrow> bool \<times> lock_state" where
  "test_and_set l s = (locked (spin s l), upd_spin l (\<lambda>x. x\<lparr>locked := True\<rparr>) s)"

definition record_cpu :: "nat \<Rightarrow> nat \<Rightarrow> lock_state \<Rightarrow> lock_state" where
  "record_cpu c l s = upd_spin l (\<lambda>x. x\<lparr>lcpu := Some c\<rparr>) s"

definition release_begin :: "nat \<Rightarrow> nat \<Rightarrow> lock_state \<Rightarrow> lock_state res" where
  "release_begin c l s = (if \<not> holding c l s then Inl (Panic ''release'') else Inr (upd_spin l (\<lambda>x. x\<lparr>lcpu := None\<rparr>) s))"

definition lock_release :: "nat \<Rightarrow> lock_state \<Rightarrow> lock_state" where
  "lock_release l s = upd_spin l (\<lambda>x. x\<lparr>locked := False\<rparr>) s"

text \<open>The two functions as a CPU runs them when no other interferes; \<open>None\<close> is spinning for ever.\<close>

definition acquire :: "nat \<Rightarrow> nat \<Rightarrow> lock_state \<Rightarrow> lock_state res option" where
  "acquire c l s =
     (case acquire_begin c l s of Inl e \<Rightarrow> Some (Inl e)
      | Inr s1 \<Rightarrow> (case test_and_set l s1 of (busy, s2) \<Rightarrow> if busy then None else Some (Inr (record_cpu c l s2))))"

definition release :: "nat \<Rightarrow> nat \<Rightarrow> lock_state \<Rightarrow> lock_state res" where
  "release c l s = rbind (release_begin c l s) (\<lambda>s1. pop_off c (lock_release l s1))"

section \<open>Interleaving\<close>

datatype lpc = Running | Spinning nat | Acquired nat | Releasing nat

type_synonym lconf = "lock_state \<times> (nat \<Rightarrow> lpc)"

text \<open>A CPU may switch its interrupts while it is in no \<open>push_off\<close>; a panic ends the run.\<close>

inductive lstep :: "lconf \<Rightarrow> lconf \<Rightarrow> bool" where
  acquires: "pc c = Running \<Longrightarrow> acquire_begin c l s = Inr t \<Longrightarrow> lstep (s, pc) (t, pc(c := Spinning l))"
| spins: "pc c = Spinning l \<Longrightarrow> test_and_set l s = (True, t) \<Longrightarrow> lstep (s, pc) (t, pc)"
| wins: "pc c = Spinning l \<Longrightarrow> test_and_set l s = (False, t) \<Longrightarrow> lstep (s, pc) (t, pc(c := Acquired l))"
| records: "pc c = Acquired l \<Longrightarrow> lstep (s, pc) (record_cpu c l s, pc(c := Running))"
| releases: "pc c = Running \<Longrightarrow> release_begin c l s = Inr t \<Longrightarrow> lstep (s, pc) (t, pc(c := Releasing l))"
| released: "pc c = Releasing l \<Longrightarrow> pop_off c (lock_release l s) = Inr t \<Longrightarrow> lstep (s, pc) (t, pc(c := Running))"
| interrupts: "pc c = Running \<Longrightarrow> noff (cpus s c) = 0 \<Longrightarrow> lstep (s, pc) (upd_cpu c (\<lambda>x. x\<lparr>sie := b\<rparr>) s, pc)"

definition linit :: lconf where
  "linit = (\<lparr>spin = (\<lambda>_. \<lparr>locked = False, lcpu = None\<rparr>), cpus = (\<lambda>_. \<lparr>noff = 0, intena = False, sie = False\<rparr>)\<rparr>, \<lambda>_. Running)"

inductive lreach :: "lconf \<Rightarrow> bool" where
  start: "lreach linit"
| step: "lreach x \<Longrightarrow> lstep x y \<Longrightarrow> lreach y"

section \<open>Mutual exclusion\<close>

text \<open>CPU \<open>c\<close> is between winning lock \<open>l\<close> and giving it up.\<close>

definition owns :: "lconf \<Rightarrow> nat \<Rightarrow> nat \<Rightarrow> bool" where
  "owns x c l \<longleftrightarrow> snd x c = Acquired l \<or> snd x c = Releasing l \<or> holding c l (fst x)"

definition owned_by :: "lconf \<Rightarrow> nat \<Rightarrow> nat set" where
  "owned_by x c = {l. owns x c l}"

definition depth :: "lconf \<Rightarrow> nat \<Rightarrow> nat" where
  "depth x c = card (owned_by x c) + (case snd x c of Spinning l \<Rightarrow> 1 | _ \<Rightarrow> 0)"

definition lock_inv :: "lconf \<Rightarrow> bool" where
  "lock_inv x \<longleftrightarrow>
     (\<forall>l. locked (spin (fst x) l) \<longleftrightarrow> (\<exists>c. owns x c l)) \<and>
     (\<forall>l c d. owns x c l \<longrightarrow> owns x d l \<longrightarrow> c = d) \<and>
     (\<forall>l. lcpu (spin (fst x) l) \<noteq> None \<longrightarrow> locked (spin (fst x) l)) \<and>
     (\<forall>l c. snd x c = Acquired l \<or> snd x c = Releasing l \<longrightarrow> lcpu (spin (fst x) l) = None)"

definition cpu_inv :: "lconf \<Rightarrow> bool" where
  "cpu_inv x \<longleftrightarrow> (\<forall>c. finite (owned_by x c) \<and> noff (cpus (fst x) c) = int (depth x c) \<and>
     (sie (cpus (fst x) c) \<longrightarrow> noff (cpus (fst x) c) = 0))"

lemma upd_simps [simp]:
  "spin (upd_cpu c f s) = spin s" "cpus (upd_spin l g s) = cpus s"
  "cpus (upd_cpu c f s) d = (if d = c then f (cpus s c) else cpus s d)"
  "spin (upd_spin l g s) k = (if k = l then g (spin s l) else spin s k)"
  by (simp_all add: upd_cpu_def upd_spin_def)

lemma push_off_simps [simp]:
  "spin (push_off c s) = spin s" "noff (cpus (push_off c s) d) = (if d = c then noff (cpus s c) + 1 else noff (cpus s d))"
  "sie (cpus (push_off c s) d) = (d \<noteq> c \<and> sie (cpus s d))"
  by (auto simp: push_off_def Let_def)

lemma pop_off_eq:
  assumes "pop_off c s = Inr t"
  shows "spin t = spin s" "noff (cpus t d) = (if d = c then noff (cpus s c) - 1 else noff (cpus s d))"
    "sie (cpus t d) \<Longrightarrow> (if d = c then noff (cpus s c) = 1 else sie (cpus s d))"
  using assms by (auto simp: pop_off_def Let_def split: if_splits)

lemma acquire_begin_eq: "acquire_begin c l s = Inr t \<longleftrightarrow> t = push_off c s \<and> \<not> holding c l s"
  by (auto simp: acquire_begin_def Let_def holding_def)

lemma release_begin_eq: "release_begin c l s = Inr t \<longleftrightarrow> holding c l s \<and> t = upd_spin l (\<lambda>x. x\<lparr>lcpu := None\<rparr>) s"
  by (auto simp: release_begin_def)

text \<open>Who owns what after each step: nobody changes, or the CPU that steps wins or gives up one lock.\<close>

lemma inv_same:
  assumes "lock_inv (s, pc)" "cpu_inv (s, pc)" and o: "\<And>d k. owns (t, pc') d k = owns (s, pc) d k"
    and l: "\<And>k. locked (spin t k) = locked (spin s k)" "\<And>k. lcpu (spin t k) \<noteq> None \<Longrightarrow> locked (spin t k)"
      "\<And>k d. pc' d = Acquired k \<or> pc' d = Releasing k \<Longrightarrow> lcpu (spin t k) = None"
    and c: "\<And>d. noff (cpus t d) = noff (cpus s d) + int (case pc' d of Spinning _ \<Rightarrow> 1 | _ \<Rightarrow> 0) - int (case pc d of Spinning _ \<Rightarrow> 1 | _ \<Rightarrow> 0)"
      "\<And>d. sie (cpus t d) \<Longrightarrow> noff (cpus t d) = 0"
  shows "lock_inv (t, pc') \<and> cpu_inv (t, pc')"
proof -
  have "owned_by (t, pc') d = owned_by (s, pc) d" for d by (simp add: owned_by_def o)
  then have "cpu_inv (t, pc')" using assms(2) c by (simp add: cpu_inv_def depth_def)
  moreover have "lock_inv (t, pc')" using assms(1) l unfolding lock_inv_def by (simp add: o)
  ultimately show ?thesis by simp
qed

lemma lstep_inv:
  assumes "lstep (s, pc) (t, pc')" and I: "lock_inv (s, pc)" "cpu_inv (s, pc)"
  shows "lock_inv (t, pc') \<and> cpu_inv (t, pc')"
  using assms(1)
proof cases
  case (acquires c l)
  show ?thesis
    by (rule inv_same [OF I]) (use I acquires in \<open>auto simp: owns_def holding_def acquire_begin_eq lock_inv_def cpu_inv_def depth_def split: if_splits lpc.splits\<close>)
next
  case (spins c l)
  then have "(spin s l)\<lparr>locked := True\<rparr> = spin s l" by (cases "spin s l") (simp add: test_and_set_def)
  then have "t = s" using spins by (simp add: test_and_set_def upd_spin_def)
  then show ?thesis using I spins by simp
next
  case (wins c l)
  then have t: "t = upd_spin l (\<lambda>x. x\<lparr>locked := True\<rparr>) s" "\<not> locked (spin s l)" by (simp_all add: test_and_set_def)
  then have none: "\<And>d. \<not> owns (s, pc) d l" "lcpu (spin s l) = None" using I(1) by (auto simp: lock_inv_def)
  then have o: "owns (t, pc') d k = (owns (s, pc) d k \<or> d = c \<and> k = l)" for d k
    using wins t by (auto simp: owns_def holding_def)
  have ob: "owned_by (t, pc') d = (if d = c then insert l (owned_by (s, pc) c) else owned_by (s, pc) d)" for d
    by (auto simp: owned_by_def o)
  have L: "locked (spin t k) \<longleftrightarrow> k = l \<or> locked (spin s k)" "lcpu (spin t k) = lcpu (spin s k)" for k by (simp_all add: t)
  have "lock_inv (t, pc')"
    unfolding lock_inv_def fst_conv snd_conv o L using I(1) none wins(1) by (auto simp: lock_inv_def)
  moreover have "cpu_inv (t, pc')"
  proof -
    have cp: "cpus t = cpus s" by (simp add: t)
    have "l \<notin> owned_by (s, pc) c" using none(1) by (simp add: owned_by_def)
    then show ?thesis
      unfolding cpu_inv_def depth_def fst_conv snd_conv ob cp using I(2) wins(1,2) by (auto simp: cpu_inv_def depth_def)
  qed
  ultimately show ?thesis by simp
next
  case (records c l)
  show ?thesis
    by (rule inv_same [OF I]) (use I records in \<open>auto simp: owns_def holding_def record_cpu_def lock_inv_def cpu_inv_def depth_def split: if_splits lpc.splits\<close>)
next
  case (releases c l)
  show ?thesis
    by (rule inv_same [OF I]) (use I releases in \<open>auto simp: owns_def holding_def release_begin_eq lock_inv_def cpu_inv_def depth_def split: if_splits lpc.splits\<close>)
next
  case (released c l)
  note P = pop_off_eq [OF released(3)]
  have own: "owns (s, pc) c l" using released by (simp add: owns_def)
  then have only: "owns (s, pc) d l \<Longrightarrow> d = c" for d using I(1) by (auto simp: lock_inv_def)
  have n: "lcpu (spin s l) = None" using I(1) released by (auto simp: lock_inv_def)
  have L: "locked (spin t k) \<longleftrightarrow> k \<noteq> l \<and> locked (spin s k)" "lcpu (spin t k) = lcpu (spin s k)" for k
    by (simp_all add: P(1) lock_release_def)
  have o: "owns (t, pc') d k = (owns (s, pc) d k \<and> k \<noteq> l)" for d k
  proof (cases "d = c")
    case True
    then show ?thesis by (simp add: owns_def holding_def L released(1,2)) blast
  next
    case False
    then have "\<not> owns (s, pc) d l" using only by blast
    then show ?thesis using False by (cases "k = l") (simp_all add: owns_def holding_def L released(1))
  qed
  have ob: "owned_by (t, pc') d = owned_by (s, pc) d - (if d = c then {l} else {})" for d
    using only by (auto simp: owned_by_def o)
  have "lock_inv (t, pc')"
    unfolding lock_inv_def fst_conv snd_conv o L
  proof (intro conjI allI impI)
    note J = I(1) [unfolded lock_inv_def fst_conv snd_conv]
    show "(k \<noteq> l \<and> locked (spin s k)) = (\<exists>c. owns (s, pc) c k \<and> k \<noteq> l)" for k using J by blast
    show "d = e" if "owns (s, pc) d k \<and> k \<noteq> l" "owns (s, pc) e k \<and> k \<noteq> l" for k d e using J that by blast
    show "k \<noteq> l" "locked (spin s k)" if "lcpu (spin s k) \<noteq> None" for k using J n that by blast+
    show "lcpu (spin s k) = None" if "pc' d = Acquired k \<or> pc' d = Releasing k" for k d
    proof -
      have "pc d = Acquired k \<or> pc d = Releasing k" using that released(1) by (auto split: if_splits)
      then show ?thesis using J by blast
    qed
  qed
  moreover have "cpu_inv (t, pc')"
    unfolding cpu_inv_def fst_conv
  proof (intro allI conjI impI)
    fix d
    have C: "finite (owned_by (s, pc) d)" "noff (cpus s d) = int (depth (s, pc) d)" "sie (cpus s d) \<Longrightarrow> noff (cpus s d) = 0"
      using I(2) unfolding cpu_inv_def fst_conv by blast+
    have l: "d = c \<Longrightarrow> l \<in> owned_by (s, pc) d" using own by (simp add: owned_by_def)
    have "d = c \<Longrightarrow> 0 < card (owned_by (s, pc) d)" using l C(1) by (auto simp: card_gt_0_iff)
    then have "int (depth (t, pc') d) = int (depth (s, pc) d) - (if d = c then 1 else 0)"
      unfolding depth_def ob snd_conv using released(1,2) l C(1) by (auto simp: card_Diff_singleton of_nat_diff)
    then show n: "noff (cpus t d) = int (depth (t, pc') d)" using C(2) by (auto simp: P(2) lock_release_def)
    show "finite (owned_by (t, pc') d)" using C(1) by (simp add: ob)
    assume "sie (cpus t d)"
    from P(3) [OF this] show "noff (cpus t d) = 0" using C(3) by (auto simp: P(2) lock_release_def split: if_splits)
  qed
  ultimately show ?thesis by simp
next
  case (interrupts c b)
  show ?thesis
    by (rule inv_same [OF I]) (use I interrupts in \<open>auto simp: owns_def holding_def lock_inv_def cpu_inv_def depth_def split: if_splits\<close>)
qed

lemma lreach_inv: "lreach x \<Longrightarrow> lock_inv x \<and> cpu_inv x"
proof (induction rule: lreach.induct)
  case start
  then show ?case
    by (auto simp: linit_def lock_inv_def cpu_inv_def owns_def holding_def owned_by_def depth_def)
next
  case (step x y)
  obtain s pc where x: "x = (s, pc)" by fastforce
  obtain u qc where y: "y = (u, qc)" by fastforce
  show ?case using lstep_inv [of s pc u qc] step unfolding x y by blast
qed

text \<open>C15: However the CPUs interleave, at most one CPU owns a spin lock, it is the one \<open>holding\<close> tells (save between the atomic instructions of \<open>acquire\<close> and \<open>release\<close>),
  a CPU that owns a lock or waits for one has its interrupts off, and the nesting depth counts exactly the locks it owns and waits for; so \<open>release\<close> of a lock that
  it holds never panics.\<close>

theorem spinlock_mutual_exclusion:
  assumes r: "lreach (s, pc)"
  shows "(owns (s, pc) c l \<longrightarrow> owns (s, pc) d l \<longrightarrow> c = d) \<and> (pc c = Running \<longrightarrow> owns (s, pc) c l = holding c l s) \<and>
    (owned_by (s, pc) c \<noteq> {} \<or> pc c = Spinning k \<longrightarrow> \<not> sie (cpus s c)) \<and>
    noff (cpus s c) = int (depth (s, pc) c) \<and> (holding c l s \<longrightarrow> (\<exists>t. release c l s = Inr t \<and> \<not> locked (spin t l)))"
proof -
  have I: "lock_inv (s, pc)" "cpu_inv (s, pc)" using lreach_inv [OF r] by simp_all
  have C: "finite (owned_by (s, pc) c)" "noff (cpus s c) = int (depth (s, pc) c)" "sie (cpus s c) \<Longrightarrow> noff (cpus s c) = 0"
    using I(2) unfolding cpu_inv_def fst_conv by blast+
  have off: "\<not> sie (cpus s c)" if "owned_by (s, pc) c \<noteq> {} \<or> pc c = Spinning k"
  proof
    assume "sie (cpus s c)"
    then have "noff (cpus s c) = 0" by (rule C(3))
    then have "depth (s, pc) c = 0" using C(2) by simp
    then show False using that C(1) by (auto simp: depth_def)
  qed
  have "\<exists>t. release c l s = Inr t \<and> \<not> locked (spin t l)" if h: "holding c l s"
  proof -
    have o: "owned_by (s, pc) c \<noteq> {}" using h by (auto simp: owned_by_def owns_def)
    then have "0 < depth (s, pc) c" using C(1) by (simp add: depth_def card_gt_0_iff)
    then show ?thesis using off o h C(2) by (simp add: release_def release_begin_eq pop_off_def lock_release_def Let_def)
  qed
  then show ?thesis using I(1) C(2) off by (auto simp: lock_inv_def owns_def)
qed

lemma spinlock_mutual_exclusion_witness:
  "\<exists>s pc. lreach (s, pc) \<and> holding 1 7 s \<and> (\<exists>t. release 1 7 s = Inr t \<and> \<not> locked (spin t 7))"
proof -
  let ?s0 = "fst linit"
  let ?s1 = "push_off 1 ?s0"
  let ?s2 = "snd (test_and_set 7 ?s1)"
  let ?pc = "(\<lambda>_. Running)(1 := Spinning 7, 1 := Acquired 7, 1 := Running)"
  have "lreach (?s0, \<lambda>_. Running)" using lreach.start by (simp add: linit_def)
  then have "lreach (?s1, (\<lambda>_. Running)(1 := Spinning 7))"
    by (rule lreach.step) (rule lstep.acquires; simp add: acquire_begin_eq holding_def linit_def)
  then have "lreach (?s2, (\<lambda>_. Running)(1 := Spinning 7, 1 := Acquired 7))"
    by (rule lreach.step) (rule lstep.wins; simp add: test_and_set_def linit_def)
  then have r: "lreach (record_cpu 1 7 ?s2, ?pc)"
    by (rule lreach.step) (rule lstep.records; simp)
  have h: "holding 1 7 (record_cpu 1 7 ?s2)" by (simp add: holding_def record_cpu_def test_and_set_def)
  show ?thesis using spinlock_mutual_exclusion [OF r, of 1 7 1 0] r h by blast
qed

section \<open>Nested critical sections\<close>

definition push_n :: "nat \<Rightarrow> nat \<Rightarrow> lock_state \<Rightarrow> lock_state" where
  "push_n c n s = (push_off c ^^ n) s"

definition pop_n :: "nat \<Rightarrow> nat \<Rightarrow> lock_state \<Rightarrow> lock_state res" where
  "pop_n c n s = ((\<lambda>r. rbind r (pop_off c)) ^^ n) (Inr s)"

lemma push_pop_n:
  assumes "0 \<le> noff (cpus s c)" "sie (cpus s c) \<Longrightarrow> noff (cpus s c) = 0"
  shows "\<exists>t. pop_n c n (push_n c n s) = Inr t \<and> noff (cpus t c) = noff (cpus s c) \<and> sie (cpus t c) = sie (cpus s c) \<and>
    (0 < noff (cpus s c) \<longrightarrow> intena (cpus t c) = intena (cpus s c)) \<and> spin t = spin s \<and> (\<forall>d. d \<noteq> c \<longrightarrow> cpus t d = cpus s d)"
  using assms
proof (induction n arbitrary: s)
  case (Suc n)
  have i: "intena (cpus (push_off c s) c) = (if noff (cpus s c) = 0 then sie (cpus s c) else intena (cpus s c))"
      "d \<noteq> c \<Longrightarrow> cpus (push_off c s) d = cpus s d" for d
    by (simp_all add: push_off_def Let_def)
  obtain t where t: "pop_n c n (push_n c n (push_off c s)) = Inr t" "noff (cpus t c) = noff (cpus s c) + 1" "\<not> sie (cpus t c)"
      "intena (cpus t c) = (if noff (cpus s c) = 0 then sie (cpus s c) else intena (cpus s c))" "spin t = spin s"
      "\<forall>d. d \<noteq> c \<longrightarrow> cpus t d = cpus s d"
    using Suc.IH [of "push_off c s"] Suc.prems i by auto
  have "pop_n c (Suc n) (push_n c (Suc n) s) = pop_off c t" using t(1) by (simp add: pop_n_def push_n_def funpow_swap1)
  then show ?case using t Suc.prems by (auto simp: pop_off_def Let_def)
qed (simp add: pop_n_def push_n_def)

text \<open>\<open>push_off\<close> and \<open>pop_off\<close> are matched: any number of them, nested, restore the interrupt flag and the depth the CPU had and touch neither locks nor
  other CPUs; in between interrupts are off; one \<open>pop_off\<close> too many panics.\<close>

theorem push_off_pop_off:
  assumes "0 \<le> noff (cpus s c)" "sie (cpus s c) \<Longrightarrow> noff (cpus s c) = 0"
  shows "(\<exists>t. pop_n c n (push_n c n s) = Inr t \<and> noff (cpus t c) = noff (cpus s c) \<and> sie (cpus t c) = sie (cpus s c) \<and>
      spin t = spin s \<and> (\<forall>d. d \<noteq> c \<longrightarrow> cpus t d = cpus s d)) \<and>
    (0 < n \<longrightarrow> \<not> sie (cpus (push_n c n s) c)) \<and> (noff (cpus s c) = 0 \<longrightarrow> (\<exists>m. pop_n c (Suc n) (push_n c n s) = Inl (Panic m)))"
proof -
  obtain t where t: "pop_n c n (push_n c n s) = Inr t" "noff (cpus t c) = noff (cpus s c)" "sie (cpus t c) = sie (cpus s c)"
      "spin t = spin s" "\<forall>d. d \<noteq> c \<longrightarrow> cpus t d = cpus s d"
    using push_pop_n [OF assms, of n] by blast
  have "0 < n \<longrightarrow> \<not> sie (cpus (push_n c n s) c)" by (cases n) (simp_all add: push_n_def)
  moreover have "\<exists>m. pop_n c (Suc n) (push_n c n s) = Inl (Panic m)" if "noff (cpus s c) = 0"
    using t(1,2) that by (simp add: pop_n_def pop_off_def)
  ultimately show ?thesis using t by blast
qed

lemma push_off_pop_off_witness:
  "\<exists>t. pop_n 1 3 (push_n 1 3 (upd_cpu 1 (\<lambda>x. x\<lparr>sie := True\<rparr>) (fst linit))) = Inr t \<and> sie (cpus t 1)"
  using push_off_pop_off [of "upd_cpu 1 (\<lambda>x. x\<lparr>sie := True\<rparr>) (fst linit)" 1 3] by (auto simp: linit_def)

end
