(* ===== verification/Procs.thy ===== *)
theory Procs
  imports Vm Locks
begin

text \<open>
  Processes (mp4/kernel/proc.c, mp4/kernel/proc.h). A process is its index in the table, a pointer to it the index plus one,
  a wait channel a number. What a function does while it holds \<open>p->lock\<close> (of spinlock.c) is one step; \<open>sleep\<close> and
  \<open>sched\<close> end a step. \<open>kend\<close> and \<open>tramp\<close> are the addresses of the linker symbols \<open>end\<close> and \<open>trampoline\<close>, \<open>ret_to\<close> that of
  \<open>forkret\<close>. The fields \<open>ofile\<close>, \<open>cwd\<close> and \<open>killed\<close> of the file layer are those of the process whose system call runs (\<open>as_proc\<close>).
\<close>

unbundle bit_operations_syntax

section \<open>State\<close>

datatype procstate = UNUSED | SLEEPING | RUNNABLE | RUNNING | ZOMBIE

record proc =
  pstate :: procstate
  pparent :: nat
  pchan :: nat
  pkilled :: bool
  pxstate :: int
  ppid :: int
  kstack :: u64
  psz :: u64
  pagetable :: nat
  trapframe :: nat
  pcontext :: "nat \<Rightarrow> u64"
  pofile :: "nat \<Rightarrow> nat"
  pcwd :: nat
  pname :: cmem

record proc_state = vm_state +
  procs :: "nat \<Rightarrow> proc"
  initproc :: nat
  nextpid :: int

definition NPROC :: nat where "NPROC = 64"
definition TRAPFRAME :: u64 where "TRAPFRAME = TRAMPOLINE - 4096"
definition KSTACK :: "nat \<Rightarrow> u64" where "KSTACK p = TRAMPOLINE - (of_nat p + 1) * 2 * 4096"

definition upd_proc :: "nat \<Rightarrow> (proc \<Rightarrow> proc) \<Rightarrow> 'a proc_state_scheme \<Rightarrow> 'a proc_state_scheme" where
  "upd_proc p f s = s\<lparr>procs := (procs s)(p := f (procs s p))\<rparr>"

text \<open>A call of the file layer, run for process \<open>p\<close>.\<close>

definition as_proc :: "nat \<Rightarrow> ('a proc_state_scheme \<Rightarrow> ('r \<times> 'a proc_state_scheme) res option) \<Rightarrow> 'a proc_state_scheme \<Rightarrow>
    ('r \<times> 'a proc_state_scheme) res option" where
  "as_proc p f s =
     (let x = procs s p in
      obind (f (s\<lparr>ofile := pofile x, cwd := pcwd x, killed := pkilled x\<rparr>)) (\<lambda>(r, t).
      Some (Inr (r, upd_proc p (\<lambda>x. x\<lparr>pofile := ofile t, pcwd := cwd t\<rparr>) t))))"

section \<open>Page tables of processes\<close>

definition proc_pagetable :: "nat \<Rightarrow> nat \<Rightarrow> nat \<Rightarrow> 'a vm_state_scheme \<Rightarrow> (nat \<times> 'a vm_state_scheme) res option" where
  "proc_pagetable kend tramp tf s =
     (case uvmcreate s of (pt, s1) \<Rightarrow>
        if pt = 0 then Some (Inr (0, s1))
        else
          obind (Some (mappages pt TRAMPOLINE 4096 tramp (PTE_R OR PTE_X) s1)) (\<lambda>(r, s2).
          if r < 0 then obind (uvmfree kend pt 0 s2) (\<lambda>s3. Some (Inr (0, s3)))
          else
            obind (Some (mappages pt TRAPFRAME 4096 tf (PTE_R OR PTE_W) s2)) (\<lambda>(r, s3).
            if r < 0 then
              obind (Some (uvmunmap kend pt TRAMPOLINE 1 False s3)) (\<lambda>s4.
              obind (uvmfree kend pt 0 s4) (\<lambda>s5. Some (Inr (0, s5))))
            else Some (Inr (pt, s3)))))"

definition proc_freepagetable :: "nat \<Rightarrow> nat \<Rightarrow> u64 \<Rightarrow> 'a vm_state_scheme \<Rightarrow> 'a vm_state_scheme res option" where
  "proc_freepagetable kend pt sz s =
     obind (Some (uvmunmap kend pt TRAMPOLINE 1 False s)) (\<lambda>s1.
     obind (Some (uvmunmap kend pt TRAPFRAME 1 False s1)) (uvmfree kend pt sz))"

section \<open>Creating and freeing processes\<close>

definition procinit_one :: "nat \<Rightarrow> nat \<Rightarrow> 'a proc_state_scheme \<Rightarrow> 'a proc_state_scheme res" where
  "procinit_one kpt p s =
     (case kalloc_mp4 s of (pa, s1) \<Rightarrow>
        if pa = 0 then Inl (Panic ''kalloc'')
        else rbind (kvmmap kpt (KSTACK p) pa 4096 (PTE_R OR PTE_W) s1) (\<lambda>s2.
             Inr (upd_proc p (\<lambda>x. x\<lparr>kstack := KSTACK p\<rparr>) s2)))"

definition procinit :: "nat \<Rightarrow> 'a proc_state_scheme \<Rightarrow> 'a proc_state_scheme res" where
  "procinit kpt s = for_res (procinit_one kpt) [0..<NPROC] s"

definition allocpid :: "'a proc_state_scheme \<Rightarrow> int \<times> 'a proc_state_scheme" where
  "allocpid s = (nextpid s, s\<lparr>nextpid := nextpid s + 1\<rparr>)"

definition freeproc :: "nat \<Rightarrow> nat \<Rightarrow> 'a proc_state_scheme \<Rightarrow> 'a proc_state_scheme res option" where
  "freeproc kend p s =
     obind (Some (if trapframe (procs s p) \<noteq> 0 then kfree_mp4 kend (trapframe (procs s p)) s else Inr s)) (\<lambda>s1.
     let s2 = upd_proc p (\<lambda>x. x\<lparr>trapframe := 0\<rparr>) s1; x = procs s2 p in
     obind (if pagetable x \<noteq> 0 then proc_freepagetable kend (pagetable x) (psz x) s2 else Some (Inr s2)) (\<lambda>s3.
     Some (Inr (upd_proc p (\<lambda>x. x\<lparr>pagetable := 0, psz := 0, ppid := 0, pparent := 0, pname := (pname x)(0 := 0), pchan := 0,
       pkilled := False, pxstate := 0, pstate := UNUSED\<rparr>) s3))))"

text \<open>The result is the pointer, 0 on failure.\<close>

definition allocproc :: "nat \<Rightarrow> nat \<Rightarrow> u64 \<Rightarrow> 'a proc_state_scheme \<Rightarrow> (nat \<times> 'a proc_state_scheme) res option" where
  "allocproc kend tramp ret_to s =
     (case List.find (\<lambda>p. pstate (procs s p) = UNUSED) [0..<NPROC] of
        None \<Rightarrow> Some (Inr (0, s))
      | Some p \<Rightarrow>
          let (pid, s1) = allocpid s; s2 = upd_proc p (\<lambda>x. x\<lparr>ppid := pid\<rparr>) s1; (tf, s3) = kalloc_mp4 s2;
              s4 = upd_proc p (\<lambda>x. x\<lparr>trapframe := tf\<rparr>) s3 in
          if tf = 0 then Some (Inr (0, s4))
          else
            obind (proc_pagetable kend tramp tf s4) (\<lambda>(pt, s5).
            let s6 = upd_proc p (\<lambda>x. x\<lparr>pagetable := pt\<rparr>) s5 in
            if pt = 0 then obind (freeproc kend p s6) (\<lambda>s7. Some (Inr (0, s7)))
            else Some (Inr (Suc p, upd_proc p (\<lambda>x. x\<lparr>pcontext := (\<lambda>_. 0)(0 := ret_to, 1 := kstack x + 4096)\<rparr>) s6))))"

text \<open>\<open>safestrcpy(name, src, 16)\<close> where the destination is at address 0 and the source at 64.\<close>

definition copy_name :: "cmem \<Rightarrow> cmem \<Rightarrow> cmem" where
  "copy_name src dst = (\<lambda>a. if a < 64 then safestrcpy (\<lambda>a. if a < 64 then dst a else src (a - 64)) 0 64 16 a else dst a)"

definition userinit :: "nat \<Rightarrow> nat \<Rightarrow> u64 \<Rightarrow> u8 list \<Rightarrow> 'a proc_state_scheme \<Rightarrow> 'a proc_state_scheme res option" where
  "userinit kend tramp ret_to initcode s =
     obind (allocproc kend tramp ret_to s) (\<lambda>(p, s1).
     let i = p - 1; s2 = s1\<lparr>initproc := p\<rparr>; x = procs s2 i in
     obind (Some (uvminit (pagetable x) initcode s2)) (\<lambda>s3.
     let s4 = set_pmem (\<lambda>m. put64 (trapframe x + 48) 4096 (put64 (trapframe x + 24) 0 m)) s3;
         s5 = upd_proc i (\<lambda>x. x\<lparr>psz := 4096, pname := copy_name (place 0 [105, 110, 105, 116, 99, 111, 100, 101] (\<lambda>_. 0)) (pname x)\<rparr>) s4 in
     obind (namei [47] s5) (\<lambda>(ip, _, s6). Some (Inr (upd_proc i (\<lambda>x. x\<lparr>pcwd := ip, pstate := RUNNABLE\<rparr>) s6)))))"

text \<open>The size is cut to 32 bits, and \<open>sz + n\<close> wraps around.\<close>

definition growproc :: "nat \<Rightarrow> nat \<Rightarrow> u32 \<Rightarrow> 'a proc_state_scheme \<Rightarrow> (int \<times> 'a proc_state_scheme) res" where
  "growproc kend p n s =
     (let x = procs s p; sz = (ucast (psz x) :: u32) in
      if 0 < sint n then
        rbind (uvmalloc kend (pagetable x) (ucast sz) (ucast (sz + n)) s) (\<lambda>(r, s1).
        if (ucast r :: u32) = 0 then Inr (-1, s1)
        else Inr (0, upd_proc p (\<lambda>x. x\<lparr>psz := ucast (ucast r :: u32)\<rparr>) s1))
      else if sint n < 0 then
        rbind (uvmdealloc kend (pagetable x) (ucast sz) (ucast (sz + n)) s) (\<lambda>(r, s1).
        Inr (0, upd_proc p (\<lambda>x. x\<lparr>psz := ucast (ucast r :: u32)\<rparr>) s1))
      else Inr (0, upd_proc p (\<lambda>x. x\<lparr>psz := ucast sz\<rparr>) s))"

text \<open>\<open>sizeof(struct trapframe)\<close> is 288, the offset of \<open>a0\<close> 112.\<close>

definition dup_files :: "nat \<Rightarrow> nat \<Rightarrow> 'a proc_state_scheme \<Rightarrow> 'a proc_state_scheme res" where
  "dup_files p np s =
     for_res (\<lambda>i s. if pofile (procs s p) i \<noteq> 0 then
         rbind (filedup (pofile (procs s p) i) s) (\<lambda>s1.
         Inr (upd_proc np (\<lambda>x. x\<lparr>pofile := (pofile x)(i := pofile (procs s p) i)\<rparr>) s1))
       else Inr s) [0..<NOFILE] s"

definition fork :: "nat \<Rightarrow> nat \<Rightarrow> u64 \<Rightarrow> nat \<Rightarrow> 'a proc_state_scheme \<Rightarrow> (int \<times> 'a proc_state_scheme) res option" where
  "fork kend tramp ret_to p s =
     obind (allocproc kend tramp ret_to s) (\<lambda>(ptr, s1).
     if ptr = 0 then Some (Inr (-1, s1))
     else
       let np = ptr - 1 in
       obind (Some (uvmcopy kend (pagetable (procs s1 p)) (pagetable (procs s1 np)) (psz (procs s1 p)) s1)) (\<lambda>(r, s2).
       if r < 0 then obind (freeproc kend np s2) (\<lambda>s3. Some (Inr (-1, s3)))
       else
         let s3 = upd_proc np (\<lambda>x. x\<lparr>psz := psz (procs s2 p), pparent := Suc p\<rparr>) s2;
             tf = trapframe (procs s3 p); ntf = trapframe (procs s3 np);
             s4 = set_pmem (\<lambda>m. put64 (ntf + 112) 0 (memmove m ntf tf 288)) s3 in
         obind (Some (dup_files p np s4)) (\<lambda>s5.
         let s6 = upd_proc np (\<lambda>x. x\<lparr>pcwd := pcwd (procs s5 p)\<rparr>) (idup (pcwd (procs s5 p)) s5);
             s7 = upd_proc np (\<lambda>x. x\<lparr>pname := copy_name (pname (procs s6 p)) (pname x)\<rparr>) s6
         in Some (Inr (ppid (procs s7 np), upd_proc np (\<lambda>x. x\<lparr>pstate := RUNNABLE\<rparr>) s7)))))"

section \<open>Exit and wait\<close>

definition reparent :: "nat \<Rightarrow> 'a proc_state_scheme \<Rightarrow> 'a proc_state_scheme" where
  "reparent p s =
     fold (\<lambda>pp s. if pparent (procs s pp) = Suc p then upd_proc pp (\<lambda>x. x\<lparr>pparent := initproc s\<rparr>) s else s) [0..<NPROC] s"

text \<open>The argument is a pointer to a process, not null.\<close>

definition wakeup1 :: "nat \<Rightarrow> 'a proc_state_scheme \<Rightarrow> 'a proc_state_scheme" where
  "wakeup1 ptr s =
     (let p = ptr - 1 in
      if pchan (procs s p) = ptr \<and> pstate (procs s p) = SLEEPING then upd_proc p (\<lambda>x. x\<lparr>pstate := RUNNABLE\<rparr>) s else s)"

text \<open>\<open>exit\<close> up to the wake-up of init; what follows happens in two more steps, the first of which reads the parent.\<close>

definition close_files :: "nat \<Rightarrow> 'a proc_state_scheme \<Rightarrow> 'a proc_state_scheme res" where
  "close_files p s =
     for_res (\<lambda>fd s. if pofile (procs s p) fd \<noteq> 0 then
         rbind (fileclose (pofile (procs s p) fd) s) (\<lambda>s1. Inr (upd_proc p (\<lambda>x. x\<lparr>pofile := (pofile x)(fd := 0)\<rparr>) s1))
       else Inr s) [0..<NOFILE] s"

definition exit_begin :: "nat \<Rightarrow> 'a proc_state_scheme \<Rightarrow> 'a proc_state_scheme res" where
  "exit_begin p s =
     (if Suc p = initproc s then Inl (Panic ''init exiting'')
      else
        rbind (close_files p s) (\<lambda>s1.
        rbind (begin_op s1) (\<lambda>s2.
        rbind (iput (pcwd (procs s2 p)) s2) (\<lambda>s3.
        rbind (end_op s3) (\<lambda>s4.
        let s5 = upd_proc p (\<lambda>x. x\<lparr>pcwd := 0\<rparr>) s4 in Inr (wakeup1 (initproc s5) s5))))))"

definition exit_parent :: "nat \<Rightarrow> 'a proc_state_scheme \<Rightarrow> nat" where
  "exit_parent p s = pparent (procs s p)"

definition exit_finish :: "nat \<Rightarrow> nat \<Rightarrow> int \<Rightarrow> 'a proc_state_scheme \<Rightarrow> 'a proc_state_scheme" where
  "exit_finish p original_parent status s =
     (let s1 = wakeup1 original_parent (reparent p s)
      in upd_proc p (\<lambda>x. x\<lparr>pxstate := status, pstate := ZOMBIE\<rparr>) s1)"

datatype wait_result = Reaps int | Fails | Waits

text \<open>One pass over the table, with \<open>havekids\<close>.\<close>

primrec wait_scan :: "nat \<Rightarrow> nat \<Rightarrow> u64 \<Rightarrow> bool \<Rightarrow> nat list \<Rightarrow> 'a proc_state_scheme \<Rightarrow>
    (wait_result \<times> 'a proc_state_scheme) res option" where
  "wait_scan kend p addr havekids [] s =
     (if \<not> havekids \<or> pkilled (procs s p) then Some (Inr (Fails, s))
      else Some (Inr (Waits, upd_proc p (\<lambda>x. x\<lparr>pchan := Suc p, pstate := SLEEPING\<rparr>) s)))"
| "wait_scan kend p addr havekids (np # nps) s =
     (if pparent (procs s np) = Suc p then
        if pstate (procs s np) = ZOMBIE then
          let pid = ppid (procs s np);
              (r, s1) = (if addr \<noteq> 0 then copyout (pagetable (procs s p)) addr (int_bytes (pxstate (procs s np))) s else (0, s)) in
          if r < 0 then Some (Inr (Fails, s1))
          else obind (freeproc kend np s1) (\<lambda>s2. Some (Inr (Reaps pid, s2)))
        else wait_scan kend p addr True nps s
      else wait_scan kend p addr havekids nps s)"

text \<open>\<open>wait\<close> from the start, or after \<open>sleep\<close> returned, to its return or its next \<open>sleep\<close>.\<close>

definition wait_step :: "nat \<Rightarrow> nat \<Rightarrow> u64 \<Rightarrow> 'a proc_state_scheme \<Rightarrow> (wait_result \<times> 'a proc_state_scheme) res option" where
  "wait_step kend p addr s = wait_scan kend p addr False [0..<NPROC] s"

section \<open>Scheduling\<close>

text \<open>One turn of the loop of \<open>scheduler\<close>, to the \<open>swtch\<close>.\<close>

definition sched_pick :: "nat \<Rightarrow> 'a proc_state_scheme \<Rightarrow> 'a proc_state_scheme option" where
  "sched_pick p s = (if pstate (procs s p) = RUNNABLE then Some (upd_proc p (\<lambda>x. x\<lparr>pstate := RUNNING\<rparr>) s) else None)"

definition yield :: "nat \<Rightarrow> 'a proc_state_scheme \<Rightarrow> 'a proc_state_scheme" where
  "yield p s = upd_proc p (\<lambda>x. x\<lparr>pstate := RUNNABLE\<rparr>) s"

definition sleep_begin :: "nat \<Rightarrow> nat \<Rightarrow> 'a proc_state_scheme \<Rightarrow> 'a proc_state_scheme" where
  "sleep_begin p chan s = upd_proc p (\<lambda>x. x\<lparr>pchan := chan, pstate := SLEEPING\<rparr>) s"

definition sleep_end :: "nat \<Rightarrow> 'a proc_state_scheme \<Rightarrow> 'a proc_state_scheme" where
  "sleep_end p s = upd_proc p (\<lambda>x. x\<lparr>pchan := 0\<rparr>) s"

definition wakeup :: "nat \<Rightarrow> 'a proc_state_scheme \<Rightarrow> 'a proc_state_scheme" where
  "wakeup chan s =
     fold (\<lambda>p s. if pstate (procs s p) = SLEEPING \<and> pchan (procs s p) = chan then upd_proc p (\<lambda>x. x\<lparr>pstate := RUNNABLE\<rparr>) s else s)
       [0..<NPROC] s"

definition kill :: "int \<Rightarrow> 'a proc_state_scheme \<Rightarrow> int \<times> 'a proc_state_scheme" where
  "kill pid s =
     (case List.find (\<lambda>p. ppid (procs s p) = pid) [0..<NPROC] of
        None \<Rightarrow> (-1, s)
      | Some p \<Rightarrow>
          (0, upd_proc p (\<lambda>x. x\<lparr>pkilled := True, pstate := if pstate x = SLEEPING then RUNNABLE else pstate x\<rparr>) s))"

text \<open>The checks of \<open>sched\<close> on CPU \<open>c\<close>, whose process has lock \<open>l\<close> and state \<open>st\<close>; then it switches.\<close>

definition sched_check :: "nat \<Rightarrow> nat \<Rightarrow> procstate \<Rightarrow> lock_state \<Rightarrow> unit res" where
  "sched_check c l st s =
     (if \<not> holding c l s then Inl (Panic ''sched p->lock'')
      else if noff (cpus s c) \<noteq> 1 then Inl (Panic ''sched locks'')
      else if st = RUNNING then Inl (Panic ''sched running'')
      else if sie (cpus s c) then Inl (Panic ''sched interruptible'')
      else Inr ())"

text \<open>The locking of \<open>sleep\<close> up to \<open>sched\<close>; \<open>l\<close> is the lock of the process and \<open>lk\<close> the one given.\<close>

definition sleep_locks :: "nat \<Rightarrow> nat \<Rightarrow> nat \<Rightarrow> lock_state \<Rightarrow> lock_state res option" where
  "sleep_locks c l lk s =
     (if lk \<noteq> l then obind (acquire c l s) (\<lambda>s1. Some (release c lk s1)) else Some (Inr s))"

section \<open>Copying to and from user or kernel memory\<close>

definition either_copyout :: "nat \<Rightarrow> bool \<Rightarrow> u64 \<Rightarrow> u8 list \<Rightarrow> 'a proc_state_scheme \<Rightarrow> int \<times> 'a proc_state_scheme" where
  "either_copyout p user_dst dst src s =
     (if user_dst then copyout (pagetable (procs s p)) dst src s else (0, set_pmem (store_bytes (unat dst) src) s))"

definition either_copyin :: "nat \<Rightarrow> bool \<Rightarrow> u64 \<Rightarrow> nat \<Rightarrow> 'a proc_state_scheme \<Rightarrow> u8 list \<times> bool" where
  "either_copyin p user_src src len s =
     (if user_src then copyin (pagetable (procs s p)) src len s else (map (pmem s) [unat src..<unat src + len], True))"

section \<open>System calls on processes (mp4/kernel/sysproc.c)\<close>

definition sys_getpid :: "nat \<Rightarrow> 'a proc_state_scheme \<Rightarrow> int" where
  "sys_getpid p s = ppid (procs s p)"

definition sys_sbrk :: "nat \<Rightarrow> nat \<Rightarrow> u32 \<Rightarrow> 'a proc_state_scheme \<Rightarrow> (int \<times> 'a proc_state_scheme) res" where
  "sys_sbrk kend p n s =
     (let addr = sint (ucast (psz (procs s p)) :: u32) in
      rbind (growproc kend p n s) (\<lambda>(r, s1). Inr (if r < 0 then -1 else addr, s1)))"

text \<open>\<open>sys_sleep\<close> from the start, or after \<open>sleep\<close> returned, to its next \<open>sleep\<close> (\<open>None\<close>) or return; \<open>chan\<close> is \<open>&ticks\<close>.\<close>

definition sys_sleep :: "nat \<Rightarrow> nat \<Rightarrow> u32 \<Rightarrow> u32 \<Rightarrow> u32 \<Rightarrow> 'a proc_state_scheme \<Rightarrow> int option \<times> 'a proc_state_scheme" where
  "sys_sleep chan p ticks0 n ticks s =
     (if ticks - ticks0 < n then
        if pkilled (procs s p) then (Some (-1), s) else (None, sleep_begin p chan s)
      else (Some 0, s))"

definition LOGICAL_DISK_SIZE :: nat where "LOGICAL_DISK_SIZE = 4096 div 2"

definition sys_force_fail :: "int \<Rightarrow> 'a sys_state_scheme \<Rightarrow> int \<times> 'a sys_state_scheme" where
  "sys_force_fail pbn s =
     (if int LOGICAL_DISK_SIZE \<le> pbn \<or> pbn < -1 then (-1, s) else (0, s\<lparr>force_read_error_pbn := pbn\<rparr>))"

definition sys_get_force_fail :: "'a sys_state_scheme \<Rightarrow> int" where
  "sys_get_force_fail s = force_read_error_pbn s"

definition sys_force_disk_fail :: "int \<Rightarrow> 'a sys_state_scheme \<Rightarrow> int \<times> 'a sys_state_scheme" where
  "sys_force_disk_fail disk_id s =
     (if disk_id < -1 \<or> 1 < disk_id then (-1, s) else (0, s\<lparr>force_disk_fail_id := disk_id\<rparr>))"

end
