(* ===== verification/ProcFrame.thy ===== *)
theory ProcFrame
  imports Procs
begin

text \<open>
  The file system and the page tables never touch the process table: what \<open>exit\<close>, \<open>fork\<close> and \<open>wait\<close> call of them keeps
  \<open>tab\<close>, the part of the state that proc.c owns.
\<close>

definition tab :: "'a proc_state_scheme \<Rightarrow> (nat \<Rightarrow> proc) \<times> nat \<times> int" where
  "tab s = (procs s, initproc s, nextpid s)"

named_theorems tabs \<open>operations that keep the process table\<close>

lemma tabD: "tab t = tab s \<Longrightarrow> procs t = procs s \<and> initproc t = initproc s \<and> nextpid t = nextpid s"
  by (simp add: tab_def)

lemma obind_eq_Inr: "obind r f = Some (Inr y) \<longleftrightarrow> (\<exists>x. r = Some (Inr x) \<and> f x = Some (Inr y))"
  by (auto simp: obind_def split: option.splits sum.splits)

lemma for_res_tab:
  assumes "for_res f is s = Inr t" and "\<And>i u v. f i u = Inr v \<Longrightarrow> tab v = tab u"
  shows "tab t = tab s"
  by (rule for_res_invariant [OF assms(1)]) (auto dest: assms(2))

section \<open>Buffers and the log\<close>

lemma updates_tab [simp]:
  "tab (upd_buf i f s) = tab s" "tab (set_bdata i d s) = tab s" "tab (virtio_disk_rw i b s) = tab s" "tab (bunpin i s) = tab s"
  "tab (bpin i s) = tab s" "tab (upd_inode p g s) = tab s" "tab (upd_file p h s) = tab s" "tab (idup p s) = tab s"
  "tab (close_pipe p b s) = tab s" "tab (page_free p s) = tab s" "tab (set_pmem m s) = tab s"
  "tab (s\<lparr>lh_n := n\<rparr>) = tab s" "tab (s\<lparr>lh_block := l\<rparr>) = tab s" "tab (s\<lparr>committing := b\<rparr>) = tab s" "tab (s\<lparr>outstanding := z\<rparr>) = tab s"
  "tab (s\<lparr>lru := n'\<rparr>) = tab s"
  by (simp_all add: tab_def upd_buf_def set_bdata_def virtio_disk_rw_def bunpin_def bpin_def upd_inode_def upd_file_def idup_def
      close_pipe_def page_free_def set_pmem_def Let_def split: prod.split)

lemma bget_tab: "bget dev b s = Inr (i, t) \<Longrightarrow> tab t = tab s"
  by (auto simp: bget_def acquiresleep_buf_def split: option.splits if_splits)

lemma bread_tab: "bread dev b s = Inr (i, t) \<Longrightarrow> tab t = tab s"
  by (auto simp: bread_def Let_def dest!: bget_tab split: if_splits)

lemma bwrite_tab: "bwrite i s = Inr t \<Longrightarrow> tab t = tab s"
  by (auto simp: bwrite_def Let_def)

lemma brelse_tab: "brelse i s = Inr t \<Longrightarrow> tab t = tab s"
  by (auto simp: brelse_def Let_def)

lemmas bio_tab = bread_tab bwrite_tab brelse_tab

lemma log_write_tab: "log_write b s = Inr t \<Longrightarrow> tab t = tab s"
  by (auto simp: log_write_def Let_def split: if_splits)

lemma install_block_tab: "install_block i s = Inr t \<Longrightarrow> tab t = tab s"
  by (auto simp: install_block_def Let_def dest!: bio_tab)

lemma write_log_block_tab: "write_log_block i s = Inr t \<Longrightarrow> tab t = tab s"
  by (auto simp: write_log_block_def Let_def dest!: bio_tab)

lemma write_head_tab: "write_head s = Inr t \<Longrightarrow> tab t = tab s"
  by (auto simp: write_head_def Let_def dest!: bio_tab)

lemma install_trans_tab: "install_trans s = Inr t \<Longrightarrow> tab t = tab s"
  unfolding install_trans_def by (erule for_res_tab) (rule install_block_tab)

lemma write_log_tab: "write_log s = Inr t \<Longrightarrow> tab t = tab s"
  unfolding write_log_def by (erule for_res_tab) (rule write_log_block_tab)

lemma commit_tab: "commit s = Inr t \<Longrightarrow> tab t = tab s"
  by (auto simp: commit_def dest!: write_head_tab install_trans_tab write_log_tab split: if_splits)

lemma begin_op_tab: "begin_op s = Inr t \<Longrightarrow> tab t = tab s"
  by (auto simp: begin_op_def split: if_splits)

lemma end_op_tab: "end_op s = Inr t \<Longrightarrow> tab t = tab s"
  by (auto simp: end_op_def Let_def dest!: commit_tab split: if_splits)

section \<open>Inodes and files\<close>

lemma bfree_tab: "bfree dev b s = Inr t \<Longrightarrow> tab t = tab s"
  by (auto simp: bfree_def Let_def dest!: bio_tab log_write_tab split: if_splits)

lemma iupdate_tab: "iupdate p s = Inr t \<Longrightarrow> tab t = tab s"
  by (auto simp: iupdate_def dest!: bio_tab log_write_tab)

lemma itrunc_direct_tab: "itrunc_direct p i s = Inr t \<Longrightarrow> tab t = tab s"
  by (auto simp: itrunc_direct_def dest!: bfree_tab split: if_splits)

lemma itrunc_indirect_tab: "itrunc_indirect p b i s = Inr t \<Longrightarrow> tab t = tab s"
  by (auto simp: itrunc_indirect_def dest!: bfree_tab split: if_splits)

lemma itrunc_loops_tab:
  "for_res (itrunc_direct p) is s = Inr t \<Longrightarrow> tab t = tab s" "for_res (itrunc_indirect p b) is s = Inr t \<Longrightarrow> tab t = tab s"
  by (erule for_res_tab, erule itrunc_direct_tab) (erule for_res_tab, erule itrunc_indirect_tab)

lemma itrunc_blocks_tab: "itrunc_blocks p s = Inr t \<Longrightarrow> tab t = tab s"
  by (auto simp: itrunc_blocks_def dest!: bio_tab bfree_tab itrunc_loops_tab split: if_splits)

lemma itrunc_tab: "itrunc p s = Inr t \<Longrightarrow> tab t = tab s"
  by (auto simp: itrunc_def dest!: itrunc_blocks_tab iupdate_tab)

lemma iput_tab: "iput p s = Inr t \<Longrightarrow> tab t = tab s"
  by (auto simp: iput_def dest!: itrunc_tab iupdate_tab split: if_splits)

lemma fileclose_tab: "fileclose f s = Inr t \<Longrightarrow> tab t = tab s"
  by (auto simp: fileclose_def Let_def dest!: begin_op_tab iput_tab end_op_tab split: if_splits)

lemma filedup_tab: "filedup f s = Inr t \<Longrightarrow> tab t = tab s"
  by (auto simp: filedup_def split: if_splits)

section \<open>Pages and page tables\<close>

lemma kalloc_tab: "kalloc_mp4 s = (p, t) \<Longrightarrow> tab t = tab s"
  by (auto simp: kalloc_mp4_def page_alloc_def tab_def set_pmem_def split: list.splits if_splits)

lemma kfree_tab: "kfree_mp4 kend p s = Inr t \<Longrightarrow> tab t = tab s"
  by (auto simp: kfree_mp4_def split: if_splits)

lemma walk_level_tab: "walk_level al l va pt s = (r, t) \<Longrightarrow> tab t = tab s"
  by (auto simp: walk_level_def Let_def dest!: kalloc_tab split: if_splits prod.splits)

lemma walk_tab: "walk pt va al s = Inr (r, t) \<Longrightarrow> tab t = tab s"
  by (auto simp: walk_def dest!: walk_level_tab split: if_splits prod.splits option.splits)

lemma map_page_tab: "map_page pt a pa perm s = Inr (r, t) \<Longrightarrow> tab t = tab s"
  by (auto simp: map_page_def dest!: walk_tab split: if_splits)

lemma mappages_loop_tab: "mappages_loop n pt a pa perm s = Inr (r, t) \<Longrightarrow> tab t = tab s"
  by (induction n arbitrary: a pa s) (auto dest!: map_page_tab split: if_splits)

lemma mappages_tab: "mappages pt va sz pa perm s = Inr (r, t) \<Longrightarrow> tab t = tab s"
  by (auto simp: mappages_def Let_def dest: mappages_loop_tab)

lemma copyout_tab: "copyout pt va src s = (r, t) \<Longrightarrow> tab t = tab s"
proof (induction pt va src s rule: copyout.induct)
  case (1 pt va src s)
  show ?case
    using 1(2) by (subst (asm) copyout.simps) (auto simp: Let_def dest!: 1(1) [rotated -1] split: if_splits)
qed

lemma unmap_page_tab: "unmap_page kend pt a b s = Inr t \<Longrightarrow> tab t = tab s"
  by (auto simp: unmap_page_def Let_def dest!: walk_tab kfree_tab split: if_splits)

lemma unmap_loop_tab: "unmap_loop kend n pt a b s = Inr t \<Longrightarrow> tab t = tab s"
  by (induction n arbitrary: a s) (auto dest!: unmap_page_tab)

lemma uvmunmap_tab: "uvmunmap kend pt va n b s = Inr t \<Longrightarrow> tab t = tab s"
  by (auto simp: uvmunmap_def dest!: unmap_loop_tab split: if_splits)

lemma freewalk_from_tab:
  fixes s :: "'a proc_state_scheme"
  assumes "freewalk_from kend pt i s = Some (Inr t)"
  shows "tab t = tab s"
proof -
  define P where "P = (\<lambda>(kend :: nat) (pt :: nat) (i :: nat) (s :: 'a proc_state_scheme) (r :: 'a proc_state_scheme res). \<forall>t. r = Inr t \<longrightarrow> tab t = tab s)"
  have "P kend pt i s (Inr t)"
  proof (rule freewalk_from.raw_induct [where P = P, OF _ assms])
    fix f kend pt i r and s :: "'a proc_state_scheme"
    assume IH: "\<And>kend pt i s r. f kend pt i s = Some r \<Longrightarrow> P kend pt i s r"
      and eq: "(if i < 512 then let pte = get64 (pmem s) (pt + 8 * i) in
          if pte AND PTE_V \<noteq> 0 \<and> pte AND (PTE_R OR PTE_W OR PTE_X) = 0 then
            obind (f kend (PTE2PA pte) 0 s) (\<lambda>s1. f kend pt (i + 1) (set_pmem (put64 (pt + 8 * i) 0) s1))
          else if pte AND PTE_V \<noteq> 0 then Some (Inl (Panic ''freewalk: leaf'')) else f kend pt (i + 1) s
        else Some (kfree_mp4 kend pt s)) = Some r"
    have IH': "f kend pt i s = Some (Inr t) \<Longrightarrow> tab t = tab s" for kend pt i s t using IH unfolding P_def by blast
    show "P kend pt i s r"
      unfolding P_def using eq by (auto simp: Let_def obind_eq_Inr dest!: IH' kfree_tab split: if_splits)
  qed
  then show ?thesis by (simp add: P_def)
qed

lemma uvmfree_tab: "uvmfree kend pt sz s = Some (Inr t) \<Longrightarrow> tab t = tab s"
  by (auto simp: uvmfree_def obind_eq_Inr freewalk_def dest!: uvmunmap_tab freewalk_from_tab split: if_splits)

lemma uvmcopy_loop_tab: "uvmcopy_loop kend n old new i s = Inr (r, t) \<Longrightarrow> tab t = tab s"
  by (induction n arbitrary: i s) (auto simp: Let_def dest!: walk_tab kalloc_tab mappages_tab uvmunmap_tab kfree_tab split: if_splits prod.splits)

lemma uvmcopy_tab: "uvmcopy kend old new sz s = Inr (r, t) \<Longrightarrow> tab t = tab s"
  unfolding uvmcopy_def by (rule uvmcopy_loop_tab)

lemma proc_pagetable_tab: "proc_pagetable kend tramp tf s = Some (Inr (r, t)) \<Longrightarrow> tab t = tab s"
  by (auto simp: proc_pagetable_def uvmcreate_def obind_eq_Inr dest!: kalloc_tab mappages_tab uvmunmap_tab uvmfree_tab
      split: if_splits prod.splits)

lemma proc_freepagetable_tab: "proc_freepagetable kend pt sz s = Some (Inr t) \<Longrightarrow> tab t = tab s"
  by (auto simp: proc_freepagetable_def obind_eq_Inr dest!: uvmunmap_tab uvmfree_tab)

end
