(* ===== verification/ProcTable.thy ===== *)
theory ProcTable
  imports ProcFrame
begin

text \<open>
  The life cycle of processes: what the operations of proc.c do to the process table, a step relation that interleaves
  them, and that no wake-up of a waiting parent is lost.
\<close>

section \<open>The operations on the table\<close>

lemma upd_proc_simps [simp]:
  "procs (upd_proc p f s) q = (if q = p then f (procs s p) else procs s q)"
  "initproc (upd_proc p f s) = initproc s" "nextpid (upd_proc p f s) = nextpid s"
  by (simp_all add: upd_proc_def)

definition cleared :: "proc \<Rightarrow> proc" where
  "cleared x = x\<lparr>trapframe := 0, pagetable := 0, psz := 0, ppid := 0, pparent := 0, pname := (pname x)(0 := 0), pchan := 0,
     pkilled := False, pxstate := 0, pstate := UNUSED\<rparr>"

lemma freeproc_tab:
  assumes "freeproc kend p s = Some (Inr t)"
  shows "initproc t = initproc s \<and> nextpid t = nextpid s \<and> procs t = (procs s)(p := cleared (procs s p))"
proof -
  from assms obtain s1 s3 where
    1: "(if trapframe (procs s p) \<noteq> 0 then kfree_mp4 kend (trapframe (procs s p)) s else Inr s) = Inr s1"
    and 3: "(if pagetable (procs s1 p) \<noteq> 0 then proc_freepagetable kend (pagetable (procs s1 p)) (psz (procs s1 p))
        (upd_proc p (\<lambda>x. x\<lparr>trapframe := 0\<rparr>) s1) else Some (Inr (upd_proc p (\<lambda>x. x\<lparr>trapframe := 0\<rparr>) s1))) = Some (Inr s3)"
    and t: "t = upd_proc p (\<lambda>x. x\<lparr>pagetable := 0, psz := 0, ppid := 0, pparent := 0, pname := (pname x)(0 := 0), pchan := 0,
       pkilled := False, pxstate := 0, pstate := UNUSED\<rparr>) s3"
    by (auto simp: freeproc_def obind_eq_Inr Let_def cong: if_cong)
  have "tab s1 = tab s" using 1 by (auto dest: kfree_tab split: if_splits)
  moreover have "tab s3 = tab (upd_proc p (\<lambda>x. x\<lparr>trapframe := 0\<rparr>) s1)"
    using 3 by (auto dest: proc_freepagetable_tab split: if_splits)
  ultimately show ?thesis by (auto simp: t tab_def upd_proc_def cleared_def)
qed

text \<open>What \<open>allocproc\<close> returns: a slot that was free, with everything but the new fields as it was.\<close>

lemma allocproc_tab:
  assumes "allocproc kend tramp ret_to s = Some (Inr (ptr, t))"
  shows "initproc t = initproc s \<and>
    (procs t = procs s \<and> ptr = 0 \<or>
     (\<exists>p<NPROC. pstate (procs s p) = UNUSED \<and> (\<forall>j<p. pstate (procs s j) \<noteq> UNUSED) \<and> pstate (procs t p) = UNUSED \<and>
        (\<forall>q. q \<noteq> p \<longrightarrow> procs t q = procs s q) \<and>
        (ptr = 0 \<or> ptr = Suc p \<and> nextpid t = nextpid s + 1 \<and> (\<exists>tf pt. tf \<noteq> 0 \<and> pt \<noteq> 0 \<and>
           procs t p = (procs s p)\<lparr>ppid := nextpid s, trapframe := tf, pagetable := pt,
             pcontext := (\<lambda>_. 0)(0 := ret_to, 1 := kstack (procs s p) + 4096)\<rparr>))))"
proof (cases "List.find (\<lambda>p. pstate (procs s p) = UNUSED) [0..<NPROC]")
  case None
  then show ?thesis using assms by (simp add: allocproc_def)
next
  case (Some p)
  then have p: "p < NPROC" "pstate (procs s p) = UNUSED" "\<forall>j<p. pstate (procs s j) \<noteq> UNUSED" by (auto simp: find_upt_Some)
  obtain tf s3 where k: "kalloc_mp4 (upd_proc p (\<lambda>x. x\<lparr>ppid := nextpid s\<rparr>) (s\<lparr>nextpid := nextpid s + 1\<rparr>)) = (tf, s3)"
    by (metis surj_pair)
  have s3: "initproc s3 = initproc s" "nextpid s3 = nextpid s + 1" "procs s3 = (procs s)(p := (procs s p)\<lparr>ppid := nextpid s\<rparr>)"
    using kalloc_tab [OF k] by (auto simp: tab_def upd_proc_def)
  define s4 where "s4 = upd_proc p (\<lambda>x. x\<lparr>trapframe := tf\<rparr>) s3"
  show ?thesis
  proof (cases "tf = 0")
    case True
    then have "ptr = 0" "t = s4" using assms Some k by (simp_all add: allocproc_def allocpid_def s4_def)
    then show ?thesis using p by (auto simp: s4_def s3)
  next
    case False
    then have a: "obind (proc_pagetable kend tramp tf s4) (\<lambda>(pt, s5).
            let s6 = upd_proc p (\<lambda>x. x\<lparr>pagetable := pt\<rparr>) s5 in
            if pt = 0 then obind (freeproc kend p s6) (\<lambda>s7. Some (Inr (0, s7)))
            else Some (Inr (Suc p, upd_proc p (\<lambda>x. x\<lparr>pcontext := (\<lambda>_. 0)(0 := ret_to, 1 := kstack x + 4096)\<rparr>) s6))) = Some (Inr (ptr, t))"
      using assms Some k by (simp add: allocproc_def allocpid_def s4_def)
    then obtain pt s5 where pt: "proc_pagetable kend tramp tf s4 = Some (Inr (pt, s5))"
      and b: "(let s6 = upd_proc p (\<lambda>x. x\<lparr>pagetable := pt\<rparr>) s5 in
            if pt = 0 then obind (freeproc kend p s6) (\<lambda>s7. Some (Inr (0, s7)))
            else Some (Inr (Suc p, upd_proc p (\<lambda>x. x\<lparr>pcontext := (\<lambda>_. 0)(0 := ret_to, 1 := kstack x + 4096)\<rparr>) s6))) = Some (Inr (ptr, t))"
      by (auto simp: obind_eq_Inr)
    have s5: "initproc s5 = initproc s" "nextpid s5 = nextpid s + 1" "procs s5 = (procs s)(p := (procs s p)\<lparr>ppid := nextpid s, trapframe := tf\<rparr>)"
      using proc_pagetable_tab [OF pt] by (auto simp: tab_def s4_def upd_proc_def s3)
    show ?thesis
    proof (cases "pt = 0")
      case True
      then have "ptr = 0" "freeproc kend p (upd_proc p (\<lambda>x. x\<lparr>pagetable := pt\<rparr>) s5) = Some (Inr t)" using b by (auto simp: Let_def obind_eq_Inr)
      then show ?thesis using freeproc_tab [of kend p _ t] p by (auto simp: s5 cleared_def)
    next
      case f: False
      then have "ptr = Suc p" and t: "t = upd_proc p (\<lambda>x. x\<lparr>pcontext := (\<lambda>_. 0)(0 := ret_to, 1 := kstack x + 4096)\<rparr>)
          (upd_proc p (\<lambda>x. x\<lparr>pagetable := pt\<rparr>) s5)" using b by (auto simp: Let_def)
      have "procs t p = (procs s p)\<lparr>ppid := nextpid s, trapframe := tf, pagetable := pt,
             pcontext := (\<lambda>_. 0)(0 := ret_to, 1 := kstack (procs s p) + 4096)\<rparr>" by (simp add: t s5)
      moreover have "procs t q = procs s q" if "q \<noteq> p" for q using that by (simp add: t s5)
      moreover have "nextpid t = nextpid s + 1" "initproc t = initproc s" by (simp_all add: t s5)
      ultimately show ?thesis using p f False \<open>ptr = Suc p\<close> by auto
    qed
  qed
qed

lemma wakeup1_procs: "procs (wakeup1 ptr s) q = (if q = ptr - 1 \<and> pchan (procs s q) = ptr \<and> pstate (procs s q) = SLEEPING
    then (procs s q)\<lparr>pstate := RUNNABLE\<rparr> else procs s q)" "initproc (wakeup1 ptr s) = initproc s"
  by (auto simp: wakeup1_def Let_def)

lemma fold_upd_procs:
  assumes "\<And>p t. f p t = (if P p (procs t p) then upd_proc p g t else t)" "distinct ps"
  shows "procs (fold f ps s) q = (if q \<in> set ps \<and> P q (procs s q) then g (procs s q) else procs s q) \<and>
    initproc (fold f ps s) = initproc s \<and> nextpid (fold f ps s) = nextpid s"
  using assms(2) by (induction ps arbitrary: s) (auto simp: assms(1))

lemma wakeup_procs:
  "procs (wakeup chan s) q = (if q < NPROC \<and> pstate (procs s q) = SLEEPING \<and> pchan (procs s q) = chan
     then (procs s q)\<lparr>pstate := RUNNABLE\<rparr> else procs s q)" "initproc (wakeup chan s) = initproc s" "nextpid (wakeup chan s) = nextpid s"
  using fold_upd_procs [where P = "\<lambda>p x. pstate x = SLEEPING \<and> pchan x = chan" and g = "\<lambda>x. x\<lparr>pstate := RUNNABLE\<rparr>" and ps = "[0..<NPROC]"
      and f = "\<lambda>p s. if pstate (procs s p) = SLEEPING \<and> pchan (procs s p) = chan then upd_proc p (\<lambda>x. x\<lparr>pstate := RUNNABLE\<rparr>) s else s" and s = s and q = q]
  by (auto simp: wakeup_def)

lemma reparent_procs:
  "procs (reparent p s) q = (if q < NPROC \<and> pparent (procs s q) = Suc p then (procs s q)\<lparr>pparent := initproc s\<rparr> else procs s q)"
  "initproc (reparent p s) = initproc s" "nextpid (reparent p s) = nextpid s"
proof -
  have *: "procs (fold f ps s) q = (if q \<in> set ps \<and> pparent (procs s q) = Suc p then (procs s q)\<lparr>pparent := initproc s\<rparr> else procs s q) \<and>
      initproc (fold f ps s) = initproc s \<and> nextpid (fold f ps s) = nextpid s"
    if "distinct ps" and f: "f = (\<lambda>pp s. if pparent (procs s pp) = Suc p then upd_proc pp (\<lambda>x. x\<lparr>pparent := initproc s\<rparr>) s else s)"
    for f ps and s :: "'a proc_state_scheme"
    using that(1) by (induction ps arbitrary: s) (auto simp: f)
  show "procs (reparent p s) q = (if q < NPROC \<and> pparent (procs s q) = Suc p then (procs s q)\<lparr>pparent := initproc s\<rparr> else procs s q)"
    "initproc (reparent p s) = initproc s" "nextpid (reparent p s) = nextpid s"
    using * [of "[0..<NPROC]" _ s] by (simp_all add: reparent_def)
qed

lemma kill_procs:
  assumes "kill pid s = (r, t)"
  shows "initproc t = initproc s \<and> (r = -1 \<and> t = s \<and> (\<forall>p<NPROC. ppid (procs s p) \<noteq> pid) \<or>
    r = 0 \<and> (\<exists>p<NPROC. ppid (procs s p) = pid \<and> (\<forall>q. q \<noteq> p \<longrightarrow> procs t q = procs s q) \<and> procs t p = (procs s p)\<lparr>pkilled := True,
      pstate := if pstate (procs s p) = SLEEPING then RUNNABLE else pstate (procs s p)\<rparr>))"
  using assms by (auto simp: kill_def find_upt_Some find_upt_None split: option.splits)

text \<open>A pass of \<open>wait\<close> reaps the first zombie child; it sleeps only when there is none.\<close>

lemma wait_scan_zombie:
  assumes "np \<in> set nps" "pparent (procs s np) = Suc p" "pstate (procs s np) = ZOMBIE" "distinct nps"
    and "\<And>q. q \<in> set nps \<Longrightarrow> pparent (procs s q) = Suc p \<Longrightarrow> pstate (procs s q) = ZOMBIE \<Longrightarrow> q = np"
  shows "wait_scan kend p addr b nps s =
    (let (r, s1) = (if addr \<noteq> 0 then copyout (pagetable (procs s p)) addr (int_bytes (pxstate (procs s np))) s else (0, s))
     in if r < 0 then Some (Inr (Fails, s1)) else obind (freeproc kend np s1) (\<lambda>s2. Some (Inr (Reaps (ppid (procs s np)), s2))))"
  using assms
proof (induction nps arbitrary: b)
  case (Cons x nps)
  show ?case
  proof (cases "x = np")
    case True
    show ?thesis unfolding True wait_scan.simps using Cons.prems(2,3) by (simp only: if_True Let_def refl)
  next
    case False
    then have "wait_scan kend p addr b (x # nps) s = wait_scan kend p addr (b \<or> pparent (procs s x) = Suc p) nps s"
    proof (cases "pparent (procs s x) = Suc p")
      case True
      then have "pstate (procs s x) \<noteq> ZOMBIE" using Cons.prems(5) [of x] False by auto
      then show ?thesis unfolding wait_scan.simps using True by (simp only: if_True if_False simp_thms)
    next
      case False
      then show ?thesis unfolding wait_scan.simps by (simp only: if_True if_False simp_thms)
    qed
    moreover have "np \<in> set nps" "distinct nps" using Cons.prems(1,4) False by auto
    moreover have u: "q = np" if "q \<in> set nps" "pparent (procs s q) = Suc p" "pstate (procs s q) = ZOMBIE" for q
      using Cons.prems(5) that by simp
    note u
    ultimately show ?thesis using Cons.IH [OF _ Cons.prems(2,3)] by presburger
  qed
qed simp

lemma wait_scan_tab:
  assumes "wait_scan kend p addr b nps s = Some (Inr (r, t))"
  shows "initproc t = initproc s \<and>
    (r = Fails \<and> procs t = procs s \<or>
     r = Waits \<and> (\<forall>np \<in> set nps. pparent (procs s np) = Suc p \<longrightarrow> pstate (procs s np) \<noteq> ZOMBIE) \<and>
       procs t = (procs s)(p := (procs s p)\<lparr>pchan := Suc p, pstate := SLEEPING\<rparr>) \<or>
     (\<exists>np \<in> set nps. r = Reaps (ppid (procs s np)) \<and> pparent (procs s np) = Suc p \<and> pstate (procs s np) = ZOMBIE \<and>
       procs t = (procs s)(np := cleared (procs s np))))"
  using assms
proof (induction nps arbitrary: b)
  case Nil
  then show ?case by (auto simp: upd_proc_def split: if_splits)
next
  case (Cons x nps)
  show ?case
  proof (cases "pparent (procs s x) = Suc p \<and> pstate (procs s x) = ZOMBIE")
    case False
    then have "wait_scan kend p addr (b \<or> pparent (procs s x) = Suc p) nps s = Some (Inr (r, t))" using Cons.prems by (cases b) (auto split: if_splits)
    from Cons.IH [OF this] False show ?thesis by auto
  next
    case True
    obtain c s1 where c: "(if addr \<noteq> 0 then copyout (pagetable (procs s p)) addr (int_bytes (pxstate (procs s x))) s else (0, s)) = (c, s1)"
      by (metis surj_pair)
    have "tab s1 = tab s" using c by (auto dest: copyout_tab split: if_splits)
    then have s1: "procs s1 = procs s" "initproc s1 = initproc s" by (auto simp: tab_def)
    have "(if c < 0 then Some (Inr (Fails, s1)) else obind (freeproc kend x s1) (\<lambda>s2. Some (Inr (Reaps (ppid (procs s x)), s2)))) = Some (Inr (r, t))"
      using Cons.prems True c by simp
    then consider "r = Fails" "t = s1" | "r = Reaps (ppid (procs s x))" "freeproc kend x s1 = Some (Inr t)" by (auto simp: obind_eq_Inr split: if_splits)
    then show ?thesis
    proof cases
      case 2
      then show ?thesis using freeproc_tab [OF 2(2)] True by (auto simp: s1)
    qed (simp add: s1)
  qed
qed

lemma dup_files_tab:
  assumes "dup_files p np s = Inr t"
  shows "initproc t = initproc s \<and> nextpid t = nextpid s \<and> (\<exists>f. procs t = (procs s)(np := (procs s np)\<lparr>pofile := f\<rparr>))"
  using assms unfolding dup_files_def
proof (rule for_res_invariant)
  show "initproc s = initproc s \<and> nextpid s = nextpid s \<and> (\<exists>f. procs s = (procs s)(np := (procs s np)\<lparr>pofile := f\<rparr>))"
    by (auto intro!: exI [of _ "pofile (procs s np)"] ext)
next
  fix i u v
  assume u: "initproc u = initproc s \<and> nextpid u = nextpid s \<and> (\<exists>f. procs u = (procs s)(np := (procs s np)\<lparr>pofile := f\<rparr>))"
    and v: "(if pofile (procs u p) i \<noteq> 0 then rbind (filedup (pofile (procs u p) i) u)
        (\<lambda>s1. Inr (upd_proc np (\<lambda>x. x\<lparr>pofile := (pofile x)(i := pofile (procs u p) i)\<rparr>) s1)) else Inr u) = Inr v"
  show "initproc v = initproc s \<and> nextpid v = nextpid s \<and> (\<exists>f. procs v = (procs s)(np := (procs s np)\<lparr>pofile := f\<rparr>))"
  proof (cases "v = u")
    case False
    then obtain w where w: "filedup (pofile (procs u p) i) u = Inr w" "v = upd_proc np (\<lambda>x. x\<lparr>pofile := (pofile x)(i := pofile (procs u p) i)\<rparr>) w"
      using v by (auto split: if_splits)
    show ?thesis using filedup_tab [OF w(1)] u by (auto simp: w(2) tab_def upd_proc_def)
  qed (use u in simp)
qed

lemma close_files_tab:
  assumes "close_files p s = Inr t"
  shows "initproc t = initproc s \<and> nextpid t = nextpid s \<and> (\<exists>f. procs t = (procs s)(p := (procs s p)\<lparr>pofile := f\<rparr>))"
  using assms unfolding close_files_def
proof (rule for_res_invariant)
  show "initproc s = initproc s \<and> nextpid s = nextpid s \<and> (\<exists>f. procs s = (procs s)(p := (procs s p)\<lparr>pofile := f\<rparr>))"
    by (auto intro!: exI [of _ "pofile (procs s p)"] ext)
next
  fix i u v
  assume u: "initproc u = initproc s \<and> nextpid u = nextpid s \<and> (\<exists>f. procs u = (procs s)(p := (procs s p)\<lparr>pofile := f\<rparr>))"
    and v: "(if pofile (procs u p) i \<noteq> 0 then rbind (fileclose (pofile (procs u p) i) u)
        (\<lambda>s1. Inr (upd_proc p (\<lambda>x. x\<lparr>pofile := (pofile x)(i := 0)\<rparr>) s1)) else Inr u) = Inr v"
  show "initproc v = initproc s \<and> nextpid v = nextpid s \<and> (\<exists>f. procs v = (procs s)(p := (procs s p)\<lparr>pofile := f\<rparr>))"
  proof (cases "v = u")
    case False
    then obtain w where w: "fileclose (pofile (procs u p) i) u = Inr w" "v = upd_proc p (\<lambda>x. x\<lparr>pofile := (pofile x)(i := 0)\<rparr>) w"
      using v by (auto split: if_splits)
    show ?thesis using fileclose_tab [OF w(1)] u by (auto simp: w(2) tab_def upd_proc_def)
  qed (use u in simp)
qed

lemma exit_begin_tab:
  assumes "exit_begin p s = Inr t"
  shows "initproc t = initproc s \<and> (\<exists>f. procs t = procs (wakeup1 (initproc s) (upd_proc p (\<lambda>x. x\<lparr>pofile := f, pcwd := 0\<rparr>) s)))"
proof -
  obtain s1 s2 s3 s4 where 1: "close_files p s = Inr s1" and r: "begin_op s1 = Inr s2" "iput (pcwd (procs s2 p)) s2 = Inr s3" "end_op s3 = Inr s4"
    and t: "t = wakeup1 (initproc s4) (upd_proc p (\<lambda>x. x\<lparr>pcwd := 0\<rparr>) s4)"
    using assms by (auto simp: exit_begin_def Let_def split: if_splits)
  have "tab s4 = tab s1" using begin_op_tab [OF r(1)] iput_tab [OF r(2)] end_op_tab [OF r(3)] by simp
  then obtain f where s4: "initproc s4 = initproc s" "procs s4 = (procs s)(p := (procs s p)\<lparr>pofile := f\<rparr>)"
    using close_files_tab [OF 1] by (auto simp: tab_def)
  have "procs (upd_proc p (\<lambda>x. x\<lparr>pcwd := 0\<rparr>) s4) = procs (upd_proc p (\<lambda>x. x\<lparr>pofile := f, pcwd := 0\<rparr>) s)" by (auto simp: s4)
  then have "procs t = procs (wakeup1 (initproc s) (upd_proc p (\<lambda>x. x\<lparr>pofile := f, pcwd := 0\<rparr>) s))"
    by (intro ext) (simp only: t s4(1) wakeup1_procs)
  then show ?thesis by (auto simp: t wakeup1_procs s4)
qed

lemma fork_tab:
  assumes "fork kend tramp ret_to p s = Some (Inr (r, t))" "pstate (procs s p) \<noteq> UNUSED"
  shows "initproc t = initproc s \<and> (procs t = procs s \<or>
    (\<exists>np<NPROC. pstate (procs s np) = UNUSED \<and> pstate (procs t np) \<in> {UNUSED, RUNNABLE} \<and> (\<forall>q. q \<noteq> np \<longrightarrow> procs t q = procs s q)))"
proof -
  obtain ptr s1 where a: "allocproc kend tramp ret_to s = Some (Inr (ptr, s1))"
    using assms(1) by (auto simp: fork_def obind_eq_Inr)
  note A = allocproc_tab [OF a]
  show ?thesis
  proof (cases "ptr = 0")
    case True
    then have "t = s1" using assms(1) a by (simp add: fork_def)
    then show ?thesis using A by blast
  next
    case False
    define np where "np = ptr - 1"
    have n: "np < NPROC" "pstate (procs s np) = UNUSED" "pstate (procs s1 np) = UNUSED" "initproc s1 = initproc s"
      "\<forall>q. q \<noteq> np \<longrightarrow> procs s1 q = procs s q" using A False by (auto simp: np_def)
    obtain c s2 where u: "uvmcopy kend (pagetable (procs s1 p)) (pagetable (procs s1 np)) (psz (procs s1 p)) s1 = Inr (c, s2)"
      using assms(1) a False by (auto simp: fork_def obind_eq_Inr Let_def np_def)
    have s2: "procs s2 = procs s1" "initproc s2 = initproc s1" using uvmcopy_tab [OF u] by (simp_all add: tab_def)
    show ?thesis
    proof (cases "c < 0")
      case True
      then have "freeproc kend np s2 = Some (Inr t)" using assms(1) a False u by (auto simp: fork_def obind_eq_Inr Let_def np_def)
      from freeproc_tab [OF this] show ?thesis using n by (auto simp: s2 cleared_def)
    next
      case c: False
      define s4 where "s4 = set_pmem (\<lambda>m. put64 (trapframe (procs (upd_proc np (\<lambda>x. x\<lparr>psz := psz (procs s2 p), pparent := Suc p\<rparr>) s2) np) + 112) 0
         (memmove m (trapframe (procs (upd_proc np (\<lambda>x. x\<lparr>psz := psz (procs s2 p), pparent := Suc p\<rparr>) s2) np))
            (trapframe (procs (upd_proc np (\<lambda>x. x\<lparr>psz := psz (procs s2 p), pparent := Suc p\<rparr>) s2) p)) 288))
         (upd_proc np (\<lambda>x. x\<lparr>psz := psz (procs s2 p), pparent := Suc p\<rparr>) s2)"
      have s4: "procs s4 q = (if q = np then (procs s1 q)\<lparr>psz := psz (procs s2 p), pparent := Suc p\<rparr> else procs s1 q)"
        "initproc s4 = initproc s1" for q
        by (simp_all add: s4_def set_pmem_def s2)
      obtain s5 where d: "dup_files p np s4 = Inr s5" and t: "(let s6 = upd_proc np (\<lambda>x. x\<lparr>pcwd := pcwd (procs s5 p)\<rparr>) (idup (pcwd (procs s5 p)) s5);
             s7 = upd_proc np (\<lambda>x. x\<lparr>pname := copy_name (pname (procs s6 p)) (pname x)\<rparr>) s6
         in Some (Inr (ppid (procs s7 np), upd_proc np (\<lambda>x. x\<lparr>pstate := RUNNABLE\<rparr>) s7))) = Some (Inr (r, t))"
        using assms(1) unfolding fork_def a obind_simps prod.case if_not_P [OF False] Let_def np_def [symmetric] u if_not_P [OF c] s4_def
        by (simp only: obind_eq_Inr) (erule exE, simp add: set_pmem_def)
      obtain f where s5: "initproc s5 = initproc s4" "procs s5 = (procs s4)(np := (procs s4 np)\<lparr>pofile := f\<rparr>)" using dup_files_tab [OF d] by blast
      have "tab (idup w s5) = tab s5" for w by simp
      then have i: "procs (idup w s5) = procs s5" "initproc (idup w s5) = initproc s5" for w by (simp_all add: tab_def)
      have "initproc t = initproc s" "pstate (procs t np) = RUNNABLE" "\<forall>q. q \<noteq> np \<longrightarrow> procs t q = procs s q"
        using t n by (auto simp: Let_def i s5 s4)
      then show ?thesis using n by auto
    qed
  qed
qed

section \<open>Interleaving\<close>

text \<open>
  The second component holds, for a process inside \<open>exit\<close>, the copy of its parent. \<open>others\<close> is everything else the kernel does:
  it leaves states, parents and wait channels alone. Only \<open>wait\<close> sleeps on the address of a process.
\<close>

type_synonym 'a pconf = "'a proc_state_scheme \<times> (nat \<Rightarrow> nat option)"

inductive pstep :: "'a pconf \<Rightarrow> 'a pconf \<Rightarrow> bool" where
  schedules: "p < NPROC \<Longrightarrow> sched_pick p s = Some t \<Longrightarrow> pstep (s, g) (t, g)"
| yields: "p < NPROC \<Longrightarrow> pstate (procs s p) = RUNNING \<Longrightarrow> pstep (s, g) (yield p s, g)"
| sleeps: "p < NPROC \<Longrightarrow> pstate (procs s p) = RUNNING \<Longrightarrow> chan \<notin> {1..NPROC} \<Longrightarrow> pstep (s, g) (sleep_begin p chan s, g)"
| sleep_ends: "p < NPROC \<Longrightarrow> pstate (procs s p) = RUNNING \<Longrightarrow> pstep (s, g) (sleep_end p s, g)"
| wakes: "pstep (s, g) (wakeup chan s, g)"
| kills: "kill pid s = (r, t) \<Longrightarrow> pstep (s, g) (t, g)"
| forks: "p < NPROC \<Longrightarrow> pstate (procs s p) = RUNNING \<Longrightarrow> fork kend tramp ret_to p s = Some (Inr (r, t)) \<Longrightarrow> pstep (s, g) (t, g)"
| exit_begins: "p < NPROC \<Longrightarrow> pstate (procs s p) = RUNNING \<Longrightarrow> exit_begin p s = Inr t \<Longrightarrow> pstep (s, g) (t, g)"
| exit_reads: "p < NPROC \<Longrightarrow> pstate (procs s p) = RUNNING \<Longrightarrow> pstep (s, g) (s, g(p := Some (exit_parent p s)))"
| exit_ends: "p < NPROC \<Longrightarrow> pstate (procs s p) = RUNNING \<Longrightarrow> g p = Some q \<Longrightarrow> pstep (s, g) (exit_finish p q status s, g(p := None))"
| waits: "p < NPROC \<Longrightarrow> pstate (procs s p) = RUNNING \<Longrightarrow> wait_step kend p addr s = Some (Inr (r, t)) \<Longrightarrow> pstep (s, g) (t, g)"
| others: "initproc t = initproc s \<Longrightarrow> (\<And>q. pstate (procs t q) = pstate (procs s q) \<and> pparent (procs t q) = pparent (procs s q) \<and>
    pchan (procs t q) = pchan (procs s q)) \<Longrightarrow> pstep (s, g) (t, g)"

text \<open>The start is any table in which nobody sleeps, so any table at the end of \<open>userinit\<close>.\<close>

definition pinit :: "'a pconf \<Rightarrow> bool" where
  "pinit x \<longleftrightarrow> (\<forall>p<NPROC. pstate (procs (fst x) p) \<noteq> SLEEPING) \<and> snd x = (\<lambda>_. None)"

inductive preach :: "'a pconf \<Rightarrow> bool" where
  start: "pinit x \<Longrightarrow> preach x"
| step: "preach x \<Longrightarrow> pstep x y \<Longrightarrow> preach y"

definition in_wait :: "nat \<Rightarrow> 'a proc_state_scheme \<Rightarrow> bool" where
  "in_wait q s \<longleftrightarrow> pstate (procs s q) = SLEEPING \<and> pchan (procs s q) = Suc q"

definition zombie_of :: "nat \<Rightarrow> nat \<Rightarrow> 'a proc_state_scheme \<Rightarrow> bool" where
  "zombie_of q p s \<longleftrightarrow> pparent (procs s p) = Suc q \<and> pstate (procs s p) = ZOMBIE"

definition wait_inv :: "'a pconf \<Rightarrow> bool" where
  "wait_inv x \<longleftrightarrow>
     (\<forall>q<NPROC. Suc q \<noteq> initproc (fst x) \<longrightarrow> in_wait q (fst x) \<longrightarrow> (\<forall>p<NPROC. \<not> zombie_of q p (fst x))) \<and>
     (\<forall>p<NPROC. \<forall>r. snd x p = Some r \<longrightarrow> pstate (procs (fst x) p) \<notin> {UNUSED, ZOMBIE} \<and>
        (pparent (procs (fst x) p) = r \<or> pparent (procs (fst x) p) = initproc (fst x)))"

text \<open>Steps that only wake processes up, and steps that change one process, keep it.\<close>

lemma wait_inv_wakes:
  assumes "wait_inv (s, g)" "initproc t = initproc s"
    and "\<And>q. q < NPROC \<Longrightarrow> pparent (procs t q) = pparent (procs s q) \<and>
      (pstate (procs t q) = pstate (procs s q) \<and> pchan (procs t q) = pchan (procs s q) \<or> pstate (procs s q) = SLEEPING \<and> pstate (procs t q) = RUNNABLE)"
  shows "wait_inv (t, g)"
proof -
  have 1: "in_wait q t \<Longrightarrow> in_wait q s" "zombie_of r q t \<Longrightarrow> zombie_of r q s" if "q < NPROC" for q r
    using assms(3) [OF that] unfolding in_wait_def zombie_of_def by auto
  have 2: "pstate (procs s q) \<notin> {UNUSED, ZOMBIE} \<Longrightarrow> pstate (procs t q) \<notin> {UNUSED, ZOMBIE}" "pparent (procs t q) = pparent (procs s q)" if "q < NPROC" for q
    using assms(3) [OF that] by auto
  show ?thesis
    using assms(1) 1 2 unfolding wait_inv_def fst_conv snd_conv assms(2) by metis
qed

lemma wait_inv_one:
  assumes "wait_inv (s, g)" "initproc t = initproc s" "\<And>q. q \<noteq> p \<Longrightarrow> procs t q = procs s q"
    and "pstate (procs t p) = ZOMBIE \<Longrightarrow> pstate (procs s p) = ZOMBIE \<and> pparent (procs t p) = pparent (procs s p)"
    and "in_wait p t \<Longrightarrow> Suc p \<noteq> initproc s \<Longrightarrow> \<forall>q<NPROC. \<not> zombie_of p q s"
    and "g p = None \<or> pstate (procs t p) \<notin> {UNUSED, ZOMBIE} \<and> pparent (procs t p) = pparent (procs s p)"
  shows "wait_inv (t, g)"
proof -
  have z: "zombie_of r q t \<Longrightarrow> zombie_of r q s" for r q
    using assms(3,4) unfolding zombie_of_def by (cases "q = p") auto
  have w: "in_wait q t \<longleftrightarrow> in_wait q s" if "q \<noteq> p" for q using assms(3) [OF that] by (simp add: in_wait_def)
  show ?thesis
    unfolding wait_inv_def fst_conv snd_conv assms(2)
  proof (intro conjI allI impI)
    fix q r assume "q < NPROC" "Suc q \<noteq> initproc s" "in_wait q t" "r < NPROC"
    then show "\<not> zombie_of q r t" using assms(1,5) z w unfolding wait_inv_def fst_conv snd_conv by (cases "q = p") blast+
  next
    fix q r assume q: "q < NPROC" "g q = Some r"
    then have I: "pstate (procs s q) \<notin> {UNUSED, ZOMBIE}" "pparent (procs s q) = r \<or> pparent (procs s q) = initproc s"
      using assms(1) unfolding wait_inv_def fst_conv snd_conv by blast+
    show "pstate (procs t q) \<notin> {UNUSED, ZOMBIE}" using I assms(3,6) q by (cases "q = p") simp_all
    show "pparent (procs t q) = r \<or> pparent (procs t q) = initproc s" using I assms(3,6) q by (cases "q = p") simp_all
  qed
qed

lemma exit_finish_procs:
  assumes "p < NPROC"
  shows "initproc (exit_finish p r st s) = initproc s"
    "q \<noteq> p \<Longrightarrow> q < NPROC \<Longrightarrow> pparent (procs (exit_finish p r st s) q) = (if pparent (procs s q) = Suc p then initproc s else pparent (procs s q))"
    "q \<noteq> p \<Longrightarrow> pchan (procs (exit_finish p r st s) q) = pchan (procs s q)"
    "q \<noteq> p \<Longrightarrow> pstate (procs (exit_finish p r st s) q) =
       (if q = r - 1 \<and> pchan (procs s q) = r \<and> pstate (procs s q) = SLEEPING then RUNNABLE else pstate (procs s q))"
    "pstate (procs (exit_finish p r st s) p) = ZOMBIE" "pxstate (procs (exit_finish p r st s) p) = st"
    "pparent (procs (exit_finish p r st s) p) = (if pparent (procs s p) = Suc p then initproc s else pparent (procs s p))"
    "ppid (procs (exit_finish p r st s) q) = ppid (procs s q)" "pagetable (procs (exit_finish p r st s) q) = pagetable (procs s q)"
  using assms by (auto simp: exit_finish_def Let_def wakeup1_procs reparent_procs)

lemma pstep_inv:
  assumes "pstep (s, g) (t, h)" and I: "wait_inv (s, g)"
  shows "wait_inv (t, h)"
proof -
  have free: "g p = None" if "pstate (procs s p) \<in> {UNUSED, ZOMBIE}" "p < NPROC" for p
    using I that unfolding wait_inv_def fst_conv snd_conv by (cases "g p") blast+
  from assms(1) show ?thesis
  proof cases
    case (schedules p)
    then show ?thesis by (auto intro!: wait_inv_one [OF I, of _ p] simp: sched_pick_def in_wait_def split: if_splits)
  next
    case (yields p)
    then show ?thesis by (auto intro!: wait_inv_one [OF I, of _ p] simp: yield_def in_wait_def)
  next
    case (sleeps p chan)
    then show ?thesis by (auto intro!: wait_inv_one [OF I, of _ p] simp: sleep_begin_def in_wait_def)
  next
    case (sleep_ends p)
    then show ?thesis by (auto intro!: wait_inv_one [OF I, of _ p] simp: sleep_end_def in_wait_def)
  next
    case (wakes chan)
    then show ?thesis by (auto intro!: wait_inv_wakes [OF I] simp: wakeup_procs)
  next
    case (kills pid r)
    show ?thesis
    proof (cases "t = s")
      case False
      then obtain p where p: "p < NPROC" "initproc t = initproc s" "\<And>q. q \<noteq> p \<Longrightarrow> procs t q = procs s q"
        "procs t p = (procs s p)\<lparr>pkilled := True, pstate := if pstate (procs s p) = SLEEPING then RUNNABLE else pstate (procs s p)\<rparr>"
        using kill_procs [OF kills(2)] by blast
      have "wait_inv (t, g)"
      proof (rule wait_inv_wakes [OF I p(2)])
        fix q
        show "pparent (procs t q) = pparent (procs s q) \<and> (pstate (procs t q) = pstate (procs s q) \<and> pchan (procs t q) = pchan (procs s q) \<or>
           pstate (procs s q) = SLEEPING \<and> pstate (procs t q) = RUNNABLE)"
          using p(3) [of q] p(4) by (cases "q = p") auto
      qed
      then show ?thesis using kills(1) by simp
    qed (use I kills(1) in simp)
  next
    case (forks p kend tramp ret_to r)
    from fork_tab [OF forks(4)] forks(3) have F: "initproc t = initproc s"
      "procs t = procs s \<or> (\<exists>np<NPROC. pstate (procs s np) = UNUSED \<and> pstate (procs t np) \<in> {UNUSED, RUNNABLE} \<and> (\<forall>q. q \<noteq> np \<longrightarrow> procs t q = procs s q))"
      by simp_all
    have "wait_inv (t, g)"
      using F(2)
    proof
      assume "procs t = procs s"
      then show ?thesis by (intro wait_inv_wakes [OF I F(1)]) simp
    next
      assume "\<exists>np<NPROC. pstate (procs s np) = UNUSED \<and> pstate (procs t np) \<in> {UNUSED, RUNNABLE} \<and> (\<forall>q. q \<noteq> np \<longrightarrow> procs t q = procs s q)"
      then obtain np where n: "np < NPROC" "pstate (procs s np) = UNUSED" "pstate (procs t np) \<in> {UNUSED, RUNNABLE}" "\<And>q. q \<noteq> np \<Longrightarrow> procs t q = procs s q" by blast
      show ?thesis
        by (rule wait_inv_one [OF I F(1) n(4)]) (use n free [of np] in \<open>auto simp: in_wait_def\<close>)
    qed
    then show ?thesis using forks(1) by simp
  next
    case (exit_begins p)
    obtain f where E: "initproc t = initproc s" "procs t = procs (wakeup1 (initproc s) (upd_proc p (\<lambda>x. x\<lparr>pofile := f, pcwd := 0\<rparr>) s))"
      using exit_begin_tab [OF exit_begins(4)] by blast
    have "wait_inv (t, g)" by (rule wait_inv_wakes [OF I E(1)]) (auto simp: E(2) wakeup1_procs)
    then show ?thesis using exit_begins(1) by simp
  next
    case (exit_reads p)
    then show ?thesis using I by (auto simp: wait_inv_def exit_parent_def)
  next
    case (exit_ends p r st)
    note E = exit_finish_procs [OF exit_ends(3)]
    have r: "pparent (procs s p) = r \<or> pparent (procs s p) = initproc s" using I exit_ends(3,5) unfolding wait_inv_def fst_conv snd_conv by blast
    have t: "t = exit_finish p r st s" using exit_ends(1) by simp
    have w: "in_wait q t \<Longrightarrow> in_wait q s \<and> r \<noteq> Suc q \<and> q \<noteq> p" for q
      unfolding in_wait_def t by (cases "q = p") (auto simp: E split: if_splits)
    have z: "zombie_of q x t \<Longrightarrow> Suc q \<noteq> initproc s \<Longrightarrow> x \<noteq> p \<and> zombie_of q x s \<or> x = p \<and> r = Suc q" if "x < NPROC" for q x
      using that r unfolding zombie_of_def t by (cases "x = p") (auto simp: E split: if_splits)
    show ?thesis
      unfolding wait_inv_def fst_conv snd_conv
    proof (intro conjI allI impI)
      fix q x assume "q < NPROC" "Suc q \<noteq> initproc t" "in_wait q t" "x < NPROC"
      then show "\<not> zombie_of q x t" using w z I unfolding wait_inv_def fst_conv snd_conv by (metis E(1) t)
    next
      fix x y assume x: "x < NPROC" "h x = Some y"
      then have "x \<noteq> p" "g x = Some y" using exit_ends(2) by (auto split: if_splits)
      then have "pstate (procs s x) \<notin> {UNUSED, ZOMBIE}" "pparent (procs s x) = y \<or> pparent (procs s x) = initproc s"
        using I x(1) unfolding wait_inv_def fst_conv snd_conv by blast+
      then show "pstate (procs t x) \<notin> {UNUSED, ZOMBIE}" "pparent (procs t x) = y \<or> pparent (procs t x) = initproc t"
        using \<open>x \<noteq> p\<close> x(1) by (auto simp: t E)
    qed
  next
    case (waits p kend addr r)
    from wait_scan_tab [OF waits(4) [unfolded wait_step_def]] have i: "initproc t = initproc s" by blast
    from wait_scan_tab [OF waits(4) [unfolded wait_step_def]]
    consider "procs t = procs s" | "\<forall>np<NPROC. pparent (procs s np) = Suc p \<longrightarrow> pstate (procs s np) \<noteq> ZOMBIE"
        "procs t = (procs s)(p := (procs s p)\<lparr>pchan := Suc p, pstate := SLEEPING\<rparr>)"
      | np where "np < NPROC" "pstate (procs s np) = ZOMBIE" "procs t = (procs s)(np := cleared (procs s np))" by fastforce
    then have "wait_inv (t, g)"
    proof cases
      case 1
      then show ?thesis by (intro wait_inv_wakes [OF I i]) simp
    next
      case 2
      show ?thesis by (rule wait_inv_one [OF I i, of p]) (use 2 in \<open>auto simp: zombie_of_def\<close>)
    next
      case (3 np)
      show ?thesis by (rule wait_inv_one [OF I i, of np]) (use 3 free [of np] in \<open>auto simp: in_wait_def cleared_def\<close>)
    qed
    then show ?thesis using waits(1) by simp
  next
    case others
    have "wait_inv (t, g)" by (rule wait_inv_wakes [OF I others(2)]) (use others(3) in simp)
    then show ?thesis using others(1) by simp
  qed
qed

lemma preach_inv: "preach x \<Longrightarrow> wait_inv x"
proof (induction rule: preach.induct)
  case (start x)
  then show ?case by (auto simp: pinit_def wait_inv_def in_wait_def)
next
  case (step x y)
  obtain s g where x: "x = (s, g)" by (cases x)
  obtain t h where y: "y = (t, h)" by (cases y)
  show ?case using pstep_inv step.hyps(2) step.IH unfolding x y by blast
qed

end
