(* ===== verification/ProcLife.thy ===== *)
theory ProcLife
  imports ProcTable VmFork
begin

text \<open>Theorems about processes: creation, kill, exit and wait.\<close>

unbundle bit_operations_syntax

section \<open>A new page table\<close>

lemma fresh_table:
  assumes "page_ok r" "distinct (r # F)" "\<forall>x \<in> set F. page_ok x"
  shows "table_ok (fill r 0 m) r F" and "mapping (fill r 0 m) r = Map.empty" and "tables (fill r 0 m) r = {r}"
proof -
  have t: "tbl (fill r 0 m) r p = (if p = [] then Some r else None)" if "path p" for p
    using that
  proof (induction p)
    case (Cons i p)
    then have "get64 (fill r 0 m) (r + 8 * i) = 0" using get64_fill [OF assms(1,1), of i m] by simp
    then show ?case using Cons by (auto simp: next_table_def)
  qed simp
  show "table_ok (fill r 0 m) r F" using assms t unfolding table_ok_def by auto
  show "mapping (fill r 0 m) r = Map.empty" using t [OF path_simps(3)] by (intro ext) (simp add: mapping_def del: tbl.simps, simp add: vpath_def)
  show "tables (fill r 0 m) r = {r}" by (auto simp: tables_def t split: if_splits intro!: exI [of _ "[]"])
qed

lemma top_pages:
  "round_down (TRAMPOLINE + 4096 - 1) = TRAMPOLINE" "round_down TRAMPOLINE = TRAMPOLINE" "vpn TRAMPOLINE = VPN - 1"
  "round_down (TRAPFRAME + 4096 - 1) = TRAPFRAME" "round_down TRAPFRAME = TRAPFRAME" "vpn TRAPFRAME = VPN - 2"
  "unat TRAMPOLINE mod PAGE = 0" "unat TRAPFRAME mod PAGE = 0" "Suc 0 < VPN"
  by (simp_all add: TRAPFRAME_def TRAMPOLINE_def MAXVA_def round_down_def vpn_def VPN_def PAGE_def)

lemma map_top:
  "mappages pt TRAMPOLINE 4096 pa perm s = mappages_loop 0 pt TRAMPOLINE pa perm s"
  "mappages pt TRAPFRAME 4096 pa perm s = mappages_loop 0 pt TRAPFRAME pa perm s"
  unfolding mappages_def top_pages Let_def by simp_all

text \<open>With six free pages it is made, and maps the two pages of the trap code and nothing else.\<close>

definition trap_map :: "nat \<Rightarrow> nat \<Rightarrow> nat \<Rightarrow> u64 option" where
  "trap_map tramp tf = [VPN - 1 \<mapsto> entry tramp (PTE_R OR PTE_X), VPN - 2 \<mapsto> entry tf (PTE_R OR PTE_W)]"

lemma proc_pagetable_ok:
  assumes "distinct (pages s)" "\<forall>x \<in> set (pages s). page_ok x" "6 \<le> length (pages s)"
  shows "\<exists>t. proc_pagetable kend tramp tf s = Some (Inr (hd (pages s), t)) \<and> table_ok (pmem t) (hd (pages s)) (pages t) \<and>
    mapping (pmem t) (hd (pages s)) = trap_map tramp tf \<and> same_else (set (pages s)) s t \<and>
    (\<exists>ps. pages s = ps @ pages t) \<and> tables (pmem t) (hd (pages s)) \<subseteq> set (pages s) \<and> length (pages s) \<le> length (pages t) + 5"
proof -
  obtain r F where pg: "pages s = r # F" using assms(3) by (cases "pages s") auto
  have r: "page_ok r" "r \<noteq> 0" using assms(2) pg by (auto simp: page_ok_def)
  define s1 where "s1 = s\<lparr>pages := F, pmem := fill r 0 (pmem s)\<rparr>"
  have c: "uvmcreate s = (r, s1)" using pg r by (simp add: uvmcreate_def kalloc_mp4_def page_alloc_def set_pmem_def s1_def)
  note N = fresh_table [OF r(1), of F "pmem s"]
  have n: "table_ok (pmem s1) r (pages s1)" "mapping (pmem s1) r = Map.empty" "tables (pmem s1) r = {r}"
    using N assms pg by (simp_all add: s1_def)
  have "\<exists>rt t k. mappages_loop 0 r TRAMPOLINE tramp (PTE_R OR PTE_X) s1 = Inr (rt, t) \<and> grown r s1 t \<and>
      mapping (pmem t) r = map_range (mapping (pmem s1) r) (vpn TRAMPOLINE) k tramp (PTE_R OR PTE_X) \<and>
      (rt = 0 \<and> k = Suc 0 \<or> rt = -1 \<and> k \<le> 0 \<and> pages t = []) \<and> length (pages s1) \<le> length (pages t) + 2 * Suc 0"
    by (rule mappages_loop_spec [OF n(1)]) (use top_pages in \<open>simp_all add: n(2)\<close>)
  then obtain rt s2 k where m2: "mappages_loop 0 r TRAMPOLINE tramp (PTE_R OR PTE_X) s1 = Inr (rt, s2)" "grown r s1 s2"
      "mapping (pmem s2) r = map_range (mapping (pmem s1) r) (vpn TRAMPOLINE) k tramp (PTE_R OR PTE_X)"
      "rt = 0 \<and> k = Suc 0 \<or> rt = -1 \<and> k \<le> 0 \<and> pages s2 = []" "length (pages s1) \<le> length (pages s2) + 2" by auto
  have l: "length (pages s1) + 1 = length (pages s)" by (simp add: s1_def pg)
  then have "rt = 0" "k = Suc 0" using m2(4,5) assms(3) by auto
  then have M2: "mapping (pmem s2) r = [VPN - 1 \<mapsto> entry tramp (PTE_R OR PTE_X)]"
    using m2(3) by (simp add: n(2) map_range_Suc map_range_0 top_pages)
  have "\<exists>rt t k. mappages_loop 0 r TRAPFRAME tf (PTE_R OR PTE_W) s2 = Inr (rt, t) \<and> grown r s2 t \<and>
      mapping (pmem t) r = map_range (mapping (pmem s2) r) (vpn TRAPFRAME) k tf (PTE_R OR PTE_W) \<and>
      (rt = 0 \<and> k = Suc 0 \<or> rt = -1 \<and> k \<le> 0 \<and> pages t = []) \<and> length (pages s2) \<le> length (pages t) + 2 * Suc 0"
    by (rule mappages_loop_spec [OF grown_ok [OF m2(2)]]) (use top_pages in \<open>auto simp: M2\<close>)
  then obtain rt3 s3 k3 where m3: "mappages_loop 0 r TRAPFRAME tf (PTE_R OR PTE_W) s2 = Inr (rt3, s3)" "grown r s2 s3"
      "mapping (pmem s3) r = map_range (mapping (pmem s2) r) (vpn TRAPFRAME) k3 tf (PTE_R OR PTE_W)"
      "rt3 = 0 \<and> k3 = Suc 0 \<or> rt3 = -1 \<and> k3 \<le> 0 \<and> pages s3 = []" "length (pages s2) \<le> length (pages s3) + 2" by auto
  have "rt3 = 0" "k3 = Suc 0" using m2(5) m3(4,5) assms(3) l by auto
  then have M3: "mapping (pmem s3) r = trap_map tramp tf"
    using m3(3) by (simp add: M2 map_range_Suc map_range_0 top_pages trap_map_def)
  have "proc_pagetable kend tramp tf s = Some (Inr (r, s3))"
    using m2(1) m3(1) r \<open>rt = 0\<close> \<open>rt3 = 0\<close> by (simp add: proc_pagetable_def c map_top del: mappages_loop.simps)
  moreover have g: "grown r s1 s3" by (rule grown_trans [OF m2(2) m3(2)])
  moreover have "same_else (set (pages s)) s s3"
  proof (rule same_else_trans [of _ s s1])
    show "same_else (set (pages s)) s s1"
      by (auto simp: same_else_def s1_def pg fill_eq in_pages_def not_le not_less)
    show "same_else ({r} \<union> set F) s1 s3" using g n(3) by (simp add: grown_def s1_def)
  qed (simp add: pg)
  moreover have "\<exists>ps. F = ps @ pages s3" "tables (pmem s3) r \<subseteq> {r} \<union> set F" using g n(3) by (auto simp: grown_def s1_def)
  moreover have "\<exists>ps. pages s = ps @ pages s3" using calculation(4) by (auto simp: pg)
  ultimately show ?thesis using M3 m2(5) m3(5) l by (simp add: pg grown_def)
qed

section \<open>Creating a process\<close>

lemma allocproc_ok:
  assumes "p < NPROC" "pstate (procs s p) = UNUSED" "\<forall>j<p. pstate (procs s j) \<noteq> UNUSED"
    and "distinct (pages s)" "\<forall>x \<in> set (pages s). page_ok x" "7 \<le> length (pages s)"
  shows "\<exists>t. allocproc kend tramp ret_to s = Some (Inr (Suc p, t)) \<and>
    (let x = procs t p; pt = pagetable x in
     ppid x = nextpid s \<and> nextpid t = nextpid s + 1 \<and> trapframe x = hd (pages s) \<and> trapframe x \<noteq> 0 \<and>
     pcontext x = (\<lambda>_. 0)(0 := ret_to, 1 := kstack x + 4096) \<and> table_ok (pmem t) pt (pages t) \<and>
     mapping (pmem t) pt = trap_map tramp (trapframe x))"
proof -
  obtain a F where pg: "pages s = a # F" using assms(6) by (cases "pages s") auto
  then obtain r G where F: "F = r # G" using assms(6) by (cases F) auto
  have a: "a \<noteq> 0" "r \<noteq> 0" using assms(5) pg F by (auto simp: page_ok_def)
  have f: "List.find (\<lambda>p. pstate (procs s p) = UNUSED) [0..<NPROC] = Some p" using assms(1,2,3) by (simp add: find_upt_Some)
  define s3 where "s3 = (upd_proc p (\<lambda>x. x\<lparr>ppid := nextpid s\<rparr>) (s\<lparr>nextpid := nextpid s + 1\<rparr>))\<lparr>pages := F, pmem := fill a 5 (pmem s)\<rparr>"
  define s4 where "s4 = upd_proc p (\<lambda>x. x\<lparr>trapframe := a\<rparr>) s3"
  have k: "kalloc_mp4 (upd_proc p (\<lambda>x. x\<lparr>ppid := nextpid s\<rparr>) (s\<lparr>nextpid := nextpid s + 1\<rparr>)) = (a, s3)"
    using pg a by (simp add: kalloc_mp4_def page_alloc_def set_pmem_def s3_def upd_proc_def)
  have p4: "pages s4 = F" by (simp add: s4_def s3_def upd_proc_def)
  have "distinct (pages s4)" "\<forall>x \<in> set (pages s4). page_ok x" "6 \<le> length (pages s4)" using assms(4-6) by (simp_all add: p4 pg)
  from proc_pagetable_ok [OF this, of kend tramp a] obtain t where t: "proc_pagetable kend tramp a s4 = Some (Inr (r, t))"
      "table_ok (pmem t) r (pages t)" "mapping (pmem t) r = trap_map tramp a" unfolding p4 F by auto
  have T: "procs t = procs s4" "nextpid t = nextpid s4" using proc_pagetable_tab [OF t(1)] by (simp_all add: tab_def)
  define u where "u = upd_proc p (\<lambda>x. x\<lparr>pcontext := (\<lambda>_. 0)(0 := ret_to, 1 := kstack x + 4096)\<rparr>) (upd_proc p (\<lambda>x. x\<lparr>pagetable := r\<rparr>) t)"
  have "allocproc kend tramp ret_to s = Some (Inr (Suc p, u))"
    by (simp add: allocproc_def f allocpid_def k s4_def [symmetric] t(1) a u_def)
  moreover have "pmem u = pmem t" "pages u = pages t" "nextpid u = nextpid t" by (simp_all add: u_def upd_proc_def)
  moreover have "procs u p = (procs s p)\<lparr>ppid := nextpid s, trapframe := a, pagetable := r, pcontext := (\<lambda>_. 0)(0 := ret_to, 1 := kstack (procs s p) + 4096)\<rparr>"
    by (simp add: u_def T s4_def s3_def upd_proc_def)
  moreover have "nextpid t = nextpid s + 1" by (simp add: T s4_def s3_def upd_proc_def)
  ultimately show ?thesis using t a by (simp add: pg)
qed

text \<open>A process table for the witnesses: processes 0 to 2, the later ones children of the one before; process 0 is init.\<close>

definition demo_proc :: "procstate \<Rightarrow> nat \<Rightarrow> int \<Rightarrow> proc" where
  "demo_proc st par pid = \<lparr>pstate = st, pparent = par, pchan = 0, pkilled = False, pxstate = 0, ppid = pid, kstack = 0, psz = 0,
     pagetable = 0, trapframe = 0, pcontext = (\<lambda>_. 0), pofile = (\<lambda>_. 0), pcwd = 0, pname = (\<lambda>_. 0)\<rparr>"

definition demo_procs :: "nat list \<Rightarrow> proc_state" where
  "demo_procs ps = vm_state.extend (demo_vm\<lparr>pages := ps\<rparr>) (proc_state.fields
     (\<lambda>p. if p = 0 then demo_proc RUNNABLE 0 1 else if p = 1 then demo_proc RUNNABLE 1 2 else if p = 2 then demo_proc RUNNABLE 2 3
          else demo_proc UNUSED 0 0) 1 4)"

lemma demo_procs:
  "procs (demo_procs ps) p = (if p = 0 then demo_proc RUNNABLE 0 1 else if p = 1 then demo_proc RUNNABLE 1 2
     else if p = 2 then demo_proc RUNNABLE 2 3 else demo_proc UNUSED 0 0)"
  "initproc (demo_procs ps) = 1" "nextpid (demo_procs ps) = 4" "pages (demo_procs ps) = ps"
  by (simp_all add: demo_procs_def vm_state.defs proc_state.defs)

section \<open>Killing\<close>

text \<open>\<open>kill\<close> also matches the process identifier left in a free slot, which is 0 in a slot that was never used or was freed.
  It then reports success, and the next process that gets the slot is created with the kill pending, since \<open>allocproc\<close> does not
  clear the flag.\<close>

theorem kill_reaches_next_process:
  assumes "p < NPROC" "pstate (procs s p) = UNUSED" "\<forall>j<p. pstate (procs s j) \<noteq> UNUSED"
    and "ppid (procs s p) = pid" "\<forall>j<p. ppid (procs s j) \<noteq> pid"
    and "distinct (pages s)" "\<forall>x \<in> set (pages s). page_ok x" "7 \<le> length (pages s)"
  shows "\<exists>t u. kill pid s = (0, t) \<and> pstate (procs t p) = UNUSED \<and> allocproc kend tramp ret_to t = Some (Inr (Suc p, u)) \<and>
    ppid (procs u p) = nextpid s \<and> pkilled (procs u p)"
proof -
  have "List.find (\<lambda>p. ppid (procs s p) = pid) [0..<NPROC] = Some p" using assms(1,4,5) by (simp add: find_upt_Some)
  then have k: "kill pid s = (0, upd_proc p (\<lambda>x. x\<lparr>pkilled := True, pstate := if pstate x = SLEEPING then RUNNABLE else pstate x\<rparr>) s)"
    (is "_ = (0, ?t)") by (simp add: kill_def)
  have free: "pstate (procs ?t q) = UNUSED \<longleftrightarrow> pstate (procs s q) = UNUSED" for q using assms(2) by simp
  have "pages ?t = pages s" "nextpid ?t = nextpid s" by (simp_all add: upd_proc_def)
  then obtain u where u: "allocproc kend tramp ret_to ?t = Some (Inr (Suc p, u))" "ppid (procs u p) = nextpid s"
    using allocproc_ok [of p ?t kend tramp ret_to] assms free by (auto simp: Let_def)
  have "pkilled (procs u p)" using allocproc_tab [OF u(1)] by auto
  then show ?thesis using k u assms(2) by auto
qed

lemma kill_reaches_next_process_witness:
  "\<exists>t u. kill 0 (demo_procs (map (\<lambda>i. 0x80002000 + 4096 * i) [0..<7])) = (0, t) \<and> pstate (procs t 3) = UNUSED \<and>
    allocproc 0x80000000 0x80001000 0 t = Some (Inr (Suc 3, u)) \<and>
    ppid (procs u 3) = nextpid (demo_procs (map (\<lambda>i. 0x80002000 + 4096 * i) [0..<7])) \<and> pkilled (procs u 3)"
  by (rule kill_reaches_next_process)
    (auto simp: demo_procs demo_proc_def NPROC_def less_Suc_eq numeral_3_eq_3 upt_rec page_ok_def PAGE_def)

section \<open>Exit and wait\<close>

text \<open>C13: Whatever the order in which processes run, fork, exit, sleep, wake each other up and kill each other: a process blocked
  in \<open>wait\<close> has no child that has already exited, so no wake-up is lost. The exception is init, as the comment in \<open>exit\<close> says.\<close>

theorem no_lost_wakeup:
  assumes "preach (s, g)" "p < NPROC" "q < NPROC" "in_wait q s" "Suc q \<noteq> initproc s"
  shows "\<not> zombie_of q p s"
  using preach_inv [OF assms(1)] assms(2-5) unfolding wait_inv_def fst_conv by blast

lemma wait_scan_sleeps:
  assumes "\<forall>np \<in> set nps. \<not> zombie_of p np s" "b \<or> (\<exists>np \<in> set nps. pparent (procs s np) = Suc p)" "\<not> pkilled (procs s p)"
  shows "wait_scan kend p addr b nps s = Some (Inr (Waits, upd_proc p (\<lambda>x. x\<lparr>pchan := Suc p, pstate := SLEEPING\<rparr>) s))"
  using assms by (induction nps arbitrary: b) (auto simp: zombie_of_def)

text \<open>Process 1 of the table runs and waits; then process 2 runs and enters \<open>exit\<close>.\<close>

definition demo_waiting :: proc_state where
  "demo_waiting = upd_proc 1 (\<lambda>x. x\<lparr>pchan := Suc 1, pstate := SLEEPING\<rparr>) (upd_proc 1 (\<lambda>x. x\<lparr>pstate := RUNNING\<rparr>) (demo_procs []))"

definition demo_exiting :: proc_state where
  "demo_exiting = upd_proc 2 (\<lambda>x. x\<lparr>pstate := RUNNING\<rparr>) demo_waiting"

lemma demo_waiting:
  "procs demo_waiting p = (if p = 1 then (demo_proc SLEEPING 1 2)\<lparr>pchan := 2\<rparr> else procs (demo_procs []) p)"
  "initproc demo_waiting = 1"
  by (auto simp: demo_waiting_def demo_procs demo_proc_def)

lemma demo_exiting:
  "procs demo_exiting p = (if p = 2 then demo_proc RUNNING 2 3 else procs demo_waiting p)" "initproc demo_exiting = 1"
  by (auto simp: demo_exiting_def demo_waiting demo_procs demo_proc_def)

lemma demo_reach: "preach (demo_waiting, \<lambda>_. None)" "preach (demo_exiting, (\<lambda>_. None)(2 := Some 2))"
proof -
  let ?s = "demo_procs []" let ?r = "upd_proc 1 (\<lambda>x. x\<lparr>pstate := RUNNING\<rparr>) ?s"
  have "preach (?s, \<lambda>_. None)" by (rule preach.start) (simp add: pinit_def demo_procs demo_proc_def)
  moreover have "pstep (?s, \<lambda>_. None) (?r, \<lambda>_. None)"
    by (rule pstep.schedules [of 1]) (simp_all add: NPROC_def sched_pick_def demo_procs demo_proc_def)
  moreover have "wait_step 0 1 0 ?r = Some (Inr (Waits, demo_waiting))"
    unfolding wait_step_def demo_waiting_def
    by (rule wait_scan_sleeps) (auto simp: zombie_of_def demo_procs demo_proc_def NPROC_def intro!: bexI [of _ 2])
  then have "pstep (?r, \<lambda>_. None) (demo_waiting, \<lambda>_. None)"
    by (intro pstep.waits [of 1]) (simp_all add: NPROC_def)
  ultimately show w: "preach (demo_waiting, \<lambda>_. None)" by (meson preach.step)
  have "pstep (demo_waiting, \<lambda>_. None) (demo_exiting, \<lambda>_. None)"
    unfolding demo_exiting_def by (rule pstep.schedules [of 2]) (simp_all add: NPROC_def sched_pick_def demo_waiting demo_procs demo_proc_def)
  moreover have "pstep (demo_exiting, \<lambda>_. None) (demo_exiting, (\<lambda>_. None)(2 := Some (exit_parent 2 demo_exiting)))"
    by (rule pstep.exit_reads) (simp_all add: NPROC_def demo_exiting demo_proc_def)
  moreover have "exit_parent 2 demo_exiting = 2" by (simp add: exit_parent_def demo_exiting demo_proc_def)
  ultimately show "preach (demo_exiting, (\<lambda>_. None)(2 := Some 2))" using w by (metis preach.step)
qed

lemma no_lost_wakeup_witness:
  "in_wait 1 demo_exiting \<and> pparent (procs demo_exiting 2) = Suc 1 \<and> \<not> zombie_of 1 2 demo_exiting"
  using no_lost_wakeup [OF demo_reach(2), of 2 1]
  by (simp add: in_wait_def NPROC_def demo_exiting demo_waiting demo_proc_def)

text \<open>C14: When a child of a process blocked in \<open>wait\<close> finishes its \<open>exit\<close>, the process becomes runnable, and when the scheduler
  has picked it, \<open>wait\<close> does not sleep again: it finds that child, copies its exit status out when an address was given, frees it
  and returns its process identifier.\<close>

theorem exit_wakes_waiting_parent:
  assumes "preach (s, g)" and p: "p < NPROC" "pstate (procs s p) = RUNNING" "g p = Some r" "pparent (procs s p) = Suc q"
    and q: "q < NPROC" "in_wait q s" "Suc q \<noteq> initproc s"
  shows "\<exists>u. sched_pick q (exit_finish p r status s) = Some u \<and>
    wait_step kend q addr u =
      (let (c, u1) = (if addr \<noteq> 0 then copyout (pagetable (procs s q)) addr (int_bytes status) u else (0, u))
       in if c < 0 then Some (Inr (Fails, u1)) else obind (freeproc kend p u1) (\<lambda>v. Some (Inr (Reaps (ppid (procs s p)), v))))"
proof -
  have I: "wait_inv (s, g)" by (rule preach_inv [OF assms(1)])
  have "r = Suc q" using I p q(3) unfolding wait_inv_def fst_conv snd_conv by metis
  have pq: "q \<noteq> p" using p(2) q(2) by (auto simp: in_wait_def)
  let ?t = "exit_finish p r status s"
  note E = exit_finish_procs [OF p(1), where r = r and st = status and s = s]
  have "pstate (procs ?t q) = RUNNABLE" unfolding E(4) [OF pq] using q(2) by (simp add: in_wait_def \<open>r = Suc q\<close>)
  then have "sched_pick q ?t = Some (upd_proc q (\<lambda>x. x\<lparr>pstate := RUNNING\<rparr>) ?t)" (is "_ = Some ?u") by (simp add: sched_pick_def)
  moreover have "wait_step kend q addr ?u =
    (let (c, u1) = (if addr \<noteq> 0 then copyout (pagetable (procs ?u q)) addr (int_bytes (pxstate (procs ?u p))) ?u else (0, ?u))
     in if c < 0 then Some (Inr (Fails, u1)) else obind (freeproc kend p u1) (\<lambda>v. Some (Inr (Reaps (ppid (procs ?u p)), v))))"
    unfolding wait_step_def
  proof (rule wait_scan_zombie)
    show "p \<in> set [0..<NPROC]" "distinct [0..<NPROC]" using p(1) by simp_all
    show "pparent (procs ?u p) = Suc q" "pstate (procs ?u p) = ZOMBIE" using pq p(4) by (simp_all add: E)
    fix x assume x: "x \<in> set [0..<NPROC]" "pparent (procs ?u x) = Suc q" "pstate (procs ?u x) = ZOMBIE"
    show "x = p"
    proof (rule ccontr)
      assume "x \<noteq> p"
      then have "zombie_of q x s" using x q(3) by (auto simp: zombie_of_def E split: if_splits)
      then show False using I x(1) q unfolding wait_inv_def fst_conv by simp
    qed
  qed
  moreover have "pagetable (procs ?u q) = pagetable (procs s q)" "pxstate (procs ?u p) = status" "ppid (procs ?u p) = ppid (procs s p)"
    using pq by (simp_all add: E)
  ultimately show ?thesis by (intro exI [of _ ?u] conjI) (simp_all only:)
qed

lemma exit_wakes_waiting_parent_witness:
  "\<exists>u. sched_pick 1 (exit_finish 2 2 7 demo_exiting) = Some u \<and>
    wait_step 0x80000000 1 0 u =
      (let (c, u1) = (if (0 :: u64) \<noteq> 0 then copyout (pagetable (procs demo_exiting 1)) 0 (int_bytes 7) u else (0, u))
       in if c < 0 then Some (Inr (Fails, u1))
          else obind (freeproc 0x80000000 2 u1) (\<lambda>v. Some (Inr (Reaps (ppid (procs demo_exiting 2)), v))))"
  by (rule exit_wakes_waiting_parent [OF demo_reach(2)]) (simp_all add: NPROC_def in_wait_def demo_exiting demo_waiting demo_proc_def)

end
