(* ===== verification/SleepLocks.thy ===== *)
theory SleepLocks
  imports ProcLife
begin

text \<open>
  Sleeping: the locking of \<open>sleep\<close> (mp4/kernel/proc.c) over the spin locks, and sleep locks (mp4/kernel/sleeplock.c). What a
  function of a sleep lock does while it holds the spin lock inside is one step; \<open>chan\<close> is the address of the lock.
\<close>

section \<open>From sleep to sched\<close>

text \<open>\<open>sleep\<close> called with a lock held takes the lock of the process before it gives up its own, and passes every check of
  \<open>sched\<close> exactly when that was the only lock the CPU held; it panics when another lock is held.\<close>

theorem sleep_passes_sched:
  assumes "lreach (s, pc)" "pc c = Running" "holding c lk s" "l = lk \<or> \<not> locked (spin s l)"
  shows "\<exists>t. sleep_locks c l lk s = Some (Inr t) \<and> holding c l t \<and> (l \<noteq> lk \<longrightarrow> \<not> locked (spin t lk)) \<and>
    sched_check c l SLEEPING t = (if owned_by (s, pc) c = {lk} then Inr () else Inl (Panic ''sched locks''))"
proof -
  have own: "owned_by (s, pc) c = {k. holding c k s}" using assms(2) by (simp add: owned_by_def owns_def)
  have C: "finite (owned_by (s, pc) c)" "noff (cpus s c) = int (card (owned_by (s, pc) c))" "sie (cpus s c) \<Longrightarrow> noff (cpus s c) = 0"
    using lreach_inv [OF assms(1)] assms(2) by (auto simp: cpu_inv_def depth_def)
  have in1: "lk \<in> owned_by (s, pc) c" using assms(3) own by simp
  then have pos: "0 < card (owned_by (s, pc) c)" using C(1) by (auto simp: card_gt_0_iff)
  have one: "card (owned_by (s, pc) c) = 1 \<longleftrightarrow> owned_by (s, pc) c = {lk}"
  proof
    assume "card (owned_by (s, pc) c) = 1"
    then obtain y where "owned_by (s, pc) c = {y}" by (auto simp: card_1_singleton_iff)
    then show "owned_by (s, pc) c = {lk}" using in1 by simp
  qed simp
  have off: "\<not> sie (cpus s c)" using C pos by auto
  have chk: "sched_check c l SLEEPING t = (if owned_by (s, pc) c = {lk} then Inr () else Inl (Panic ''sched locks''))"
    if "holding c l t" "noff (cpus t c) = noff (cpus s c)" "\<not> sie (cpus t c)" for t
    using that C(2) one by (simp add: sched_check_def)
  show ?thesis
  proof (cases "lk = l")
    case True
    then have "sleep_locks c l lk s = Some (Inr s)" by (simp add: sleep_locks_def)
    then show ?thesis using True assms(3) chk [of s] off by auto
  next
    case False
    then have free: "\<not> locked (spin s l)" using assms(4) by auto
    define s1 where "s1 = record_cpu c l (upd_spin l (\<lambda>x. x\<lparr>locked := True\<rparr>) (push_off c s))"
    have a: "acquire c l s = Some (Inr s1)"
      using free by (simp add: acquire_def acquire_begin_def holding_def test_and_set_def Let_def s1_def)
    have h: "holding c l s1" "holding c lk s1" using assms(3) False by (simp_all add: s1_def record_cpu_def holding_def)
    have n: "noff (cpus s1 c) = noff (cpus s c) + 1" "\<not> sie (cpus s1 c)" by (simp_all add: s1_def record_cpu_def)
    define s2 where "s2 = lock_release lk (upd_spin lk (\<lambda>x. x\<lparr>lcpu := None\<rparr>) s1)"
    have n2: "noff (cpus s2 c) = noff (cpus s c) + 1" "\<not> sie (cpus s2 c)" using n by (simp_all add: s2_def lock_release_def)
    then have p: "pop_off c s2 = Inr (upd_cpu c (\<lambda>x. x\<lparr>noff := noff x - 1\<rparr>) s2)"
      using C(2) pos by (simp add: pop_off_def Let_def)
    let ?t = "upd_cpu c (\<lambda>x. x\<lparr>noff := noff x - 1\<rparr>) s2"
    have "release c lk s1 = Inr ?t" using h(2) p by (simp add: release_def release_begin_def s2_def)
    then have "sleep_locks c l lk s = Some (Inr ?t)" using a False by (simp add: sleep_locks_def)
    moreover have "holding c l ?t" "\<not> locked (spin ?t lk)" using h(1) False by (simp_all add: s2_def lock_release_def holding_def)
    moreover have "noff (cpus ?t c) = noff (cpus s c)" "\<not> sie (cpus ?t c)" using n2 by simp_all
    ultimately show ?thesis using chk [of ?t] by blast
  qed
qed

text \<open>CPU 0 has acquired lock 1.\<close>

definition demo_locked :: lconf where
  "demo_locked = (record_cpu 0 1 (upd_spin 1 (\<lambda>x. x\<lparr>locked := True\<rparr>) (push_off 0 (fst linit))), \<lambda>_. Running)"

lemma demo_locked: "lreach demo_locked"
proof -
  let ?s = "push_off 0 (fst linit)"
  have pc: "(\<lambda>_. Running)(0 := Running) = (\<lambda>_. Running)" by auto
  have 1: "lstep linit (?s, (\<lambda>_. Running)(0 := Spinning 1))"
    unfolding linit_def by (simp only: fst_conv, rule lstep.acquires) (simp_all add: acquire_begin_def holding_def Let_def)
  have 2: "lstep (?s, (\<lambda>_. Running)(0 := Spinning 1)) (upd_spin 1 (\<lambda>x. x\<lparr>locked := True\<rparr>) ?s, ((\<lambda>_. Running)(0 := Spinning 1))(0 := Acquired 1))"
    by (rule lstep.wins) (simp_all add: test_and_set_def linit_def)
  have 3: "lstep (upd_spin 1 (\<lambda>x. x\<lparr>locked := True\<rparr>) ?s, ((\<lambda>_. Running)(0 := Spinning 1))(0 := Acquired 1))
      (record_cpu 0 1 (upd_spin 1 (\<lambda>x. x\<lparr>locked := True\<rparr>) ?s), (((\<lambda>_. Running)(0 := Spinning 1))(0 := Acquired 1))(0 := Running))"
    by (rule lstep.records) simp
  have "lreach (record_cpu 0 1 (upd_spin 1 (\<lambda>x. x\<lparr>locked := True\<rparr>) ?s), (((\<lambda>_. Running)(0 := Spinning 1))(0 := Acquired 1))(0 := Running))"
    using lreach.start 1 2 3 by (meson lreach.step)
  then show ?thesis by (simp add: demo_locked_def pc)
qed

lemma sleep_passes_sched_witness:
  "\<exists>t. sleep_locks 0 5 1 (fst demo_locked) = Some (Inr t) \<and> holding 0 5 t \<and> ((5 :: nat) \<noteq> 1 \<longrightarrow> \<not> locked (spin t 1)) \<and>
    sched_check 0 5 SLEEPING t = (if owned_by (fst demo_locked, \<lambda>_. Running) 0 = {1} then Inr () else Inl (Panic ''sched locks''))"
proof (rule sleep_passes_sched)
  show "lreach (fst demo_locked, \<lambda>_. Running)" using demo_locked by (simp add: demo_locked_def)
qed (simp_all add: demo_locked_def holding_def record_cpu_def linit_def)

section \<open>Sleep locks\<close>

record sleeplock =
  slocked :: bool
  slpid :: int

definition initsleeplock :: sleeplock where
  "initsleeplock = \<lparr>slocked = False, slpid = 0\<rparr>"

text \<open>\<open>acquiresleep\<close> from the start, or after \<open>sleep\<close> returned, to its return (\<open>True\<close>) or its next \<open>sleep\<close>.\<close>

definition acquiresleep :: "nat \<Rightarrow> nat \<Rightarrow> sleeplock \<Rightarrow> 'a proc_state_scheme \<Rightarrow> bool \<times> sleeplock \<times> 'a proc_state_scheme" where
  "acquiresleep chan p lk s =
     (if slocked lk then (False, lk, sleep_begin p chan s)
      else (True, lk\<lparr>slocked := True, slpid := ppid (procs s p)\<rparr>, s))"

definition releasesleep :: "nat \<Rightarrow> sleeplock \<Rightarrow> 'a proc_state_scheme \<Rightarrow> sleeplock \<times> 'a proc_state_scheme" where
  "releasesleep chan lk s = (lk\<lparr>slocked := False, slpid := 0\<rparr>, wakeup chan s)"

definition holdingsleep :: "nat \<Rightarrow> sleeplock \<Rightarrow> 'a proc_state_scheme \<Rightarrow> bool" where
  "holdingsleep p lk s \<longleftrightarrow> slocked lk \<and> slpid lk = ppid (procs s p)"

definition asleep_on :: "nat \<Rightarrow> 'a proc_state_scheme \<Rightarrow> nat \<Rightarrow> bool" where
  "asleep_on chan s q \<longleftrightarrow> pstate (procs s q) = SLEEPING \<and> pchan (procs s q) = chan"

text \<open>Any number of processes use the lock; \<open>H\<close> are those between the return of \<open>acquiresleep\<close> and \<open>releasesleep\<close>. The rest of
  the kernel may change the table, but does not touch the lock, put a process to sleep on it or change the identifier of a holder.\<close>

inductive slstep :: "nat \<Rightarrow> sleeplock \<times> 'a proc_state_scheme \<times> nat set \<Rightarrow> sleeplock \<times> 'a proc_state_scheme \<times> nat set \<Rightarrow> bool"
  for chan where
  acquires: "p < NPROC \<Longrightarrow> acquiresleep chan p lk s = (True, lk', t) \<Longrightarrow> slstep chan (lk, s, H) (lk', t, insert p H)"
| blocks: "p < NPROC \<Longrightarrow> acquiresleep chan p lk s = (False, lk', t) \<Longrightarrow> slstep chan (lk, s, H) (lk', t, H)"
| releases: "p \<in> H \<Longrightarrow> releasesleep chan lk s = (lk', t) \<Longrightarrow> slstep chan (lk, s, H) (lk', t, H - {p})"
| others: "(\<And>q. asleep_on chan t q \<Longrightarrow> asleep_on chan s q) \<Longrightarrow> (\<And>q. q \<in> H \<Longrightarrow> ppid (procs t q) = ppid (procs s q)) \<Longrightarrow>
    slstep chan (lk, s, H) (lk, t, H)"

inductive slreach :: "nat \<Rightarrow> sleeplock \<times> 'a proc_state_scheme \<times> nat set \<Rightarrow> bool" for chan where
  start: "(\<And>q. q < NPROC \<Longrightarrow> \<not> asleep_on chan s q) \<Longrightarrow> slreach chan (initsleeplock, s, {})"
| step: "slreach chan x \<Longrightarrow> slstep chan x y \<Longrightarrow> slreach chan y"

lemma slreach_inv:
  "slreach chan (lk, s, H) \<Longrightarrow> (if slocked lk then \<exists>p. H = {p} \<and> slpid lk = ppid (procs s p) else H = {}) \<and>
    (\<forall>q<NPROC. asleep_on chan s q \<longrightarrow> slocked lk)"
proof (induction "(lk, s, H)" arbitrary: lk s H rule: slreach.induct)
  case (start s)
  then show ?case by (simp add: initsleeplock_def)
next
  case (step x lk' t H')
  obtain lk s H where x: "x = (lk, s, H)" by (metis surj_pair)
  note I = step.hyps(2) [OF x]
  from step.hyps(3) [unfolded x] show ?case
  proof cases
    case (acquires p)
    then show ?thesis using I by (auto simp: acquiresleep_def split: if_splits)
  next
    case (blocks p)
    then have "slocked lk" "lk' = lk" "t = sleep_begin p chan s" "H' = H" by (auto simp: acquiresleep_def split: if_splits)
    moreover have "ppid (procs (sleep_begin p chan s) q) = ppid (procs s q)" for q by (simp add: sleep_begin_def)
    ultimately show ?thesis using I by auto
  next
    case (releases p)
    then show ?thesis using I by (auto simp: releasesleep_def asleep_on_def wakeup_procs split: if_splits)
  next
    case others
    then show ?thesis using I by (auto split: if_splits)
  qed
qed

text \<open>C16: At most one process at a time is between \<open>acquiresleep\<close> and \<open>releasesleep\<close>, \<open>holdingsleep\<close> answers yes for it and no for
  every process with another identifier, and a process sleeps on the lock only while somebody holds it: no wake-up is lost.\<close>

theorem sleeplock_correct:
  assumes "slreach chan (lk, s, H)"
  shows "(H = {} \<or> (\<exists>p. H = {p} \<and> holdingsleep p lk s)) \<and> (\<forall>q<NPROC. asleep_on chan s q \<longrightarrow> H \<noteq> {}) \<and>
    (\<forall>q. holdingsleep q lk s \<longrightarrow> (\<exists>p \<in> H. ppid (procs s q) = ppid (procs s p)))"
  using slreach_inv [OF assms] by (auto simp: holdingsleep_def split: if_splits)

text \<open>Process 1 takes the lock, process 2 sleeps on it.\<close>

lemma sleeplock_correct_witness:
  "\<exists>lk (s :: proc_state). asleep_on 100 s 2 \<and> ({1 :: nat} = {} \<or> (\<exists>p. {1} = {p} \<and> holdingsleep p lk s)) \<and>
     (\<forall>q<NPROC. asleep_on 100 s q \<longrightarrow> {1 :: nat} \<noteq> {}) \<and> (\<forall>q. holdingsleep q lk s \<longrightarrow> (\<exists>p \<in> {1}. ppid (procs s q) = ppid (procs s p)))"
proof -
  let ?s = "demo_procs []" let ?lk = "\<lparr>slocked = True, slpid = 2\<rparr>"
  have "slreach 100 (initsleeplock, ?s, {})" by (rule slreach.start) (simp add: asleep_on_def demo_procs demo_proc_def)
  moreover have "slstep 100 (initsleeplock, ?s, {}) (?lk, ?s, insert 1 {})"
    by (rule slstep.acquires) (simp_all add: NPROC_def acquiresleep_def initsleeplock_def demo_procs demo_proc_def)
  moreover have "slstep 100 (?lk, ?s, insert 1 {}) (?lk, sleep_begin 2 100 ?s, insert 1 {})"
    by (rule slstep.blocks [of 2]) (simp_all add: NPROC_def acquiresleep_def)
  ultimately have "slreach 100 (?lk, sleep_begin 2 100 ?s, {1})" by (meson slreach.step)
  from sleeplock_correct [OF this] show ?thesis
    by (intro exI [of _ ?lk] exI [of _ "sleep_begin 2 100 ?s"] conjI) (simp_all add: asleep_on_def sleep_begin_def)
qed

end
