(* ===== verification/Spec2Isabelle.thy ===== *)
theory Spec2Isabelle
  imports CString CList Kalloc Slab Bio Bytes Log LogRoom Ring Pipe Console Sched Threads3 Thrd Threads1 Mp0 DirOps VmFork Locks Procs ProcFrame ProcTable ProcLife SleepLocks
begin

text \<open>
  The operating-system projects of this repository: the kernels of mp2, mp3 and mp4 (three
  descendants of xv6 with a slab allocator, user-level real-time scheduling, and a RAID-1 file
  system with symbolic links and access modes) and the user programs the projects add. Paths are
  under src/.

  \<^bold>\<open>How the parts interact.\<close> In mp4 a system call of kernel/sysfile.c works on the descriptors and
  the file table of kernel/file.c; these call the pipes (kernel/pipe.c), the devices (the console,
  kernel/console.c over kernel/uart.c) or the file system (kernel/fs.c). Every change of the file
  system is made in buffers of the cache (kernel/bio.c), recorded in the log (kernel/log.c) inside
  a transaction \<open>begin_op .. end_op\<close>, and reaches the two disks only when \<open>commit\<close> has copied it to
  the log first. In mp3 the user thread package (xv6/user/threads.c) calls the schedulers
  (xv6/user/threads_sched.c) and is driven by the alarm the kernel side (xv6/kernel/thrd.c and the
  hooks in trap.c) delivers. In mp2 the slab allocator (kernel/slab.c) takes pages from
  kernel/kalloc.c and keeps its slabs in lists of kernel/list.h.

  \<^bold>\<open>Theories and sources.\<close>
  \<^item> Prelude: the result type \<open>kfault + 'a\<close> of code that may panic or sleep, words, loops.
  \<^item> CString: mp4/kernel/string.c and the string functions of mp4/user/ulib.c, over a flat memory.
  \<^item> CList: mp2/kernel/list.h and mp3/xv6/user/list.h at pointer level; interface \<open>queue_list\<close>-style
    locales give the list view that the allocators and schedulers use.
  \<^item> Kalloc, Slab: mp2/kernel/kalloc.c and mp2/kernel/slab.c.
  \<^item> Sched, Threads3, Thrd: mp3/xv6/user/threads_sched.c, mp3/xv6/user/threads.c, and
    mp3/xv6/kernel/thrd.c with the timer and return hooks of trap.c.
  \<^item> Ring, Pipe, Console: the bounded queue with free-running counters (the interface
    \<open>byte_queue\<close>), mp4/kernel/pipe.c, mp4/kernel/console.c and uart.c.
  \<^item> Bio, Bytes, Log: mp4/kernel/bio.c with the mirrored disks and the failure switches, fields of
    structures laid over a block, and mp4/kernel/log.c with crash recovery.
  \<^item> Blocks, Inodes, Dirs: the definitions for mp4/kernel/fs.c, bottom up: super block and free map;
    inode cache, inodes on disk, \<open>bmap\<close>, \<open>itrunc\<close>, \<open>readi\<close>, \<open>writei\<close>; directories, path lookup
    and symbolic links.
  \<^item> FileTable, Sysfile: mp4/kernel/file.c, \<open>pipealloc\<close>, and mp4/kernel/sysfile.c.
  \<^item> Files, FileIO, FileOps, InodeLife: theorems about the file system.
\<close>

end
